(* ===== verification/Prelude.thy ===== *)
theory Prelude
  imports Main "HOL-Library.Word" "HOL-Library.Multiset" "HOL-Library.AList"
    "HOL-Library.List_Lexorder" "HOL-Library.Char_ord"
begin

text \<open>
  The shared vocabulary of the development: the outcomes a Go function can have beside
  returning, Go maps as association lists with distinct keys, and the generic facts on lists,
  counting and association lists that the component theories build on.

  Conventions. A Go string is a \<^typ>\<open>string\<close>: one \<^typ>\<open>char\<close> per byte, and the order of
  \<open>List_Lexorder\<close> on it is Go's bytewise order. A Go \<open>int\<close> is an \<^typ>\<open>int\<close>
  where the code only counts and indexes with it; the fixed-width types whose wrap-around can
  be observed (\<open>uint64\<close> versions, \<open>uint32\<close> tags and hashes, the network's
  \<open>int32\<close> counter) are words. A Go map is an association list with distinct keys whose
  order stands for the (unspecified) order in which \<open>range\<close> visits it; a theorem for every
  such list is a theorem for every iteration order.
\<close>

section \<open>Fact collections\<close>

named_theorems wf_simps \<open>unfolding of the well-formedness predicates of the components\<close>
named_theorems op_defs \<open>definitions of the operations that case analysis unfolds together\<close>

section \<open>Outcomes\<close>

text \<open>
  \<open>Panic\<close> is a run-time panic (index out of range, nil dereference, division by zero),
  \<open>Fatal\<close> is a call of \<open>log.Fatalf\<close> or of a test's \<open>Fatalf\<close>; both end the
  process, so the state that a later call would see does not exist.
\<close>

datatype go_err = Panic | Fatal

type_synonym 'a outcome = "go_err + 'a"

abbreviation Ret :: "'a \<Rightarrow> 'a outcome" where
  "Ret x \<equiv> Inr x"

text \<open>
  Sequencing: a panic or a fatal exit ends the computation. \<open>foldo\<close> is a loop over a slice,
  \<open>idx\<close> and \<open>set_idx\<close> read and write a slice at an \<open>int\<close> index with Go's bounds check.
\<close>

definition bindo :: "'a outcome \<Rightarrow> ('a \<Rightarrow> 'b outcome) \<Rightarrow> 'b outcome" where
  "bindo x f = (case x of Inl e \<Rightarrow> Inl e | Inr y \<Rightarrow> f y)"

fun foldo :: "('a \<Rightarrow> 's \<Rightarrow> 's outcome) \<Rightarrow> 'a list \<Rightarrow> 's \<Rightarrow> 's outcome" where
  "foldo f [] s = Ret s"
| "foldo f (x # xs) s = bindo (f x s) (foldo f xs)"

definition in_range :: "'a list \<Rightarrow> int \<Rightarrow> bool" where
  "in_range xs i \<longleftrightarrow> 0 \<le> i \<and> i < int (length xs)"

definition idx :: "'a list \<Rightarrow> int \<Rightarrow> 'a outcome" where
  "idx xs i = (if in_range xs i then Ret (xs ! nat i) else Inl Panic)"

definition set_idx :: "'a list \<Rightarrow> int \<Rightarrow> 'a \<Rightarrow> 'a list outcome" where
  "set_idx xs i x = (if in_range xs i then Ret (xs[nat i := x]) else Inl Panic)"

lemma bindo_simps [simp]: "bindo (Ret x) f = f x" "bindo (Inl e) f = Inl e"
  by (simp_all add: bindo_def)

lemma bindo_Ret: "bindo x f = Ret y \<longleftrightarrow> (\<exists>z. x = Ret z \<and> f z = Ret y)"
  by (cases x) auto

lemma foldo_append: "foldo f (xs @ ys) s = bindo (foldo f xs s) (foldo f ys)"
  by (induction xs arbitrary: s) (auto simp: bindo_def split: sum.splits)

section \<open>Lists\<close>

lemma count_list_update:
  assumes "i < length xs"
  shows "count_list (xs[i := y]) z
    = count_list xs z - (if xs ! i = z then 1 else 0) + (if y = z then 1 else 0)"
proof -
  have len: "length (take i xs) = i" using assms by simp
  have split: "xs = take i xs @ xs ! i # drop (Suc i) xs"
    using assms by (rule id_take_nth_drop)
  have upd: "xs[i := y] = take i xs @ y # drop (Suc i) xs"
    using assms by (rule upd_conv_take_nth_drop)
  have "count_list xs z
    = count_list (take i xs) z + (if xs ! i = z then 1 else 0) + count_list (drop (Suc i) xs) z"
    using arg_cong [OF split, of "\<lambda>l. count_list l z"] by (simp del: append_take_drop_id)
  then show ?thesis by (simp add: upd)
qed

lemma count_list_le_length: "count_list xs z \<le> length xs"
  by (induction xs) auto

lemma count_list_pos_iff: "0 < count_list xs z \<longleftrightarrow> z \<in> set xs"
  by (metis count_list_0_iff gr0I less_irrefl)

text \<open>Counting with a Go map \<open>counts[g] += 1\<close> is \<^const>\<open>count_list\<close>.\<close>

lemma fold_count:
  "fold (\<lambda>g m. m(g := m g + 1)) xs m z = m z + (of_nat (count_list xs z) :: 'b::comm_semiring_1)"
  by (induction xs arbitrary: m) (auto simp: algebra_simps)

lemma fold_max_ge: "(x :: 'a::linorder) \<le> fold max ys x"
  by (induction ys arbitrary: x) (auto intro: order_trans [OF max.cobounded2])

lemma upto_append: "a \<le> b \<Longrightarrow> b \<le> c \<Longrightarrow> [a + 1..b] @ [b + 1..c] = [a + 1..c]"
  by (cases "a = b") (auto simp: upto_split2 [of "a + 1" b c])

text \<open>A sum over a list with distinct entries changes only at the entries that change.\<close>

lemma sum_list_two_change:
  fixes f f' :: "'a \<Rightarrow> nat"
  assumes "distinct xs" "a \<in> set xs" "b \<in> set xs" "a \<noteq> b"
    and same: "\<And>x. x \<noteq> a \<Longrightarrow> x \<noteq> b \<Longrightarrow> f' x = f x"
    and less: "f' a + f' b < f a + f b"
  shows "sum_list (map f' xs) < sum_list (map f xs)"
proof -
  let ?R = "set xs - {a, b}"
  have sp: "set xs = insert a (insert b ?R)" using assms(2,3) by auto
  have "sum h (set xs) = h a + h b + sum h ?R" for h :: "'a \<Rightarrow> nat"
    by (subst sp) (use assms(4) in simp)
  moreover have "sum f' ?R = sum f ?R" by (rule sum.cong) (auto intro: same)
  ultimately have "sum f' (set xs) < sum f (set xs)" using less by simp
  then show ?thesis using assms(1) by (simp add: sum_list_distinct_conv_sum_set)
qed

section \<open>Go maps as association lists\<close>

abbreviation keys :: "('k \<times> 'v) list \<Rightarrow> 'k list" where
  "keys m \<equiv> map fst m"

definition wf_map :: "('k \<times> 'v) list \<Rightarrow> bool" where
  "wf_map m \<longleftrightarrow> distinct (keys m)"

lemma map_of_None_iff [simp]: "map_of m k = None \<longleftrightarrow> k \<notin> set (keys m)"
  by (simp add: map_of_eq_None_iff)

lemma wf_map_update [intro, simp]: "wf_map m \<Longrightarrow> wf_map (AList.update k v m)"
  unfolding wf_map_def by (rule distinct_update)

lemma wf_map_delete [intro, simp]: "wf_map m \<Longrightarrow> wf_map (AList.delete k m)"
  unfolding wf_map_def by (rule distinct_delete)

lemma wf_map_Nil [simp]: "wf_map []"
  by (simp add: wf_map_def)

lemma keys_update [simp]: "fst ` set (AList.update k v m) = insert k (fst ` set m)"
  using dom_update [of k v m] by (simp add: dom_map_of_conv_image_fst)

lemma keys_delete [simp]: "fst ` set (AList.delete k m) = fst ` set m - {k}"
proof -
  have "set (keys (AList.delete k m)) = set (keys m) - {k}" by (simp only: delete_keys set_removeAll)
  then show ?thesis by simp
qed

text \<open>
  \<open>m[k] = append(m[k], v)\<close> for each \<open>v\<close> of a slice, with \<open>k\<close> computed from
  \<open>v\<close>: the grouping loop that two components share. A missing entry reads as the empty slice.
\<close>

definition at :: "('k \<times> 'v list) list \<Rightarrow> 'k \<Rightarrow> 'v list" where
  "at m k = (case map_of m k of None \<Rightarrow> [] | Some l \<Rightarrow> l)"

definition group_add :: "('v \<Rightarrow> 'k) \<Rightarrow> ('k \<times> 'v list) list \<Rightarrow> 'v \<Rightarrow> ('k \<times> 'v list) list" where
  "group_add f m v = AList.update (f v) (at m (f v) @ [v]) m"

lemma group_add_at: "at (group_add f m v) k = at m k @ filter (\<lambda>v. f v = k) [v]"
  by (simp add: group_add_def at_def update_conv')

lemma group_fold_wf [simp]: "wf_map m \<Longrightarrow> wf_map (foldl (group_add f) m vs)"
  by (induction vs arbitrary: m) (simp_all add: group_add_def)

lemma group_fold_keys [simp]: "fst ` set (foldl (group_add f) m vs) = f ` set vs \<union> fst ` set m"
  by (induction vs arbitrary: m) (simp_all add: group_add_def)

lemma group_fold_at: "at (foldl (group_add f) m vs) k = at m k @ filter (\<lambda>v. f v = k) vs"
  by (induction vs arbitrary: m) (simp_all add: group_add_at)

lemma at_Nil [simp]: "at [] k = []"
  by (simp add: at_def)

lemma at_entry: "wf_map m \<Longrightarrow> (k, l) \<in> set m \<Longrightarrow> at m k = l"
  by (simp add: at_def wf_map_def)

text \<open>The groups: one for each key that occurs, with the values of that key in their order.\<close>

lemma group_fold_entry:
  assumes "(k, l) \<in> set (foldl (group_add f) [] vs)"
  shows "l = filter (\<lambda>v. f v = k) vs" "k \<in> f ` set vs"
proof -
  let ?m = "foldl (group_add f) [] vs"
  show "l = filter (\<lambda>v. f v = k) vs"
    using at_entry [OF _ assms] group_fold_at [of f "[]" vs k] by simp
  have "fst (k, l) \<in> fst ` set ?m" using assms by (rule imageI)
  then show "k \<in> f ` set vs" by (simp del: fst_conv) simp
qed

end
