(* ===== verification/FNV.thy ===== *)
theory FNV
  imports Prelude
begin

unbundle bit_operations_syntax

text \<open>
  The 32-bit FNV-1a hash of Go's \<open>hash/fnv\<close> (\<open>fnv.New32a\<close>, \<open>Write\<close>,
  \<open>Sum32\<close>), which two parts of the program use to place a key: \<open>ihash\<close> of
  \<open>mr/worker.go\<close> (which reduce task) and \<open>Key2Shard\<close> of
  \<open>shardkv1/shardcfg/shardcfg.go\<close> (which shard). The word arithmetic wraps as Go's
  \<open>uint32\<close> does.
\<close>

definition fnv32a_byte :: "32 word \<Rightarrow> char \<Rightarrow> 32 word" where
  "fnv32a_byte h c = (h XOR of_char c) * 16777619"

definition fnv32a :: "string \<Rightarrow> 32 word" where
  "fnv32a s = foldl fnv32a_byte 2166136261 s"

definition ihash :: "string \<Rightarrow> int" where
  "ihash k = uint (fnv32a k AND 0x7fffffff)"

text \<open>The number of shards, the Go constant \<open>NShards\<close>.\<close>

definition NShards :: nat where
  "NShards = 12"

definition Key2Shard :: "string \<Rightarrow> int" where
  "Key2Shard k = uint (fnv32a k) mod int NShards"

lemma fnv32a_Nil [simp]: "fnv32a [] = 2166136261"
  by (simp add: fnv32a_def)

lemma fnv32a_snoc: "fnv32a (s @ [c]) = (fnv32a s XOR of_char c) * 16777619"
  by (simp add: fnv32a_def fnv32a_byte_def)

text \<open>The mask clears the sign bit, so \<open>int(...)\<close> is non-negative on every platform.\<close>

lemma ihash_bounds: "0 \<le> ihash k \<and> ihash k < 2 ^ 31"
proof -
  have "fnv32a k AND 0x7fffffff \<le> (0x7fffffff :: 32 word)"
    by (rule word_and_le1)
  then have "uint (fnv32a k AND 0x7fffffff) \<le> uint (0x7fffffff :: 32 word)"
    by (simp add: word_le_def)
  then show ?thesis by (simp add: ihash_def)
qed

lemma Key2Shard_bounds: "0 \<le> Key2Shard k \<and> Key2Shard k < int NShards"
  by (simp add: Key2Shard_def NShards_def)

end
