(* ===== verification/ShardCfg.thy ===== *)
theory ShardCfg
  imports FNV
begin

text \<open>
  The shard configurations of \<open>shardkv1/shardcfg/shardcfg.go\<close>: an assignment of
  \<^const>\<open>NShards\<close> shards to replica groups, the operations that add and remove groups,
  and \<open>Rebalance\<close>, which spreads the shards evenly. \<open>Rebalance\<close>'s last loop has no
  bound in the source; it is a \<^theory_text>\<open>partial_function\<close> here and is proved to
  return on every well-formed configuration.
\<close>

section \<open>The data and the operations\<close>

type_synonym Tgid = int
type_synonym Tshid = int

definition NumFirst :: int where
  "NumFirst = 1"

definition Gid1 :: Tgid where
  "Gid1 = 1"

record ShardConfig =
  Num :: int
  Shards :: "Tgid list"
  Groups :: "(Tgid \<times> string list) list"

definition MakeShardConfig :: ShardConfig where
  "MakeShardConfig = \<lparr>Num = 0, Shards = replicate NShards 0, Groups = []\<rparr>"

definition Copy :: "ShardConfig \<Rightarrow> ShardConfig" where
  "Copy cfg = (let c = MakeShardConfig\<lparr>Num := Num cfg, Shards := Shards cfg\<rparr>
     in foldl (\<lambda>c (k, srvs). c\<lparr>Groups := AList.update k (map id srvs) (Groups c)\<rparr>)
          c (Groups cfg))"

definition counts :: "ShardConfig \<Rightarrow> Tgid \<Rightarrow> int" where
  "counts c = fold (\<lambda>g m. m(g := m g + 1)) (Shards c) (\<lambda>_. 0)"

text \<open>One iteration of \<open>analyze\<close>'s loop over the sorted group ids.\<close>

fun analyze_visit :: "(Tgid \<Rightarrow> int) \<Rightarrow> Tgid \<times> int \<times> Tgid \<times> int \<Rightarrow> Tgid \<Rightarrow> Tgid \<times> int \<times> Tgid \<times> int" where
  "analyze_visit cnt (mg, mn, lg, ln) g =
     (let (lg', ln') = (if cnt g < ln then (g, cnt g) else (lg, ln));
          (mg', mn') = (if cnt g > mn then (g, cnt g) else (mg, mn))
      in (mg', mn', lg', ln'))"

definition analyze :: "ShardConfig \<Rightarrow> Tgid \<times> int \<times> Tgid \<times> int" where
  "analyze c = foldl (analyze_visit (counts c)) (-1, -1, -1, 257) (sort (keys (Groups c)))"

definition least :: "ShardConfig \<Rightarrow> Tgid" where
  "least c = (case analyze c of (_, _, lg, _) \<Rightarrow> lg)"

text \<open>
  The three parts of \<open>Rebalance\<close>. \<open>range c.Shards\<close> ranges over a copy of the array,
  so the group \<open>g\<close> each iteration looks at is the one the array held at the start.
\<close>

definition assign_unassigned :: "ShardConfig \<Rightarrow> ShardConfig" where
  "assign_unassigned c =
     foldl (\<lambda>c (s, g). if g \<in> set (keys (Groups c)) then c
                        else c\<lparr>Shards := (Shards c)[s := least c]\<rparr>)
       c (List.enumerate 0 (Shards c))"

fun move_first :: "Tgid \<Rightarrow> Tgid \<Rightarrow> Tgid list \<Rightarrow> Tgid list" where
  "move_first mg lg [] = []"
| "move_first mg lg (g # gs) = (if g = mg then lg # gs else g # move_first mg lg gs)"

partial_function (option) rebalance_moves :: "ShardConfig \<Rightarrow> ShardConfig option" where
  "rebalance_moves c =
     (case analyze c of (mg, mn, lg, ln) \<Rightarrow>
        if mn < ln + 2 then Some c
        else rebalance_moves (c\<lparr>Shards := move_first mg lg (Shards c)\<rparr>))"

definition Rebalance :: "ShardConfig \<Rightarrow> ShardConfig option" where
  "Rebalance c =
     (if length (Groups c) < 1 then Some (c\<lparr>Shards := map (\<lambda>_. 0) (Shards c)\<rparr>)
      else rebalance_moves (assign_unassigned c))"

text \<open>
  \<open>Join\<close> walks the new groups; its loop returns whether it hit the early
  \<open>return false\<close>, the flag \<open>changed\<close> and the configuration so far.
\<close>

definition shares_server :: "string list \<Rightarrow> (Tgid \<times> string list) list \<Rightarrow> bool" where
  "shares_server servers groups =
     list_ex (\<lambda>(xgid, xservers). list_ex (\<lambda>s1. list_ex (\<lambda>s2. s1 = s2) servers) xservers) groups"

fun Join_loop :: "(Tgid \<times> string list) list \<Rightarrow> bool \<Rightarrow> ShardConfig \<Rightarrow> (bool \<times> bool \<times> ShardConfig) outcome" where
  "Join_loop [] changed cfg = Ret (False, changed, cfg)"
| "Join_loop ((gid, servers) # rest) changed cfg =
     (if gid \<in> set (keys (Groups cfg)) then Ret (True, changed, cfg)
      else if shares_server servers (Groups cfg) then Inl Fatal
      else Join_loop rest True (cfg\<lparr>Groups := AList.update gid servers (Groups cfg)\<rparr>))"

definition Join :: "(Tgid \<times> string list) list \<Rightarrow> ShardConfig \<Rightarrow> (bool \<times> ShardConfig) outcome" where
  "Join servers cfg = (case Join_loop servers False cfg of
      Inl e \<Rightarrow> Inl e
    | Inr (returned, changed, cfg') \<Rightarrow>
        if returned then Ret (False, cfg')
        else if \<not> changed then Inl Fatal
        else Ret (True, cfg'\<lparr>Num := Num cfg' + 1\<rparr>))"

fun Leave_loop :: "Tgid list \<Rightarrow> bool \<Rightarrow> ShardConfig \<Rightarrow> bool \<times> bool \<times> ShardConfig" where
  "Leave_loop [] changed cfg = (False, changed, cfg)"
| "Leave_loop (gid # gids) changed cfg =
     (if gid \<notin> set (keys (Groups cfg)) then (True, changed, cfg)
      else Leave_loop gids True (cfg\<lparr>Groups := AList.delete gid (Groups cfg)\<rparr>))"

definition Leave :: "Tgid list \<Rightarrow> ShardConfig \<Rightarrow> (bool \<times> ShardConfig) outcome" where
  "Leave gids cfg = (case Leave_loop gids False cfg of (returned, changed, cfg') \<Rightarrow>
        if returned then Ret (False, cfg')
        else if \<not> changed then Inl Fatal
        else Ret (True, cfg'\<lparr>Num := Num cfg' + 1\<rparr>))"

text \<open>\<^const>\<open>None\<close> stands for a call that does not return (the loop of \<open>Rebalance\<close>).\<close>

definition JoinBalance :: "(Tgid \<times> string list) list \<Rightarrow> ShardConfig \<Rightarrow> (bool \<times> ShardConfig) outcome option" where
  "JoinBalance servers cfg = (case Join servers cfg of
      Inl e \<Rightarrow> Some (Inl e)
    | Inr (ok, cfg') \<Rightarrow>
        if \<not> ok then Some (Ret (False, cfg'))
        else map_option (\<lambda>c. Ret (True, c)) (Rebalance cfg'))"

definition LeaveBalance :: "Tgid list \<Rightarrow> ShardConfig \<Rightarrow> (bool \<times> ShardConfig) outcome option" where
  "LeaveBalance gids cfg = (case Leave gids cfg of
      Inl e \<Rightarrow> Some (Inl e)
    | Inr (ok, cfg') \<Rightarrow>
        if \<not> ok then Some (Ret (False, cfg'))
        else map_option (\<lambda>c. Ret (True, c)) (Rebalance cfg'))"

definition GidServers :: "ShardConfig \<Rightarrow> Tshid \<Rightarrow> (Tgid \<times> string list \<times> bool) outcome" where
  "GidServers cfg sh =
     (if sh < 0 \<or> int (length (Shards cfg)) \<le> sh then Inl Panic
      else let gid = Shards cfg ! nat sh in
        case map_of (Groups cfg) gid of
          None \<Rightarrow> Ret (gid, [], False)
        | Some srvs \<Rightarrow> Ret (gid, srvs, True))"

fun IsMember_loop :: "Tgid list \<Rightarrow> Tgid \<Rightarrow> bool" where
  "IsMember_loop [] gid = False"
| "IsMember_loop (g # gs) gid = (if g = gid then True else IsMember_loop gs gid)"

definition IsMember :: "ShardConfig \<Rightarrow> Tgid \<Rightarrow> bool" where
  "IsMember cfg gid = IsMember_loop (Shards cfg) gid"

text \<open>The test-side validity check; its loop over \<open>cfg.Groups\<close> tracks the extreme counts.\<close>

definition check_extremes :: "ShardConfig \<Rightarrow> int \<times> int" where
  "check_extremes cfg = foldl (\<lambda>(mx, mi) (g, _).
       ((if counts cfg g > mx then counts cfg g else mx),
        (if counts cfg g < mi then counts cfg g else mi))) (0, 257) (Groups cfg)"

definition CheckConfig :: "ShardConfig \<Rightarrow> Tgid list \<Rightarrow> unit outcome" where
  "CheckConfig cfg groups =
     (if length (Groups cfg) \<noteq> length groups then Inl Fatal
      else if list_ex (\<lambda>g. g \<notin> set (keys (Groups cfg))) groups then Inl Fatal
      else if 0 < length groups \<and> list_ex (\<lambda>g. g \<notin> set (keys (Groups cfg))) (Shards cfg)
      then Inl Fatal
      else case check_extremes cfg of (mx, mi) \<Rightarrow>
        if mx > mi + 1 then Inl Fatal else Ret ())"


section \<open>Well-formedness and the reading of \<open>analyze\<close>\<close>

definition wf_cfg :: "ShardConfig \<Rightarrow> bool" where
  [wf_simps]: "wf_cfg c \<longleftrightarrow> length (Shards c) = NShards \<and> wf_map (Groups c)"

text \<open>Every shard belongs to a group of the configuration.\<close>

definition assigned :: "ShardConfig \<Rightarrow> bool" where
  "assigned c \<longleftrightarrow> set (Shards c) \<subseteq> set (keys (Groups c))"

text \<open>The numbers of shards of two groups differ by one at most.\<close>

definition balanced :: "ShardConfig \<Rightarrow> bool" where
  "balanced c \<longleftrightarrow> (\<forall>g \<in> set (keys (Groups c)). \<forall>h \<in> set (keys (Groups c)). counts c g \<le> counts c h + 1)"

lemma counts_eq: "counts c g = int (count_list (Shards c) g)"
  using fold_count [of "Shards c" "\<lambda>_. 0::int" g] by (simp add: counts_def)

lemma counts_nonneg [simp]: "0 \<le> counts c g"
  by (simp add: counts_eq)

lemma counts_bound: "wf_cfg c \<Longrightarrow> counts c g \<le> 12"
  using count_list_le_length [of "Shards c" g] by (simp add: counts_eq wf_cfg_def NShards_def)

text \<open>The accumulator of the loop of \<open>analyze\<close> over the groups \<open>G\<close> seen so far.\<close>

definition extremes_of :: "(Tgid \<Rightarrow> int) \<Rightarrow> Tgid set \<Rightarrow> Tgid \<times> int \<times> Tgid \<times> int \<Rightarrow> bool" where
  "extremes_of cnt G r \<longleftrightarrow> (case r of (mg, mn, lg, ln) \<Rightarrow>
     mg \<in> G \<and> mn = cnt mg \<and> (\<forall>g \<in> G. cnt g \<le> mn) \<and>
     lg \<in> G \<and> ln = cnt lg \<and> (\<forall>g \<in> G. ln \<le> cnt g))"

lemma analyze_visit_extremes:
  "extremes_of cnt G r \<Longrightarrow> extremes_of cnt (insert g G) (analyze_visit cnt r g)"
  by (cases r) (force simp: extremes_of_def Let_def split: if_splits)

lemma analyze_visit_first:
  "0 \<le> cnt g \<Longrightarrow> cnt g < 257 \<Longrightarrow> extremes_of cnt {g} (analyze_visit cnt (-1, -1, -1, 257) g)"
  by (simp add: extremes_of_def)

lemma analyze_fold_extremes:
  "extremes_of cnt G r \<Longrightarrow> extremes_of cnt (G \<union> set gs) (foldl (analyze_visit cnt) r gs)"
proof (induction gs arbitrary: G r)
  case (Cons g gs)
  from Cons.IH [OF analyze_visit_extremes [OF Cons.prems]] show ?case
    by (simp add: Un_commute Un_insert_right)
qed simp

lemma analyze_extremes:
  assumes "wf_cfg c" "Groups c \<noteq> []"
  shows "extremes_of (counts c) (set (keys (Groups c))) (analyze c)"
proof -
  obtain g gs where gs: "sort (keys (Groups c)) = g # gs"
    using assms(2) by (metis length_0_conv length_map length_sort list.exhaust)
  have "counts c g < 257" using counts_bound [OF assms(1), of g] by simp
  then have "extremes_of (counts c) ({g} \<union> set gs) (analyze c)"
    unfolding analyze_def gs foldl_Cons
    by (intro analyze_fold_extremes analyze_visit_first) simp_all
  moreover have "{g} \<union> set gs = set (keys (Groups c))"
    using arg_cong [OF gs, of set] by simp
  ultimately show ?thesis by simp
qed

lemma least_in_groups: "wf_cfg c \<Longrightarrow> Groups c \<noteq> [] \<Longrightarrow> least c \<in> set (keys (Groups c))"
  using analyze_extremes [of c] by (auto simp: extremes_of_def least_def split: prod.splits)

text \<open>\<open>analyze\<close> stops the loop exactly on the balanced configurations.\<close>

lemma analyze_stop_iff:
  assumes "wf_cfg c" "Groups c \<noteq> []" "analyze c = (mg, mn, lg, ln)"
  shows "mn < ln + 2 \<longleftrightarrow> balanced c"
proof -
  have e: "mg \<in> set (keys (Groups c))" "mn = counts c mg" "lg \<in> set (keys (Groups c))" "ln = counts c lg"
    "\<And>g. g \<in> set (keys (Groups c)) \<Longrightarrow> counts c g \<le> mn \<and> ln \<le> counts c g"
    using analyze_extremes [OF assms(1,2)] unfolding assms(3) extremes_of_def by auto
  show ?thesis
  proof
    assume "mn < ln + 2"
    then have "counts c g \<le> counts c h + 1"
      if "g \<in> set (keys (Groups c))" "h \<in> set (keys (Groups c))" for g h
      using e(5) [OF that(1)] e(5) [OF that(2)] by linarith
    then show "balanced c" by (simp add: balanced_def)
  next
    assume "balanced c"
    then have "counts c mg \<le> counts c lg + 1" unfolding balanced_def using e(1,3) by blast
    then show "mn < ln + 2" by (simp add: e(2,4))
  qed
qed


section \<open>\<open>Rebalance\<close>\<close>

subsection \<open>The assignment of unassigned shards\<close>

text \<open>
  The state of the loop after \<open>k\<close> iterations, from the configuration \<open>c0\<close>: the first
  \<open>k\<close> shards belong to groups, the others are still as they were.
\<close>

definition assign_inv :: "ShardConfig \<Rightarrow> nat \<Rightarrow> ShardConfig \<Rightarrow> bool" where
  "assign_inv c0 k c \<longleftrightarrow> wf_cfg c \<and> length (Shards c) = length (Shards c0) \<and> Groups c = Groups c0 \<and> Num c = Num c0 \<and>
     set (take k (Shards c)) \<subseteq> set (keys (Groups c0)) \<and> drop k (Shards c) = drop k (Shards c0)"

lemma assign_inv_step:
  assumes "assign_inv c0 k c" "Groups c0 \<noteq> []" "k < length (Shards c0)"
  shows "assign_inv c0 (Suc k) (if Shards c0 ! k \<in> set (keys (Groups c)) then c
           else c\<lparr>Shards := (Shards c)[k := least c]\<rparr>)"
proof -
  have len: "length (Shards c) = length (Shards c0)" using assms(1) by (simp add: assign_inv_def)
  have "drop k (Shards c) = Shards c ! k # drop (Suc k) (Shards c)"
    "drop k (Shards c0) = Shards c0 ! k # drop (Suc k) (Shards c0)"
    using assms(3) len by (simp_all add: Cons_nth_drop_Suc)
  then have eqs: "Shards c ! k = Shards c0 ! k" "drop (Suc k) (Shards c) = drop (Suc k) (Shards c0)"
    using assms(1) by (auto simp: assign_inv_def)
  have "least c \<in> set (keys (Groups c0))"
    using assms(1,2) least_in_groups [of c] by (simp add: assign_inv_def)
  moreover have "take (Suc k) (Shards c) = take k (Shards c) @ [Shards c ! k]"
    using assms(3) len by (simp add: take_Suc_conv_app_nth)
  moreover have "take (Suc k) ((Shards c)[k := x]) = take k (Shards c) @ [x]" for x
    using assms(3) len by (simp add: take_Suc_conv_app_nth)
  ultimately show ?thesis
    using assms(1) eqs by (auto simp: assign_inv_def wf_cfg_def)
qed

lemma assign_inv_fold:
  assumes "assign_inv c0 k c" "Groups c0 \<noteq> []" "drop k (Shards c0) = gs"
  shows "assign_inv c0 (length (Shards c0))
    (foldl (\<lambda>c (s, g). if g \<in> set (keys (Groups c)) then c
                        else c\<lparr>Shards := (Shards c)[s := least c]\<rparr>) c (List.enumerate k gs))"
  using assms
proof (induction gs arbitrary: k c)
  case Nil
  then have "length (Shards c0) \<le> k" by simp
  with Nil have "take k (Shards c) = Shards c" by (simp add: assign_inv_def)
  with Nil show ?case by (auto simp: assign_inv_def)
next
  case (Cons g gs)
  have k: "k < length (Shards c0)" using Cons.prems(3) by (metis drop_all list.discI not_le)
  with Cons.prems(3) have "Shards c0 ! k = g" "drop (Suc k) (Shards c0) = gs"
    by (simp_all add: nth_via_drop drop_Suc) (metis drop_Suc list.sel(3) tl_drop)
  with Cons.IH [OF assign_inv_step [OF Cons.prems(1,2) k] Cons.prems(2)] show ?case by simp
qed

lemma assign_unassigned_spec:
  assumes "wf_cfg c" "Groups c \<noteq> []"
  shows "wf_cfg (assign_unassigned c) \<and> assigned (assign_unassigned c) \<and>
    Groups (assign_unassigned c) = Groups c \<and> Num (assign_unassigned c) = Num c"
proof -
  have "assign_inv c 0 c" using assms by (simp add: assign_inv_def)
  then have "assign_inv c (length (Shards c)) (assign_unassigned c)"
    unfolding assign_unassigned_def using assms(2) by (intro assign_inv_fold) simp_all
  then show ?thesis using assms(1)
    by (auto simp: assign_inv_def assigned_def wf_cfg_def)
qed

lemma assign_unassigned_id: "assigned c \<Longrightarrow> assign_unassigned c = c"
proof -
  assume "assigned c"
  have "foldl (\<lambda>c (s, g). if g \<in> set (keys (Groups c)) then c
          else c\<lparr>Shards := (Shards c)[s := least c]\<rparr>) c (List.enumerate k gs) = c"
    if "set gs \<subseteq> set (keys (Groups c))" for k gs
    using that by (induction gs arbitrary: k) auto
  with \<open>assigned c\<close> show ?thesis by (simp add: assign_unassigned_def assigned_def)
qed

subsection \<open>The loop that moves shards\<close>

lemma length_move_first [simp]: "length (move_first mg lg gs) = length gs"
  by (induction gs) auto

lemma set_move_first: "set (move_first mg lg gs) \<subseteq> insert lg (set gs)"
  by (induction gs) auto

lemma count_move_first:
  assumes "mg \<in> set gs" "mg \<noteq> lg"
  shows "int (count_list (move_first mg lg gs) g)
    = int (count_list gs g) - (if g = mg then 1 else 0) + (if g = lg then 1 else 0)"
  using assms by (induction gs) auto

text \<open>What the loop decreases: the sum of the squares of the groups' sizes.\<close>

definition spread :: "ShardConfig \<Rightarrow> nat" where
  "spread c = (\<Sum>g \<leftarrow> keys (Groups c). (count_list (Shards c) g)\<^sup>2)"

lemma move_squares: "(b::nat) + 2 \<le> a \<Longrightarrow> (a - 1)\<^sup>2 + (b + 1)\<^sup>2 < a\<^sup>2 + b\<^sup>2"
proof -
  assume "b + 2 \<le> a"
  then obtain d where "a = b + 2 + d" using le_Suc_ex by blast
  then show ?thesis by (simp add: power2_eq_square algebra_simps)
qed

lemma rebalance_move_spec:
  assumes "wf_cfg c" "assigned c" "Groups c \<noteq> []" "analyze c = (mg, mn, lg, ln)" "\<not> mn < ln + 2"
  defines "c' \<equiv> c\<lparr>Shards := move_first mg lg (Shards c)\<rparr>"
  shows "wf_cfg c' \<and> assigned c' \<and> Groups c' = Groups c \<and> Num c' = Num c \<and> spread c' < spread c"
proof -
  have e: "mg \<in> set (keys (Groups c))" "mn = counts c mg"
    "lg \<in> set (keys (Groups c))" "ln = counts c lg"
    using analyze_extremes [OF assms(1,3)] unfolding assms(4) extremes_of_def by auto
  have gap: "count_list (Shards c) lg + 2 \<le> count_list (Shards c) mg"
    using assms(5) by (simp add: e counts_eq)
  then have ne: "mg \<noteq> lg" and mem: "mg \<in> set (Shards c)"
    by (auto simp flip: count_list_pos_iff)
  let ?n = "\<lambda>g. count_list (move_first mg lg (Shards c)) g"
  have cnt: "?n mg = count_list (Shards c) mg - 1" "?n lg = count_list (Shards c) lg + 1"
    "\<And>g. g \<noteq> mg \<Longrightarrow> g \<noteq> lg \<Longrightarrow> ?n g = count_list (Shards c) g"
    using count_move_first [OF mem ne] ne gap by (auto simp: nat_eq_iff2 intro: nat_int_comparison(1) [THEN iffD2])
  have "(\<Sum>g \<leftarrow> keys (Groups c). (?n g)\<^sup>2) < spread c"
    unfolding spread_def
  proof (rule sum_list_two_change [OF _ e(1,3) ne])
    show "distinct (keys (Groups c))" using assms(1) by (simp add: wf_cfg_def wf_map_def)
  qed (use cnt move_squares [OF gap] in simp_all)
  then have "spread c' < spread c" by (simp add: spread_def c'_def)
  moreover have "assigned c'"
    using assms(2) e(3) set_move_first [of mg lg "Shards c"] by (auto simp: assigned_def c'_def)
  ultimately show ?thesis using assms(1) by (simp add: c'_def wf_cfg_def)
qed

lemma rebalance_moves_total:
  assumes "wf_cfg c" "assigned c" "Groups c \<noteq> []"
  shows "\<exists>c'. rebalance_moves c = Some c' \<and> wf_cfg c' \<and> assigned c' \<and> balanced c' \<and>
    Groups c' = Groups c \<and> Num c' = Num c"
  using assms
proof (induction "spread c" arbitrary: c rule: less_induct)
  case less
  obtain mg mn lg ln where a: "analyze c = (mg, mn, lg, ln)" by (cases "analyze c")
  show ?case
  proof (cases "mn < ln + 2")
    case True
    then have "rebalance_moves c = Some c" by (subst rebalance_moves.simps) (simp add: a)
    with True less.prems analyze_stop_iff [OF less.prems(1,3) a] show ?thesis by auto
  next
    case False
    let ?c = "c\<lparr>Shards := move_first mg lg (Shards c)\<rparr>"
    have "rebalance_moves c = rebalance_moves ?c"
      by (subst rebalance_moves.simps) (simp add: a False)
    with less.hyps [of ?c] rebalance_move_spec [OF less.prems a False] less.prems(3)
    show ?thesis by auto
  qed
qed

lemma rebalance_moves_balanced:
  "wf_cfg c \<Longrightarrow> Groups c \<noteq> [] \<Longrightarrow> balanced c \<Longrightarrow> rebalance_moves c = Some c"
  by (subst rebalance_moves.simps) (auto split: prod.splits dest: analyze_stop_iff)

lemma Rebalance_total:
  assumes "wf_cfg c"
  shows "\<exists>c'. Rebalance c = Some c' \<and> wf_cfg c' \<and> Groups c' = Groups c \<and> Num c' = Num c \<and>
    (if Groups c = [] then Shards c' = replicate NShards 0 else assigned c' \<and> balanced c')"
proof (cases "Groups c = []")
  case True
  with assms show ?thesis
    by (simp add: Rebalance_def wf_cfg_def map_replicate_const)
next
  case False
  note a = assign_unassigned_spec [OF assms False]
  from rebalance_moves_total [of "assign_unassigned c"] a False
  show ?thesis by (auto simp: Rebalance_def Suc_le_eq)
qed

subsection \<open>The test's \<open>CheckConfig\<close> against the two predicates\<close>

lemma check_extremes_fold:
  assumes "foldl (\<lambda>(mx, mi) (g, _). ((if cnt g > mx then cnt g else mx), (if cnt g < mi then cnt g else mi)))
    (mx0, mi0) gs = (mx, mi :: int)"
  shows "(mx \<le> z \<longleftrightarrow> mx0 \<le> z \<and> (\<forall>g \<in> set (keys gs). cnt g \<le> z)) \<and>
    (y \<le> mi \<longleftrightarrow> y \<le> mi0 \<and> (\<forall>g \<in> set (keys gs). y \<le> cnt g))"
  using assms
proof (induction gs arbitrary: mx0 mi0)
  case (Cons p gs)
  obtain g v where p: "p = (g, v)" by (cases p)
  have "foldl (\<lambda>(mx, mi) (g, _). ((if cnt g > mx then cnt g else mx), (if cnt g < mi then cnt g else mi)))
    (max mx0 (cnt g), min mi0 (cnt g)) gs = (mx, mi)"
    using Cons.prems by (simp add: p max_def min_def not_le not_less split: if_splits) force+
  from Cons.IH [OF this] show ?case by (auto simp: p)
qed auto

lemma check_extremes_balanced:
  assumes "wf_cfg c"
  shows "(case check_extremes c of (mx, mi) \<Rightarrow> mx \<le> mi + 1) \<longleftrightarrow> balanced c"
proof -
  obtain mx mi where r: "check_extremes c = (mx, mi)" by (cases "check_extremes c")
  note f = check_extremes_fold [OF r [unfolded check_extremes_def]]
  have b: "counts c g - 1 \<le> 257" for g using counts_bound [OF assms, of g] by simp
  have "mx \<le> mi + 1 \<longleftrightarrow> 0 - 1 \<le> mi \<and> (\<forall>g \<in> set (keys (Groups c)). counts c g - 1 \<le> mi)"
    using conjunct1 [OF f, of "mi + 1"] by force
  also have "\<dots> \<longleftrightarrow> balanced c"
    using conjunct2 [OF f] b by (auto simp: balanced_def diff_le_eq intro: order_trans [of _ 0])
  finally show ?thesis using r by simp
qed


lemma CheckConfig_ok_iff:
  assumes "wf_cfg c"
  shows "CheckConfig c (keys (Groups c)) = Ret () \<longleftrightarrow> (Groups c \<noteq> [] \<longrightarrow> assigned c) \<and> balanced c"
  using check_extremes_balanced [OF assms]
  by (cases "check_extremes c") (auto simp: CheckConfig_def list_ex_iff assigned_def not_le)

subsection \<open>The result depends on the map, not on the order \<open>range\<close> visits it\<close>

definition same_config :: "ShardConfig \<Rightarrow> ShardConfig \<Rightarrow> bool" where
  "same_config c d \<longleftrightarrow> Shards c = Shards d \<and> mset (Groups c) = mset (Groups d)"

lemma same_config_mset_keys: "same_config c d \<Longrightarrow> mset (keys (Groups c)) = mset (keys (Groups d))"
  unfolding same_config_def mset_map by (simp only:)

lemma same_config_keys: "same_config c d \<Longrightarrow> set (keys (Groups c)) = set (keys (Groups d))"
  by (rule mset_eq_setD) (rule same_config_mset_keys)

lemma same_config_sort:
  assumes "same_config c d"
  shows "sort (keys (Groups c)) = sort (keys (Groups d))"
proof (rule properties_for_sort)
  show "mset (sort (keys (Groups d))) = mset (keys (Groups c))"
    unfolding mset_sort by (rule same_config_mset_keys [OF assms, symmetric])
qed (rule sorted_sort)

lemma same_config_analyze:
  assumes "same_config c d"
  shows "analyze c = analyze d"
proof -
  have "counts c = counts d" using assms by (simp add: counts_def same_config_def)
  then show ?thesis by (simp add: analyze_def same_config_sort [OF assms])
qed

lemma same_config_assign_fold:
  assumes "same_config c d"
  shows "same_config
    (foldl (\<lambda>c (s, g). if g \<in> set (keys (Groups c)) then c
            else c\<lparr>Shards := (Shards c)[s := least c]\<rparr>) c sgs)
    (foldl (\<lambda>c (s, g). if g \<in> set (keys (Groups c)) then c
            else c\<lparr>Shards := (Shards c)[s := least c]\<rparr>) d sgs)"
  using assms
proof (induction sgs arbitrary: c d)
  case (Cons sg sgs)
  obtain s g where sg: "sg = (s, g)" by (cases sg)
  have "least c = least d" using same_config_analyze [OF Cons.prems] by (simp add: least_def)
  then have "same_config (c\<lparr>Shards := (Shards c)[s := least c]\<rparr>) (d\<lparr>Shards := (Shards d)[s := least d]\<rparr>)"
    using Cons.prems by (simp add: same_config_def)
  then show ?case using Cons.IH Cons.prems same_config_keys [OF Cons.prems] by (simp add: sg)
qed simp

lemma same_config_moves:
  assumes "same_config c d" "wf_cfg c" "assigned c" "Groups c \<noteq> []"
  shows "rel_option same_config (rebalance_moves c) (rebalance_moves d)"
  using assms
proof (induction "spread c" arbitrary: c d rule: less_induct)
  case less
  obtain mg mn lg ln where a: "analyze c = (mg, mn, lg, ln)" by (cases "analyze c")
  then have b: "analyze d = (mg, mn, lg, ln)" using same_config_analyze [OF less.prems(1)] by simp
  show ?case
  proof (cases "mn < ln + 2")
    case True
    then show ?thesis
      by (subst (1 2) rebalance_moves.simps) (simp add: a b less.prems(1))
  next
    case False
    let ?m = "\<lambda>c. c\<lparr>Shards := move_first mg lg (Shards c)\<rparr>"
    have "rebalance_moves c = rebalance_moves (?m c)" "rebalance_moves d = rebalance_moves (?m d)"
      by (subst rebalance_moves.simps, simp add: a b False)+
    moreover have "same_config (?m c) (?m d)" using less.prems(1) by (simp add: same_config_def)
    ultimately show ?thesis
      using less.hyps [of "?m c" "?m d"] rebalance_move_spec [OF less.prems(2-4) a False] less.prems(4)
      by simp
  qed
qed

lemma same_config_Rebalance:
  assumes "same_config c d" "wf_cfg c"
  shows "rel_option same_config (Rebalance c) (Rebalance d)"
proof (cases "Groups c = []")
  case True
  then have "Groups d = []" using assms(1) by (simp add: same_config_def)
  with True assms(1) show ?thesis by (simp add: Rebalance_def same_config_def)
next
  case False
  then have "Groups d \<noteq> []" using assms(1) by (auto simp: same_config_def)
  have "same_config (assign_unassigned c) (assign_unassigned d)"
    using same_config_assign_fold [OF assms(1)] assms(1)
    by (simp add: assign_unassigned_def same_config_def)
  then show ?thesis
    using same_config_moves assign_unassigned_spec [OF assms(2) False] False \<open>Groups d \<noteq> []\<close>
    by (simp add: Rebalance_def Suc_le_eq)
qed

section \<open>\<open>Join\<close> and \<open>Leave\<close>\<close>

lemma Join_loop_ok:
  assumes "Join_loop srvs changed c = Inr (False, changed', c')" "wf_cfg c"
  shows "wf_cfg c' \<and> Num c' = Num c \<and> Shards c' = Shards c \<and>
    changed' = (changed \<or> srvs \<noteq> []) \<and> distinct (keys srvs) \<and>
    set (keys srvs) \<inter> set (keys (Groups c)) = {} \<and>
    set (keys (Groups c')) = set (keys (Groups c)) \<union> set (keys srvs)"
  using assms
proof (induction srvs changed c rule: Join_loop.induct)
  case (2 gid servers rest changed c)
  have "wf_cfg (c\<lparr>Groups := AList.update gid servers (Groups c)\<rparr>)"
    using "2.prems"(2) by (simp add: wf_cfg_def)
  moreover have "gid \<notin> set (keys (Groups c))" "\<not> shares_server servers (Groups c)"
    "Join_loop rest True (c\<lparr>Groups := AList.update gid servers (Groups c)\<rparr>) = Inr (False, changed', c')"
    using "2.prems"(1) by (auto split: if_splits)
  moreover note "2.IH" [OF calculation(2,3,4,1)]
  ultimately show ?case by auto
qed simp

lemma Leave_loop_ok:
  assumes "Leave_loop gids changed c = (False, changed', c')" "wf_cfg c"
  shows "wf_cfg c' \<and> Num c' = Num c \<and> Shards c' = Shards c \<and>
    changed' = (changed \<or> gids \<noteq> []) \<and> set gids \<subseteq> set (keys (Groups c)) \<and>
    set (keys (Groups c')) = set (keys (Groups c)) - set gids"
  using assms
proof (induction gids changed c rule: Leave_loop.induct)
  case (2 gid gids changed c)
  have "wf_cfg (c\<lparr>Groups := AList.delete gid (Groups c)\<rparr>)"
    using "2.prems"(2) by (simp add: wf_cfg_def)
  with 2 show ?case by (auto split: if_splits)
qed auto


section \<open>Properties\<close>

text \<open>
  C6. \<open>Rebalance\<close> returns on every well-formed configuration that has a group, leaves the
  configuration number and the groups alone, and its result passes the test suite's
  \<open>CheckConfig\<close>: every shard belongs to a group of the configuration and the numbers of
  shards of any two groups differ by one at most.
\<close>

theorem Rebalance_valid:
  assumes "wf_cfg c" "Groups c \<noteq> []"
  shows "\<exists>c'. Rebalance c = Some c' \<and> wf_cfg c' \<and> Num c' = Num c \<and> Groups c' = Groups c \<and>
    CheckConfig c' (keys (Groups c)) = Ret ()"
proof -
  from Rebalance_total [OF assms(1)] assms(2) obtain c' where c': "Rebalance c = Some c'"
    "wf_cfg c'" "Groups c' = Groups c" "Num c' = Num c" "assigned c'" "balanced c'" by auto
  with CheckConfig_ok_iff [OF c'(2)] show ?thesis by auto
qed

definition cfg_example :: ShardConfig where
  "cfg_example = \<lparr>Num = 3, Shards = [7, 7, 7, 7, 7, 7, 5, 5, 9, 0, 0, 2],
     Groups = [(5, [''a'']), (2, [''b'']), (7, [''c''])]\<rparr>"

theorem Rebalance_valid_witness:
  "wf_cfg cfg_example \<and> (\<exists>c'. Rebalance cfg_example = Some c' \<and> wf_cfg c' \<and> Num c' = 3 \<and>
     Groups c' = Groups cfg_example \<and> CheckConfig c' [5, 2, 7] = Ret ())"
proof -
  have w: "wf_cfg cfg_example" "Groups cfg_example \<noteq> []"
    by (simp_all add: cfg_example_def wf_cfg_def wf_map_def NShards_def)
  show ?thesis using Rebalance_valid [OF w] w(1) by (simp add: cfg_example_def)
qed

text \<open>
  A configuration that already passes \<open>CheckConfig\<close> is left as it is: \<open>Rebalance\<close>
  moves no shard without need, so a second call changes nothing.
\<close>

lemma Rebalance_stable:
  assumes "wf_cfg c" "CheckConfig c (keys (Groups c)) = Ret ()" "Groups c \<noteq> []"
  shows "Rebalance c = Some c"
  using assms CheckConfig_ok_iff [OF assms(1)] rebalance_moves_balanced [OF assms(1,3)]
  by (simp add: Rebalance_def assign_unassigned_id Suc_le_eq)

lemma Rebalance_stable_witness:
  "Rebalance \<lparr>Num = 1, Shards = replicate 6 4 @ replicate 6 8, Groups = [(8, []), (4, [])]\<rparr>
    = Some \<lparr>Num = 1, Shards = replicate 6 4 @ replicate 6 8, Groups = [(8, []), (4, [])]\<rparr>"
  by (rule Rebalance_stable)
    (simp_all add: wf_cfg_def wf_map_def NShards_def CheckConfig_def check_extremes_def counts_eq
      eval_nat_numeral)

text \<open>
  C38. The shard assignment \<open>Rebalance\<close> computes does not depend on the order in which Go
  happens to iterate over the map of groups: two configurations that hold the same groups in
  different iteration orders get the same assignment. This is the determinism that the comment
  in \<open>analyze\<close> asks for.
\<close>

theorem Rebalance_deterministic:
  assumes "wf_cfg c" "mset (Groups c) = mset (Groups d)" "Shards c = Shards d"
  shows "map_option Shards (Rebalance c) = map_option Shards (Rebalance d)"
proof -
  have "rel_option same_config (Rebalance c) (Rebalance d)"
    by (rule same_config_Rebalance) (use assms in \<open>simp_all add: same_config_def\<close>)
  then show ?thesis by (cases rule: option.rel_cases) (auto simp: same_config_def)
qed

theorem Rebalance_deterministic_witness:
  "map_option Shards (Rebalance cfg_example)
    = map_option Shards (Rebalance (cfg_example\<lparr>Groups := [(7, [''c'']), (5, [''a'']), (2, [''b''])]\<rparr>))"
  by (rule Rebalance_deterministic)
    (simp_all add: cfg_example_def wf_cfg_def wf_map_def NShards_def)


lemma cfg_example_wf: "wf_cfg cfg_example"
  by (simp add: cfg_example_def wf_cfg_def wf_map_def NShards_def)




text \<open>
  Once a configuration passes \<open>CheckConfig\<close>, every key is served: \<open>GidServers\<close> of
  the key's shard neither panics nor misses, and names a group of the configuration.
\<close>

lemma every_key_served:
  assumes "wf_cfg c" "Groups c \<noteq> []" "CheckConfig c (keys (Groups c)) = Ret ()"
  shows "\<exists>gid srvs. GidServers c (Key2Shard k) = Ret (gid, srvs, True) \<and>
    map_of (Groups c) gid = Some srvs \<and> IsMember c gid"
proof -
  let ?s = "nat (Key2Shard k)"
  have s: "0 \<le> Key2Shard k" "?s < length (Shards c)"
    using Key2Shard_bounds [of k] assms(1) by (auto simp: wf_cfg_def)
  have mem: "Shards c ! ?s \<in> set (Shards c)" using s(2) by simp
  then have "Shards c ! ?s \<in> set (keys (Groups c))"
    using assms CheckConfig_ok_iff by (auto simp: assigned_def)
  then obtain srvs where "map_of (Groups c) (Shards c ! ?s) = Some srvs"
    by (metis map_of_None_iff not_None_eq)
  moreover have "IsMember_loop gs g = (g \<in> set gs)" for gs g
    by (induction gs) auto
  ultimately show ?thesis using s mem by (simp add: GidServers_def IsMember_def Let_def)
qed

lemma every_key_served_witness:
  "\<exists>gid srvs. GidServers \<lparr>Num = 1, Shards = replicate 12 6, Groups = [(6, [''s''])]\<rparr> (Key2Shard ''k'')
      = Ret (gid, srvs, True) \<and> map_of [(6, [''s''])] gid = Some srvs \<and>
      IsMember \<lparr>Num = 1, Shards = replicate 12 6, Groups = [(6, [''s''])]\<rparr> gid"
  using every_key_served [of "\<lparr>Num = 1, Shards = replicate 12 6, Groups = [(6, [''s''])]\<rparr>" "''k''"]
  by (simp add: wf_cfg_def wf_map_def NShards_def CheckConfig_def check_extremes_def counts_eq
      list_ex_iff eval_nat_numeral)

text \<open>
  A \<open>Join\<close> that names a group already present returns false, and does so after the
  groups visited before it have been added: the caller is told that nothing happened, the
  configuration number stays, and yet the configuration has changed. Whether this happens
  depends on the iteration order of the argument map.
\<close>

lemma Join_rejoin_partial:
  "Join [(2, [''b'']), (1, [''z''])] \<lparr>Num = 4, Shards = replicate 12 1, Groups = [(1, [''a''])]\<rparr>
     = Ret (False, \<lparr>Num = 4, Shards = replicate 12 1, Groups = [(1, [''a'']), (2, [''b''])]\<rparr>) \<and>
   Join [(1, [''z'']), (2, [''b''])] \<lparr>Num = 4, Shards = replicate 12 1, Groups = [(1, [''a''])]\<rparr>
     = Ret (False, \<lparr>Num = 4, Shards = replicate 12 1, Groups = [(1, [''a''])]\<rparr>)"
  by (simp add: Join_def shares_server_def)

end
