(* ===== verification/ShardTest.thy ===== *)
theory ShardTest
  imports ShardCfg
begin

text \<open>
  The tests of the sharded key/value store, \<open>shardkv1/test.go\<close>, where they do not wait for the shard
  controller and the shard groups, which the repository leaves as stubs: the numbers of new groups,
  the first configuration, what \<open>join\<close> and \<open>leave\<close> make of the configuration that a controller holds,
  and the check that the data really is sharded.
\<close>

section \<open>Groups\<close>

definition MakeTest_ngid :: Tgid where
  "MakeTest_ngid = Gid1 + 1"

definition newGid :: "Tgid \<Rightarrow> Tgid \<times> Tgid" where
  "newGid ngid = (ngid, ngid + 1)"

fun groups :: "nat \<Rightarrow> Tgid \<Rightarrow> Tgid list \<times> Tgid" where
  "groups 0 ngid = ([], ngid)"
| "groups (Suc n) ngid = (let (g, ngid1) = newGid ngid; (gs, ngid2) = groups n ngid1 in (g # gs, ngid2))"

section \<open>Configurations\<close>

text \<open>The configuration that \<open>setupKVService\<close> starts with.\<close>

definition setup_config :: "string list \<Rightarrow> (bool \<times> ShardConfig) outcome option" where
  "setup_config names = JoinBalance [(Gid1, names)] MakeShardConfig"

text \<open>\<open>join\<close> and \<open>leave\<close> from the configuration that \<open>Query\<close> gives to the one that \<open>ChangeConfigTo\<close> gets.\<close>

definition join :: "Tgid \<Rightarrow> string list \<Rightarrow> ShardConfig \<Rightarrow> ShardConfig outcome option" where
  "join gid names cfg = map_option (\<lambda>r. bindo r (\<lambda>(ok, newcfg). if \<not> ok then Inl Fatal else Ret newcfg)) (JoinBalance [(gid, names)] (Copy cfg))"

definition leave :: "Tgid \<Rightarrow> ShardConfig \<Rightarrow> ShardConfig outcome option" where
  "leave gid cfg = map_option (\<lambda>r. bindo r (\<lambda>(ok, newcfg). if \<not> ok then Inl Fatal else Ret newcfg)) (LeaveBalance [gid] (Copy cfg))"

definition checkMember :: "ShardConfig \<Rightarrow> Tgid \<Rightarrow> bool" where
  "checkMember cfg gid = IsMember cfg gid"

section \<open>Is the data sharded?\<close>

text \<open>
  The loop of \<open>checkShutdownSharding\<close>: a reader reports its value, right or wrong, or two seconds pass
  without a report. The number of reports so far is an argument; a list that ends is a test that is
  still waiting.
\<close>

datatype shard_event = Reported bool | TimedOut

fun shutdown_loop :: "nat \<Rightarrow> nat \<Rightarrow> shard_event list \<Rightarrow> unit outcome option" where
  "shutdown_loop n ndone [] = None"
| "shutdown_loop n ndone (Reported right # evs) = (if \<not> right then Some (Inl Fatal) else shutdown_loop n (ndone + 1) evs)"
| "shutdown_loop n ndone (TimedOut # evs) = Some (if n \<le> ndone then Inl Fatal else Ret ())"

definition checkShutdownSharding :: "nat \<Rightarrow> shard_event list \<Rightarrow> unit outcome option" where
  "checkShutdownSharding n evs = shutdown_loop n 0 evs"

section \<open>Lemmas\<close>

lemma groups_fresh: "groups n ngid = ([ngid..ngid + int n - 1], ngid + int n)"
proof (induction n arbitrary: ngid)
  case (Suc n)
  have "[ngid..ngid + int (Suc n) - 1] = ngid # [ngid + 1..ngid + 1 + int n - 1]" by (simp add: upto_rec1 algebra_simps)
  then show ?case using Suc by (simp add: newGid_def)
qed simp

lemma update_new: "k \<notin> set (keys m) \<Longrightarrow> AList.update k v m = m @ [(k, v)]"
  by (induction m) auto

lemma Copy_id: "wf_cfg c \<Longrightarrow> Copy c = c"
proof -
  have "foldl (\<lambda>c (k, srvs). c\<lparr>Groups := AList.update k (map id srvs) (Groups c)\<rparr>) d m = d\<lparr>Groups := Groups d @ m\<rparr>"
    if "distinct (keys (Groups d @ m))" for d m
    using that
  proof (induction m arbitrary: d)
    case (Cons x m)
    obtain k v where x: "x = (k, v)" by (cases x)
    have "k \<notin> set (keys (Groups d))" using Cons.prems x by auto
    then show ?case using Cons.IH [of "d\<lparr>Groups := Groups d @ [(k, v)]\<rparr>"] Cons.prems by (simp add: x update_new)
  qed simp
  from this [of "MakeShardConfig\<lparr>Num := Num c, Shards := Shards c\<rparr>" "Groups c"] show "wf_cfg c \<Longrightarrow> Copy c = c"
    by (simp add: Copy_def MakeShardConfig_def wf_cfg_def wf_map_def)
qed

lemma IsMember_set: "IsMember c g \<longleftrightarrow> g \<in> set (Shards c)"
proof -
  have "IsMember_loop l g \<longleftrightarrow> g \<in> set l" for l by (induction l) auto
  then show ?thesis by (simp add: IsMember_def)
qed

text \<open>With at most as many groups as shards, a balanced configuration gives every group a shard.\<close>

lemma balanced_all_members:
  assumes "wf_cfg c" "assigned c" "balanced c" "length (Groups c) \<le> NShards" "g \<in> set (keys (Groups c))"
  shows "g \<in> set (Shards c)"
proof (rule ccontr)
  assume "g \<notin> set (Shards c)"
  then have g0: "count_list (Shards c) g = 0" by (simp add: count_list_0_iff)
  let ?K = "set (keys (Groups c))"
  have card: "card ?K \<le> NShards" using assms(4) card_length [of "keys (Groups c)"] by simp
  have one: "count_list (Shards c) h \<le> (if h = g then 0 else 1)" if "h \<in> ?K" for h
  proof -
    have "counts c h \<le> counts c g + 1" using assms(3,5) that unfolding balanced_def by blast
    then show ?thesis using g0 by (simp add: counts_eq)
  qed
  have "NShards = sum (count_list (Shards c)) ?K"
    using sum_count_set [of "Shards c" ?K] assms(1,2) by (simp add: assigned_def wf_cfg_def)
  also have "\<dots> \<le> sum (\<lambda>h. if h = g then 0 else 1) ?K" using one by (intro sum_mono)
  also have "\<dots> = card (?K - {g})" by (simp add: sum.If_cases Int_def set_diff_eq)
  also have "\<dots> < card ?K" using assms(5) by (intro card_Diff1_less) auto
  finally show False using card by simp
qed
text \<open>One group joining, and one group leaving, as whole operations.\<close>

lemma join_result:
  assumes "wf_cfg c" "gid \<notin> set (keys (Groups c))" "\<not> shares_server names (Groups c)"
  shows "\<exists>c'. join gid names c = Some (Ret c') \<and> wf_cfg c' \<and> Num c' = Num c + 1 \<and> Groups c' = Groups c @ [(gid, names)] \<and>
    assigned c' \<and> balanced c'"
proof -
  let ?d = "c\<lparr>Groups := Groups c @ [(gid, names)], Num := Num c + 1\<rparr>"
  have "wf_cfg ?d" using assms(1,2) by (simp add: wf_cfg_def wf_map_def)
  from Rebalance_total [OF this] obtain c' where c': "Rebalance ?d = Some c'" "wf_cfg c'" "Groups c' = Groups ?d" "Num c' = Num ?d"
    "assigned c'" "balanced c'" by auto
  then show ?thesis using assms(2,3)
    by (simp add: join_def JoinBalance_def Join_def Copy_id [OF assms(1)] update_new)
qed

lemma leave_result:
  assumes "wf_cfg c" "gid \<in> set (keys (Groups c))"
  shows "\<exists>c'. leave gid c = Some (Ret c') \<and> wf_cfg c' \<and> Num c' = Num c + 1 \<and> Groups c' = AList.delete gid (Groups c) \<and>
    (if Groups c' = [] then Shards c' = replicate NShards 0 else assigned c' \<and> balanced c')"
proof -
  let ?d = "c\<lparr>Groups := AList.delete gid (Groups c), Num := Num c + 1\<rparr>"
  have "wf_cfg ?d" using assms(1) by (simp add: wf_cfg_def)
  from Rebalance_total [OF this] obtain c' where c': "Rebalance ?d = Some c'" "wf_cfg c'" "Groups c' = Groups ?d" "Num c' = Num ?d"
    "if Groups ?d = [] then Shards c' = replicate NShards 0 else assigned c' \<and> balanced c'" by auto
  then show ?thesis using assms(2)
    by (auto simp: leave_def LeaveBalance_def Leave_def Copy_id [OF assms(1)] split: if_splits)
qed

lemma delete_last: "gid \<notin> set (keys m) \<Longrightarrow> AList.delete gid (m @ [(gid, v)]) = m"
  by (induction m) auto

text \<open>
  C28. A group that joins is seen, and one that leaves is gone. On every well-formed configuration with
  fewer groups than shards, \<open>join\<close> of a new group with new servers returns a configuration, numbered
  one higher, in which \<open>checkMember\<close> finds the group, as \<open>joinGroups\<close> requires; \<open>leave\<close> of that group
  then returns one, numbered one higher again, in which \<open>checkMember\<close> does not find it, as
  \<open>leaveGroups\<close> requires, and whose groups are those of the start. Both pass \<open>CheckConfig\<close> while any
  group is left.
\<close>

theorem join_leave_visible:
  assumes "wf_cfg c" "length (Groups c) < NShards" "gid \<notin> set (keys (Groups c))" "gid \<noteq> 0" "\<not> shares_server names (Groups c)"
  shows "\<exists>c1 c2. join gid names c = Some (Ret c1) \<and> checkMember c1 gid \<and> CheckConfig c1 (keys (Groups c1)) = Ret () \<and>
    leave gid c1 = Some (Ret c2) \<and> \<not> checkMember c2 gid \<and> Groups c2 = Groups c \<and> Num c2 = Num c + 2 \<and>
    (Groups c = [] \<or> CheckConfig c2 (keys (Groups c2)) = Ret ())"
proof -
  obtain c1 where c1: "join gid names c = Some (Ret c1)" "wf_cfg c1" "Num c1 = Num c + 1" "Groups c1 = Groups c @ [(gid, names)]"
    "assigned c1" "balanced c1" using join_result [OF assms(1,3,5)] by blast
  have m1: "checkMember c1 gid"
    using balanced_all_members [OF c1(2,5,6), of gid] assms(2) c1(4) by (simp add: checkMember_def IsMember_set)
  have "gid \<in> set (keys (Groups c1))" by (simp add: c1(4))
  from leave_result [OF c1(2) this] obtain c2 where c2: "leave gid c1 = Some (Ret c2)" "wf_cfg c2" "Num c2 = Num c1 + 1"
    "Groups c2 = AList.delete gid (Groups c1)" "if Groups c2 = [] then Shards c2 = replicate NShards 0 else assigned c2 \<and> balanced c2" by blast
  have g2: "Groups c2 = Groups c" using c2(4) delete_last [OF assms(3)] by (simp add: c1(4))
  have "\<not> checkMember c2 gid"
    using c2(5) assms(3,4) g2 by (auto simp: checkMember_def IsMember_set assigned_def split: if_splits)
  moreover have "Groups c = [] \<or> CheckConfig c2 (keys (Groups c2)) = Ret ()"
    using CheckConfig_ok_iff [OF c2(2)] c2(5) g2 by (auto split: if_splits)
  moreover have "CheckConfig c1 (keys (Groups c1)) = Ret ()" using CheckConfig_ok_iff [OF c1(2)] c1(4,5,6) by simp
  ultimately show ?thesis using c1 c2 m1 g2 by auto
qed

theorem join_leave_visible_witness:
  "\<exists>c1 c2. join 3 [''d''] cfg_example = Some (Ret c1) \<and> checkMember c1 3 \<and> leave 3 c1 = Some (Ret c2) \<and> \<not> checkMember c2 3"
  using join_leave_visible [OF cfg_example_wf, of 3 "[''d'']"] by (auto simp: cfg_example_def NShards_def shares_server_def)

text \<open>The first configuration gives every shard to the first group, as the service assumes.\<close>

lemma setup_owns_all:
  "\<exists>c. setup_config names = Some (Ret (True, c)) \<and> Num c = NumFirst \<and> Shards c = replicate NShards Gid1"
proof -
  have wf: "wf_cfg MakeShardConfig" by (simp add: MakeShardConfig_def wf_cfg_def)
  from join_result [OF wf, of Gid1 names] obtain c where c: "join Gid1 names MakeShardConfig = Some (Ret c)" "wf_cfg c"
    "Num c = Num MakeShardConfig + 1" "Groups c = Groups MakeShardConfig @ [(Gid1, names)]" "assigned c"
    by (auto simp: MakeShardConfig_def shares_server_def)
  have "set (Shards c) \<subseteq> {Gid1}" using c(4,5) by (simp add: assigned_def MakeShardConfig_def)
  then have "Shards c = replicate NShards Gid1" using c(2) by (auto simp: wf_cfg_def intro!: replicate_eqI)
  moreover have "setup_config names = Some (Ret (True, c))"
    using c(1) by (auto simp: join_def setup_config_def Copy_id [OF wf] bindo_Ret split: if_splits)
  ultimately show ?thesis using c(3) by (auto simp: MakeShardConfig_def NumFirst_def)
qed

text \<open>
  With more groups than shards a group that has joined owns no shard, so \<open>checkMember\<close>, which looks
  at the shards, does not find it and \<open>joinGroups\<close> reports failure.
\<close>

lemma member_needs_shard:
  assumes "wf_cfg c" "NShards < length (Groups c)" "assigned c"
  shows "\<exists>g\<in>set (keys (Groups c)). \<not> checkMember c g"
proof (rule ccontr)
  assume "\<not> ?thesis"
  then have "set (keys (Groups c)) \<subseteq> set (Shards c)" by (auto simp: checkMember_def IsMember_set)
  then have "card (set (keys (Groups c))) \<le> card (set (Shards c))" by (intro card_mono) auto
  also have "\<dots> \<le> NShards" using assms(1) card_length [of "Shards c"] by (simp add: wf_cfg_def)
  finally show False using assms(1,2) distinct_card [of "keys (Groups c)"] by (simp add: wf_cfg_def wf_map_def)
qed

text \<open>The sharding check passes exactly when the readers time out before all of them have reported, all rightly.\<close>

lemma shutdown_loop_passes:
  "shutdown_loop n ndone evs = Some (Ret ()) \<longleftrightarrow>
    (\<exists>k rest. evs = replicate k (Reported True) @ TimedOut # rest \<and> ndone + k < n)"
proof (induction n ndone evs rule: shutdown_loop.induct)
  case (2 n ndone right evs)
  have "(\<exists>k rest. Reported right # evs = replicate k (Reported True) @ TimedOut # rest \<and> ndone + k < n) \<longleftrightarrow>
    right \<and> (\<exists>k rest. evs = replicate k (Reported True) @ TimedOut # rest \<and> ndone + 1 + k < n)"
    (is "(\<exists>k rest. ?P k rest) \<longleftrightarrow> _")
  proof
    assume "\<exists>k rest. ?P k rest"
    then obtain k rest where "?P k rest" by blast
    then show "right \<and> (\<exists>k rest. evs = replicate k (Reported True) @ TimedOut # rest \<and> ndone + 1 + k < n)" by (cases k) auto
  next
    assume "right \<and> (\<exists>k rest. evs = replicate k (Reported True) @ TimedOut # rest \<and> ndone + 1 + k < n)"
    then obtain k rest where "right" "evs = replicate k (Reported True) @ TimedOut # rest" "ndone + 1 + k < n" by blast
    then show "\<exists>k rest. ?P k rest" by (intro exI [of _ "Suc k"] exI [of _ rest]) auto
  qed
  then show ?case using 2 by auto
next
  case (3 n ndone evs)
  have "TimedOut # evs = replicate k (Reported True) @ TimedOut # rest \<longleftrightarrow> k = 0 \<and> rest = evs" for k rest by (cases k) auto
  then show ?case by auto
qed simp


end
