(* ===== verification/KVSrv.thy ===== *)
theory KVSrv
  imports Prelude
begin

text \<open>
  The single-machine key/value server: the RPC types of \<open>kvsrv1/rpc/rpc.go\<close> and the
  handlers of \<open>kvsrv1/server.go\<close>. The handlers hold the server's mutex from their first
  line to their return, so each is one atomic function of the state. Versions are 64-bit words:
  \<open>existing.Version + 1\<close> wraps. What a client may rely on is the locale
  \<open>versioned_store\<close>, interpreted on the handlers at the end.
\<close>

section \<open>RPC types\<close>

text \<open>\<open>Err\<close> is a string in Go; \<open>ErrEmpty\<close> is its zero value, the empty string.\<close>

datatype Err = OK | ErrNoKey | ErrVersion | ErrMaybe | ErrWrongLeader | ErrWrongGroup | ErrEmpty

type_synonym Tversion = "64 word"

fun err_string :: "Err \<Rightarrow> string" where
  "err_string OK = ''OK''"
| "err_string ErrNoKey = ''ErrNoKey''"
| "err_string ErrVersion = ''ErrVersion''"
| "err_string ErrMaybe = ''ErrMaybe''"
| "err_string ErrWrongLeader = ''ErrWrongLeader''"
| "err_string ErrWrongGroup = ''ErrWrongGroup''"
| "err_string ErrEmpty = ''''"

record PutArgs =
  pa_Key :: string
  pa_Value :: string
  pa_Version :: Tversion

record PutReply =
  pr_Err :: Err

record GetArgs =
  ga_Key :: string

record GetReply =
  gr_Value :: string
  gr_Version :: Tversion
  gr_Err :: Err

section \<open>The server\<close>

record KeyValueItem =
  kvi_Key :: string
  kvi_Value :: string
  kvi_Version :: Tversion

record KVServer =
  KeyValueItems :: "string \<rightharpoonup> KeyValueItem"

text \<open>\<open>MakeKVServer\<close> without the listening socket.\<close>

definition MakeKVServer :: KVServer where
  "MakeKVServer = \<lparr>KeyValueItems = Map.empty\<rparr>"

text \<open>The reply record is passed in: the handler writes only the fields the source assigns.\<close>

definition KVServer_Get :: "KVServer \<Rightarrow> GetArgs \<Rightarrow> GetReply \<Rightarrow> GetReply" where
  "KVServer_Get kv args reply = (case KeyValueItems kv (ga_Key args) of
      None \<Rightarrow> reply\<lparr>gr_Err := ErrNoKey\<rparr>
    | Some existing \<Rightarrow>
        reply\<lparr>gr_Err := OK, gr_Version := kvi_Version existing, gr_Value := kvi_Value existing\<rparr>)"

definition handlePut :: "KVServer \<Rightarrow> KeyValueItem \<Rightarrow> Err \<times> KVServer" where
  "handlePut kv kvi = (case KeyValueItems kv (kvi_Key kvi) of
      None \<Rightarrow>
        if kvi_Version kvi \<noteq> 0 then (ErrNoKey, kv)
        else (OK, kv\<lparr>KeyValueItems := (KeyValueItems kv)(kvi_Key kvi \<mapsto>
                \<lparr>kvi_Key = kvi_Key kvi, kvi_Value = kvi_Value kvi, kvi_Version = 1\<rparr>)\<rparr>)
    | Some existing \<Rightarrow>
        if kvi_Version existing \<noteq> kvi_Version kvi then (ErrVersion, kv)
        else (OK, kv\<lparr>KeyValueItems := (KeyValueItems kv)(kvi_Key kvi \<mapsto>
                \<lparr>kvi_Key = kvi_Key kvi, kvi_Value = kvi_Value kvi,
                 kvi_Version = kvi_Version existing + 1\<rparr>)\<rparr>))"

definition KVServer_Put :: "KVServer \<Rightarrow> PutArgs \<Rightarrow> PutReply \<Rightarrow> PutReply \<times> KVServer" where
  "KVServer_Put kv args reply =
     (let (res, kv') = handlePut kv \<lparr>kvi_Key = pa_Key args, kvi_Value = pa_Value args,
                                     kvi_Version = pa_Version args\<rparr>
      in (reply\<lparr>pr_Err := res\<rparr>, kv'))"

section \<open>The contract of a versioned store\<close>

text \<open>
  A store of values with versions, seen through what \<open>look\<close> says of each key. A put names the
  version it expects; 0 creates a missing key. Everything a client concludes from replies it
  concludes inside this locale.
\<close>

locale versioned_store =
  fixes look :: "'s \<Rightarrow> string \<Rightarrow> (string \<times> Tversion) option"
    and do_put :: "'s \<Rightarrow> string \<Rightarrow> string \<Rightarrow> Tversion \<Rightarrow> Err \<times> 's"
  assumes put_create: "look s k = None \<Longrightarrow> fst (do_put s k v 0) = OK \<and>
      look (snd (do_put s k v 0)) = (look s)(k \<mapsto> (v, 1))"
    and put_nokey: "look s k = None \<Longrightarrow> n \<noteq> 0 \<Longrightarrow> do_put s k v n = (ErrNoKey, s)"
    and put_match: "look s k = Some (w, n) \<Longrightarrow> fst (do_put s k v n) = OK \<and>
      look (snd (do_put s k v n)) = (look s)(k \<mapsto> (v, n + 1))"
    and put_mismatch: "look s k = Some (w, m) \<Longrightarrow> m \<noteq> n \<Longrightarrow> do_put s k v n = (ErrVersion, s)"
begin

text \<open>The state of one key, a missing key being the empty value at version 0.\<close>

definition cell :: "'s \<Rightarrow> string \<Rightarrow> string \<times> Tversion" where
  "cell s k = (case look s k of None \<Rightarrow> ('''', 0) | Some c \<Rightarrow> c)"

lemma put_cases:
  obtains (created) "look s k = None" "n = 0"
  | (nokey) "look s k = None" "n \<noteq> 0"
  | (matched) w where "look s k = Some (w, n)"
  | (mismatched) w m where "look s k = Some (w, m)" "m \<noteq> n"
  by (metis not_None_eq surj_pair)

lemma put_effect:
  "fst (do_put s k v n) = OK \<Longrightarrow>
    look (snd (do_put s k v n)) = (look s)(k \<mapsto> (v, n + 1)) \<and> snd (cell s k) = n"
  by (cases s k n rule: put_cases)
    (auto simp: cell_def put_nokey put_mismatch dest: put_create put_match)

lemma put_no_effect: "fst (do_put s k v n) \<noteq> OK \<Longrightarrow> snd (do_put s k v n) = s"
  by (cases s k n rule: put_cases) (auto simp: put_create put_nokey put_match put_mismatch)

lemma put_err: "fst (do_put s k v n) \<in> {OK, ErrNoKey, ErrVersion}"
  by (cases s k n rule: put_cases) (auto simp: put_create put_nokey put_match put_mismatch)

lemma put_ErrVersion: "fst (do_put s k v n) = ErrVersion \<Longrightarrow> snd (cell s k) \<noteq> n"
  by (cases s k n rule: put_cases)
    (auto simp: cell_def put_nokey put_mismatch put_create put_match)

lemma put_ErrNoKey: "fst (do_put s k v n) = ErrNoKey \<Longrightarrow> look s k = None \<and> n \<noteq> 0"
  by (cases s k n rule: put_cases) (auto simp: put_create put_match put_mismatch)

lemma put_current_version:
  "snd (cell s k) = n \<Longrightarrow> fst (do_put s k v n) = OK"
  by (cases s k n rule: put_cases) (auto simp: cell_def put_create put_match)

lemma look_put_other: "k' \<noteq> k \<Longrightarrow> look (snd (do_put s k v n)) k' = look s k'"
  by (cases "fst (do_put s k v n) = OK") (auto simp: put_effect put_no_effect)

lemma cell_put_other: "k' \<noteq> k \<Longrightarrow> cell (snd (do_put s k v n)) k' = cell s k'"
  by (simp add: cell_def look_put_other)

lemma cell_put_OK: "fst (do_put s k v n) = OK \<Longrightarrow> cell (snd (do_put s k v n)) k = (v, n + 1)"
  by (simp add: cell_def put_effect)

text \<open>A put that succeeded cannot succeed again at once: the version has moved on.\<close>

lemma put_twice: "fst (do_put s k v n) = OK \<Longrightarrow> fst (do_put (snd (do_put s k v n)) k w n) = ErrVersion"
  by (simp add: put_effect put_mismatch)

text \<open>A sequence of puts, by whoever sends them; versions only move forward, by at most one each.\<close>

definition run_puts :: "PutArgs list \<Rightarrow> 's \<Rightarrow> 's" where
  "run_puts l s = fold (\<lambda>a s. snd (do_put s (pa_Key a) (pa_Value a) (pa_Version a))) l s"

lemma run_puts_simps [simp]:
  "run_puts [] s = s"
  "run_puts (a # l) s = run_puts l (snd (do_put s (pa_Key a) (pa_Value a) (pa_Version a)))"
  "run_puts (l @ l') s = run_puts l' (run_puts l s)"
  by (simp_all add: run_puts_def)

lemma put_version:
  "look s k = Some (w, n) \<Longrightarrow>
    \<exists>i\<le>1. \<exists>w'. look (snd (do_put s j v m)) k = Some (w', n + of_nat i)"
proof (cases "fst (do_put s j v m) = OK \<and> j = k")
  case True
  assume l: "look s k = Some (w, n)"
  then show ?thesis using True put_effect [of s j v m]
    by (intro exI [of _ 1]) (auto simp: cell_def)
next
  case False
  assume l: "look s k = Some (w, n)"
  then have "look (snd (do_put s j v m)) k = Some (w, n)"
    using False look_put_other [of k j s v m] put_no_effect [of s j v m] by (cases "j = k") auto
  then show ?thesis by (intro exI [of _ 0]) simp
qed

lemma run_puts_version:
  "look s k = Some (w, n) \<Longrightarrow>
    \<exists>i\<le>length l. \<exists>w'. look (run_puts l s) k = Some (w', n + of_nat i)"
proof (induction l arbitrary: s w n)
  case Nil
  then show ?case by simp
next
  case (Cons a l)
  from put_version [OF Cons.prems] obtain i w' where i: "i \<le> 1"
    "look (snd (do_put s (pa_Key a) (pa_Value a) (pa_Version a))) k = Some (w', n + of_nat i)"
    by blast
  from Cons.IH [OF this(2)] obtain j w'' where "j \<le> length l"
    "look (run_puts (a # l) s) k = Some (w'', n + of_nat i + of_nat j)" by auto
  then show ?case using i(1) by (intro exI [of _ "i + j"]) (auto simp: algebra_simps)
qed

text \<open>
  A version once used up stays used up, as long as fewer than \<open>2 ^ 64 - 1\<close> puts follow: this is
  where the 64-bit wrap-around of the version counter matters.
\<close>

lemma stale_put:
  assumes "look s k = Some (w, n + 1)" "length l < 2 ^ 64 - 1"
  shows "do_put (run_puts l s) k v n = (ErrVersion, run_puts l s)"
proof -
  from run_puts_version [OF assms(1)] obtain i w' where i: "i \<le> length l"
    "look (run_puts l s) k = Some (w', n + 1 + of_nat i)" by blast
  have "unat (of_nat (Suc i) :: Tversion) = Suc i"
    using i(1) assms(2) by (simp add: unsigned_of_nat take_bit_nat_eq_self_iff del: of_nat_Suc)
  then have "(of_nat (Suc i) :: Tversion) \<noteq> 0" by (metis nat.distinct(1) unsigned_0)
  then have "n + 1 + of_nat i \<noteq> n" by (simp add: add.assoc)
  then show ?thesis by (rule put_mismatch [OF i(2)])
qed

end

section \<open>The server is a versioned store\<close>

definition kv_look :: "KVServer \<Rightarrow> string \<Rightarrow> (string \<times> Tversion) option" where
  "kv_look kv k = map_option (\<lambda>i. (kvi_Value i, kvi_Version i)) (KeyValueItems kv k)"

definition kv_put :: "KVServer \<Rightarrow> string \<Rightarrow> string \<Rightarrow> Tversion \<Rightarrow> Err \<times> KVServer" where
  "kv_put kv k v n = (case KVServer_Put kv \<lparr>pa_Key = k, pa_Value = v, pa_Version = n\<rparr> \<lparr>pr_Err = ErrEmpty\<rparr> of
     (reply, kv') \<Rightarrow> (pr_Err reply, kv'))"

lemma kv_put_eq: "kv_put kv k v n = handlePut kv \<lparr>kvi_Key = k, kvi_Value = v, kvi_Version = n\<rparr>"
  by (simp add: kv_put_def KVServer_Put_def split: prod.splits)

interpretation srv: versioned_store kv_look kv_put
  by unfold_locales (auto simp: kv_put_eq handlePut_def kv_look_def fun_eq_iff)

lemma KVServer_Put_kv_put:
  "KVServer_Put kv args reply =
    (reply\<lparr>pr_Err := fst (kv_put kv (pa_Key args) (pa_Value args) (pa_Version args))\<rparr>,
     snd (kv_put kv (pa_Key args) (pa_Value args) (pa_Version args)))"
  by (simp add: kv_put_eq KVServer_Put_def split: prod.splits)

lemma KVServer_Get_look:
  "KVServer_Get kv args reply = (case kv_look kv (ga_Key args) of
      None \<Rightarrow> reply\<lparr>gr_Err := ErrNoKey\<rparr>
    | Some (v, n) \<Rightarrow> reply\<lparr>gr_Err := OK, gr_Version := n, gr_Value := v\<rparr>)"
  by (simp add: KVServer_Get_def kv_look_def split: option.splits)

section \<open>Properties\<close>

text \<open>
  A \<open>Put\<close> succeeds exactly when the version it names is the key's current version (0 for a
  key that does not exist); then the new value is stored at the next version and every other key is
  untouched. Otherwise the state does not change and the reply is \<open>ErrNoKey\<close> for a missing
  key and \<open>ErrVersion\<close> for an existing one.
\<close>

lemma KVServer_Put_correct:
  "KVServer_Put kv args reply =
    (let cur = (case KeyValueItems kv (pa_Key args) of None \<Rightarrow> 0 | Some i \<Rightarrow> kvi_Version i) in
     if pa_Version args = cur
     then (reply\<lparr>pr_Err := OK\<rparr>, kv\<lparr>KeyValueItems := (KeyValueItems kv)(pa_Key args \<mapsto>
            \<lparr>kvi_Key = pa_Key args, kvi_Value = pa_Value args, kvi_Version = cur + 1\<rparr>)\<rparr>)
     else if KeyValueItems kv (pa_Key args) = None then (reply\<lparr>pr_Err := ErrNoKey\<rparr>, kv)
     else (reply\<lparr>pr_Err := ErrVersion\<rparr>, kv))"
  by (auto simp: KVServer_Put_def handlePut_def Let_def split: option.splits)

text \<open>
  After a \<open>Put\<close> that answered \<open>OK\<close>, a \<open>Get\<close> of the key returns that value
  and the version after the one the \<open>Put\<close> named, and the same \<open>Put\<close> sent again answers
  \<open>ErrVersion\<close> and changes nothing: one request is performed at most once.
\<close>

lemma KVServer_Put_then_Get:
  assumes "KVServer_Put kv args reply = (r, kv')" "pr_Err r = OK"
  shows "KVServer_Get kv' \<lparr>ga_Key = pa_Key args\<rparr> rep
      = rep\<lparr>gr_Err := OK, gr_Version := pa_Version args + 1, gr_Value := pa_Value args\<rparr> \<and>
    KVServer_Put kv' args reply = (reply\<lparr>pr_Err := ErrVersion\<rparr>, kv')"
proof -
  let ?put = "\<lambda>kv. kv_put kv (pa_Key args) (pa_Value args) (pa_Version args)"
  have ok: "fst (?put kv) = OK" and kv': "kv' = snd (?put kv)"
    using assms by (auto simp: KVServer_Put_kv_put)
  have "kv_look kv' (pa_Key args) = Some (pa_Value args, pa_Version args + 1)"
    using srv.put_effect [OF ok] by (simp add: kv')
  moreover have "fst (?put kv') = ErrVersion" using srv.put_twice [OF ok] by (simp add: kv')
  moreover then have "snd (?put kv') = kv'" by (intro srv.put_no_effect) simp
  ultimately show ?thesis by (simp add: KVServer_Get_look KVServer_Put_kv_put)
qed

lemma KVServer_Put_then_Get_witness:
  "KVServer_Get (snd (KVServer_Put MakeKVServer \<lparr>pa_Key = ''k'', pa_Value = ''v'', pa_Version = 0\<rparr> \<lparr>pr_Err = ErrEmpty\<rparr>))
     \<lparr>ga_Key = ''k''\<rparr> \<lparr>gr_Value = '''', gr_Version = 0, gr_Err = ErrEmpty\<rparr>
   = \<lparr>gr_Value = ''v'', gr_Version = 1, gr_Err = OK\<rparr>"
  using KVServer_Put_then_Get [of MakeKVServer "\<lparr>pa_Key = ''k'', pa_Value = ''v'', pa_Version = 0\<rparr>"
      "\<lparr>pr_Err = ErrEmpty\<rparr>" "\<lparr>pr_Err = OK\<rparr>" _ "\<lparr>gr_Value = '''', gr_Version = 0, gr_Err = ErrEmpty\<rparr>"]
  by (simp add: KVServer_Put_def handlePut_def MakeKVServer_def)

end
