(* ===== verification/GoStr.thy ===== *)
theory GoStr
  imports Prelude
begin

text \<open>
  What the program uses of Go's string library: \<open>strconv.Itoa\<close> and the \<open>%v\<close>/\<open>%d\<close>
  verbs on integers, \<open>strings.Split\<close>, \<open>strings.Join\<close>, \<open>strings.TrimSuffix\<close>,
  \<open>strings.LastIndex\<close>, \<open>strings.FieldsFunc\<close>, and \<open>Clean\<close>, \<open>Join\<close>,
  \<open>Base\<close> and \<open>Dir\<close> of \<open>path/filepath\<close> on slash-separated paths. The round
  trips at the end of each section are what the file formats of the program rest on.
\<close>

section \<open>Decimal numbers\<close>

definition digit :: "nat \<Rightarrow> char" where
  "digit d = char_of (48 + d)"

fun nat_str :: "nat \<Rightarrow> string" where
  "nat_str n = (if n < 10 then [digit n] else nat_str (n div 10) @ [digit (n mod 10)])"

declare nat_str.simps [simp del]

definition itoa :: "int \<Rightarrow> string" where
  "itoa i = (if i < 0 then CHR ''-'' # nat_str (nat (- i)) else nat_str (nat i))"

definition str_nat :: "string \<Rightarrow> nat" where
  "str_nat s = foldl (\<lambda>a c. 10 * a + (of_char c - 48)) 0 s"

lemma of_char_digit: "d < 10 \<Longrightarrow> of_char (digit d) = 48 + d"
  by (simp add: digit_def of_char_of)

lemma str_nat_nat_str: "str_nat (nat_str n) = n"
proof (induction n rule: nat_str.induct)
  case (1 n)
  show ?case
  proof (cases "n < 10")
    case True
    then show ?thesis by (simp add: nat_str.simps [of n] str_nat_def of_char_digit)
  next
    case False
    have "str_nat (nat_str n) = 10 * str_nat (nat_str (n div 10)) + n mod 10"
      using False by (simp add: nat_str.simps [of n] str_nat_def of_char_digit)
    then show ?thesis using 1 False by simp
  qed
qed

lemma nat_str_inject [simp]: "nat_str m = nat_str n \<longleftrightarrow> m = n"
  by (metis str_nat_nat_str)

lemma nat_str_digits: "set (nat_str n) \<subseteq> digit ` {..<10}"
proof (induction n rule: nat_str.induct)
  case (1 n)
  then show ?case by (cases "n < 10") (auto simp: nat_str.simps [of n])
qed

lemma digit_ne: "d < 10 \<Longrightarrow> c \<noteq> digit d" if "of_char c < (48::nat) \<or> 57 < (of_char c :: nat)"
  using that of_char_digit [of d] by auto

lemma not_in_nat_str: "of_char c < (48::nat) \<or> 57 < (of_char c :: nat) \<Longrightarrow> c \<notin> set (nat_str n)"
  using nat_str_digits [of n] digit_ne by fastforce

lemma nat_str_ne_Nil [simp]: "nat_str n \<noteq> []"
  by (subst nat_str.simps) simp

lemma itoa_inject [simp]: "itoa i = itoa j \<longleftrightarrow> i = j"
proof -
  have "CHR ''-'' \<notin> set (nat_str n)" for n by (rule not_in_nat_str) simp
  then have "CHR ''-'' # xs \<noteq> nat_str n" for xs n by (metis list.set_intros(1))
  then show ?thesis unfolding itoa_def by (auto simp: eq_nat_nat_iff) metis+
qed

lemma itoa_ne_Nil [simp]: "itoa i \<noteq> []"
  by (simp add: itoa_def)

section \<open>Splitting and joining\<close>

text \<open>\<open>strings.Split\<close> with a one-byte separator.\<close>

fun split_on :: "char \<Rightarrow> string \<Rightarrow> string list" where
  "split_on c [] = [[]]"
| "split_on c (x # xs) =
     (if x = c then [] # split_on c xs
      else case split_on c xs of [] \<Rightarrow> [[x]] | w # ws \<Rightarrow> (x # w) # ws)"

fun join_with :: "string \<Rightarrow> string list \<Rightarrow> string" where
  "join_with sep [] = []"
| "join_with sep [w] = w"
| "join_with sep (w # ws) = w @ sep @ join_with sep ws"

definition newline :: char where
  "newline = char_of (10::nat)"

definition TrimSuffix_nl :: "string \<Rightarrow> string" where
  "TrimSuffix_nl s = (if s \<noteq> [] \<and> last s = newline then butlast s else s)"

lemma split_on_ne [simp]: "split_on c s \<noteq> []"
  by (induction s) (auto split: list.splits)

lemma split_on_word: "c \<notin> set w \<Longrightarrow> split_on c w = [w]"
  by (induction w) auto

lemma split_on_append: "c \<notin> set w \<Longrightarrow> split_on c (w @ c # s) = w # split_on c s"
  by (induction w) auto

lemma split_on_join:
  "ws \<noteq> [] \<Longrightarrow> \<forall>w \<in> set ws. c \<notin> set w \<Longrightarrow> split_on c (join_with [c] ws) = ws"
  by (induction "[c]" ws rule: join_with.induct) (auto simp: split_on_word split_on_append)

lemma join_split_on: "join_with [c] (split_on c s) = s"
proof (induction s)
  case (Cons x xs)
  obtain w ws where s: "split_on c xs = w # ws" by (cases "split_on c xs") auto
  show ?case
  proof (cases "x = c")
    case True
    then show ?thesis using Cons s by (cases ws) auto
  next
    case False
    then show ?thesis using Cons s by (cases ws) auto
  qed
qed simp

text \<open>Lines, each ended by a newline, are read back by trimming one newline and splitting.\<close>

lemma lines_round_trip:
  assumes "ls \<noteq> []" "\<forall>l \<in> set ls. newline \<notin> set l"
  shows "split_on newline (TrimSuffix_nl (concat (map (\<lambda>l. l @ [newline]) ls))) = ls"
proof -
  have "concat (map (\<lambda>l. l @ [newline]) ls) = join_with [newline] ls @ [newline]"
    using assms(1) by (induction "[newline]" ls rule: join_with.induct) auto
  then show ?thesis using split_on_join [OF assms] by (simp add: TrimSuffix_nl_def)
qed

section \<open>Searching and fields\<close>

text \<open>\<open>strings.LastIndex\<close> for a one-byte pattern; -1 when it does not occur.\<close>

definition LastIndex :: "string \<Rightarrow> char \<Rightarrow> int" where
  "LastIndex s c =
     (if c \<in> set s then int (length s) - 1 - int (length (takeWhile (\<lambda>x. x \<noteq> c) (rev s))) else -1)"

lemma LastIndex_none: "c \<notin> set s \<Longrightarrow> LastIndex s c = -1"
  by (simp add: LastIndex_def)

lemma LastIndex_last:
  assumes "c \<notin> set t"
  shows "LastIndex (s @ c # t) c = int (length s)"
proof -
  have "takeWhile (\<lambda>x. x \<noteq> c) (rev (s @ c # t)) = rev t"
    using assms by (simp add: takeWhile_append takeWhile_eq_all_conv [THEN iffD2])
  then show ?thesis by (simp add: LastIndex_def)
qed

text \<open>\<open>strings.FieldsFunc\<close>: the maximal runs of characters that are not separators.\<close>

function FieldsFunc :: "(char \<Rightarrow> bool) \<Rightarrow> string \<Rightarrow> string list" where
  "FieldsFunc sep [] = []"
| "FieldsFunc sep (x # xs) =
     (if sep x then FieldsFunc sep xs
      else (x # takeWhile (\<lambda>c. \<not> sep c) xs) # FieldsFunc sep (dropWhile (\<lambda>c. \<not> sep c) xs))"
  by pat_completeness auto
termination
  by (relation "measure (\<lambda>(sep, s). length s)") (auto simp: le_imp_less_Suc length_dropWhile_le)

lemma FieldsFunc_words: "w \<in> set (FieldsFunc sep s) \<Longrightarrow> w \<noteq> [] \<and> (\<forall>c \<in> set w. \<not> sep c)"
proof (induction sep s rule: FieldsFunc.induct)
  case (2 sep x xs)
  show ?case
  proof (cases "sep x")
    case True
    then have "w \<in> set (FieldsFunc sep xs)" using "2.prems" by (simp only: FieldsFunc.simps if_True)
    then show ?thesis by (rule "2.IH"(1) [OF True])
  next
    case False
    have first: "\<forall>c \<in> set (x # takeWhile (\<lambda>c. \<not> sep c) xs). \<not> sep c"
      using False by (auto dest: set_takeWhileD)
    have "w = x # takeWhile (\<lambda>c. \<not> sep c) xs \<or> w \<in> set (FieldsFunc sep (dropWhile (\<lambda>c. \<not> sep c) xs))"
      using "2.prems" by (simp only: FieldsFunc.simps False if_False list.set insert_iff)
    then show ?thesis using "2.IH"(2) [OF False] first by blast
  qed
qed (simp only: FieldsFunc.simps list.set empty_iff)

lemma FieldsFunc_concat: "concat (FieldsFunc sep s) = filter (\<lambda>c. \<not> sep c) s"
proof (induction sep s rule: FieldsFunc.induct)
  case (2 sep x xs)
  have "filter (\<lambda>c. \<not> sep c) xs
    = takeWhile (\<lambda>c. \<not> sep c) xs @ filter (\<lambda>c. \<not> sep c) (dropWhile (\<lambda>c. \<not> sep c) xs)"
    by (induction xs) auto
  with 2 show ?case by simp
qed simp

section \<open>Paths\<close>

fun clean_components :: "bool \<Rightarrow> string list \<Rightarrow> string list \<Rightarrow> string list" where
  "clean_components rooted acc [] = rev acc"
| "clean_components rooted acc (p # ps) =
     (if p = '''' \<or> p = ''.'' then clean_components rooted acc ps
      else if p = ''..'' then
        (case acc of
           [] \<Rightarrow> clean_components rooted (if rooted then [] else [''..'']) ps
         | a # as \<Rightarrow> if a = ''..'' then clean_components rooted (''..'' # a # as) ps
                     else clean_components rooted as ps)
      else clean_components rooted (p # acc) ps)"

definition Clean :: "string \<Rightarrow> string" where
  "Clean path =
     (let rooted = (path \<noteq> [] \<and> hd path = CHR ''/'');
          body = join_with ''/'' (clean_components rooted [] (split_on CHR ''/'' path))
      in if rooted then CHR ''/'' # body else if body = [] then ''.'' else body)"

text \<open>\<open>filepath.Join\<close> of two elements; empty elements are ignored.\<close>

definition path_Join :: "string \<Rightarrow> string \<Rightarrow> string" where
  "path_Join a b =
     (if a = [] \<and> b = [] then []
      else if a = [] then Clean b
      else if b = [] then Clean a
      else Clean (a @ CHR ''/'' # b))"

fun drop_trailing_slashes :: "string \<Rightarrow> string" where
  "drop_trailing_slashes s = rev (dropWhile (\<lambda>c. c = CHR ''/'') (rev s))"

definition Base :: "string \<Rightarrow> string" where
  "Base path =
     (if path = [] then ''.''
      else let p = drop_trailing_slashes path in
        if p = [] then ''/'' else last (split_on CHR ''/'' p))"

definition Dir :: "string \<Rightarrow> string" where
  "Dir path = Clean (rev (dropWhile (\<lambda>c. c \<noteq> CHR ''/'') (rev path)))"

text \<open>A plain name under a clean rooted directory.\<close>

definition plain_name :: "string \<Rightarrow> bool" where
  "plain_name p \<longleftrightarrow> p \<noteq> '''' \<and> p \<noteq> ''.'' \<and> p \<noteq> ''..'' \<and> CHR ''/'' \<notin> set p"

definition clean_dir :: "string list \<Rightarrow> string" where
  "clean_dir ps = CHR ''/'' # join_with ''/'' ps"

lemma clean_components_plain:
  "\<forall>p \<in> set ps. plain_name p \<Longrightarrow> clean_components rooted acc ps = rev acc @ ps"
  by (induction ps arbitrary: acc) (auto simp: plain_name_def)

lemma split_on_clean_dir:
  "ps \<noteq> [] \<Longrightarrow> \<forall>p \<in> set ps. plain_name p \<Longrightarrow> split_on CHR ''/'' (clean_dir ps) = [] # ps"
  by (simp add: clean_dir_def split_on_join plain_name_def)

lemma Clean_clean_dir:
  "ps \<noteq> [] \<Longrightarrow> \<forall>p \<in> set ps. plain_name p \<Longrightarrow> Clean (clean_dir ps) = clean_dir ps"
  using clean_components_plain [of ps True "[]"]
  by (simp add: Clean_def split_on_clean_dir) (simp add: clean_dir_def)

lemma clean_dir_snoc:
  "ps \<noteq> [] \<Longrightarrow> clean_dir (ps @ [p]) = clean_dir ps @ CHR ''/'' # p"
proof -
  assume "ps \<noteq> []"
  then have "join_with ''/'' (ps @ [p]) = join_with ''/'' ps @ CHR ''/'' # p"
    by (induction "''/''" ps rule: join_with.induct) auto
  then show ?thesis by (simp add: clean_dir_def)
qed

lemma path_Join_clean:
  assumes "ps \<noteq> []" "\<forall>p \<in> set ps. plain_name p" "plain_name f"
  shows "path_Join (clean_dir ps) f = clean_dir (ps @ [f])"
proof -
  have "path_Join (clean_dir ps) f = Clean (clean_dir (ps @ [f]))"
    using assms(1,3) by (simp add: path_Join_def plain_name_def clean_dir_snoc) (simp add: clean_dir_def)
  then show ?thesis using Clean_clean_dir [of "ps @ [f]"] assms by simp
qed

lemma split_on_snoc: "split_on c (s @ [c]) = split_on c s @ [[]]"
  by (induction s) (auto split: list.splits)

lemma clean_components_append_empty: "clean_components rooted acc (ps @ [[]]) = clean_components rooted acc ps"
  by (induction rooted acc ps rule: clean_components.induct) (auto split: list.splits)

lemma Dir_clean_dir:
  assumes "ps \<noteq> []" "\<forall>p \<in> set ps. plain_name p" "plain_name f"
  shows "Dir (clean_dir (ps @ [f])) = clean_dir ps"
proof -
  have "\<forall>x \<in> set (rev f). x \<noteq> CHR ''/''" using assms(3) by (auto simp: plain_name_def)
  then have "dropWhile (\<lambda>c. c \<noteq> CHR ''/'') (rev (clean_dir (ps @ [f]))) = CHR ''/'' # rev (clean_dir ps)"
    using assms(1) by (simp add: clean_dir_snoc dropWhile_append3)
  then have "Dir (clean_dir (ps @ [f])) = Clean (clean_dir ps @ [CHR ''/''])" by (simp add: Dir_def)
  also have "\<dots> = Clean (clean_dir ps)"
    by (simp add: Clean_def split_on_snoc clean_components_append_empty Let_def) (simp add: clean_dir_def)
  finally show ?thesis using Clean_clean_dir [OF assms(1,2)] by simp
qed

lemma clean_dir_inject:
  "ps \<noteq> [] \<Longrightarrow> \<forall>p \<in> set ps. plain_name p \<Longrightarrow> plain_name f \<Longrightarrow> plain_name g \<Longrightarrow>
    clean_dir (ps @ [f]) = clean_dir (ps @ [g]) \<longleftrightarrow> f = g"
  by (simp add: clean_dir_snoc)

section \<open>Reading integers back\<close>

definition atoi :: "string \<Rightarrow> int" where
  "atoi s = (if s \<noteq> [] \<and> hd s = CHR ''-'' then - int (str_nat (tl s)) else int (str_nat s))"

lemma atoi_itoa: "atoi (itoa i) = i"
proof (cases "i < 0")
  case False
  have "CHR ''-'' \<notin> set (nat_str (nat i))" by (rule not_in_nat_str) simp
  then have "hd (nat_str (nat i)) \<noteq> CHR ''-''" using hd_in_set [OF nat_str_ne_Nil, of "nat i"] by metis
  then show ?thesis using False by (simp add: atoi_def itoa_def str_nat_nat_str)
qed (simp add: atoi_def itoa_def str_nat_nat_str)

lemma not_in_itoa: "c \<noteq> CHR ''-'' \<Longrightarrow> of_char c < (48::nat) \<or> 57 < (of_char c :: nat) \<Longrightarrow> c \<notin> set (itoa i)"
  using not_in_nat_str by (simp add: itoa_def)

section \<open>Relative paths, digits and white space\<close>

text \<open>The file a process means by a name: relative names are looked up from its working directory.\<close>

definition abs_path :: "string \<Rightarrow> string \<Rightarrow> string" where
  "abs_path cwd p = (if p \<noteq> [] \<and> hd p = CHR ''/'' then p else path_Join cwd p)"

definition is_digit :: "char \<Rightarrow> bool" where
  "is_digit c \<longleftrightarrow> 48 \<le> (of_char c :: nat) \<and> of_char c \<le> (57 :: nat)"

text \<open>\<open>strings.TrimSpace\<close> on contents of single-byte characters.\<close>

definition is_space :: "char \<Rightarrow> bool" where
  "is_space c \<longleftrightarrow> of_char c \<in> {9, 10, 11, 12, 13, 32 :: nat}"

definition TrimSpace :: "string \<Rightarrow> string" where
  "TrimSpace s = rev (dropWhile is_space (rev (dropWhile is_space s)))"

lemma is_digit_nat_str: "list_all is_digit (nat_str n)"
proof -
  have "is_digit (digit d)" if "d < 10" for d using that by (simp add: is_digit_def of_char_digit)
  then show ?thesis using nat_str_digits [of n] by (auto simp: list_all_iff)
qed

lemma is_space_newline [simp]: "is_space newline"
  by (simp add: is_space_def newline_def of_char_of)

lemma TrimSpace_trailing:
  assumes "s \<noteq> []" "\<not> is_space (hd s)" "\<not> is_space (last s)"
  shows "TrimSpace (s @ [newline]) = s"
proof -
  have "dropWhile is_space (s @ [newline]) = s @ [newline]" using assms(1,2) by (cases s) auto
  moreover have "dropWhile is_space (rev s) = rev s" using assms(1,3) by (cases s rule: rev_cases) auto
  ultimately show ?thesis by (simp add: TrimSpace_def)
qed

lemma Base_clean_dir:
  assumes "ps \<noteq> []" "plain_name f"
  shows "Base (clean_dir (ps @ [f])) = f"
proof -
  have f: "f \<noteq> []" "CHR ''/'' \<notin> set f" using assms(2) by (simp_all add: plain_name_def)
  then have "dropWhile (\<lambda>c. c = CHR ''/'') (rev (clean_dir ps @ CHR ''/'' # f)) = rev (clean_dir ps @ CHR ''/'' # f)"
    by (cases f rule: rev_cases) auto
  moreover have "last (split_on CHR ''/'' (s @ CHR ''/'' # f)) = f" for s
  proof (induction s)
    case (Cons x s)
    obtain w ws where "split_on CHR ''/'' (s @ CHR ''/'' # f) = w # ws"
      by (cases "split_on CHR ''/'' (s @ CHR ''/'' # f)") auto
    moreover have "ws \<noteq> []"
      using calculation join_split_on [of "CHR ''/''" "s @ CHR ''/'' # f"] Cons f
      by (cases ws) auto
    ultimately show ?case using Cons by auto
  qed (simp add: split_on_word f)
  ultimately show ?thesis using assms(1) by (simp add: Base_def clean_dir_snoc Let_def)
qed

section \<open>Base 64\<close>

text \<open>\<open>base64.URLEncoding.EncodeToString\<close> on a list of bytes.\<close>

definition b64_char :: "nat \<Rightarrow> char" where
  "b64_char i = ''ABCDEFGHIJKLMNOPQRSTUVWXYZabcdefghijklmnopqrstuvwxyz0123456789-_'' ! i"

fun EncodeToString :: "nat list \<Rightarrow> string" where
  "EncodeToString (a # b # c # bs) = (let v = 65536 * a + 256 * b + c in
     [b64_char (v div 262144 mod 64), b64_char (v div 4096 mod 64), b64_char (v div 64 mod 64), b64_char (v mod 64)]) @ EncodeToString bs"
| "EncodeToString [a, b] = (let v = 65536 * a + 256 * b in
     [b64_char (v div 262144 mod 64), b64_char (v div 4096 mod 64), b64_char (v div 64 mod 64), CHR ''=''])"
| "EncodeToString [a] = (let v = 65536 * a in
     [b64_char (v div 262144 mod 64), b64_char (v div 4096 mod 64), CHR ''='', CHR ''=''])"
| "EncodeToString [] = []"

lemma length_EncodeToString: "length (EncodeToString bs) = 4 * ((length bs + 2) div 3)"
proof (induction bs rule: EncodeToString.induct)
  case (1 a b c bs)
  have "(5 + length bs) div 3 = Suc ((length bs + 2) div 3)" by presburger
  then show ?case using 1 by (simp add: Let_def)
qed (auto simp: Let_def)

lemma take_EncodeToString_fits: "n \<le> length (EncodeToString bs)" if "length bs = 2 * n"
  using that by (simp add: length_EncodeToString)

end
