(* ===== verification/KVModel.thy ===== *)
theory KVModel
  imports KVSrv GoStr
begin

text \<open>
  The sequential specification that the linearizability checker runs against,
  \<open>models1/kv.go\<close>: one key's value and version, the step relation on a get or a put, the
  partition of a history by key, and the text of an operation. The last section proves that the
  server of \<^theory_text>\<open>KVSrv\<close> refines it.
\<close>

section \<open>The model\<close>

record KvInput =
  in_Op :: "8 word"
  in_Key :: string
  in_Value :: string
  in_Version :: "64 word"

record KvOutput =
  out_Value :: string
  out_Version :: "64 word"
  out_Err :: string

record KvState =
  st_Value :: string
  st_Version :: "64 word"

text \<open>The fields of \<open>porcupine.Operation\<close> that the program fills in.\<close>

record Operation =
  op_ClientId :: int
  op_Input :: KvInput
  op_Call :: int
  op_Output :: KvOutput
  op_Return :: int

text \<open>\<open>m[key] = append(m[key], v)\<close>, for a map whose missing entries read as the empty slice.\<close>

definition partition_add :: "(string \<times> Operation list) list \<Rightarrow> Operation \<Rightarrow> (string \<times> Operation list) list" where
  "partition_add m v = (let key = in_Key (op_Input v);
       old = (case map_of m key of None \<Rightarrow> [] | Some l \<Rightarrow> l)
     in AList.update key (old @ [v]) m)"

definition KvModel_Partition :: "Operation list \<Rightarrow> Operation list list" where
  "KvModel_Partition history =
     (let m = foldl partition_add [] history
      in map (\<lambda>k. case map_of m k of None \<Rightarrow> [] | Some l \<Rightarrow> l) (sort (keys m)))"

definition KvModel_Init :: KvState where
  "KvModel_Init = \<lparr>st_Value = '''', st_Version = 0\<rparr>"

text \<open>\<^const>\<open>None\<close> is the \<open>"<invalid>"\<close> that an unknown operation returns as its state.\<close>

definition KvModel_Step :: "KvState \<Rightarrow> KvInput \<Rightarrow> KvOutput \<Rightarrow> bool \<times> KvState option" where
  "KvModel_Step st inp out =
     (if in_Op inp = 0 then (out_Value out = st_Value st, Some st)
      else if in_Op inp = 1 then
        (if st_Version st = in_Version inp
         then (out_Err out = ''OK'' \<or> out_Err out = ''ErrMaybe'',
               Some \<lparr>st_Value = in_Value inp, st_Version = st_Version st + 1\<rparr>)
         else (out_Err out = ''ErrVersion'' \<or> out_Err out = ''ErrMaybe'', Some st))
      else (False, None))"

definition quoted :: "string \<Rightarrow> string" where
  "quoted s = CHR 0x27 # s @ [CHR 0x27]"

definition KvModel_DescribeOperation :: "KvInput \<Rightarrow> KvOutput \<Rightarrow> string" where
  "KvModel_DescribeOperation inp out =
     (if in_Op inp = 0 then
        ''get('' @ quoted (in_Key inp) @ '') -> ('' @ quoted (out_Value out) @ '', ''
          @ quoted (itoa (uint (out_Version out))) @ '', '' @ quoted (out_Err out) @ '')''
      else if in_Op inp = 1 then
        ''put('' @ quoted (in_Key inp) @ '', '' @ quoted (in_Value inp) @ '', ''
          @ quoted (itoa (uint (in_Version inp))) @ '') -> ('' @ quoted (out_Err out) @ '')''
      else ''<invalid>'')"

section \<open>The partition\<close>

abbreviation op_key :: "Operation \<Rightarrow> string" where
  "op_key v \<equiv> in_Key (op_Input v)"

lemma partition_add_group: "partition_add = group_add op_key"
  by (simp add: partition_add_def group_add_def at_def fun_eq_iff Let_def)

lemma partition_keys_sorted: "sort (keys (foldl partition_add [] h)) = sorted_list_of_set (op_key ` set h)"
proof -
  have "distinct (keys (foldl partition_add [] h))" using group_fold_wf [of "[]" op_key h]
    by (simp add: wf_map_def partition_add_group)
  then have "sort (keys (foldl partition_add [] h))
      = sorted_list_of_set (set (keys (foldl partition_add [] h)))"
    by (simp only: sorted_list_of_set_sort_remdups distinct_remdups_id)
  then show ?thesis by (simp add: partition_add_group)
qed

text \<open>
  The partition of a history gives, for each key that occurs, in increasing order of the
  keys, exactly the operations on that key, in the order of the history.
\<close>

lemma KvModel_Partition_correct:
  "KvModel_Partition h =
    map (\<lambda>k. filter (\<lambda>v. in_Key (op_Input v) = k) h)
        (sorted_list_of_set ((\<lambda>v. in_Key (op_Input v)) ` set h))"
  by (simp add: KvModel_Partition_def Let_def partition_keys_sorted)
    (simp add: partition_add_group group_fold_at [unfolded at_def])

section \<open>The server refines the model\<close>

text \<open>The abstraction of one key: a missing key is the initial state.\<close>

definition kv_abs :: "KVServer \<Rightarrow> string \<Rightarrow> KvState" where
  "kv_abs kv k = \<lparr>st_Value = fst (srv.cell kv k), st_Version = snd (srv.cell kv k)\<rparr>"

definition put_input :: "PutArgs \<Rightarrow> KvInput" where
  "put_input a = \<lparr>in_Op = 1, in_Key = pa_Key a, in_Value = pa_Value a, in_Version = pa_Version a\<rparr>"

definition put_output :: "Err \<Rightarrow> KvOutput" where
  "put_output e = \<lparr>out_Value = '''', out_Version = 0, out_Err = err_string e\<rparr>"

definition get_input :: "string \<Rightarrow> KvInput" where
  "get_input k = \<lparr>in_Op = 0, in_Key = k, in_Value = '''', in_Version = 0\<rparr>"

definition get_output :: "string \<Rightarrow> Tversion \<Rightarrow> Err \<Rightarrow> KvOutput" where
  "get_output v n e = \<lparr>out_Value = v, out_Version = n, out_Err = err_string e\<rparr>"

lemma kv_abs_init: "kv_abs MakeKVServer k = KvModel_Init"
  by (simp add: kv_abs_def KvModel_Init_def srv.cell_def kv_look_def MakeKVServer_def)

lemma kv_abs_put_other:
  "k' \<noteq> k \<Longrightarrow> kv_abs (snd (kv_put kv k v n)) k' = kv_abs kv k'"
  by (simp add: kv_abs_def srv.cell_put_other)

lemma kv_abs_put_OK:
  "fst (kv_put kv k v n) = OK \<Longrightarrow>
    kv_abs (snd (kv_put kv k v n)) k = \<lparr>st_Value = v, st_Version = n + 1\<rparr> \<and> st_Version (kv_abs kv k) = n"
  using srv.put_effect [of kv k v n] by (simp add: kv_abs_def srv.cell_put_OK)

lemma KVServer_Put_model:
  assumes "fst (kv_put kv (pa_Key args) (pa_Value args) (pa_Version args)) \<noteq> ErrNoKey"
  shows "KvModel_Step (kv_abs kv (pa_Key args)) (put_input args)
      (put_output (fst (kv_put kv (pa_Key args) (pa_Value args) (pa_Version args))))
    = (True, Some (kv_abs (snd (kv_put kv (pa_Key args) (pa_Value args) (pa_Version args))) (pa_Key args)))"
proof -
  let ?p = "kv_put kv (pa_Key args) (pa_Value args) (pa_Version args)"
  consider "fst ?p = OK" | "fst ?p = ErrVersion"
    using srv.put_err [of kv "pa_Key args" "pa_Value args" "pa_Version args"] assms by auto
  then show ?thesis
  proof cases
    case 1
    then show ?thesis using kv_abs_put_OK [OF 1]
      by (simp add: KvModel_Step_def put_input_def put_output_def)
  next
    case 2
    then have "snd (srv.cell kv (pa_Key args)) \<noteq> pa_Version args" by (rule srv.put_ErrVersion)
    moreover have "snd ?p = kv" using 2 by (simp add: srv.put_no_effect)
    ultimately show ?thesis using 2
      by (simp add: KvModel_Step_def put_input_def put_output_def kv_abs_def)
  qed
qed

text \<open>The model accepts \<open>ErrMaybe\<close> wherever it accepts anything, with the same next state.\<close>

lemma KvModel_Step_maybe:
  "KvModel_Step st (put_input args) (put_output e) = (True, st') \<Longrightarrow>
    KvModel_Step st (put_input args) (put_output ErrMaybe) = (True, st')"
  by (auto simp: KvModel_Step_def put_input_def put_output_def split: if_splits)

text \<open>
  The server refines the checker's model: whenever a \<open>Put\<close> replies anything but
  \<open>ErrNoKey\<close>, the model accepts that reply in the abstraction of the state before and moves to
  the abstraction of the state after, and every other key's abstract state is unchanged.
\<close>

lemma KVServer_Put_refines_KvModel:
  assumes "KVServer_Put kv args reply = (r, kv')" "pr_Err r \<noteq> ErrNoKey"
  shows "KvModel_Step (kv_abs kv (pa_Key args)) (put_input args) (put_output (pr_Err r))
      = (True, Some (kv_abs kv' (pa_Key args))) \<and>
    (k \<noteq> pa_Key args \<longrightarrow> kv_abs kv' k = kv_abs kv k)"
  using assms KVServer_Put_model [of kv args] by (auto simp: KVServer_Put_kv_put kv_abs_put_other)

lemma KVServer_Put_refines_KvModel_witness:
  "KvModel_Step (kv_abs MakeKVServer ''k'')
     (put_input \<lparr>pa_Key = ''k'', pa_Value = ''v'', pa_Version = 0\<rparr>) (put_output OK)
   = (True, Some (kv_abs (snd (KVServer_Put MakeKVServer
        \<lparr>pa_Key = ''k'', pa_Value = ''v'', pa_Version = 0\<rparr> \<lparr>pr_Err = ErrEmpty\<rparr>)) ''k''))"
  using KVServer_Put_refines_KvModel [of MakeKVServer "\<lparr>pa_Key = ''k'', pa_Value = ''v'', pa_Version = 0\<rparr>"
      "\<lparr>pr_Err = ErrEmpty\<rparr>" "\<lparr>pr_Err = OK\<rparr>"]
  by (simp add: KVServer_Put_def handlePut_def MakeKVServer_def)

text \<open>
  The model is stricter than the server on one reply: a \<open>Put\<close> of a missing key with a
  version other than 0 answers \<open>ErrNoKey\<close>, and no state of the model accepts that reply.
\<close>

lemma KvModel_rejects_ErrNoKey:
  "pr_Err (fst (KVServer_Put MakeKVServer \<lparr>pa_Key = k, pa_Value = v, pa_Version = 1\<rparr> reply)) = ErrNoKey \<and>
   \<not> fst (KvModel_Step st (put_input args) (put_output ErrNoKey))"
  by (simp add: KVServer_Put_def handlePut_def MakeKVServer_def KvModel_Step_def put_input_def put_output_def)

end
