(* ===== verification/KVClerk.thy ===== *)
theory KVClerk
  imports KVModel
begin

text \<open>
  The clerk of \<open>kvsrv1/client.go\<close>, which repeats an RPC until one attempt is answered. What
  the network and the other clients do is the argument of the loop: a list with one entry per
  attempt, holding the puts that other clients get executed before it and what becomes of it. The
  loop has no bound in the source; a schedule that ends before any attempt is answered leaves it
  running, which is \<^const>\<open>None\<close>.
\<close>

section \<open>The loops\<close>

text \<open>
  \<open>clnt.Call\<close> answers false when the request was lost before the server ran it and also when
  only the reply was lost; the two differ at the server alone.
\<close>

datatype delivery = ReqLost | ReplyLost | Delivered

type_synonym attempt = "PutArgs list \<times> delivery"

definition kv_run :: "PutArgs list \<Rightarrow> KVServer \<Rightarrow> KVServer" where
  "kv_run l kv = fold (\<lambda>a kv. snd (KVServer_Put kv a \<lparr>pr_Err = ErrEmpty\<rparr>)) l kv"

definition put_return :: "bool \<Rightarrow> Err \<Rightarrow> Err" where
  "put_return isRetried err = (if isRetried \<and> err = ErrVersion then ErrMaybe else err)"

fun Clerk_Put_loop :: "PutArgs \<Rightarrow> PutReply \<Rightarrow> bool \<Rightarrow> attempt list \<Rightarrow> KVServer \<Rightarrow> (Err \<times> KVServer) option" where
  "Clerk_Put_loop args reply isRetried [] kv = None"
| "Clerk_Put_loop args reply isRetried ((env, d) # rest) kv =
    (let kv1 = kv_run env kv in
     case d of
       ReqLost \<Rightarrow> Clerk_Put_loop args reply True rest kv1
     | ReplyLost \<Rightarrow> Clerk_Put_loop args reply True rest (snd (KVServer_Put kv1 args reply))
     | Delivered \<Rightarrow> (let (r, kv2) = KVServer_Put kv1 args reply
                    in Some (put_return isRetried (pr_Err r), kv2)))"

definition Clerk_Put :: "string \<Rightarrow> string \<Rightarrow> Tversion \<Rightarrow> attempt list \<Rightarrow> KVServer \<Rightarrow> (Err \<times> KVServer) option" where
  "Clerk_Put key val version sched kv =
     Clerk_Put_loop \<lparr>pa_Key = key, pa_Value = val, pa_Version = version\<rparr> \<lparr>pr_Err = ErrEmpty\<rparr> False sched kv"

definition get_return :: "GetReply \<Rightarrow> string \<times> Tversion \<times> Err" where
  "get_return reply = (case gr_Err reply of
      OK \<Rightarrow> (gr_Value reply, gr_Version reply, OK)
    | ErrNoKey \<Rightarrow> ('''', 0, ErrNoKey)
    | _ \<Rightarrow> ('''', 0, ErrEmpty))"

fun Clerk_Get_loop :: "GetArgs \<Rightarrow> GetReply \<Rightarrow> attempt list \<Rightarrow> KVServer \<Rightarrow> ((string \<times> Tversion \<times> Err) \<times> KVServer) option" where
  "Clerk_Get_loop args reply [] kv = None"
| "Clerk_Get_loop args reply ((env, d) # rest) kv =
    (let kv1 = kv_run env kv in
     if d = Delivered then Some (get_return (KVServer_Get kv1 args reply), kv1)
     else Clerk_Get_loop args reply rest kv1)"

definition Clerk_Get :: "string \<Rightarrow> attempt list \<Rightarrow> KVServer \<Rightarrow> ((string \<times> Tversion \<times> Err) \<times> KVServer) option" where
  "Clerk_Get key sched kv =
     Clerk_Get_loop \<lparr>ga_Key = key\<rparr> \<lparr>gr_Value = '''', gr_Version = 0, gr_Err = ErrEmpty\<rparr> sched kv"

section \<open>Lemmas\<close>

lemma kv_run_srv: "kv_run l kv = srv.run_puts l kv"
  by (simp add: kv_run_def srv.run_puts_def KVServer_Put_kv_put)

lemma kv_run_Nil [simp]: "kv_run [] kv = kv"
  by (simp add: kv_run_def)

lemma kv_run_append: "kv_run (l @ l') kv = kv_run l' (kv_run l kv)"
  by (simp add: kv_run_srv)

text \<open>The puts of the other clients up to and including the answered attempt.\<close>

fun env_of :: "attempt list \<Rightarrow> PutArgs list" where
  "env_of [] = []"
| "env_of ((env, d) # rest) = env @ (if d = Delivered then [] else env_of rest)"

abbreviation do_Put :: "PutArgs \<Rightarrow> KVServer \<Rightarrow> Err \<times> KVServer" where
  "do_Put a kv \<equiv> kv_put kv (pa_Key a) (pa_Value a) (pa_Version a)"

lemma Clerk_Put_loop_returns:
  "Clerk_Put_loop args reply b sched kv \<noteq> None \<longleftrightarrow> Delivered \<in> snd ` set sched"
  by (induction args reply b sched kv rule: Clerk_Put_loop.induct)
    (auto simp: Let_def split: delivery.splits prod.splits)

lemma Clerk_Get_loop_returns:
  "Clerk_Get_loop args reply sched kv \<noteq> None \<longleftrightarrow> Delivered \<in> snd ` set sched"
  by (induction args reply sched kv rule: Clerk_Get_loop.induct)
    (auto simp: Let_def, metis prod_cases3)

lemma Clerk_Get_loop_result:
  "Clerk_Get_loop args reply sched kv = Some (out, kv') \<Longrightarrow>
    kv' = kv_run (env_of sched) kv \<and> out = get_return (KVServer_Get kv' args reply)"
  by (induction args reply sched kv rule: Clerk_Get_loop.induct)
    (auto simp: Let_def kv_run_append split: if_splits)

text \<open>Once the put has been performed, no later attempt has an effect, and the reply is \<open>ErrMaybe\<close>.\<close>

lemma Clerk_Put_loop_performed:
  assumes "Clerk_Put_loop args reply True sched kv = Some (e, kv')"
    "kv = kv_run l kv0" "kv_look kv0 (pa_Key args) = Some (w, pa_Version args + 1)"
    "length l + length (env_of sched) < 2 ^ 64 - 1"
  shows "kv' = kv_run (env_of sched) kv \<and> e = ErrMaybe"
  using assms
proof (induction args reply "True" sched kv arbitrary: l rule: Clerk_Put_loop.induct)
  case (2 args reply env d rest kv)
  let ?kv1 = "kv_run env kv"
  have kv1: "?kv1 = kv_run (l @ env) kv0" using "2.prems"(2) by (simp add: kv_run_append)
  have len: "length (l @ env) < 2 ^ 64 - 1" using "2.prems"(4) by simp
  have stale: "do_Put args ?kv1 = (ErrVersion, ?kv1)"
    unfolding kv1 unfolding kv_run_srv using srv.stale_put [OF "2.prems"(3) len] by simp
  show ?case
  proof (cases d)
    case Delivered
    then show ?thesis using "2.prems"(1) stale by (auto simp: KVServer_Put_kv_put put_return_def)
  next
    case ReqLost
    with "2.hyps"(1) [OF refl ReqLost, of "l @ env"] "2.prems" kv1 show ?thesis
      by (simp add: kv_run_append)
  next
    case ReplyLost
    with "2.hyps"(2) [OF refl ReplyLost, of "l @ env"] "2.prems" kv1 stale show ?thesis
      by (simp add: kv_run_append KVServer_Put_kv_put)
  qed
qed simp

text \<open>
  The outcome of the loop is that of one put, at one moment between the other clients' puts, with
  \<open>ErrVersion\<close> or \<open>OK\<close> weakened to \<open>ErrMaybe\<close> only after a retry.
\<close>

definition performed_at :: "PutArgs \<Rightarrow> bool \<Rightarrow> PutArgs list \<Rightarrow> PutArgs list \<Rightarrow> KVServer \<Rightarrow> Err \<Rightarrow> KVServer \<Rightarrow> bool" where
  "performed_at args b E1 E2 kv e kv' \<longleftrightarrow>
     kv' = kv_run E2 (snd (do_Put args (kv_run E1 kv))) \<and>
     (e = fst (do_Put args (kv_run E1 kv)) \<or> b \<and> e = ErrMaybe \<and> fst (do_Put args (kv_run E1 kv)) \<noteq> ErrNoKey)"

lemma performed_at_prefix:
  "performed_at args b E1 E2 (kv_run env kv) e kv' \<Longrightarrow> performed_at args b (env @ E1) E2 kv e kv'"
  by (simp add: performed_at_def kv_run_append)

lemma Clerk_Put_loop_once:
  assumes "Clerk_Put_loop args reply b sched kv = Some (e, kv')"
    "length (env_of sched) < 2 ^ 64 - 1"
  shows "\<exists>E1 E2. E1 @ E2 = env_of sched \<and>
    performed_at args (b \<or> snd (hd sched) \<noteq> Delivered) E1 E2 kv e kv'"
  using assms
proof (induction args reply b sched kv rule: Clerk_Put_loop.induct)
  case (2 args reply b env d rest kv)
  let ?kv1 = "kv_run env kv"
  have retry: "\<exists>E1 E2. E1 @ E2 = env_of ((env, d) # rest) \<and> performed_at args True E1 E2 kv e kv'"
    if "\<exists>E1 E2. E1 @ E2 = env_of rest \<and> performed_at args True E1 E2 ?kv1 e kv'" "d \<noteq> Delivered"
    using that by (auto dest!: performed_at_prefix) (metis append.assoc)
  show ?case
  proof (cases d)
    case Delivered
    then have "e = put_return b (fst (do_Put args ?kv1))" "kv' = snd (do_Put args ?kv1)"
      using "2.prems"(1) by (auto simp: KVServer_Put_kv_put Let_def)
    then have "performed_at args b env [] kv e kv'"
      by (auto simp: performed_at_def put_return_def kv_run_def)
    then show ?thesis using Delivered by (intro exI [of _ env] exI [of _ "[]"]) simp
  next
    case ReqLost
    with "2.IH"(1) [OF refl ReqLost] "2.prems" retry show ?thesis by simp
  next
    case ReplyLost
    show ?thesis
    proof (cases "fst (do_Put args ?kv1) = OK")
      case True
      let ?kv2 = "snd (do_Put args ?kv1)"
      have "kv_look ?kv2 (pa_Key args) = Some (pa_Value args, pa_Version args + 1)"
        using srv.put_effect [OF True] by simp
      moreover have "Clerk_Put_loop args reply True rest ?kv2 = Some (e, kv')"
        using "2.prems"(1) ReplyLost by (simp add: KVServer_Put_kv_put)
      ultimately have "kv' = kv_run (env_of rest) ?kv2 \<and> e = ErrMaybe"
        using "2.prems"(2) ReplyLost
        by (intro Clerk_Put_loop_performed [where l = "[]" and kv0 = ?kv2]) (auto simp: kv_run_def)
      then have "performed_at args True env (env_of rest) kv e kv'"
        using True by (simp add: performed_at_def)
      then show ?thesis using ReplyLost by (intro exI [of _ env] exI [of _ "env_of rest"]) simp
    next
      case False
      then have "snd (KVServer_Put ?kv1 args reply) = ?kv1"
        by (simp add: KVServer_Put_kv_put srv.put_no_effect)
      with "2.IH"(2) [OF refl ReplyLost] "2.prems" ReplyLost retry show ?thesis by simp
    qed
  qed
qed simp

text \<open>What each answer tells the caller.\<close>

lemma put_return_iff:
  "put_return b e = OK \<longleftrightarrow> e = OK"
  "put_return b e = ErrVersion \<longleftrightarrow> e = ErrVersion \<and> \<not> b"
  by (auto simp: put_return_def)

lemma Clerk_Put_loop_OK:
  "Clerk_Put_loop args reply b sched kv = Some (e, kv') \<Longrightarrow> e = OK \<Longrightarrow>
    srv.cell kv' (pa_Key args) = (pa_Value args, pa_Version args + 1)"
  by (induction args reply b sched kv rule: Clerk_Put_loop.induct)
    (auto simp: Let_def KVServer_Put_kv_put put_return_iff srv.cell_put_OK split: delivery.splits)

lemma Clerk_Put_loop_ErrVersion:
  "Clerk_Put_loop args reply b sched kv = Some (e, kv') \<Longrightarrow> e = ErrVersion \<Longrightarrow>
    \<not> b \<and> kv' = kv_run (env_of sched) kv"
proof (induction args reply b sched kv rule: Clerk_Put_loop.induct)
  case (2 args reply b env d rest kv)
  have lost: False if "Clerk_Put_loop args reply True rest kv1 = Some (e, kv')" "d \<noteq> Delivered"
    "kv1 = kv_run env kv \<or> kv1 = snd (KVServer_Put (kv_run env kv) args reply)" for kv1
    using "2.IH"(1) [OF refl] "2.IH"(2) [OF refl] "2.prems" that by (cases d) (auto simp: Let_def)
  show ?case
  proof (cases d)
    case Delivered
    then have "fst (do_Put args (kv_run env kv)) = ErrVersion \<and> \<not> b"
      "kv' = snd (do_Put args (kv_run env kv))"
      using "2.prems" by (auto simp: KVServer_Put_kv_put put_return_iff Let_def)
    then show ?thesis using Delivered by (simp add: srv.put_no_effect)
  qed (use "2.prems" lost in auto)
qed simp

lemma put_not_maybe: "fst (kv_put kv k v n) \<noteq> ErrMaybe"
  using srv.put_err [of kv k v n] by auto

lemma Clerk_Put_loop_ErrMaybe:
  "Clerk_Put_loop args reply b sched kv = Some (e, kv') \<Longrightarrow> e = ErrMaybe \<Longrightarrow>
    b \<or> snd (hd sched) \<noteq> Delivered"
  by (induction args reply b sched kv rule: Clerk_Put_loop.induct)
    (auto simp: Let_def KVServer_Put_kv_put put_return_def put_not_maybe split: delivery.splits if_splits)

text \<open>One put of the model, at one moment among the other clients's puts.\<close>

lemma Clerk_Put_model_step:
  assumes "Clerk_Put key val version sched kv = Some (e, kv')" "e \<noteq> ErrNoKey"
    "length (env_of sched) < 2 ^ 64 - 1"
  shows "\<exists>E1 E2 kv1. E1 @ E2 = env_of sched \<and>
    kv1 = snd (KVServer_Put (kv_run E1 kv) \<lparr>pa_Key = key, pa_Value = val, pa_Version = version\<rparr> \<lparr>pr_Err = ErrEmpty\<rparr>) \<and>
    KvModel_Step (kv_abs (kv_run E1 kv) key)
      (put_input \<lparr>pa_Key = key, pa_Value = val, pa_Version = version\<rparr>) (put_output e)
      = (True, Some (kv_abs kv1 key)) \<and>
    kv' = kv_run E2 kv1"
proof -
  let ?a = "\<lparr>pa_Key = key, pa_Value = val, pa_Version = version\<rparr>"
  from Clerk_Put_loop_once [OF assms(1) [unfolded Clerk_Put_def] assms(3)]
  obtain E1 E2 b where E: "E1 @ E2 = env_of sched" and p: "performed_at ?a b E1 E2 kv e kv'" by blast
  let ?kv0 = "kv_run E1 kv"
  have ne: "fst (do_Put ?a ?kv0) \<noteq> ErrNoKey" using p assms(2) by (auto simp: performed_at_def)
  have step: "KvModel_Step (kv_abs ?kv0 key) (put_input ?a) (put_output (fst (do_Put ?a ?kv0)))
      = (True, Some (kv_abs (snd (do_Put ?a ?kv0)) key))"
    using KVServer_Put_model [of ?kv0 ?a] ne by simp
  have "e = fst (do_Put ?a ?kv0) \<or> e = ErrMaybe" using p by (auto simp: performed_at_def)
  then have "KvModel_Step (kv_abs ?kv0 key) (put_input ?a) (put_output e)
      = (True, Some (kv_abs (snd (do_Put ?a ?kv0)) key))"
    using step KvModel_Step_maybe [OF step] by auto
  then show ?thesis using p E
    by (intro exI [of _ E1] exI [of _ E2] exI [of _ "snd (do_Put ?a ?kv0)"])
      (simp add: performed_at_def KVServer_Put_kv_put)
qed

section \<open>Properties\<close>

text \<open>
  C37. Both calls return as soon as one attempt is answered, whatever else the network and the
  other clients do, and they never return before.
\<close>

theorem Clerk_returns:
  "(Clerk_Put key val version sched kv \<noteq> None \<longleftrightarrow> Delivered \<in> snd ` set sched) \<and>
   (Clerk_Get key sched kv \<noteq> None \<longleftrightarrow> Delivered \<in> snd ` set sched)"
  unfolding Clerk_Put_def Clerk_Get_def Clerk_Put_loop_returns Clerk_Get_loop_returns by simp

text \<open>
  C14. \<open>Put\<close> is linearizable although it repeats its request: in the presence of any puts of
  other clients (fewer than \<open>2 ^ 64 - 1\<close> of them, so that the version counter does not wrap
  round) the final state is that of performing the put once, at one moment between the other
  clients' puts, and the checker's model accepts at that moment the error the caller gets. The
  only error the model refuses is \<open>ErrNoKey\<close>.
\<close>

theorem Clerk_Put_linearizable:
  assumes "Clerk_Put key val version sched kv = Some (e, kv')" "e \<noteq> ErrNoKey"
    "length (env_of sched) < 2 ^ 64 - 1"
  shows "\<exists>E1 E2 kv1. E1 @ E2 = env_of sched \<and>
    kv1 = snd (KVServer_Put (kv_run E1 kv) \<lparr>pa_Key = key, pa_Value = val, pa_Version = version\<rparr> \<lparr>pr_Err = ErrEmpty\<rparr>) \<and>
    KvModel_Step (kv_abs (kv_run E1 kv) key)
      (put_input \<lparr>pa_Key = key, pa_Value = val, pa_Version = version\<rparr>) (put_output e)
      = (True, Some (kv_abs kv1 key)) \<and>
    kv' = kv_run E2 kv1"
  by (rule Clerk_Put_model_step [OF assms])

theorem Clerk_Put_linearizable_witness:
  "\<exists>E1 E2 kv1. E1 @ E2 = env_of [([], ReplyLost), ([], Delivered)] \<and>
    kv1 = snd (KVServer_Put (kv_run E1 MakeKVServer) \<lparr>pa_Key = ''k'', pa_Value = ''v'', pa_Version = 0\<rparr> \<lparr>pr_Err = ErrEmpty\<rparr>) \<and>
    KvModel_Step (kv_abs (kv_run E1 MakeKVServer) ''k'')
      (put_input \<lparr>pa_Key = ''k'', pa_Value = ''v'', pa_Version = 0\<rparr>) (put_output ErrMaybe)
      = (True, Some (kv_abs kv1 ''k'')) \<and>
    snd (the (Clerk_Put ''k'' ''v'' 0 [([], ReplyLost), ([], Delivered)] MakeKVServer)) = kv_run E2 kv1"
  by (rule Clerk_Put_linearizable)
    (simp_all add: Clerk_Put_def KVServer_Put_def handlePut_def MakeKVServer_def put_return_def)

text \<open>
  What the caller may conclude from the answer: \<open>OK\<close> means that the put was performed
  at the attempt that was answered, \<open>ErrVersion\<close> that it was performed at no attempt, and
  \<open>ErrMaybe\<close> is returned only when an attempt went unanswered.
\<close>

lemma Clerk_Put_answer:
  assumes "Clerk_Put key val version sched kv = Some (e, kv')"
  shows "(e = OK \<longrightarrow> srv.cell kv' key = (val, version + 1)) \<and>
    (e = ErrVersion \<longrightarrow> kv' = kv_run (env_of sched) kv) \<and>
    (e = ErrMaybe \<longrightarrow> snd (hd sched) \<noteq> Delivered)"
  using Clerk_Put_loop_OK [OF assms(1) [unfolded Clerk_Put_def]]
    Clerk_Put_loop_ErrVersion [OF assms(1) [unfolded Clerk_Put_def]]
    Clerk_Put_loop_ErrMaybe [OF assms(1) [unfolded Clerk_Put_def]] by auto

lemma Clerk_Put_answer_witness:
  "srv.cell (snd (the (Clerk_Put ''k'' ''v'' 0 [([], ReqLost), ([], Delivered)] MakeKVServer))) ''k'' = (''v'', 1)"
proof -
  have r: "Clerk_Put ''k'' ''v'' 0 [([], ReqLost), ([], Delivered)] MakeKVServer
      = Some (OK, snd (the (Clerk_Put ''k'' ''v'' 0 [([], ReqLost), ([], Delivered)] MakeKVServer)))"
    by (simp add: Clerk_Put_def KVServer_Put_def handlePut_def MakeKVServer_def put_return_def)
  show ?thesis using Clerk_Put_answer [OF r] by simp
qed

text \<open>
  \<open>Get\<close> returns the key's abstract value and version at the moment the answered attempt
  ran, with \<open>OK\<close> if the key exists and \<open>ErrNoKey\<close> if it does not, and it changes
  nothing; the checker's model accepts the answer.
\<close>

lemma Clerk_Get_linearizable:
  assumes "Clerk_Get key sched kv = Some ((v, n, e), kv')"
  shows "kv' = kv_run (env_of sched) kv \<and>
    v = st_Value (kv_abs kv' key) \<and> n = st_Version (kv_abs kv' key) \<and>
    e = (if KeyValueItems kv' key = None then ErrNoKey else OK) \<and>
    KvModel_Step (kv_abs kv' key) (get_input key) (get_output v n e) = (True, Some (kv_abs kv' key))"
proof -
  have kv': "kv' = kv_run (env_of sched) kv"
    and "(v, n, e) = get_return (KVServer_Get kv' \<lparr>ga_Key = key\<rparr> \<lparr>gr_Value = '''', gr_Version = 0, gr_Err = ErrEmpty\<rparr>)"
    using Clerk_Get_loop_result [OF assms [unfolded Clerk_Get_def]] by auto
  then have "v = st_Value (kv_abs kv' key) \<and> n = st_Version (kv_abs kv' key) \<and>
    e = (if KeyValueItems kv' key = None then ErrNoKey else OK)"
    by (auto simp: KVServer_Get_def get_return_def kv_abs_def srv.cell_def kv_look_def split: option.splits)
  then show ?thesis using kv' by (simp add: KvModel_Step_def get_input_def get_output_def)
qed

lemma Clerk_Get_linearizable_witness:
  "KvModel_Step (kv_abs MakeKVServer ''k'') (get_input ''k'') (get_output '''' 0 ErrNoKey)
    = (True, Some (kv_abs MakeKVServer ''k''))"
  using Clerk_Get_linearizable [of "''k''" "[([], ReqLost), ([], Delivered)]" MakeKVServer "''''" 0 ErrNoKey MakeKVServer]
  by (simp add: Clerk_Get_def KVServer_Get_def get_return_def MakeKVServer_def)

end
