(* ===== verification/KVAttempt.thy ===== *)
theory KVAttempt
  imports KVClerk
begin

text \<open>
  One attempt of the clerk's loops as a step of a client's program, for the programs that run
  many clerks against one server: the lock and the test clients. A program counter \<open>'p\<close> says
  where the client is; what an attempt does to the value and version of a key is stated once here.
\<close>

section \<open>Attempts\<close>

text \<open>The reply the clerk's \<open>Get\<close> hands back when an attempt is answered.\<close>

definition get_attempt :: "KVServer \<Rightarrow> string \<Rightarrow> string \<times> Tversion \<times> Err" where
  "get_attempt kv k = get_return (KVServer_Get kv \<lparr>ga_Key = k\<rparr> \<lparr>gr_Value = '''', gr_Version = 0, gr_Err = ErrEmpty\<rparr>)"

text \<open>
  An attempt of a put with outcome \<open>d\<close>: the clerk's loop, one iteration.
  \<open>pend\<close> is the pc while the put is pending and \<open>cont\<close> what the client does with the
  answer.
\<close>

definition put_attempt :: "string \<Rightarrow> string \<Rightarrow> Tversion \<Rightarrow> bool \<Rightarrow> (bool \<Rightarrow> 'p) \<Rightarrow> (Err \<Rightarrow> 'p) \<Rightarrow>
    delivery \<Rightarrow> KVServer \<Rightarrow> 'p \<times> KVServer" where
  "put_attempt k v n retried pend cont d kv = (case d of
      ReqLost \<Rightarrow> (pend True, kv)
    | ReplyLost \<Rightarrow> (pend True, snd (kv_put kv k v n))
    | Delivered \<Rightarrow> (case kv_put kv k v n of (e, kv') \<Rightarrow> (cont (put_return retried e), kv')))"

section \<open>What an attempt does to a key\<close>

lemma get_attempt_cell:
  "get_attempt kv k = (fst (srv.cell kv k), snd (srv.cell kv k), if kv_look kv k = None then ErrNoKey else OK)"
  by (auto simp: get_attempt_def KVServer_Get_look get_return_def srv.cell_def split: option.splits)

lemma cell_missing: "kv_look kv k = None \<Longrightarrow> srv.cell kv k = ('''', 0)"
  by (simp add: srv.cell_def)

lemma version_Suc: "unat (v :: Tversion) < 2 ^ 64 - 1 \<Longrightarrow> unat (v + 1) = Suc (unat v)"
  by (simp add: unat_word_ariths)

lemma version_less: "unat (v :: Tversion) < 2 ^ 64 - 1 \<Longrightarrow> u \<le> v \<Longrightarrow> u \<le> v + 1 \<and> u \<noteq> v + 1"
  using version_Suc [of v] by (auto simp: word_le_nat_alt)

text \<open>A put at a version that is not ahead either matches or is refused with \<open>ErrVersion\<close>.\<close>

lemma put_at_cell:
  assumes "srv.cell kv k = (w, n)" "p \<le> n"
  shows "if p = n then fst (kv_put kv k v p) = OK \<and> srv.cell (snd (kv_put kv k v p)) k = (v, n + 1)
    else kv_put kv k v p = (ErrVersion, kv)"
proof (cases "p = n")
  case True
  then have "fst (kv_put kv k v p) = OK" using assms by (intro srv.put_current_version) simp
  then show ?thesis using True by (simp add: srv.cell_put_OK)
next
  case False
  then have "kv_look kv k = Some (w, n)"
    using assms cell_missing [of kv k] by (auto simp: srv.cell_def split: option.splits)
  then show ?thesis using False by (simp add: srv.put_mismatch)
qed

lemma put_attempt_cell:
  assumes "srv.cell kv k = (w, n)" "p \<le> n"
    "put_attempt k v p r pend cont d kv = (pc', kv')"
  obtains (lost) "kv' = kv" "pc' = pend True" "d \<noteq> Delivered"
  | (performed) "p = n" "srv.cell kv' k = (v, n + 1)" "pc' = pend True \<and> d \<noteq> Delivered \<or> pc' = cont OK"
  | (stale) "p \<noteq> n" "kv' = kv" "pc' = cont (put_return r ErrVersion)"
  using put_at_cell [OF assms(1,2), of v] assms(3)
  by (cases d; cases "p = n"; cases "kv_put kv k v p")
    (auto simp: put_attempt_def put_return_def)

end
