(* ===== verification/KVHist.thy ===== *)
theory KVHist
  imports KVAttempt
begin

text \<open>
  Concurrent clients of the key/value server and the history they record: \<open>Get\<close>, \<open>Put\<close> and
  \<open>checkPorcupine\<close> of \<open>kvtest1/porcupine.go\<close> over the clerks of \<open>kvsrv1/client.go\<close>. Each process
  reads the clock, calls its clerk, whose attempts interleave with those of all other processes, reads
  the clock again and appends the operation. The checker is an argument; what it decides is
  linearizability with respect to the model of \<open>models1/kv.go\<close>.
\<close>

section \<open>Processes\<close>

datatype clerk_input = CGet string | CPut PutArgs

fun op_input :: "clerk_input \<Rightarrow> KvInput" where
  "op_input (CGet k) = get_input k"
| "op_input (CPut a) = put_input a"

datatype proc_pc = Idle | Calling int clerk_input int bool | Returned int clerk_input int KvOutput

record hist =
  hs_kv :: KVServer
  hs_pc :: "nat \<Rightarrow> proc_pc"
  hs_log :: "Operation list"
  hs_now :: int

definition hist_init :: hist where
  "hist_init = \<lparr>hs_kv = MakeKVServer, hs_pc = (\<lambda>_. Idle), hs_log = [], hs_now = 0\<rparr>"

text \<open>
  What happens, each at a time: a process starts an operation for a client, one attempt of its clerk,
  and the recording of the operation.
\<close>

datatype hist_event = Invoke nat int clerk_input int | Attempt_at nat delivery int | Record nat int

definition get_answer :: "KVServer \<Rightarrow> string \<Rightarrow> KvOutput" where
  "get_answer kv k = (case get_attempt kv k of (v, n, e) \<Rightarrow> get_output v n e)"

definition clerk_attempt :: "int \<Rightarrow> clerk_input \<Rightarrow> int \<Rightarrow> bool \<Rightarrow> delivery \<Rightarrow> KVServer \<Rightarrow> proc_pc \<times> KVServer" where
  "clerk_attempt cli inp st r d kv = (case inp of
      CGet k \<Rightarrow> (if d = Delivered then Returned cli inp st (get_answer kv k) else Calling cli inp st True, kv)
    | CPut a \<Rightarrow> put_attempt (pa_Key a) (pa_Value a) (pa_Version a) r (Calling cli inp st)
        (\<lambda>e. Returned cli inp st (put_output e)) d kv)"

fun hist_step :: "hist_event \<Rightarrow> hist \<Rightarrow> hist option" where
  "hist_step (Invoke p cli inp t) s =
     (if hs_now s \<le> t \<and> hs_pc s p = Idle then Some (s\<lparr>hs_pc := (hs_pc s)(p := Calling cli inp t False), hs_now := t\<rparr>) else None)"
| "hist_step (Attempt_at p d t) s =
     (case hs_pc s p of
        Calling cli inp st r \<Rightarrow> if hs_now s \<le> t then
          (let (pc', kv') = clerk_attempt cli inp st r d (hs_kv s)
           in Some (s\<lparr>hs_kv := kv', hs_pc := (hs_pc s)(p := pc'), hs_now := t\<rparr>)) else None
      | _ \<Rightarrow> None)"
| "hist_step (Record p t) s =
     (case hs_pc s p of
        Returned cli inp st out \<Rightarrow> if hs_now s \<le> t then
          Some (s\<lparr>hs_log := hs_log s @ [\<lparr>op_ClientId = cli, op_Input = op_input inp, op_Call = st, op_Output = out, op_Return = t\<rparr>],
                  hs_pc := (hs_pc s)(p := Idle), hs_now := t\<rparr>) else None
      | _ \<Rightarrow> None)"

fun hist_run :: "hist_event list \<Rightarrow> hist \<Rightarrow> hist option" where
  "hist_run [] s = Some s"
| "hist_run (e # es) s = (case hist_step e s of None \<Rightarrow> None | Some s' \<Rightarrow> hist_run es s')"

section \<open>Linearizability\<close>

text \<open>Running the model over operations, in an order that respects the real time of calls and returns.\<close>

fun replay :: "KvState \<Rightarrow> Operation list \<Rightarrow> KvState option" where
  "replay st [] = Some st"
| "replay st (oper # opers) = (case KvModel_Step st (op_Input oper) (op_Output oper) of
      (True, Some st') \<Rightarrow> replay st' opers | _ \<Rightarrow> None)"

definition respects_time :: "Operation list \<Rightarrow> bool" where
  "respects_time l \<longleftrightarrow> sorted_wrt (\<lambda>a b. \<not> op_Return b < op_Call a) l"

definition linearizable :: "Operation list \<Rightarrow> bool" where
  "linearizable h \<longleftrightarrow> (\<exists>l. mset l = mset h \<and> respects_time l \<and> replay KvModel_Init l \<noteq> None)"

text \<open>\<open>checkPorcupine\<close> without the files it writes; the checker partitions the history by key.\<close>

datatype CheckResult = Ok | Illegal | Unknown

definition checkPorcupine :: "(Operation list \<Rightarrow> CheckResult) \<Rightarrow> Operation list \<Rightarrow> unit outcome" where
  "checkPorcupine check opLog = (if check opLog = Illegal then Inl Fatal else Ret ())"

definition checker_sound :: "(Operation list \<Rightarrow> CheckResult) \<Rightarrow> bool" where
  "checker_sound check \<longleftrightarrow> (\<forall>h. (\<forall>part\<in>set (KvModel_Partition h). linearizable part) \<longrightarrow> check h \<noteq> Illegal)"

lemma replay_append: "replay st (a @ b) = Option.bind (replay st a) (\<lambda>st'. replay st' b)"
  by (induction a arbitrary: st) (auto split: prod.splits option.splits bool.splits)

section \<open>The order of the linearization\<close>

text \<open>
  An operation that has taken effect: when it did, whose it is, and whether it is still to be recorded,
  in which case its time of return is not yet known.
\<close>

record lin_entry =
  le_op :: Operation
  le_time :: int
  le_proc :: nat
  le_open :: bool

definition nokey :: "Operation \<Rightarrow> bool" where
  "nokey oper \<longleftrightarrow> in_Op (op_Input oper) = 1 \<and> out_Err (op_Output oper) = ''ErrNoKey''"

definition key_ops :: "string \<Rightarrow> lin_entry list \<Rightarrow> Operation list" where
  "key_ops k lin = filter (\<lambda>oper. op_key oper = k \<and> \<not> nokey oper) (map le_op lin)"

definition opens :: "nat \<Rightarrow> lin_entry list \<Rightarrow> lin_entry list" where
  "opens p lin = filter (\<lambda>e. le_open e \<and> le_proc e = p) lin"

definition entry_is :: "int \<Rightarrow> KvInput \<Rightarrow> int \<Rightarrow> KvOutput \<Rightarrow> lin_entry \<Rightarrow> bool" where
  "entry_is cli inp st out e \<longleftrightarrow> op_ClientId (le_op e) = cli \<and> op_Input (le_op e) = inp \<and> op_Call (le_op e) = st \<and> op_Output (le_op e) = out"

text \<open>A put that was executed but not answered: its version is used up, and the answer will be \<open>ErrMaybe\<close>.\<close>

definition used_up :: "nat \<Rightarrow> PutArgs \<Rightarrow> KVServer \<Rightarrow> bool" where
  "used_up n a kv \<longleftrightarrow> (\<exists>w i. kv_look kv (pa_Key a) = Some (w, pa_Version a + of_nat i) \<and> 1 \<le> i \<and> i \<le> n)"

fun proc_ok :: "nat \<Rightarrow> KVServer \<Rightarrow> int \<Rightarrow> lin_entry list \<Rightarrow> proc_pc \<Rightarrow> bool" where
  "proc_ok n kv now es Idle \<longleftrightarrow> es = []"
| "proc_ok n kv now es (Calling cli inp st r) \<longleftrightarrow> st \<le> now \<and> (es = [] \<or>
     (\<exists>a e. inp = CPut a \<and> r \<and> es = [e] \<and> entry_is cli (put_input a) st (put_output ErrMaybe) e \<and> used_up n a kv))"
| "proc_ok n kv now es (Returned cli inp st out) \<longleftrightarrow> (\<exists>e. es = [e] \<and> entry_is cli (op_input inp) st out e)"

definition times_ok :: "int \<Rightarrow> lin_entry list \<Rightarrow> bool" where
  "times_ok now lin \<longleftrightarrow> sorted (map le_time lin) \<and> (\<forall>e\<in>set lin. le_time e \<le> now \<and> op_Call (le_op e) \<le> le_time e \<and>
     (\<not> le_open e \<longrightarrow> le_time e \<le> op_Return (le_op e)))"

definition lin_ok :: "nat \<Rightarrow> lin_entry list \<Rightarrow> hist \<Rightarrow> bool" where
  "lin_ok n lin s \<longleftrightarrow> times_ok (hs_now s) lin \<and> (\<forall>k. replay KvModel_Init (key_ops k lin) = Some (kv_abs (hs_kv s) k)) \<and>
     mset (map le_op (filter (\<lambda>e. \<not> le_open e) lin)) = mset (hs_log s) \<and>
     (\<forall>p. proc_ok n (hs_kv s) (hs_now s) (opens p lin) (hs_pc s p))"

lemma lin_okD:
  assumes "lin_ok n lin s"
  shows "times_ok (hs_now s) lin" "replay KvModel_Init (key_ops k lin) = Some (kv_abs (hs_kv s) k)"
    "mset (map le_op (filter (\<lambda>e. \<not> le_open e) lin)) = mset (hs_log s)"
    "proc_ok n (hs_kv s) (hs_now s) (opens p lin) (hs_pc s p)"
  using assms by (simp_all add: lin_ok_def)

lemma opens_snoc: "opens p (lin @ [e]) = opens p lin @ (if le_open e \<and> le_proc e = p then [e] else [])"
  by (simp add: opens_def)

lemma key_ops_snoc:
  "key_ops k (lin @ [e]) = key_ops k lin @ (if op_key (le_op e) = k \<and> \<not> nokey (le_op e) then [le_op e] else [])"
  by (simp add: key_ops_def)

lemma times_ok_mono: "times_ok now lin \<Longrightarrow> now \<le> t \<Longrightarrow> times_ok t lin"
  by (auto simp: times_ok_def)

lemma times_ok_snoc:
  "times_ok now lin \<Longrightarrow> now \<le> t \<Longrightarrow> le_time e = t \<Longrightarrow> op_Call (le_op e) \<le> t \<Longrightarrow> le_open e \<Longrightarrow> times_ok t (lin @ [e])"
  by (fastforce simp: times_ok_def sorted_append)

text \<open>Another process's put moves a version forward by at most one.\<close>

lemma used_up_put: "used_up n a kv \<Longrightarrow> used_up (Suc n) a (snd (kv_put kv k v m))"
proof -
  assume "used_up n a kv"
  then obtain w i where i: "kv_look kv (pa_Key a) = Some (w, pa_Version a + of_nat i)" "1 \<le> i" "i \<le> n" by (auto simp: used_up_def)
  from srv.put_version [OF i(1), of k v m] obtain j w' where
    "j \<le> 1" "kv_look (snd (kv_put kv k v m)) (pa_Key a) = Some (w', pa_Version a + of_nat (i + j))" by (auto simp: add.assoc)
  then show ?thesis using i unfolding used_up_def by (intro exI [of _ w'] exI [of _ "i + j"]) auto
qed

lemma used_up_Suc: "used_up n a kv \<Longrightarrow> used_up (Suc n) a kv"
  unfolding used_up_def by (metis le_Suc_eq)

lemma used_up_stale:
  assumes "used_up n a kv" "n < 2 ^ 64 - 1"
  shows "kv_put kv (pa_Key a) (pa_Value a) (pa_Version a) = (ErrVersion, kv)"
proof -
  obtain w i where i: "kv_look kv (pa_Key a) = Some (w, pa_Version a + of_nat i)" "1 \<le> i" "i \<le> n" using assms(1) by (auto simp: used_up_def)
  have "unat (of_nat i :: 64 word) = i" using i assms(2) by (simp add: unat_of_nat take_bit_nat_eq_self)
  then have "(of_nat i :: 64 word) \<noteq> 0" using i(2) by (metis not_one_le_zero unat_0)
  then show ?thesis using i(1) by (simp add: srv.put_mismatch)
qed

lemma proc_ok_other: "proc_ok n kv now es pc \<Longrightarrow> now \<le> t \<Longrightarrow> proc_ok (Suc n) (snd (kv_put kv k v m)) t es pc"
  by (cases pc) (auto dest: used_up_put)

lemma proc_ok_same: "proc_ok n kv now es pc \<Longrightarrow> now \<le> t \<Longrightarrow> proc_ok (Suc n) kv t es pc"
  by (cases pc) (auto dest: used_up_Suc)
section \<open>Every step keeps a linearization\<close>

lemma lin_ok_Invoke:
  assumes "lin_ok n lin s" "hist_step (Invoke p cli inp t) s = Some s'"
  shows "lin_ok (Suc n) lin s'"
proof -
  have t: "hs_now s \<le> t" "hs_pc s p = Idle" and s': "s' = s\<lparr>hs_pc := (hs_pc s)(p := Calling cli inp t False), hs_now := t\<rparr>"
    using assms(2) by (auto split: if_splits)
  have "proc_ok (Suc n) (hs_kv s) t (opens q lin) (((hs_pc s)(p := Calling cli inp t False)) q)" for q
    using lin_okD(4) [OF assms(1), of q] proc_ok_same t by (cases "q = p") auto
  then show ?thesis
    using lin_okD(1-3) [OF assms(1)] times_ok_mono [OF _ t(1)] unfolding s' lin_ok_def by simp
qed

text \<open>A step of a process that changes neither the server nor the order.\<close>

lemma lin_ok_quiet:
  assumes "lin_ok n lin s" "hs_now s \<le> t" "proc_ok (Suc n) (hs_kv s) t (opens p lin) pc'"
  shows "lin_ok (Suc n) lin (s\<lparr>hs_kv := hs_kv s, hs_pc := (hs_pc s)(p := pc'), hs_now := t\<rparr>)"
proof -
  have "proc_ok (Suc n) (hs_kv s) t (opens q lin) (((hs_pc s)(p := pc')) q)" for q
    using lin_okD(4) [OF assms(1), of q] proc_ok_same assms(2,3) by (cases "q = p") auto
  then show ?thesis
    using lin_okD(1-3) [OF assms(1)] times_ok_mono [OF _ assms(2)] unfolding lin_ok_def by simp
qed

text \<open>A step at which an operation takes effect: it goes to the end of the order.\<close>

lemma lin_ok_effect:
  assumes "lin_ok n lin s" "hs_now s \<le> t" "opens p lin = []" "le_open e" "le_proc e = p" "le_time e = t" "op_Call (le_op e) \<le> t"
    "proc_ok (Suc n) kv' t [e] pc'" "kv' = snd (kv_put (hs_kv s) k v m) \<or> kv' = hs_kv s"
    "\<And>k. k \<noteq> op_key (le_op e) \<or> nokey (le_op e) \<Longrightarrow> kv_abs kv' k = kv_abs (hs_kv s) k"
    "\<not> nokey (le_op e) \<Longrightarrow> KvModel_Step (kv_abs (hs_kv s) (op_key (le_op e))) (op_Input (le_op e)) (op_Output (le_op e))
       = (True, Some (kv_abs kv' (op_key (le_op e))))"
  shows "lin_ok (Suc n) (lin @ [e]) (s\<lparr>hs_kv := kv', hs_pc := (hs_pc s)(p := pc'), hs_now := t\<rparr>)"
proof -
  have other: "proc_ok (Suc n) kv' t (opens q lin) (hs_pc s q)" for q
    using lin_okD(4) [OF assms(1), of q] proc_ok_other proc_ok_same assms(2,9) by metis
  have "proc_ok (Suc n) kv' t (opens q (lin @ [e])) (((hs_pc s)(p := pc')) q)" for q
    using other [of q] assms(3-5,8) by (cases "q = p") (auto simp: opens_snoc)
  moreover have "replay KvModel_Init (key_ops j (lin @ [e])) = Some (kv_abs kv' j)" for j
    using lin_okD(2) [OF assms(1), of j] assms(10) [of j] assms(11) by (auto simp: key_ops_snoc replay_append)
  moreover have "times_ok t (lin @ [e])" by (rule times_ok_snoc [OF lin_okD(1) [OF assms(1)] assms(2,6,7,4)])
  moreover have "mset (map le_op (filter (\<lambda>e. \<not> le_open e) (lin @ [e]))) = mset (hs_log s)"
    using lin_okD(3) [OF assms(1)] assms(4) by simp
  ultimately show ?thesis unfolding lin_ok_def by simp
qed

text \<open>The entry for an operation that takes effect now.\<close>

definition new_entry :: "nat \<Rightarrow> int \<Rightarrow> KvInput \<Rightarrow> int \<Rightarrow> KvOutput \<Rightarrow> int \<Rightarrow> lin_entry" where
  "new_entry p cli inp st out t = \<lparr>le_op = \<lparr>op_ClientId = cli, op_Input = inp, op_Call = st, op_Output = out, op_Return = 0\<rparr>,
     le_time = t, le_proc = p, le_open = True\<rparr>"

lemma new_entry_simps [simp]:
  "le_open (new_entry p cli inp st out t)" "le_proc (new_entry p cli inp st out t) = p" "le_time (new_entry p cli inp st out t) = t"
  "op_Call (le_op (new_entry p cli inp st out t)) = st" "op_Input (le_op (new_entry p cli inp st out t)) = inp"
  "op_Output (le_op (new_entry p cli inp st out t)) = out" "entry_is cli inp st out (new_entry p cli inp st out t)"
  by (simp_all add: new_entry_def entry_is_def)

lemma lin_ok_get:
  assumes "lin_ok n lin s" "hs_pc s p = Calling cli (CGet k) st r" "hs_now s \<le> t"
    "clerk_attempt cli (CGet k) st r d (hs_kv s) = (pc', kv')"
  shows "\<exists>lin'. lin_ok (Suc n) lin' (s\<lparr>hs_kv := kv', hs_pc := (hs_pc s)(p := pc'), hs_now := t\<rparr>)"
proof -
  have o: "opens p lin = []" "st \<le> hs_now s" using lin_okD(4) [OF assms(1), of p] assms(2) by auto
  have kv': "kv' = hs_kv s" using assms(4) by (auto simp: clerk_attempt_def)
  show ?thesis
  proof (cases "d = Delivered")
    case True
    let ?out = "get_answer (hs_kv s) k"
    have pc': "pc' = Returned cli (CGet k) st ?out" using assms(4) True by (auto simp: clerk_attempt_def)
    have "out_Value ?out = st_Value (kv_abs (hs_kv s) k)"
      by (simp add: get_answer_def get_attempt_cell get_output_def kv_abs_def)
    then have step: "KvModel_Step (kv_abs (hs_kv s) k) (get_input k) ?out = (True, Some (kv_abs (hs_kv s) k))"
      by (simp add: KvModel_Step_def get_input_def)
    have "lin_ok (Suc n) (lin @ [new_entry p cli (get_input k) st ?out t]) (s\<lparr>hs_kv := kv', hs_pc := (hs_pc s)(p := pc'), hs_now := t\<rparr>)"
      using o assms(3) step by (intro lin_ok_effect [OF assms(1,3) o(1)]) (auto simp: kv' pc' get_input_def)
    then show ?thesis by blast
  next
    case False
    then have "pc' = Calling cli (CGet k) st True" using assms(4) by (auto simp: clerk_attempt_def)
    then show ?thesis using lin_ok_quiet [OF assms(1,3), of p pc'] o assms(3) unfolding kv' by auto
  qed
qed

lemma lin_ok_put_again:
  assumes "lin_ok n lin s" "hs_pc s p = Calling cli (CPut a) st r" "hs_now s \<le> t" "n < 2 ^ 64 - 1" "opens p lin \<noteq> []"
    "clerk_attempt cli (CPut a) st r d (hs_kv s) = (pc', kv')"
  shows "lin_ok (Suc n) lin (s\<lparr>hs_kv := kv', hs_pc := (hs_pc s)(p := pc'), hs_now := t\<rparr>)"
proof -
  obtain e where e: "r" "opens p lin = [e]" "entry_is cli (put_input a) st (put_output ErrMaybe) e" "used_up n a (hs_kv s)" "st \<le> hs_now s"
    using lin_okD(4) [OF assms(1), of p] assms(2,5) by auto
  note stale = used_up_stale [OF e(4) assms(4)]
  have kv': "kv' = hs_kv s" using assms(6) stale by (cases d) (auto simp: clerk_attempt_def put_attempt_def)
  have "proc_ok (Suc n) (hs_kv s) t (opens p lin) pc'"
    using assms(3,6) stale e used_up_Suc [OF e(4)] by (cases d) (auto simp: clerk_attempt_def put_attempt_def put_return_def)
  from lin_ok_quiet [OF assms(1,3) this] show ?thesis unfolding kv' .
qed

lemma lin_ok_put_first:
  assumes "lin_ok n lin s" "hs_pc s p = Calling cli (CPut a) st r" "hs_now s \<le> t" "opens p lin = []"
    "clerk_attempt cli (CPut a) st r d (hs_kv s) = (pc', kv')"
  shows "\<exists>lin'. lin_ok (Suc n) lin' (s\<lparr>hs_kv := kv', hs_pc := (hs_pc s)(p := pc'), hs_now := t\<rparr>)"
proof -
  let ?kv = "hs_kv s" and ?put = "kv_put (hs_kv s) (pa_Key a) (pa_Value a) (pa_Version a)"
  have st: "st \<le> hs_now s" using lin_okD(4) [OF assms(1), of p] assms(2) by auto
  have model: "KvModel_Step (kv_abs ?kv (pa_Key a)) (put_input a) (put_output e) = (True, Some (kv_abs (snd ?put) (pa_Key a)))"
    if "fst ?put \<noteq> ErrNoKey" "e = fst ?put \<or> e = ErrMaybe" for e
    using KVServer_Put_model [of ?kv a] KvModel_Step_maybe that by blast
  have key: "in_Key (put_input a) = pa_Key a" by (simp add: put_input_def)
  have other: "kv_abs (snd ?put) j = kv_abs ?kv j" if "j \<noteq> pa_Key a" for j using that by (rule kv_abs_put_other)
  have nk: "nokey (le_op (new_entry p cli (put_input a) st (put_output e) t)) \<longleftrightarrow> e = ErrNoKey" for e
    by (cases e) (simp_all add: nokey_def put_input_def put_output_def)
  consider (lost) "kv' = ?kv" "pc' = Calling cli (CPut a) st True"
    | (performed) "kv' = snd ?put" "pc' = Calling cli (CPut a) st True" "fst ?put = OK"
    | (answered) "kv' = snd ?put" "pc' = Returned cli (CPut a) st (put_output (put_return r (fst ?put)))"
    using assms(5) srv.put_no_effect [of ?kv "pa_Key a" "pa_Value a" "pa_Version a"]
    by (cases d; cases "fst ?put = OK") (auto simp: clerk_attempt_def put_attempt_def split_beta)
  then show ?thesis
  proof cases
    case lost
    then show ?thesis using lin_ok_quiet [OF assms(1,3), of p pc'] st assms(3,4) by auto
  next
    case performed
    have "used_up (Suc n) a kv'" unfolding used_up_def performed(1)
      using srv.put_effect [OF performed(3)] by (intro exI [of _ "pa_Value a"] exI [of _ 1]) simp
    then have "lin_ok (Suc n) (lin @ [new_entry p cli (put_input a) st (put_output ErrMaybe) t])
        (s\<lparr>hs_kv := kv', hs_pc := (hs_pc s)(p := pc'), hs_now := t\<rparr>)"
      using st assms(3) model [of ErrMaybe] performed other nk [of ErrMaybe]
      by (intro lin_ok_effect [OF assms(1,3,4), where k = "pa_Key a" and v = "pa_Value a" and m = "pa_Version a"]) (auto simp: key)
    then show ?thesis by blast
  next
    case answered
    let ?e = "put_return r (fst ?put)"
    have e: "?e = fst ?put \<or> ?e = ErrMaybe" "?e = ErrNoKey \<longleftrightarrow> fst ?put = ErrNoKey" by (auto simp: put_return_def)
    have same: "kv' = ?kv" if "?e = ErrNoKey" using that e(2) answered(1) srv.put_no_effect [of ?kv] by (metis Err.distinct(1))
    have "lin_ok (Suc n) (lin @ [new_entry p cli (put_input a) st (put_output ?e) t])
        (s\<lparr>hs_kv := kv', hs_pc := (hs_pc s)(p := pc'), hs_now := t\<rparr>)"
      using st assms(3) model [of ?e] answered other nk [of ?e] e same
      by (intro lin_ok_effect [OF assms(1,3,4), where k = "pa_Key a" and v = "pa_Value a" and m = "pa_Version a"]) (auto simp: key)
    then show ?thesis by blast
  qed
qed

text \<open>Recording fills in the time of return; the order stays.\<close>

definition close_entry :: "int \<Rightarrow> lin_entry \<Rightarrow> lin_entry" where
  "close_entry t e = e\<lparr>le_op := (le_op e)\<lparr>op_Return := t\<rparr>, le_open := False\<rparr>"

lemma replay_cong: "map (\<lambda>oper. (op_Input oper, op_Output oper)) a = map (\<lambda>oper. (op_Input oper, op_Output oper)) b \<Longrightarrow> replay st a = replay st b"
proof (induction a arbitrary: b st)
  case (Cons x a)
  then obtain y b' where "b = y # b'" "op_Input y = op_Input x" "op_Output y = op_Output x"
    "map (\<lambda>oper. (op_Input oper, op_Output oper)) a = map (\<lambda>oper. (op_Input oper, op_Output oper)) b'" by (cases b) auto
  then show ?case using Cons.IH by (auto split: prod.splits option.splits bool.splits)
qed simp

lemma lin_ok_Record:
  assumes "lin_ok n lin s" "hist_step (Record p t) s = Some s'"
  shows "\<exists>lin'. lin_ok (Suc n) lin' s'"
proof -
  obtain cli inp st out where pc: "hs_pc s p = Returned cli inp st out" and t: "hs_now s \<le> t"
    and s': "s' = s\<lparr>hs_log := hs_log s @ [\<lparr>op_ClientId = cli, op_Input = op_input inp, op_Call = st, op_Output = out, op_Return = t\<rparr>],
                  hs_pc := (hs_pc s)(p := Idle), hs_now := t\<rparr>"
    using assms(2) by (auto split: proc_pc.splits if_splits)
  obtain e where e: "opens p lin = [e]" "entry_is cli (op_input inp) st out e" using lin_okD(4) [OF assms(1), of p] pc by auto
  obtain a b where lin: "lin = a @ e # b" and ab: "opens p a = []" "opens p b = []" and eo: "le_open e" "le_proc e = p"
  proof -
    from e(1) obtain a b where "lin = a @ e # b" "\<forall>u\<in>set a. \<not> (le_open u \<and> le_proc u = p)" "le_open e \<and> le_proc e = p"
      "[] = filter (\<lambda>e. le_open e \<and> le_proc e = p) b" unfolding opens_def filter_eq_Cons_iff by blast
    then show ?thesis by (intro that [of a b]) (simp_all add: opens_def filter_empty_conv)
  qed
  let ?e = "close_entry t e" and ?l = "a @ close_entry t e # b"
  have op: "le_op ?e = \<lparr>op_ClientId = cli, op_Input = op_input inp, op_Call = st, op_Output = out, op_Return = t\<rparr>"
    using e(2) by (simp add: close_entry_def entry_is_def)
  have tm: "times_ok t ?l"
    using times_ok_mono [OF lin_okD(1) [OF assms(1)] t] by (auto simp: times_ok_def lin close_entry_def)
  have "replay KvModel_Init (key_ops k ?l) = replay KvModel_Init (key_ops k lin)" for k
    by (rule replay_cong) (auto simp: key_ops_def lin close_entry_def nokey_def)
  then have rp: "replay KvModel_Init (key_ops k ?l) = Some (kv_abs (hs_kv s) k)" for k using lin_okD(2) [OF assms(1)] by simp
  have lg: "mset (map le_op (filter (\<lambda>e. \<not> le_open e) ?l)) = mset (hs_log s @ [le_op ?e])"
    using lin_okD(3) [OF assms(1)] eo by (simp add: lin close_entry_def)
  have same: "opens q ?l = opens q lin" if "q \<noteq> p" for q using that eo by (simp add: opens_def lin close_entry_def)
  have mine: "opens p ?l = []" using ab by (simp add: opens_def close_entry_def)
  have "proc_ok (Suc n) (hs_kv s) t (opens q ?l) (((hs_pc s)(p := Idle)) q)" for q
    using lin_okD(4) [OF assms(1), of q] proc_ok_same t same mine by (cases "q = p") auto
  then have "lin_ok (Suc n) ?l s'" using tm rp lg unfolding lin_ok_def s' op by simp
  then show ?thesis by blast
qed

lemma lin_ok_step:
  assumes "lin_ok n lin s" "hist_step ev s = Some s'" "n < 2 ^ 64 - 1"
  shows "\<exists>lin'. lin_ok (Suc n) lin' s'"
proof (cases ev)
  case (Attempt_at p d t)
  obtain cli inp st r where pc: "hs_pc s p = Calling cli inp st r" and t: "hs_now s \<le> t"
    using assms(2) Attempt_at by (auto split: proc_pc.splits if_splits)
  obtain pc' kv' where at: "clerk_attempt cli inp st r d (hs_kv s) = (pc', kv')" by fastforce
  have s': "s' = s\<lparr>hs_kv := kv', hs_pc := (hs_pc s)(p := pc'), hs_now := t\<rparr>" using assms(2) Attempt_at pc t at by simp
  show ?thesis
  proof (cases inp)
    case (CGet k)
    then show ?thesis using lin_ok_get [OF assms(1) _ t] pc at unfolding s' by blast
  next
    case (CPut a)
    then show ?thesis
      using lin_ok_put_first [OF assms(1) _ t] lin_ok_put_again [OF assms(1) _ t assms(3)] pc at unfolding s' by blast
  qed
next
  case (Invoke p cli inp t)
  then show ?thesis using lin_ok_Invoke assms(1,2) by blast
next
  case (Record p t)
  then show ?thesis using lin_ok_Record assms(1,2) by blast
qed

lemma lin_ok_run:
  assumes "lin_ok n lin s" "hist_run es s = Some s'" "n + length es < 2 ^ 64"
  shows "\<exists>lin'. lin_ok (n + length es) lin' s'"
  using assms
proof (induction es arbitrary: n lin s)
  case (Cons e es)
  obtain s1 where s1: "hist_step e s = Some s1" "hist_run es s1 = Some s'" using Cons.prems(2) by (auto split: option.splits)
  have "n < 2 ^ 64 - 1" using Cons.prems(3) by simp
  from lin_ok_step [OF Cons.prems(1) s1(1) this] obtain lin1 where "lin_ok (Suc n) lin1 s1" by blast
  from Cons.IH [OF this s1(2)] Cons.prems(3) show ?case by simp
qed auto

lemma lin_ok_init: "lin_ok 0 [] hist_init"
  by (simp add: lin_ok_def hist_init_def times_ok_def key_ops_def opens_def kv_abs_init)

section \<open>The recorded history is linearizable\<close>

text \<open>An order of all operations restricted to a key is a linearization of that key's part of the history.\<close>

lemma part_linearizable:
  assumes "lin_ok n lin s" "\<forall>p. hs_pc s p = Idle" "\<forall>oper\<in>set (hs_log s). \<not> nokey oper"
  shows "linearizable (filter (\<lambda>v. op_key v = k) (hs_log s))"
proof -
  have closed: "\<not> le_open e" if "e \<in> set lin" for e
  proof
    assume "le_open e"
    then have "e \<in> set (opens (le_proc e) lin)" using that by (simp add: opens_def)
    then show False using lin_okD(4) [OF assms(1), of "le_proc e"] assms(2) by simp
  qed
  then have "filter (\<lambda>e. \<not> le_open e) lin = lin" by (simp add: filter_id_conv)
  then have ms: "mset (map le_op lin) = mset (hs_log s)" using lin_okD(3) [OF assms(1)] by simp
  have "set (map le_op lin) = set (hs_log s)" by (rule mset_eq_setD [OF ms])
  then have key: "key_ops k lin = filter (\<lambda>v. op_key v = k) (map le_op lin)"
    unfolding key_ops_def using assms(3) by (intro filter_cong) auto
  have "sorted_wrt (\<lambda>a b. \<not> op_Return (le_op b) < op_Call (le_op a)) lin"
  proof (rule sorted_wrt_mono_rel [of _ "\<lambda>a b. le_time a \<le> le_time b"])
    fix a b assume "a \<in> set lin" "b \<in> set lin" "le_time a \<le> le_time b"
    then have "op_Call (le_op a) \<le> le_time a" "le_time b \<le> op_Return (le_op b)"
      using lin_okD(1) [OF assms(1)] closed by (auto simp: times_ok_def)
    then show "\<not> op_Return (le_op b) < op_Call (le_op a)" using \<open>le_time a \<le> le_time b\<close> by linarith
  next
    show "sorted_wrt (\<lambda>a b. le_time a \<le> le_time b) lin" using lin_okD(1) [OF assms(1)] by (simp add: times_ok_def sorted_map)
  qed
  then have "respects_time (map le_op lin)" by (simp add: respects_time_def sorted_wrt_map)
  then have "respects_time (key_ops k lin)" unfolding key respects_time_def by (rule sorted_wrt_filter)
  moreover have "mset (key_ops k lin) = mset (filter (\<lambda>v. op_key v = k) (hs_log s))" unfolding key using ms by (metis mset_filter)
  moreover have "replay KvModel_Init (key_ops k lin) \<noteq> None" using lin_okD(2) [OF assms(1)] by simp
  ultimately show ?thesis unfolding linearizable_def by blast
qed

text \<open>
  C1. The history that concurrent clients record is linearizable, and the test's check passes. Any
  number of processes call \<open>Get\<close> and \<open>Put\<close> on one server; their clerks' attempts interleave in any way
  and requests and replies are lost in any way, so that puts are repeated; each operation is recorded
  with the times before its call and after its return. When all operations have been recorded, every
  part into which the checker's model splits the history, one for each key, has an order that respects
  those times and that the model accepts; so \<open>checkPorcupine\<close> does not fail the test, for every
  checker that rejects only histories without such orders. The run has fewer than \<open>2 ^ 64\<close> steps, so
  that no version wraps round, and no put was answered \<open>ErrNoKey\<close>, which the model does not know.
\<close>

theorem history_linearizable:
  assumes "hist_run es hist_init = Some s" "length es < 2 ^ 64" "\<forall>p. hs_pc s p = Idle"
    and "\<forall>oper\<in>set (hs_log s). \<not> nokey oper"
  shows "(\<forall>part\<in>set (KvModel_Partition (hs_log s)). linearizable part) \<and>
    (\<forall>check. checker_sound check \<longrightarrow> checkPorcupine check (hs_log s) = Ret ())"
proof -
  obtain n lin where "lin_ok n lin s" using lin_ok_run [OF lin_ok_init assms(1)] assms(2) by auto
  from part_linearizable [OF this assms(3,4)]
  have "\<forall>part\<in>set (KvModel_Partition (hs_log s)). linearizable part" by (auto simp: KvModel_Partition_correct)
  then show ?thesis by (auto simp: checker_sound_def checkPorcupine_def)
qed

definition two_clients :: "hist_event list" where
  "two_clients = [Invoke 0 0 (CPut \<lparr>pa_Key = ''k'', pa_Value = ''a'', pa_Version = 0\<rparr>) 1,
     Invoke 1 1 (CGet ''k'') 2, Attempt_at 0 ReplyLost 3, Attempt_at 1 Delivered 4, Attempt_at 0 Delivered 5, Record 0 6, Record 1 7]"

theorem history_linearizable_witness:
  "\<exists>s. hist_run two_clients hist_init = Some s \<and> length (hs_log s) = 2 \<and> checkPorcupine (\<lambda>h. Unknown) (hs_log s) = Ret () \<and>
    (\<exists>part\<in>set (KvModel_Partition (hs_log s)). length part = 2 \<and> linearizable part)"
proof -
  obtain s where s: "hist_run two_clients hist_init = Some s" and lg: "hs_log s =
      [\<lparr>op_ClientId = 0, op_Input = put_input \<lparr>pa_Key = ''k'', pa_Value = ''a'', pa_Version = 0\<rparr>, op_Call = 1,
        op_Output = put_output ErrMaybe, op_Return = 6\<rparr>,
       \<lparr>op_ClientId = 1, op_Input = get_input ''k'', op_Call = 2, op_Output = get_output ''a'' 1 OK, op_Return = 7\<rparr>]"
    and idle: "\<forall>p. hs_pc s p = Idle"
    by (simp add: two_clients_def hist_init_def clerk_attempt_def put_attempt_def kv_put_def KVServer_Put_def handlePut_def
        MakeKVServer_def put_return_def get_answer_def get_attempt_def KVServer_Get_def get_return_def)
  have nk: "\<forall>oper\<in>set (hs_log s). \<not> nokey oper" by (simp add: lg nokey_def put_input_def put_output_def get_input_def)
  have h: "(\<forall>part\<in>set (KvModel_Partition (hs_log s)). linearizable part) \<and>
    (\<forall>check. checker_sound check \<longrightarrow> checkPorcupine check (hs_log s) = Ret ())"
    by (rule history_linearizable [OF s _ idle nk]) (simp add: two_clients_def)
  have "KvModel_Partition (hs_log s) = [hs_log s]"
    by (simp add: KvModel_Partition_correct lg put_input_def get_input_def)
  then have "\<exists>part\<in>set (KvModel_Partition (hs_log s)). length part = 2 \<and> linearizable part" using h by (simp add: lg)
  moreover have "checkPorcupine (\<lambda>h. Unknown) (hs_log s) = Ret ()" using h by (simp add: checker_sound_def)
  ultimately show ?thesis using s lg by auto
qed


end
