(* ===== verification/KVLock.thy ===== *)
theory KVLock
  imports KVAttempt
begin

text \<open>
  The distributed lock of \<open>kvsrv1/lock/lock.go\<close>. Any number of clients run
  \<open>Acquire\<close> and \<open>Release\<close> against one server; every RPC attempt of every client is one
  step, so all interleavings, lost requests and lost replies are runs of the step relation. A
  client's program counter names the call it is in and holds its local variables.
\<close>

section \<open>The client's code between two RPCs\<close>

datatype lock_pc =
    Outside
  | AcquireGet
  | AcquirePut Tversion bool
  | Held
  | ReleaseGet
  | ReleasePut Tversion bool

record Lock =
  LockName :: string
  Lock_Id :: string

text \<open>The identity is \<open>kvtest.RandValue(12)\<close>; the random string is an argument.\<close>

definition MakeLock :: "string \<Rightarrow> string \<Rightarrow> Lock" where
  "MakeLock rand lockname = \<lparr>LockName = lockname, Lock_Id = rand\<rparr>"

definition acquire_get :: "Lock \<Rightarrow> string \<times> Tversion \<times> Err \<Rightarrow> lock_pc" where
  "acquire_get lk res = (case res of (val0, ver0, err) \<Rightarrow>
     let (val, ver) = (if err = ErrNoKey then ('''', 0) else (val0, ver0)) in
     if val = Lock_Id lk then Held
     else if val \<noteq> '''' then AcquireGet
     else AcquirePut ver False)"

definition acquire_put :: "Err \<Rightarrow> lock_pc" where
  "acquire_put err = (if err = OK then Held else AcquireGet)"

definition release_get :: "Lock \<Rightarrow> string \<times> Tversion \<times> Err \<Rightarrow> lock_pc" where
  "release_get lk res = (case res of (val, ver, err) \<Rightarrow>
     if err \<noteq> OK \<or> val \<noteq> Lock_Id lk then Outside else ReleasePut ver False)"

definition release_put :: "Err \<Rightarrow> lock_pc" where
  "release_put err = (if err = OK \<or> err = ErrMaybe then Outside else ReleaseGet)"

section \<open>The step relation\<close>

record lock_state =
  ls_kv :: KVServer
  ls_pc :: "nat \<Rightarrow> lock_pc"

definition lock_init :: "lock_state" where
  "lock_init = \<lparr>ls_kv = MakeKVServer, ls_pc = (\<lambda>_. Outside)\<rparr>"

text \<open>
  The next program counter and server state of a client, as a function of its program counter and
  of what the network does with its attempt. A client outside or holding the lock may call either
  function.
\<close>

datatype lock_action = CallAcquire | CallRelease | Attempt delivery

fun lock_client :: "Lock \<Rightarrow> lock_action \<Rightarrow> lock_pc \<Rightarrow> KVServer \<Rightarrow> (lock_pc \<times> KVServer) option" where
  "lock_client lk CallAcquire Outside kv = Some (AcquireGet, kv)"
| "lock_client lk CallAcquire Held kv = Some (AcquireGet, kv)"
| "lock_client lk CallRelease Outside kv = Some (ReleaseGet, kv)"
| "lock_client lk CallRelease Held kv = Some (ReleaseGet, kv)"
| "lock_client lk (Attempt d) AcquireGet kv =
     Some (if d = Delivered then acquire_get lk (get_attempt kv (LockName lk)) else AcquireGet, kv)"
| "lock_client lk (Attempt d) (AcquirePut ver r) kv =
     Some (put_attempt (LockName lk) (Lock_Id lk) ver r (AcquirePut ver) acquire_put d kv)"
| "lock_client lk (Attempt d) ReleaseGet kv =
     Some (if d = Delivered then release_get lk (get_attempt kv (LockName lk)) else ReleaseGet, kv)"
| "lock_client lk (Attempt d) (ReleasePut ver r) kv =
     Some (put_attempt (LockName lk) '''' ver r (ReleasePut ver) release_put d kv)"
| "lock_client lk _ _ kv = None"

inductive lock_step :: "(nat \<Rightarrow> Lock) \<Rightarrow> lock_state \<Rightarrow> lock_state \<Rightarrow> bool" for locks where
  client: "lock_client (locks c) act (ls_pc s c) (ls_kv s) = Some (pc', kv') \<Longrightarrow>
    lock_step locks s \<lparr>ls_kv = kv', ls_pc = (ls_pc s)(c := pc')\<rparr>"
| other_key: "\<forall>c. pa_Key a \<noteq> LockName (locks c) \<Longrightarrow>
    lock_step locks s (s\<lparr>ls_kv := kv_run [a] (ls_kv s)\<rparr>)"

text \<open>Runs carry the number of their steps: it bounds the version counter.\<close>

inductive lock_run :: "(nat \<Rightarrow> Lock) \<Rightarrow> nat \<Rightarrow> lock_state \<Rightarrow> bool" for locks where
  start: "lock_run locks 0 lock_init"
| step: "lock_run locks n s \<Longrightarrow> lock_step locks s s' \<Longrightarrow> lock_run locks (Suc n) s'"

section \<open>The invariant\<close>

text \<open>
  One lock: every client uses the same name and has an identity of its own that is not empty. What
  a client's program counter implies about the value and version under the lock's key:
\<close>

definition same_lock :: "string \<Rightarrow> (nat \<Rightarrow> Lock) \<Rightarrow> bool" where
  "same_lock k locks \<longleftrightarrow> (\<forall>c. LockName (locks c) = k \<and> Lock_Id (locks c) \<noteq> '''') \<and>
     (\<forall>c d. Lock_Id (locks c) = Lock_Id (locks d) \<longrightarrow> c = d)"

fun pc_ok :: "string \<Rightarrow> lock_pc \<Rightarrow> string \<Rightarrow> Tversion \<Rightarrow> bool" where
  "pc_ok i Outside w n \<longleftrightarrow> w \<noteq> i"
| "pc_ok i AcquireGet w n \<longleftrightarrow> True"
| "pc_ok i (AcquirePut v r) w n \<longleftrightarrow> v \<le> n \<and> (v = n \<longrightarrow> w = '''')"
| "pc_ok i Held w n \<longleftrightarrow> w = i"
| "pc_ok i ReleaseGet w n \<longleftrightarrow> True"
| "pc_ok i (ReleasePut v r) w n \<longleftrightarrow> v \<le> n \<and> (v = n \<longrightarrow> w = i) \<and> (v \<noteq> n \<longrightarrow> r \<and> w \<noteq> i)"

definition lock_inv :: "string \<Rightarrow> (nat \<Rightarrow> Lock) \<Rightarrow> nat \<Rightarrow> lock_state \<Rightarrow> bool" where
  "lock_inv k locks n s \<longleftrightarrow> (let (w, v) = srv.cell (ls_kv s) k in
     unat v \<le> n \<and> (\<forall>c. pc_ok (Lock_Id (locks c)) (ls_pc s c) w v))"

text \<open>
  What one client's action does to the lock's cell: nothing, or the next version with the value
  changed from the empty string to the client's identity or back.
\<close>

definition cell_move :: "string \<Rightarrow> string \<times> Tversion \<Rightarrow> string \<times> Tversion \<Rightarrow> bool" where
  "cell_move i c c' \<longleftrightarrow> c' = c \<or>
     (snd c' = snd c + 1 \<and> fst c \<in> {'''', i} \<and> fst c' \<in> {'''', i})"

lemma lock_client_ok:
  assumes "srv.cell kv (LockName lk) = (w, n)" "unat n < 2 ^ 64 - 1" "Lock_Id lk \<noteq> ''''"
    "pc_ok (Lock_Id lk) pc w n" "lock_client lk act pc kv = Some (pc', kv')"
    "srv.cell kv' (LockName lk) = (w', n')"
  shows "pc_ok (Lock_Id lk) pc' w' n' \<and> cell_move (Lock_Id lk) (w, n) (w', n')"
proof (cases pc)
  case (AcquirePut v r)
  with assms(5) obtain d where p: "put_attempt (LockName lk) (Lock_Id lk) v r (AcquirePut v) acquire_put d kv = (pc', kv')"
    by (cases act) auto
  have v: "v \<le> n" "v = n \<longrightarrow> w = ''''" using assms(4) AcquirePut by auto
  show ?thesis using v assms(1,3,6) version_less [OF assms(2), of n]
    by (cases rule: put_attempt_cell [OF assms(1) v(1) p])
      (auto simp: cell_move_def acquire_put_def put_return_def)
next
  case (ReleasePut v r)
  with assms(5) obtain d where p: "put_attempt (LockName lk) '''' v r (ReleasePut v) release_put d kv = (pc', kv')"
    by (cases act) auto
  have v: "v \<le> n" "v = n \<longrightarrow> w = Lock_Id lk" "v \<noteq> n \<longrightarrow> r \<and> w \<noteq> Lock_Id lk"
    using assms(4) ReleasePut by auto
  show ?thesis using v assms(1,3,6) version_less [OF assms(2), of n]
    by (cases rule: put_attempt_cell [OF assms(1) v(1) p])
      (auto simp: cell_move_def release_put_def put_return_def)
qed (use assms in \<open>cases act; auto simp: cell_move_def acquire_get_def release_get_def get_attempt_cell
       Let_def cell_missing split: if_splits\<close>)+

lemma pc_ok_others:
  assumes "pc_ok j pc w n" "cell_move i (w, n) (w', n')" "j \<noteq> i" "j \<noteq> ''''" "unat n < 2 ^ 64 - 1"
  shows "pc_ok j pc w' n'"
  using assms version_less [OF assms(5)] by (cases pc) (auto simp: cell_move_def)

lemma lock_inv_init: "same_lock k locks \<Longrightarrow> lock_inv k locks 0 lock_init"
  by (auto simp: lock_inv_def lock_init_def same_lock_def srv.cell_def kv_look_def MakeKVServer_def) (metis)

lemma lock_inv_step:
  assumes "same_lock k locks" "lock_inv k locks m s" "lock_step locks s s'" "m < 2 ^ 64 - 1"
  shows "lock_inv k locks (Suc m) s'"
  using assms(3)
proof (cases rule: lock_step.cases)
  case (client c act pc' kv')
  obtain w n where c: "srv.cell (ls_kv s) k = (w, n)" by fastforce
  obtain w' n' where c': "srv.cell kv' k = (w', n')" by fastforce
  have inv: "unat n \<le> m" "pc_ok (Lock_Id (locks d)) (ls_pc s d) w n" for d
    using assms(2) c by (auto simp: lock_inv_def)
  have n: "unat n < 2 ^ 64 - 1" using inv(1) assms(4) by linarith
  have k: "LockName (locks c) = k" "Lock_Id (locks d) \<noteq> ''''" for d
    using assms(1) by (auto simp: same_lock_def)
  have ok: "pc_ok (Lock_Id (locks c)) pc' w' n'" "cell_move (Lock_Id (locks c)) (w, n) (w', n')"
    using lock_client_ok [of "ls_kv s" "locks c" w n "ls_pc s c" act pc' kv' w' n'] c c' n inv client(2) k
    by auto
  have "pc_ok (Lock_Id (locks d)) (ls_pc s d) w' n'" if "d \<noteq> c" for d
    using pc_ok_others [OF inv(2) ok(2) _ k(2) n] that assms(1) by (auto simp: same_lock_def)
  moreover have "unat n' \<le> Suc m"
    using ok(2) inv(1) version_Suc [OF n] by (auto simp: cell_move_def)
  ultimately show ?thesis using client(1) ok(1) c' by (simp add: lock_inv_def)
next
  case (other_key a)
  have "pa_Key a \<noteq> k" using other_key(2) assms(1) by (auto simp: same_lock_def)
  then have "srv.cell (ls_kv s') k = srv.cell (ls_kv s) k"
    using other_key(1) by (simp add: kv_run_srv srv.cell_put_other)
  then show ?thesis using assms(2) other_key(1) by (auto simp: lock_inv_def)
qed

lemma lock_run_inv:
  "lock_run locks n s \<Longrightarrow> same_lock k locks \<Longrightarrow> n < 2 ^ 64 \<Longrightarrow> lock_inv k locks n s"
  by (induction rule: lock_run.induct) (auto intro: lock_inv_init lock_inv_step)

section \<open>Properties\<close>

text \<open>
  C4. Mutual exclusion: in every run of fewer than \<open>2 ^ 64\<close> RPC attempts, with every
  interleaving of the clients and every loss of requests and replies, at most one client holds the
  lock; and the client that holds it is the one whose identity the server stores.
\<close>

theorem lock_mutual_exclusion:
  assumes "lock_run locks n s" "same_lock k locks" "n < 2 ^ 64" "ls_pc s c = Held"
  shows "(\<forall>d. ls_pc s d = Held \<longrightarrow> d = c) \<and> fst (srv.cell (ls_kv s) k) = Lock_Id (locks c)"
proof -
  obtain w v where "srv.cell (ls_kv s) k = (w, v)" by fastforce
  then have "pc_ok (Lock_Id (locks d)) (ls_pc s d) w v" "srv.cell (ls_kv s) k = (w, v)" for d
    using lock_run_inv [OF assms(1-3)] by (auto simp: lock_inv_def)
  then show ?thesis using assms(2,4) by (metis pc_ok.simps(4) same_lock_def fst_conv)
qed

definition two_locks :: "nat \<Rightarrow> Lock" where
  "two_locks c = MakeLock (itoa (int c)) ''l''"

lemma two_locks_same: "same_lock ''l'' two_locks"
  by (auto simp: same_lock_def two_locks_def MakeLock_def)

definition one_holder :: lock_state where
  "one_holder = \<lparr>ls_kv = snd (kv_put MakeKVServer ''l'' (itoa 0) 0), ls_pc = (\<lambda>_. Outside)(0 := Held)\<rparr>"

lemma one_holder_run: "lock_run two_locks 3 one_holder"
proof -
  have s0: "lock_run two_locks 0 lock_init" by (rule lock_run.start)
  have "lock_step two_locks lock_init \<lparr>ls_kv = MakeKVServer, ls_pc = (\<lambda>_. Outside)(0 := AcquireGet)\<rparr>"
    using lock_step.client [of two_locks 0 CallAcquire lock_init] by (simp add: lock_init_def)
  from lock_run.step [OF s0 this]
  have s1: "lock_run two_locks 1 \<lparr>ls_kv = MakeKVServer, ls_pc = (\<lambda>_. Outside)(0 := AcquireGet)\<rparr>" by simp
  have "lock_step two_locks \<lparr>ls_kv = MakeKVServer, ls_pc = (\<lambda>_. Outside)(0 := AcquireGet)\<rparr>
      \<lparr>ls_kv = MakeKVServer, ls_pc = (\<lambda>_. Outside)(0 := AcquirePut 0 False)\<rparr>"
    using lock_step.client [of two_locks 0 "Attempt Delivered"
        "\<lparr>ls_kv = MakeKVServer, ls_pc = (\<lambda>_. Outside)(0 := AcquireGet)\<rparr>"]
    by (simp add: get_attempt_cell srv.cell_def kv_look_def MakeKVServer_def acquire_get_def two_locks_def MakeLock_def
        itoa_ne_Nil [symmetric])
  from lock_run.step [OF s1 this]
  have s2: "lock_run two_locks 2 \<lparr>ls_kv = MakeKVServer, ls_pc = (\<lambda>_. Outside)(0 := AcquirePut 0 False)\<rparr>"
    by (simp add: numeral_2_eq_2)
  have "lock_step two_locks \<lparr>ls_kv = MakeKVServer, ls_pc = (\<lambda>_. Outside)(0 := AcquirePut 0 False)\<rparr> one_holder"
    using lock_step.client [of two_locks 0 "Attempt Delivered"
        "\<lparr>ls_kv = MakeKVServer, ls_pc = (\<lambda>_. Outside)(0 := AcquirePut 0 False)\<rparr>"]
    by (simp add: put_attempt_def one_holder_def two_locks_def MakeLock_def acquire_put_def
        put_return_def kv_put_eq handlePut_def MakeKVServer_def)
  from lock_run.step [OF s2 this] show ?thesis by (simp add: numeral_3_eq_3 numeral_2_eq_2)
qed

theorem lock_mutual_exclusion_witness:
  "ls_pc one_holder 1 \<noteq> Held \<and> fst (srv.cell (ls_kv one_holder) ''l'') = Lock_Id (two_locks 0)"
  using lock_mutual_exclusion [OF one_holder_run two_locks_same, of 0]
  by (auto simp add: one_holder_def)

text \<open>
  \<open>Release\<close> is right to return on \<open>ErrMaybe\<close>, and to return without a put when the
  value is not its own: whenever a client is outside (it never called \<open>Acquire\<close>, or its
  \<open>Release\<close> has returned) the server does not store its identity, so the lock is not left
  behind held by a client that released it.
\<close>

lemma lock_released:
  assumes "lock_run locks n s" "same_lock k locks" "n < 2 ^ 64" "ls_pc s c = Outside"
  shows "fst (srv.cell (ls_kv s) k) \<noteq> Lock_Id (locks c)"
  using lock_run_inv [OF assms(1-3)] assms(4)
  by (auto simp: lock_inv_def split: prod.splits dest!: spec [of _ c])

lemma lock_released_witness: "fst (srv.cell (ls_kv one_holder) ''l'') \<noteq> Lock_Id (two_locks 1)"
  by (rule lock_released [OF one_holder_run two_locks_same]) (simp_all add: one_holder_def)

text \<open>A client that runs alone for some actions.\<close>

fun lock_alone :: "Lock \<Rightarrow> lock_action list \<Rightarrow> lock_pc \<times> KVServer \<Rightarrow> (lock_pc \<times> KVServer) option" where
  "lock_alone lk [] x = Some x"
| "lock_alone lk (a # as) (pc, kv) = (case lock_client lk a pc kv of None \<Rightarrow> None | Some x \<Rightarrow> lock_alone lk as x)"

lemma acquire_free:
  assumes "srv.cell kv (LockName lk) = ('''', n)" "Lock_Id lk \<noteq> ''''"
  shows "\<exists>kv'. lock_alone lk [Attempt Delivered, Attempt Delivered] (AcquireGet, kv) = Some (Held, kv')"
proof -
  have "acquire_get lk (get_attempt kv (LockName lk)) = AcquirePut n False"
    using assms cell_missing [of kv "LockName lk"] by (auto simp: acquire_get_def get_attempt_cell)
  moreover have "fst (kv_put kv (LockName lk) (Lock_Id lk) n) = OK"
    using assms by (intro srv.put_current_version) simp
  ultimately show ?thesis
    by (cases "kv_put kv (LockName lk) (Lock_Id lk) n")
      (auto simp: put_attempt_def put_return_def acquire_put_def)
qed

lemma release_held:
  assumes "srv.cell kv (LockName lk) = (Lock_Id lk, n)" "Lock_Id lk \<noteq> ''''"
  shows "\<exists>kv'. lock_alone lk [CallRelease, Attempt Delivered, Attempt Delivered] (Held, kv) = Some (Outside, kv') \<and>
    fst (srv.cell kv' (LockName lk)) = ''''"
proof -
  have "release_get lk (get_attempt kv (LockName lk)) = ReleasePut n False"
    using assms cell_missing [of kv "LockName lk"]
    by (cases "kv_look kv (LockName lk)") (auto simp: release_get_def get_attempt_cell)
  moreover have ok: "fst (kv_put kv (LockName lk) '''' n) = OK"
    using assms by (intro srv.put_current_version) simp
  ultimately show ?thesis using srv.cell_put_OK [OF ok]
    by (cases "kv_put kv (LockName lk) '''' n")
      (auto simp: put_attempt_def put_return_def release_put_def)
qed

text \<open>
  C36. Neither call can block on a free network: from every state of a run, if the lock is free, a
  client in \<open>Acquire\<close> holds it after its next two attempts are answered; and a holder that
  calls \<open>Release\<close> is outside, with the lock free, after two.
\<close>

theorem lock_progress:
  assumes "lock_run locks n s" "same_lock k locks" "n < 2 ^ 64"
  shows "(fst (srv.cell (ls_kv s) k) = '''' \<and> ls_pc s c = AcquireGet \<longrightarrow>
      (\<exists>kv'. lock_alone (locks c) [Attempt Delivered, Attempt Delivered] (ls_pc s c, ls_kv s) = Some (Held, kv'))) \<and>
    (ls_pc s c = Held \<longrightarrow>
      (\<exists>kv'. lock_alone (locks c) [CallRelease, Attempt Delivered, Attempt Delivered] (ls_pc s c, ls_kv s)
          = Some (Outside, kv') \<and> fst (srv.cell kv' k) = ''''))"
proof -
  obtain w v where cell: "srv.cell (ls_kv s) k = (w, v)" by fastforce
  have ok: "pc_ok (Lock_Id (locks c)) (ls_pc s c) w v"
    using lock_run_inv [OF assms(1-3)] cell by (simp add: lock_inv_def)
  have lk: "LockName (locks c) = k" "Lock_Id (locks c) \<noteq> ''''"
    using assms(2) by (auto simp: same_lock_def)
  show ?thesis
    using acquire_free [of "ls_kv s" "locks c" v] release_held [of "ls_kv s" "locks c" v] cell ok lk
    by (auto simp del: lock_alone.simps)
qed

theorem lock_progress_witness:
  "\<exists>kv'. lock_alone (two_locks 0) [CallRelease, Attempt Delivered, Attempt Delivered] (Held, ls_kv one_holder)
     = Some (Outside, kv') \<and> fst (srv.cell kv' ''l'') = ''''"
  using lock_progress [OF one_holder_run two_locks_same, of 0]
  by (simp add: one_holder_def del: lock_alone.simps)

end
