(* ===== verification/Labrpc.thy ===== *)
theory Labrpc
  imports GoStr
begin

text \<open>
  The simulated network of \<open>labrpc/labrpc.go\<close>: the table of client ends, connections and
  servers, the dispatch of a request to a service's method, and what the network does with one
  request, from the caller's \<open>Call\<close> to its answer. Random numbers and the state the network
  is found in at each later look are arguments, so a theorem covers every draw and every
  interleaving. Messages are byte strings; the encoder is an argument of the call. Waiting times
  are not modelled beyond the numbers that are drawn for them.
\<close>

section \<open>Data\<close>

type_synonym name = string
type_synonym bytes = string

text \<open>Servers are pointers in Go: the network refers to them by address and compares addresses.\<close>

type_synonym addr = nat

record reqMsg =
  rq_endname :: name
  rq_svcMeth :: string
  rq_args :: bytes

record replyMsg =
  rp_ok :: bool
  rp_reply :: bytes

definition failed :: replyMsg where
  "failed = \<lparr>rp_ok = False, rp_reply = []\<rparr>"

record Network =
  reliable :: bool
  longDelays :: bool
  longReordering :: bool
  ends :: "name list"
  enabled :: "name \<rightharpoonup> bool"
  servers :: "name \<rightharpoonup> addr option"
  connections :: "name \<rightharpoonup> name option"
  nw_count :: "32 word"
  nw_bytes :: "64 word"

text \<open>A method decodes its arguments, runs on the receiver's state and encodes its reply.\<close>

record 's Service =
  svc_name :: string
  svc_methods :: "string \<rightharpoonup> (bytes \<Rightarrow> 's \<Rightarrow> bytes \<times> 's)"

record 's Server =
  rs_services :: "string \<rightharpoonup> 's Service"
  rs_count :: int
  rs_dispatchf :: "(string \<Rightarrow> bytes \<Rightarrow> 's \<Rightarrow> (bytes \<times> bool) \<times> 's) option"

section \<open>The network table\<close>

definition MakeNetwork :: Network where
  "MakeNetwork = \<lparr>reliable = True, longDelays = False, longReordering = False, ends = [], enabled = Map.empty,
     servers = Map.empty, connections = Map.empty, nw_count = 0, nw_bytes = 0\<rparr>"

definition Reliable :: "bool \<Rightarrow> Network \<Rightarrow> Network" where
  "Reliable yes rn = rn\<lparr>reliable := yes\<rparr>"

definition IsReliable :: "Network \<Rightarrow> bool" where
  "IsReliable rn = reliable rn"

definition LongReordering :: "bool \<Rightarrow> Network \<Rightarrow> Network" where
  "LongReordering yes rn = rn\<lparr>longReordering := yes\<rparr>"

definition LongDelays :: "bool \<Rightarrow> Network \<Rightarrow> Network" where
  "LongDelays yes rn = rn\<lparr>longDelays := yes\<rparr>"

definition IsLongDelays :: "Network \<Rightarrow> bool" where
  "IsLongDelays rn = longDelays rn"

text \<open>Reading a missing entry of a Go map gives the zero value.\<close>

definition is_enabled :: "Network \<Rightarrow> name \<Rightarrow> bool" where
  "is_enabled rn e = (enabled rn e = Some True)"

definition server_at :: "Network \<Rightarrow> name \<Rightarrow> addr option" where
  "server_at rn s = (case servers rn s of None \<Rightarrow> None | Some a \<Rightarrow> a)"

record end_info =
  ei_enabled :: bool
  ei_servername :: "name option"
  ei_server :: "addr option"
  ei_reliable :: bool
  ei_longreordering :: bool

definition readEndnameInfo :: "name \<Rightarrow> Network \<Rightarrow> end_info" where
  "readEndnameInfo e rn =
     (let sn = (case connections rn e of None \<Rightarrow> None | Some x \<Rightarrow> x) in
      \<lparr>ei_enabled = is_enabled rn e, ei_servername = sn,
       ei_server = (case sn of None \<Rightarrow> None | Some s \<Rightarrow> server_at rn s),
       ei_reliable = reliable rn, ei_longreordering = longReordering rn\<rparr>)"

definition isServerDead :: "name \<Rightarrow> name \<Rightarrow> addr option \<Rightarrow> Network \<Rightarrow> bool" where
  "isServerDead e sn server rn = (is_enabled rn e = False \<or> server_at rn sn \<noteq> server)"

definition MakeEnd :: "name \<Rightarrow> Network \<Rightarrow> Network outcome" where
  "MakeEnd e rn =
     (if e \<in> set (ends rn) then Inl Fatal
      else Ret (rn\<lparr>ends := e # ends rn, enabled := (enabled rn)(e \<mapsto> False),
                   connections := (connections rn)(e \<mapsto> None)\<rparr>))"

definition LookupEnd :: "name \<Rightarrow> Network \<Rightarrow> name outcome" where
  "LookupEnd e rn = (if e \<notin> set (ends rn) then Inl Fatal else Ret e)"

definition DeleteEnd :: "name \<Rightarrow> Network \<Rightarrow> Network outcome" where
  "DeleteEnd e rn =
     (if e \<notin> set (ends rn) then Inl Fatal
      else Ret (rn\<lparr>ends := removeAll e (ends rn), enabled := (enabled rn)(e := None),
                   connections := (connections rn)(e := None)\<rparr>))"

definition AddServer :: "name \<Rightarrow> addr \<Rightarrow> Network \<Rightarrow> Network" where
  "AddServer sn rs rn = rn\<lparr>servers := (servers rn)(sn \<mapsto> Some rs)\<rparr>"

definition DeleteServer :: "name \<Rightarrow> Network \<Rightarrow> Network" where
  "DeleteServer sn rn = rn\<lparr>servers := (servers rn)(sn \<mapsto> None)\<rparr>"

definition Connect :: "name \<Rightarrow> name \<Rightarrow> Network \<Rightarrow> Network" where
  "Connect e sn rn = rn\<lparr>connections := (connections rn)(e \<mapsto> Some sn)\<rparr>"

definition Enable :: "name \<Rightarrow> bool \<Rightarrow> Network \<Rightarrow> Network" where
  "Enable e b rn = rn\<lparr>enabled := (enabled rn)(e \<mapsto> b)\<rparr>"

definition GetCount :: "name \<Rightarrow> Network \<Rightarrow> (addr \<Rightarrow> 's Server) \<Rightarrow> int outcome" where
  "GetCount sn rn heap = (case server_at rn sn of None \<Rightarrow> Inl Panic | Some a \<Rightarrow> Ret (rs_count (heap a)))"

definition GetTotalCount :: "Network \<Rightarrow> int" where
  "GetTotalCount rn = sint (nw_count rn)"

definition GetTotalBytes :: "Network \<Rightarrow> int" where
  "GetTotalBytes rn = sint (nw_bytes rn)"

section \<open>Servers and services\<close>

definition MakeServer :: "'s Server" where
  "MakeServer = \<lparr>rs_services = Map.empty, rs_count = 0, rs_dispatchf = None\<rparr>"

definition SetDispatch :: "(string \<Rightarrow> bytes \<Rightarrow> 's \<Rightarrow> (bytes \<times> bool) \<times> 's) \<Rightarrow> 's Server \<Rightarrow> 's Server" where
  "SetDispatch f rs = rs\<lparr>rs_dispatchf := Some f\<rparr>"

definition AddService :: "'s Service \<Rightarrow> 's Server \<Rightarrow> 's Server" where
  "AddService svc rs = rs\<lparr>rs_services := (rs_services rs)(svc_name svc \<mapsto> svc)\<rparr>"

definition Service_dispatch :: "'s Service \<Rightarrow> string \<Rightarrow> reqMsg \<Rightarrow> 's \<Rightarrow> (replyMsg \<times> 's) outcome" where
  "Service_dispatch svc methname req st = (case svc_methods svc methname of
      None \<Rightarrow> Inl Fatal
    | Some f \<Rightarrow> (case f (rq_args req) st of (rep, st') \<Rightarrow> Ret (\<lparr>rp_ok = True, rp_reply = rep\<rparr>, st')))"

definition Server_dispatch :: "reqMsg \<Rightarrow> 's Server \<Rightarrow> 's \<Rightarrow> (replyMsg \<times> 's Server \<times> 's) outcome" where
  "Server_dispatch req rs st =
     (let rs' = rs\<lparr>rs_count := rs_count rs + 1\<rparr>;
          dot = LastIndex (rq_svcMeth req) CHR ''.'' in
      if dot < 0 then Inl Panic
      else let serviceName = take (nat dot) (rq_svcMeth req);
               methodName = drop (nat (dot + 1)) (rq_svcMeth req)
      in case rs_dispatchf rs' of
           Some f \<Rightarrow> (case f (rq_svcMeth req) (rq_args req) st of ((rep, ok), st') \<Rightarrow>
                       Ret (\<lparr>rp_ok = ok, rp_reply = rep\<rparr>, rs', st'))
         | None \<Rightarrow> (case rs_services rs' serviceName of
             None \<Rightarrow> Inl Fatal
           | Some svc \<Rightarrow> (case Service_dispatch svc methodName req st of
               Inl e \<Rightarrow> Inl e
             | Inr (rep, st') \<Rightarrow> Ret (rep, rs', st'))))"

text \<open>The exported \<open>Dispatch\<close>, for requests that come in from another process.\<close>

definition Dispatch :: "string \<Rightarrow> string \<Rightarrow> bytes \<Rightarrow> 's Server \<Rightarrow> 's \<Rightarrow> ((bytes \<times> bool) \<times> 's Server \<times> 's) outcome" where
  "Dispatch svcMeth clnt args rs st =
     (case Server_dispatch \<lparr>rq_endname = clnt, rq_svcMeth = svcMeth, rq_args = args\<rparr> rs st of
        Inl e \<Rightarrow> Inl e
      | Inr (rep, rs', st') \<Rightarrow> Ret ((rp_reply rep, rp_ok rep), rs', st'))"

section \<open>One request\<close>

text \<open>What the network's goroutine does on receipt, before it starts \<open>processReq\<close>.\<close>

definition count_req :: "reqMsg \<Rightarrow> Network \<Rightarrow> Network" where
  "count_req req rn = rn\<lparr>nw_count := nw_count rn + 1, nw_bytes := nw_bytes rn + of_nat (length (rq_args req))\<rparr>"

definition SHORTDELAY :: int where "SHORTDELAY = 27"
definition LONGDELAY :: int where "LONGDELAY = 7000"
definition MAXDELAY :: int where "MAXDELAY = LONGDELAY + 100"

text \<open>The random numbers one request draws, each in the range of the call that draws it.\<close>

record draws =
  d_short :: int
  d_dropReq :: int
  d_dropRep :: int
  d_reorder :: int
  d_reorderMs :: int
  d_timeout :: int

definition wf_draws :: "draws \<Rightarrow> bool" where
  "wf_draws d \<longleftrightarrow> 0 \<le> d_short d \<and> 0 \<le> d_dropReq d \<and> 0 \<le> d_dropRep d \<and> 0 \<le> d_reorder d \<and> d_reorder d < 900 \<and>
     0 \<le> d_reorderMs d \<and> d_reorderMs d < 2000 \<and> 0 \<le> d_timeout d"

text \<open>
  Waiting for the handler: at each turn either its reply is there or 100 ms have passed and the
  network, as it is found then, is asked whether the server is gone. \<^const>\<open>None\<close> is a wait that
  has not ended.
\<close>

datatype turn = Replied | Elapsed Network

fun await :: "name \<Rightarrow> name \<Rightarrow> addr option \<Rightarrow> turn list \<Rightarrow> bool option" where
  "await e sn server [] = None"
| "await e sn server (Replied # _) = Some True"
| "await e sn server (Elapsed rn # ts) = (if isServerDead e sn server rn then Some False else await e sn server ts)"

text \<open>The answer to the caller with the milliseconds it is delayed by.\<close>

definition processReq_answer :: "draws \<Rightarrow> end_info \<Rightarrow> bool \<Rightarrow> bool \<Rightarrow> replyMsg \<Rightarrow> replyMsg \<times> int" where
  "processReq_answer d info replyOK serverDead reply =
     (if replyOK = False \<or> serverDead = True then (failed, 0)
      else if ei_reliable info = False \<and> d_dropRep d mod 1000 < 100 then (failed, 0)
      else if ei_longreordering info = True \<and> d_reorder d < 600 then (reply, 200 + d_reorderMs d)
      else (reply, 0))"

text \<open>
  \<open>processReq\<close>: \<open>rn\<close> is the network when the request arrives, \<open>turns\<close> and
  \<open>rn'\<close> what it is found to be later. The result says how often the handler ran (0 or 1), for
  the statement of what a caller may conclude.
\<close>

record 's answer =
  an_reply :: replyMsg
  an_delay :: int
  an_runs :: nat
  an_server :: "'s Server"
  an_state :: 's

definition processReq :: "draws \<Rightarrow> turn list \<Rightarrow> Network \<Rightarrow> reqMsg \<Rightarrow> Network \<Rightarrow> (addr \<Rightarrow> 's Server) \<Rightarrow> (addr \<Rightarrow> 's) \<Rightarrow>
    (addr \<times> 's answer) option outcome option" where
  "processReq d turns rn' req rn heap objs =
     (let info = readEndnameInfo (rq_endname req) rn in
      case (ei_servername info, ei_server info) of
        (Some sn, Some a) \<Rightarrow>
          if ei_enabled info then
            (if ei_reliable info = False \<and> d_dropReq d mod 1000 < 100
             then Some (Ret (Some (a, \<lparr>an_reply = failed, an_delay = d_short d mod SHORTDELAY, an_runs = 0,
                                     an_server = heap a, an_state = objs a\<rparr>)))
             else case Server_dispatch req (heap a) (objs a) of
                 Inl e \<Rightarrow> Some (Inl e)
               | Inr (reply, rs, st) \<Rightarrow>
                   (case await (rq_endname req) sn (Some a) turns of
                      None \<Rightarrow> None
                    | Some replyOK \<Rightarrow>
                        let dead = isServerDead (rq_endname req) sn (Some a) rn';
                            (rep, ms) = processReq_answer d info replyOK dead reply;
                            ms0 = (if ei_reliable info = False then d_short d mod SHORTDELAY else 0)
                        in Some (Ret (Some (a, \<lparr>an_reply = rep, an_delay = ms0 + ms, an_runs = 1, an_server = rs, an_state = st\<rparr>)))))
          else Some (Ret None)
      | _ \<Rightarrow> Some (Ret None))"

definition no_reply_delay :: "draws \<Rightarrow> Network \<Rightarrow> int" where
  "no_reply_delay d rn = (if IsLongDelays rn then d_timeout d mod LONGDELAY else d_timeout d mod 100)"

text \<open>
  \<open>Call\<close> on an end of this network: the arguments are encoded, and the reply is decoded only
  when the answer is positive; otherwise the caller's reply variable keeps its value.
\<close>

definition Call :: "('a \<Rightarrow> bytes) \<Rightarrow> (bytes \<Rightarrow> 'r) \<Rightarrow> draws \<Rightarrow> turn list \<Rightarrow> Network \<Rightarrow> name \<Rightarrow> string \<Rightarrow> 'a \<Rightarrow> 'r \<Rightarrow>
    Network \<Rightarrow> (addr \<Rightarrow> 's Server) \<Rightarrow> (addr \<Rightarrow> 's) \<Rightarrow> (bool \<times> 'r \<times> (addr \<Rightarrow> 's Server) \<times> (addr \<Rightarrow> 's)) outcome option" where
  "Call enc dec d turns rn' e svcMeth args reply rn heap objs =
     (case processReq d turns rn' \<lparr>rq_endname = e, rq_svcMeth = svcMeth, rq_args = enc args\<rparr> rn heap objs of
        None \<Rightarrow> None
      | Some (Inl x) \<Rightarrow> Some (Inl x)
      | Some (Inr (Some (a, an))) \<Rightarrow>
          Some (Ret (if rp_ok (an_reply an) then (True, dec (rp_reply (an_reply an)), heap(a := an_server an), objs(a := an_state an))
                     else (False, reply, heap(a := an_server an), objs(a := an_state an))))
      | Some (Inr None) \<Rightarrow> Some (Ret (False, reply, heap, objs)))"

text \<open>\<open>Forward\<close> passes an encoded request of a server process on and hands back the encoded reply.\<close>

definition Forward :: "draws \<Rightarrow> turn list \<Rightarrow> Network \<Rightarrow> name \<Rightarrow> string \<Rightarrow> bytes \<Rightarrow>
    Network \<Rightarrow> (addr \<Rightarrow> 's Server) \<Rightarrow> (addr \<Rightarrow> 's) \<Rightarrow> ((bytes \<times> bool) \<times> (addr \<Rightarrow> 's Server) \<times> (addr \<Rightarrow> 's)) outcome option" where
  "Forward d turns rn' e svcMeth args rn heap objs =
     (case processReq d turns rn' \<lparr>rq_endname = e, rq_svcMeth = svcMeth, rq_args = args\<rparr> rn heap objs of
        None \<Rightarrow> None
      | Some (Inl x) \<Rightarrow> Some (Inl x)
      | Some (Inr (Some (a, an))) \<Rightarrow>
          Some (Ret ((rp_reply (an_reply an), rp_ok (an_reply an)), heap(a := an_server an), objs(a := an_state an)))
      | Some (Inr None) \<Rightarrow> Some (Ret (([], False), heap, objs)))"

text \<open>\<open>Call\<close> on an end whose \<open>callf\<close> is set: in a server process the function \<open>f\<close> carries the request out.\<close>

definition Call_callf :: "('a \<Rightarrow> bytes) \<Rightarrow> (bytes \<Rightarrow> 'r) \<Rightarrow> (name \<Rightarrow> string \<Rightarrow> bytes \<Rightarrow> 's \<Rightarrow> (bytes \<times> bool) \<times> 's) \<Rightarrow>
    name \<Rightarrow> string \<Rightarrow> 'a \<Rightarrow> 'r \<Rightarrow> 's \<Rightarrow> (bool \<times> 'r) \<times> 's" where
  "Call_callf enc dec f e svcMeth args reply st = (case f e svcMeth (enc args) st of ((rep, ok), st') \<Rightarrow>
     ((if \<not> ok then (False, reply) else (True, dec rep)), st'))"

text \<open>A call whose request is forwarded by another process is the call itself.\<close>

lemma Call_Forward:
  "Call enc dec d turns rn' e svcMeth args reply rn heap objs =
     map_option (map_sum id (\<lambda>((rep, ok), heap', objs'). (ok, if ok then dec rep else reply, heap', objs')))
       (Forward d turns rn' e svcMeth (enc args) rn heap objs)"
  by (simp add: Call_def Forward_def split: option.splits sum.splits prod.splits)

text \<open>
  The statistics: a request is counted when the network receives it, a reply's bytes when it is
  sent to the caller; a failed one has none. Both are additions to the shared network, whatever
  else happened to it in between.
\<close>

definition count_reply :: "replyMsg \<Rightarrow> Network \<Rightarrow> Network" where
  "count_reply rep rn = rn\<lparr>nw_bytes := nw_bytes rn + of_nat (length (rp_reply rep))\<rparr>"

definition Call_counts :: "reqMsg \<Rightarrow> replyMsg \<Rightarrow> Network \<Rightarrow> Network" where
  "Call_counts req rep rn = count_reply rep (count_req req rn)"

lemma Call_counts_total:
  "nw_count (Call_counts req rep rn) = nw_count rn + 1"
  "nw_bytes (Call_counts req rep rn) = nw_bytes rn + of_nat (length (rq_args req) + length (rp_reply rep))"
  "readEndnameInfo e (Call_counts req rep rn) = readEndnameInfo e rn"
  by (simp_all add: Call_counts_def count_reply_def count_req_def readEndnameInfo_def is_enabled_def server_at_def Let_def
      split: option.split)

section \<open>What a call tells its caller\<close>

text \<open>The way of a request to a server: which address it is delivered to.\<close>

definition route :: "name \<Rightarrow> Network \<Rightarrow> (name \<times> addr) option" where
  "route e rn = (if is_enabled rn e then
      (case connections rn e of Some (Some sn) \<Rightarrow> map_option (Pair sn) (server_at rn sn) | _ \<Rightarrow> None)
    else None)"

lemma readEndnameInfo_route:
  "route e rn = Some (sn, a) \<longleftrightarrow> ei_enabled (readEndnameInfo e rn) \<and>
     ei_servername (readEndnameInfo e rn) = Some sn \<and> ei_server (readEndnameInfo e rn) = Some a"
  by (auto simp: route_def readEndnameInfo_def Let_def split: option.splits)

lemma processReq_no_route:
  assumes "route (rq_endname req) rn = None"
  shows "processReq d turns rn' req rn heap objs = Some (Ret None)"
proof -
  let ?i = "readEndnameInfo (rq_endname req) rn"
  have "\<not> (ei_enabled ?i \<and> ei_servername ?i = Some sn \<and> ei_server ?i = Some a)" for sn a
    using assms readEndnameInfo_route [of "rq_endname req" rn sn a] by simp
  then show ?thesis by (auto simp: processReq_def Let_def split: option.splits)
qed

lemma processReq_route:
  assumes "route (rq_endname req) rn = Some (sn, a)"
  shows "processReq d turns rn' req rn heap objs =
    (if \<not> reliable rn \<and> d_dropReq d mod 1000 < 100
     then Some (Ret (Some (a, \<lparr>an_reply = failed, an_delay = d_short d mod SHORTDELAY, an_runs = 0,
                               an_server = heap a, an_state = objs a\<rparr>)))
     else case Server_dispatch req (heap a) (objs a) of
         Inl e \<Rightarrow> Some (Inl e)
       | Inr (reply, rs, st) \<Rightarrow>
           map_option (\<lambda>replyOK.
               let (rep, ms) = processReq_answer d (readEndnameInfo (rq_endname req) rn) replyOK
                                 (isServerDead (rq_endname req) sn (Some a) rn') reply
               in Ret (Some (a, \<lparr>an_reply = rep, an_delay = (if reliable rn then 0 else d_short d mod SHORTDELAY) + ms,
                                 an_runs = 1, an_server = rs, an_state = st\<rparr>)))
             (await (rq_endname req) sn (Some a) turns))"
proof -
  let ?i = "readEndnameInfo (rq_endname req) rn"
  have i: "ei_enabled ?i" "ei_servername ?i = Some sn" "ei_server ?i = Some a"
    using assms readEndnameInfo_route by blast+
  have "ei_reliable ?i = reliable rn" by (simp add: readEndnameInfo_def Let_def)
  then show ?thesis using i
    by (auto simp: processReq_def Let_def split: option.splits sum.splits prod.splits)
qed

lemma processReq_answer_ok:
  "processReq_answer d i replyOK dead reply = (rep, ms) \<Longrightarrow> rp_ok rep \<Longrightarrow> replyOK \<and> \<not> dead \<and> rep = reply"
  by (auto simp: processReq_answer_def failed_def split: if_splits)

text \<open>
  What can have happened to a call: it was not executed, or it was executed exactly once at the
  server the end is connected to; and a positive answer carries the reply of that execution.
\<close>

definition not_run :: "(addr \<Rightarrow> 's Server) \<Rightarrow> (addr \<Rightarrow> 's) \<Rightarrow> (addr \<Rightarrow> 's Server) \<Rightarrow> (addr \<Rightarrow> 's) \<Rightarrow> bool" where
  "not_run heap objs heap' objs' \<longleftrightarrow> heap' = heap \<and> objs' = objs"

definition run_once :: "reqMsg \<Rightarrow> addr \<Rightarrow> replyMsg \<Rightarrow> (addr \<Rightarrow> 's Server) \<Rightarrow> (addr \<Rightarrow> 's) \<Rightarrow> (addr \<Rightarrow> 's Server) \<Rightarrow> (addr \<Rightarrow> 's) \<Rightarrow> bool" where
  "run_once req a rep heap objs heap' objs' \<longleftrightarrow> (\<exists>rs st. Server_dispatch req (heap a) (objs a) = Ret (rep, rs, st) \<and>
     heap' = heap(a := rs) \<and> objs' = objs(a := st))"

text \<open>
  C23. A call is executed at most once. If it answers true, the end was enabled and connected to a
  registered server, which was still the registered one when the answer was sent, the handler ran
  there exactly once, and the caller has the reply of that run. If it answers false, the caller's
  reply variable is untouched and the handler ran once or not at all, the caller cannot know
  which; it did not run if the end was disabled, not connected, or its server gone.
\<close>

theorem Call_at_most_once:
  assumes "Call enc dec d turns rn' e svcMeth args reply rn heap objs = Some (Ret (ok, r, heap', objs'))"
  defines "req \<equiv> \<lparr>rq_endname = e, rq_svcMeth = svcMeth, rq_args = enc args\<rparr>"
  shows "(ok \<longrightarrow> (\<exists>sn a rep. route e rn = Some (sn, a) \<and> is_enabled rn' e \<and> server_at rn' sn = Some a \<and>
        run_once req a rep heap objs heap' objs' \<and> rp_ok rep \<and> r = dec (rp_reply rep))) \<and>
    (\<not> ok \<longrightarrow> r = reply \<and> (not_run heap objs heap' objs' \<or>
        (\<exists>sn a rep. route e rn = Some (sn, a) \<and> run_once req a rep heap objs heap' objs')))"
proof (cases "route e rn")
  case None
  then show ?thesis using assms processReq_no_route [of req rn d turns rn' heap objs]
    by (auto simp: Call_def not_run_def)
next
  case (Some x)
  then obtain sn a where r: "route e rn = Some (sn, a)" by (cases x) auto
  have p: "route (rq_endname req) rn = Some (sn, a)" using r by (simp add: req_def)
  show ?thesis
  proof (cases "\<not> reliable rn \<and> d_dropReq d mod 1000 < 100")
    case True
    then show ?thesis using assms(1) processReq_route [OF p, of d turns rn' heap objs]
      by (auto simp: Call_def req_def failed_def not_run_def)
  next
    case False
    let ?dead = "isServerDead e sn (Some a) rn'" and ?i = "readEndnameInfo e rn"
    obtain rep0 rs st b where s: "Server_dispatch req (heap a) (objs a) = Ret (rep0, rs, st)" "await e sn (Some a) turns = Some b"
      using assms(1) processReq_route [OF p, of d turns rn' heap objs] False
      by (auto simp: Call_def req_def split: sum.splits option.splits if_splits)
    obtain rep ms where a: "processReq_answer d ?i b ?dead rep0 = (rep, ms)" by fastforce
    have c: "ok = rp_ok rep" "r = (if ok then dec (rp_reply rep) else reply)" "heap' = heap(a := rs)" "objs' = objs(a := st)"
      using assms(1) processReq_route [OF p, of d turns rn' heap objs] False s a
      by (auto simp: Call_def req_def split: if_splits)
    have run: "run_once req a rep0 heap objs heap' objs'" using s(1) c(3,4) by (auto simp: run_once_def)
    show ?thesis using processReq_answer_ok [OF a] c(1,2) run r by (auto simp: isServerDead_def)
  qed
qed

text \<open>A network with one enabled end, connected to one server with one method that echoes and counts.\<close>

definition echo_server :: "nat Server" where
  "echo_server = AddService \<lparr>svc_name = ''S'', svc_methods = [''M'' \<mapsto> (\<lambda>a st. (a, st + 1))]\<rparr> MakeServer"

definition one_end :: Network where
  "one_end = Enable ''c'' True (Connect ''c'' ''s'' (AddServer ''s'' 0 MakeNetwork))"

definition some_draws :: draws where
  "some_draws = \<lparr>d_short = 0, d_dropReq = 500, d_dropRep = 500, d_reorder = 0, d_reorderMs = 0, d_timeout = 0\<rparr>"

lemmas net_defs = echo_server_def one_end_def AddService_def MakeServer_def Enable_def Connect_def AddServer_def
  MakeNetwork_def is_enabled_def server_at_def

lemma S_M_dot: "LastIndex ''S.M'' CHR ''.'' = 1"
  by (simp add: LastIndex_def)

lemma one_end_route: "route ''c'' one_end = Some (''s'', 0)"
  by (simp add: route_def net_defs)

lemma echo_dispatch:
  "Server_dispatch \<lparr>rq_endname = ''c'', rq_svcMeth = ''S.M'', rq_args = x\<rparr> echo_server n
    = Ret (\<lparr>rp_ok = True, rp_reply = x\<rparr>, echo_server\<lparr>rs_count := 1\<rparr>, n + 1)"
  by (simp add: Server_dispatch_def S_M_dot Service_dispatch_def net_defs Let_def)

lemma echo_call:
  "Call id id some_draws [Replied] one_end ''c'' ''S.M'' ''x'' '''' one_end (\<lambda>_. echo_server) (\<lambda>_. 0)
    = Some (Ret (True, ''x'', (\<lambda>_. echo_server)(0 := echo_server\<lparr>rs_count := 1\<rparr>), (\<lambda>_. 0)(0 := 1)))"
proof -
  have "reliable one_end" "\<not> longReordering one_end" "\<not> isServerDead ''c'' ''s'' (Some 0) one_end"
    by (simp_all add: isServerDead_def net_defs)
  then show ?thesis
    using processReq_route [of "\<lparr>rq_endname = ''c'', rq_svcMeth = ''S.M'', rq_args = ''x''\<rparr>" one_end "''s''" 0
        some_draws "[Replied]" one_end "\<lambda>_. echo_server" "\<lambda>_. 0"] one_end_route echo_dispatch [of "''x''" 0]
    by (simp add: Call_def processReq_answer_def readEndnameInfo_def Let_def)
qed

theorem Call_at_most_once_witness:
  "\<exists>sn a rep. route ''c'' one_end = Some (sn, a) \<and>
    run_once \<lparr>rq_endname = ''c'', rq_svcMeth = ''S.M'', rq_args = ''x''\<rparr> a rep (\<lambda>_. echo_server) (\<lambda>_. 0)
      ((\<lambda>_. echo_server)(0 := echo_server\<lparr>rs_count := 1\<rparr>)) ((\<lambda>_. 0)(0 := 1)) \<and> rp_ok rep"
  using Call_at_most_once [OF echo_call] by auto

lemma await_ends:
  "\<forall>t\<in>set turns. t = Replied \<or> (\<exists>rn. t = Elapsed rn \<and> \<not> isServerDead e sn server rn) \<Longrightarrow>
    Replied \<in> set turns \<Longrightarrow> await e sn server turns = Some True"
  by (induction e sn server turns rule: await.induct) auto

text \<open>
  On a reliable network a call to a server that stays registered, by an end that stays enabled,
  always succeeds: if the handler's reply comes and the server is dead at no check before it, the
  answer is true whatever numbers are drawn. And whatever the network is like, the time by which an
  answer is delayed on purpose is less than \<open>MAXDELAY\<close>.
\<close>

lemma reliable_Call_succeeds:
  fixes heap :: "addr \<Rightarrow> 's Server" and d :: draws
  assumes "route e rn = Some (sn, a)" "wf_draws d"
    "Server_dispatch \<lparr>rq_endname = e, rq_svcMeth = svcMeth, rq_args = enc args\<rparr> (heap a) (objs a) = Ret (rep, rs, st)"
    "rp_ok rep" "Replied \<in> set turns"
    "\<forall>t\<in>set turns. t = Replied \<or> (\<exists>rn. t = Elapsed rn \<and> \<not> isServerDead e sn (Some a) rn)"
    "\<not> isServerDead e sn (Some a) rn'"
  shows "(reliable rn \<longrightarrow> Call enc dec d turns rn' e svcMeth args reply rn heap objs
      = Some (Ret (True, dec (rp_reply rep), heap(a := rs), objs(a := st)))) \<and>
    (\<forall>b an. processReq d turns rn' \<lparr>rq_endname = e, rq_svcMeth = svcMeth, rq_args = enc args\<rparr> rn heap objs = Some (Ret (Some (b, an))) \<longrightarrow>
      0 \<le> an_delay an \<and> an_delay an < MAXDELAY) \<and>
    0 \<le> no_reply_delay d rn \<and> no_reply_delay d rn < MAXDELAY"
proof -
  let ?req = "\<lparr>rq_endname = e, rq_svcMeth = svcMeth, rq_args = enc args\<rparr>"
  have r: "route (rq_endname ?req) rn = Some (sn, a)" using assms(1) by simp
  note p = processReq_route [OF r, of d turns rn' heap objs]
  have aw: "await e sn (Some a) turns = Some True" using assms(5,6) by (intro await_ends)
  have i: "ei_reliable (readEndnameInfo e rn) = reliable rn" by (simp add: readEndnameInfo_def Let_def)
  have call: "reliable rn \<longrightarrow> Call enc dec d turns rn' e svcMeth args reply rn heap objs
      = Some (Ret (True, dec (rp_reply rep), heap(a := rs), objs(a := st)))"
    using p assms(3,4,7) aw i by (auto simp: Call_def processReq_answer_def Let_def split: prod.splits)
  have bounds: "0 \<le> x mod 27 \<and> x mod 27 < 27" "0 \<le> x mod 100 \<and> x mod 100 < 7100"
    "0 \<le> x mod 7000 \<and> x mod 7000 < 7100" for x :: int
    using pos_mod_bound [of 27 x] pos_mod_bound [of 100 x] pos_mod_bound [of 7000 x] by simp_all
  have delay: "0 \<le> an_delay an \<and> an_delay an < MAXDELAY"
    if "processReq d turns rn' ?req rn heap objs = Some (Ret (Some (b, an)))" for b an
    using that p assms(2,3) aw bounds
    by (auto simp: processReq_answer_def wf_draws_def MAXDELAY_def LONGDELAY_def SHORTDELAY_def Let_def
        split: if_splits prod.splits)
  have "0 \<le> no_reply_delay d rn \<and> no_reply_delay d rn < MAXDELAY"
    using bounds by (simp add: no_reply_delay_def MAXDELAY_def LONGDELAY_def)
  then show ?thesis using call delay by blast
qed

end
