(* ===== verification/KVNet.thy ===== *)
theory KVNet
  imports KVClerk Labrpc
begin

text \<open>
  The key/value service behind the simulated network: the clerk's \<open>Put\<close> loop with each attempt
  an RPC of \<open>labrpc\<close>, through the encoder and the server's dispatch to the handler. The
  encoder of \<open>labgob\<close> is an argument. What is proved is that the schedules the clerk is
  verified against are exactly what this network can do.
\<close>

section \<open>The service and the loop\<close>

record kv_codec =
  enc_PutArgs :: "PutArgs \<Rightarrow> bytes"
  dec_PutArgs :: "bytes \<Rightarrow> PutArgs"
  enc_PutReply :: "PutReply \<Rightarrow> bytes"
  dec_PutReply :: "bytes \<Rightarrow> PutReply"

text \<open>The method as \<open>Service.dispatch\<close> runs it: decode, call with a zero reply, encode.\<close>

definition put_method :: "kv_codec \<Rightarrow> bytes \<Rightarrow> KVServer \<Rightarrow> bytes \<times> KVServer" where
  "put_method c b kv = (let (r, kv') = KVServer_Put kv (dec_PutArgs c b) \<lparr>pr_Err = ErrEmpty\<rparr> in (enc_PutReply c r, kv'))"

definition kv_service :: "kv_codec \<Rightarrow> KVServer Service" where
  "kv_service c = \<lparr>svc_name = ''KVServer'', svc_methods = [''Put'' \<mapsto> put_method c]\<rparr>"

text \<open>
  One attempt: the puts of other clients that reach the server before it, and what the network
  draws and how it is found, as in \<^const>\<open>Call\<close>.
\<close>

record round =
  r_env :: "PutArgs list"
  r_draws :: draws
  r_turns :: "turn list"
  r_later :: Network
  r_net :: Network

type_synonym kv_world = "(addr \<Rightarrow> KVServer Server) \<times> (addr \<Rightarrow> KVServer)"

fun Clerk_Put_net :: "kv_codec \<Rightarrow> name \<Rightarrow> addr \<Rightarrow> PutArgs \<Rightarrow> PutReply \<Rightarrow> bool \<Rightarrow> round list \<Rightarrow> kv_world \<Rightarrow>
    (Err \<times> kv_world) outcome option" where
  "Clerk_Put_net c e a args reply isRetried [] w = None"
| "Clerk_Put_net c e a args reply isRetried (r # rs) (heap, objs) =
    (case Call (enc_PutArgs c) (dec_PutReply c) (r_draws r) (r_turns r) (r_later r) e ''KVServer.Put'' args reply (r_net r)
            heap (objs(a := kv_run (r_env r) (objs a))) of
       None \<Rightarrow> None
     | Some (Inl x) \<Rightarrow> Some (Inl x)
     | Some (Inr (ok, reply', heap', objs')) \<Rightarrow>
         if ok then Some (Ret (put_return isRetried (pr_Err reply'), heap', objs'))
         else Clerk_Put_net c e a args reply' True rs (heap', objs'))"

section \<open>One attempt\<close>

text \<open>The server at \<open>a\<close> offers the service, and the end \<open>e\<close> is never connected elsewhere.\<close>

definition serves :: "kv_codec \<Rightarrow> KVServer Server \<Rightarrow> bool" where
  "serves c rs \<longleftrightarrow> rs_dispatchf rs = None \<and> rs_services rs ''KVServer'' = Some (kv_service c)"

definition only_to :: "name \<Rightarrow> addr \<Rightarrow> Network \<Rightarrow> bool" where
  "only_to e a rn \<longleftrightarrow> (case route e rn of None \<Rightarrow> True | Some (sn, b) \<Rightarrow> b = a)"

lemma KVServer_Put_dot: "LastIndex ''KVServer.Put'' CHR ''.'' = 8"
  by (simp add: LastIndex_def)

lemma put_dispatch:
  assumes "serves c rs"
  shows "Server_dispatch \<lparr>rq_endname = e, rq_svcMeth = ''KVServer.Put'', rq_args = b\<rparr> rs kv =
    Ret (\<lparr>rp_ok = True, rp_reply = fst (put_method c b kv)\<rparr>, rs\<lparr>rs_count := rs_count rs + 1\<rparr>, snd (put_method c b kv))"
  using assms by (simp add: Server_dispatch_def KVServer_Put_dot serves_def Let_def Service_dispatch_def kv_service_def
      eval_nat_numeral split: prod.split)

text \<open>Every RPC on the end is one of the three deliveries.\<close>

lemma put_call_delivery:
  assumes "serves c (heap a)" "only_to e a rn" "\<And>x. dec_PutArgs c (enc_PutArgs c x) = x" "\<And>x. dec_PutReply c (enc_PutReply c x) = x"
    and "Call (enc_PutArgs c) (dec_PutReply c) d turns rn' e ''KVServer.Put'' args reply rn heap objs = Some res"
  defines "r \<equiv> KVServer_Put (objs a) args \<lparr>pr_Err = ErrEmpty\<rparr>"
  shows "\<exists>heap'. serves c (heap' a) \<and>
    (res = Ret (False, reply, heap', objs) \<or> res = Ret (False, reply, heap', objs(a := snd r)) \<or>
     res = Ret (True, fst r, heap', objs(a := snd r)))"
proof (cases "route e rn")
  case None
  then show ?thesis using assms(1,5) processReq_no_route [of "\<lparr>rq_endname = e, rq_svcMeth = ''KVServer.Put'', rq_args = enc_PutArgs c args\<rparr>" rn d turns rn' heap objs]
    by (auto simp: Call_def)
next
  case (Some x)
  then obtain sn where rt: "route e rn = Some (sn, a)" using assms(2) by (cases x) (auto simp: only_to_def)
  let ?req = "\<lparr>rq_endname = e, rq_svcMeth = ''KVServer.Put'', rq_args = enc_PutArgs c args\<rparr>"
  let ?h = "heap(a := heap a\<lparr>rs_count := rs_count (heap a) + 1\<rparr>)"
  have s: "serves c (?h a)" using assms(1) by (simp add: serves_def)
  have m: "put_method c (enc_PutArgs c args) (objs a) = (enc_PutReply c (fst r), snd r)"
    by (simp add: put_method_def assms(3) r_def split: prod.split)
  note p = processReq_route [of ?req rn sn a d turns rn' heap objs] put_dispatch [OF assms(1), of e "enc_PutArgs c args" "objs a"]
  show ?thesis
  proof (cases "\<not> reliable rn \<and> d_dropReq d mod 1000 < 100")
    case True
    then have "res = Ret (False, reply, heap, objs)" using p(1) rt assms(5) by (auto simp: Call_def failed_def)
    then show ?thesis using assms(1) by blast
  next
    case False
    obtain b where b: "await e sn (Some a) turns = Some b"
      using False p rt assms(5) by (auto simp: Call_def split: option.splits)
    obtain rep ms where a: "processReq_answer d (readEndnameInfo e rn) b (isServerDead e sn (Some a) rn')
        \<lparr>rp_ok = True, rp_reply = enc_PutReply c (fst r)\<rparr> = (rep, ms)" by fastforce
    have "res = Ret (if rp_ok rep then (True, dec_PutReply c (rp_reply rep), ?h, objs(a := snd r)) else (False, reply, ?h, objs(a := snd r)))"
      using False p rt assms(5) a b by (auto simp: Call_def m)
    moreover have "rp_ok rep \<Longrightarrow> rep = \<lparr>rp_ok = True, rp_reply = enc_PutReply c (fst r)\<rparr>" using processReq_answer_ok [OF a] by blast
    ultimately show ?thesis using s assms(4) by (intro exI [of _ ?h]) (cases "rp_ok rep", auto)
  qed
qed

section \<open>The loop\<close>

abbreviation zero_reply :: PutReply where
  "zero_reply \<equiv> \<lparr>pr_Err = ErrEmpty\<rparr>"

text \<open>A run over the network is a run over a schedule with the same puts of other clients.\<close>

lemma Clerk_Put_net_loop:
  assumes "\<And>x. dec_PutArgs c (enc_PutArgs c x) = x" "\<And>x. dec_PutReply c (enc_PutReply c x) = x"
    and "serves c (heap a)" "\<forall>r\<in>set rs. only_to e a (r_net r)"
    and "Clerk_Put_net c e a args zero_reply b rs (heap, objs) = Some res"
  shows "\<exists>err heap' objs' sched. res = Ret (err, heap', objs') \<and> map fst sched = map r_env rs \<and>
    Clerk_Put_loop args zero_reply b sched (objs a) = Some (err, objs' a)"
  using assms(3-5)
proof (induction rs arbitrary: b heap objs)
  case (Cons r rs)
  let ?objs = "objs(a := kv_run (r_env r) (objs a))"
  let ?kv1 = "kv_run (r_env r) (objs a)"
  let ?put = "KVServer_Put ?kv1 args zero_reply"
  have only: "only_to e a (r_net r)" using Cons.prems(2) by simp
  obtain res1 where c: "Call (enc_PutArgs c) (dec_PutReply c) (r_draws r) (r_turns r) (r_later r) e ''KVServer.Put'' args zero_reply
      (r_net r) heap ?objs = Some res1" using Cons.prems(3) by (auto split: option.splits)
  obtain heap1 where h: "serves c (heap1 a)" and "res1 = Ret (False, zero_reply, heap1, ?objs) \<or>
      res1 = Ret (False, zero_reply, heap1, ?objs(a := snd ?put)) \<or> res1 = Ret (True, fst ?put, heap1, ?objs(a := snd ?put))"
    using put_call_delivery [OF Cons.prems(1) only assms(1,2) c] by auto
  then consider "res1 = Ret (False, zero_reply, heap1, ?objs)" | "res1 = Ret (False, zero_reply, heap1, ?objs(a := snd ?put))"
    | "res1 = Ret (True, fst ?put, heap1, ?objs(a := snd ?put))" by blast
  then show ?case
  proof cases
    case 1
    then have "Clerk_Put_net c e a args zero_reply True rs (heap1, ?objs) = Some res" using Cons.prems(3) c by simp
    from Cons.IH [OF h _ this] Cons.prems(2) obtain err heap' objs' sched where "res = Ret (err, heap', objs')"
      "map fst sched = map r_env rs" "Clerk_Put_loop args zero_reply True sched ?kv1 = Some (err, objs' a)" by auto
    then show ?thesis by (intro exI [of _ err] exI [of _ heap'] exI [of _ objs'] exI [of _ "(r_env r, ReqLost) # sched"]) simp
  next
    case 2
    then have "Clerk_Put_net c e a args zero_reply True rs (heap1, ?objs(a := snd ?put)) = Some res" using Cons.prems(3) c by simp
    from Cons.IH [OF h _ this] Cons.prems(2) obtain err heap' objs' sched where "res = Ret (err, heap', objs')"
      "map fst sched = map r_env rs" "Clerk_Put_loop args zero_reply True sched (snd ?put) = Some (err, objs' a)" by auto
    then show ?thesis by (intro exI [of _ err] exI [of _ heap'] exI [of _ objs'] exI [of _ "(r_env r, ReplyLost) # sched"]) simp
  next
    case 3
    then have "res = Ret (put_return b (pr_Err (fst ?put)), heap1, ?objs(a := snd ?put))" using Cons.prems(3) c by simp
    then show ?thesis
      by (intro exI [of _ "put_return b (pr_Err (fst ?put))"] exI [of _ heap1] exI [of _ "?objs(a := snd ?put)"]
          exI [of _ "(r_env r, Delivered) # map (\<lambda>r. (r_env r, ReqLost)) rs"]) (simp add: comp_def case_prod_beta Let_def fun_eq_iff)
  qed
qed simp

lemma env_of_prefix: "\<exists>E. concat (map fst sched) = env_of sched @ E"
  by (induction sched rule: env_of.induct) auto


section \<open>An encoder and a run\<close>

fun enc_str :: "string \<Rightarrow> bytes" where
  "enc_str [] = ''e''"
| "enc_str (x # s) = CHR ''x'' # x # enc_str s"

fun dec_str :: "bytes \<Rightarrow> string \<times> bytes" where
  "dec_str (t # x # s) = (if t = CHR ''x'' then (x # fst (dec_str s), snd (dec_str s)) else ([], x # s))"
| "dec_str s = ([], [])"

lemma dec_enc_str [simp]: "dec_str (enc_str s @ t # r) = (s, t # r)"
  by (induction s) auto

definition some_codec :: kv_codec where
  "some_codec =
     \<lparr>enc_PutArgs = (\<lambda>a. enc_str (pa_Key a) @ enc_str (pa_Value a) @ ''v'' @ nat_str (unat (pa_Version a))),
      dec_PutArgs = (\<lambda>b. let (k, b1) = dec_str b; (v, b2) = dec_str b1
                        in \<lparr>pa_Key = k, pa_Value = v, pa_Version = of_nat (str_nat (tl b2))\<rparr>),
      enc_PutReply = (\<lambda>r. err_string (pr_Err r)),
      dec_PutReply = (\<lambda>b. \<lparr>pr_Err = hd (filter (\<lambda>e. err_string e = b)
                        [OK, ErrNoKey, ErrVersion, ErrMaybe, ErrWrongLeader, ErrWrongGroup, ErrEmpty])\<rparr>)\<rparr>"

lemma enc_str_ne: "\<exists>t r. enc_str s = t # r"
  by (cases s) auto

lemma some_codec_laws:
  "dec_PutArgs some_codec (enc_PutArgs some_codec x) = x" "dec_PutReply some_codec (enc_PutReply some_codec y) = y"
proof -
  obtain t r where "enc_str (pa_Value x) = t # r" using enc_str_ne by blast
  then have "dec_str (enc_str (pa_Key x) @ enc_str (pa_Value x) @ ''v'' @ z) = (pa_Key x, enc_str (pa_Value x) @ ''v'' @ z)" for z by simp
  then show "dec_PutArgs some_codec (enc_PutArgs some_codec x) = x"
    by (simp add: some_codec_def str_nat_nat_str)
  show "dec_PutReply some_codec (enc_PutReply some_codec y) = y"
    by (cases "pr_Err y") (simp_all add: some_codec_def)
qed

definition kv_server :: "KVServer Server" where
  "kv_server = AddService (kv_service some_codec) MakeServer"

definition lossy :: round where
  "lossy = \<lparr>r_env = [], r_draws = some_draws\<lparr>d_dropRep := 5\<rparr>, r_turns = [Replied], r_later = Reliable False one_end, r_net = Reliable False one_end\<rparr>"

definition good :: round where
  "good = \<lparr>r_env = [], r_draws = some_draws, r_turns = [Replied], r_later = one_end, r_net = one_end\<rparr>"

definition put_result :: "(Err \<times> kv_world) outcome option" where
  "put_result = Clerk_Put_net some_codec ''c'' 0 \<lparr>pa_Key = ''k'', pa_Value = ''v'', pa_Version = 0\<rparr> \<lparr>pr_Err = ErrEmpty\<rparr> False
     [lossy, good] (\<lambda>_. kv_server, \<lambda>_. MakeKVServer)"

lemma put_result_Some: "\<not> Option.is_none put_result"
  by code_simp

lemma put_result_ErrMaybe: "map_option (map_sum id fst) put_result = Some (Ret ErrMaybe)"
  by code_simp


end
