(* ===== verification/KVTest.thy ===== *)
theory KVTest
  imports KVAttempt GoStr
begin

text \<open>
  The workloads and checks of \<open>kvtest1/kvtest.go\<close>: clients that append to one key or race to
  put to it, and what the test checks when they have stopped. Every RPC attempt of every client is
  one step, as for the lock. Values are JSON; the encoder and decoder are arguments.
\<close>

section \<open>Results, entries and JSON\<close>

record ClntRes =
  Nok :: int
  Nmaybe :: int

record EntryN =
  en_Id :: int
  en_N :: int

text \<open>\<open>GetJson\<close> on the clerk's answer; \<open>Fatalf\<close> on an error or a value that does not parse.\<close>

definition GetJson :: "(string \<Rightarrow> 'v option) \<Rightarrow> string \<times> Tversion \<times> Err \<Rightarrow> ('v \<times> Tversion) outcome" where
  "GetJson unmar = (\<lambda>(val, ver, err). if err = OK
     then (case unmar val of None \<Rightarrow> Inl Fatal | Some v \<Rightarrow> Ret (v, ver)) else Inl Fatal)"

section \<open>CheckAppends\<close>

text \<open>Reading a Go map of ints: a missing key reads 0.\<close>

definition map_get :: "(int \<times> int) list \<Rightarrow> int \<Rightarrow> int" where
  "map_get m k = (case map_of m k of None \<Rightarrow> 0 | Some v \<Rightarrow> v)"

type_synonym tallies = "(int \<times> int) list \<times> (int \<times> int) list"

definition append_tally :: "EntryN \<Rightarrow> tallies \<Rightarrow> tallies outcome" where
  "append_tally e = (\<lambda>(expect, skipped).
     if map_get expect (en_Id e) > en_N e then Inl Fatal
     else if map_get expect (en_Id e) = en_N e
     then Ret (AList.update (en_Id e) (map_get expect (en_Id e) + 1) expect, skipped)
     else let s = en_N e - map_get expect (en_Id e)
          in Ret (AList.update (en_Id e) (en_N e + 1) expect, AList.update (en_Id e) (map_get skipped (en_Id e) + s) skipped))"

definition check_client :: "ClntRes list \<Rightarrow> (int \<times> int) list \<Rightarrow> int \<times> int \<Rightarrow> unit \<Rightarrow> unit outcome" where
  "check_client rs skipped = (\<lambda>(c, n) _. bindo (idx rs c) (\<lambda>r.
     if map_get skipped c > Nmaybe r then Inl Fatal
     else if n > Nok r + Nmaybe r then Inl Fatal else Ret ()))"

definition CheckAppends :: "EntryN list \<Rightarrow> nat \<Rightarrow> ClntRes list \<Rightarrow> Tversion \<Rightarrow> unit outcome" where
  "CheckAppends es nclnt rs ver =
     (let zero = map (\<lambda>i. (int i, 0)) [0..<nclnt] in
      bindo (foldo append_tally es (zero, zero)) (\<lambda>(expect, skipped).
      if int (length es) + 1 \<noteq> sint ver then Inl Fatal
      else foldo (check_client rs skipped) expect ()))"

section \<open>What CheckAppends accepts\<close>

text \<open>The numbers one client has appended, in the order of the value.\<close>

definition appended :: "int \<Rightarrow> EntryN list \<Rightarrow> int list" where
  "appended c es = map en_N (filter (\<lambda>e. en_Id e = c) es)"

lemma appended_simps [simp]:
  "appended c [] = []" "appended c (e # es) = (if en_Id e = c then en_N e # appended c es else appended c es)"
  "appended c (es @ es') = appended c es @ appended c es'"
  by (simp_all add: appended_def)

fun incr_from :: "int \<Rightarrow> int list \<Rightarrow> bool" where
  "incr_from b [] = True"
| "incr_from b (n # ns) \<longleftrightarrow> b \<le> n \<and> incr_from (n + 1) ns"

definition end_of :: "int \<Rightarrow> int list \<Rightarrow> int" where
  "end_of b ns = (if ns = [] then b else last ns + 1)"

lemma end_of_Cons [simp]: "end_of b (n # ns) = end_of (n + 1) ns" "end_of b [] = b"
  by (simp_all add: end_of_def)

lemma incr_from_iff: "incr_from b ns \<longleftrightarrow> sorted_wrt (<) ns \<and> (\<forall>n\<in>set ns. b \<le> n)"
proof (induction ns arbitrary: b)
  case (Cons n ns)
  have "(\<forall>m\<in>set ns. n + 1 \<le> m) \<longleftrightarrow> (\<forall>m\<in>set ns. n < m)" by auto
  then show ?case using Cons.IH [of "n + 1"] by force
qed simp

lemma incr_from_snoc: "incr_from b (ns @ [n]) \<longleftrightarrow> incr_from b ns \<and> end_of b ns \<le> n"
  by (induction ns arbitrary: b) auto

lemma map_get_update [simp]: "map_get (AList.update k v m) j = (if j = k then v else map_get m j)"
  by (simp add: map_get_def update_conv')

lemma map_get_entry:
  assumes "distinct (map fst m)"
  shows "(k, v) \<in> set m \<longleftrightarrow> k \<in> fst ` set m \<and> v = map_get m k"
proof -
  have "(k, v) \<in> set m \<longleftrightarrow> map_of m k = Some v" using assms by simp
  moreover have "k \<in> fst ` set m \<longleftrightarrow> (\<exists>v. map_of m k = Some v)" by (metis domIff dom_map_of_conv_image_fst not_None_eq)
  ultimately show ?thesis by (auto simp: map_get_def)
qed

lemma append_tally_ok:
  assumes "map_get ex (en_Id e) \<le> en_N e"
  obtains sk1 where "append_tally e (ex, sk) = Ret (AList.update (en_Id e) (en_N e + 1) ex, sk1)"
    "\<And>c. map_get sk1 c = map_get sk c + (if c = en_Id e then en_N e - map_get ex (en_Id e) else 0)"
  using assms by (cases "map_get ex (en_Id e) = en_N e") (auto simp: append_tally_def Let_def)

lemma append_tally_bad: "map_get ex (en_Id e) > en_N e \<Longrightarrow> append_tally e (ex, sk) = Inl Fatal"
  by (simp add: append_tally_def)

text \<open>The loop ends normally exactly if every client's numbers increase, and then it has counted the gaps.\<close>

lemma append_tallies:
  "(\<exists>r. foldo append_tally es (ex, sk) = Ret r) \<longleftrightarrow> (\<forall>c. incr_from (map_get ex c) (appended c es))"
proof (induction es arbitrary: ex sk)
  case (Cons e es)
  show ?case
  proof (cases "map_get ex (en_Id e) > en_N e")
    case True
    then show ?thesis using append_tally_bad [OF True, of sk] by (auto intro!: exI [of _ "en_Id e"])
  next
    case False
    let ?ex = "AList.update (en_Id e) (en_N e + 1) ex"
    obtain sk1 where 1: "append_tally e (ex, sk) = Ret (?ex, sk1)" using append_tally_ok [of ex e sk] False by auto
    have "incr_from (map_get ex c) (appended c (e # es)) \<longleftrightarrow> incr_from (map_get ?ex c) (appended c es)" for c
      using False by auto
    then show ?thesis using Cons.IH [of ?ex sk1] 1 by simp
  qed
qed simp

lemma append_tallies_result:
  assumes "foldo append_tally es (ex, sk) = Ret (ex', sk')"
  shows "map_get ex' c = end_of (map_get ex c) (appended c es) \<and>
    map_get sk' c = map_get sk c + (end_of (map_get ex c) (appended c es) - map_get ex c - int (length (appended c es))) \<and>
    fst ` set ex' = fst ` set ex \<union> en_Id ` set es \<and> (distinct (map fst ex) \<longrightarrow> distinct (map fst ex'))"
  using assms
proof (induction es arbitrary: ex sk)
  case (Cons e es)
  let ?ex = "AList.update (en_Id e) (en_N e + 1) ex"
  have "map_get ex (en_Id e) \<le> en_N e" using Cons.prems append_tally_bad [of e ex sk] by (cases "map_get ex (en_Id e) > en_N e") auto
  from append_tally_ok [OF this, of sk] obtain sk1 where 1: "append_tally e (ex, sk) = Ret (?ex, sk1)"
    "\<And>c. map_get sk1 c = map_get sk c + (if c = en_Id e then en_N e - map_get ex (en_Id e) else 0)" by blast
  then have "foldo append_tally es (?ex, sk1) = Ret (ex', sk')" using Cons.prems by simp
  note IH = Cons.IH [OF this]
  show ?case using IH by (auto simp: 1(2) dom_update distinct_update)
qed simp

lemma check_clients:
  assumes "fst ` set l \<subseteq> {0..<int (length rs)}"
  shows "foldo (check_client rs sk) l () = Ret () \<longleftrightarrow>
    (\<forall>c n. (c, n) \<in> set l \<longrightarrow> map_get sk c \<le> Nmaybe (rs ! nat c) \<and> n \<le> Nok (rs ! nat c) + Nmaybe (rs ! nat c))"
  using assms
proof (induction l)
  case (Cons x l)
  obtain c n where x: "x = (c, n)" by force
  have "check_client rs sk x () = (if map_get sk c \<le> Nmaybe (rs ! nat c) \<and> n \<le> Nok (rs ! nat c) + Nmaybe (rs ! nat c)
      then Ret () else Inl Fatal)"
    using Cons.prems by (auto simp: x check_client_def idx_def in_range_def)
  then show ?case using Cons by (auto simp: x)
qed simp

text \<open>
  \<open>CheckAppends\<close> accepts exactly the values it should: the version is one more than the number
  of entries, and for every client the numbers it appended are strictly increasing from 0 on, the
  numbers left out below its last one are at most its undecided puts, and its last number is below
  the number of its puts.
\<close>

lemma CheckAppends_iff:
  assumes "length rs = nclnt" "en_Id ` set es \<subseteq> {0..<int nclnt}"
  shows "CheckAppends es nclnt rs ver = Ret () \<longleftrightarrow> sint ver = int (length es) + 1 \<and>
    (\<forall>c<nclnt. let ns = appended (int c) es; e = (if ns = [] then 0 else last ns + 1) in
       sorted_wrt (<) ns \<and> (\<forall>n\<in>set ns. 0 \<le> n) \<and> e - int (length ns) \<le> Nmaybe (rs ! c) \<and> e \<le> Nok (rs ! c) + Nmaybe (rs ! c))"
proof -
  define zero :: "(int \<times> int) list" where "zero = map (\<lambda>i. (int i, 0)) [0..<nclnt]"
  have z: "map_get zero c = 0" for c by (auto simp: zero_def map_get_def map_of_map_keys split: option.split dest: map_of_SomeD)
  have keys: "fst ` set zero = {0..<int nclnt}" "distinct (map fst zero)"
    by (auto simp: zero_def image_image image_int_atLeastLessThan distinct_map inj_on_def comp_def)
  let ?incr = "\<forall>c<nclnt. incr_from 0 (appended (int c) es)"
  have out: "appended c es = []" if "c \<notin> {0..<int nclnt}" for c
    using that assms(2) by (auto simp: appended_def filter_empty_conv)
  have "(\<forall>c. incr_from 0 (appended c es)) \<longleftrightarrow> ?incr"
  proof (intro iffI allI)
    fix c :: int assume i: ?incr
    show "incr_from 0 (appended c es)"
    proof (cases "c \<in> {0..<int nclnt}")
      case True
      then show ?thesis using i [rule_format, of "nat c"] by auto
    qed (simp add: out)
  qed blast
  then have ret: "(\<exists>r. foldo append_tally es (zero, zero) = Ret r) \<longleftrightarrow> ?incr" unfolding append_tallies z .
  show ?thesis
  proof (cases ?incr)
    case False
    then obtain x where "foldo append_tally es (zero, zero) = Inl x" using ret by (cases "foldo append_tally es (zero, zero)") auto
    then show ?thesis using False by (auto simp: CheckAppends_def zero_def [symmetric] Let_def incr_from_iff)
  next
    case True
    obtain ex sk where r: "foldo append_tally es (zero, zero) = Ret (ex, sk)" using True ret by auto
    note res = append_tallies_result [OF r]
    have k: "fst ` set ex = {0..<int nclnt}" "distinct (map fst ex)" using res keys assms(2) by auto
    have ex: "(c, n) \<in> set ex \<longleftrightarrow> c \<in> {0..<int nclnt} \<and> n = end_of 0 (appended c es)" for c n
      using map_get_entry [OF k(2)] k(1) res z by simp
    have "foldo (check_client rs sk) ex () = Ret () \<longleftrightarrow>
        (\<forall>c\<in>{0..<int nclnt}. map_get sk c \<le> Nmaybe (rs ! nat c) \<and> end_of 0 (appended c es) \<le> Nok (rs ! nat c) + Nmaybe (rs ! nat c))"
      using k(1) assms(1) by (subst check_clients) (auto simp: ex)
    also have "\<dots> \<longleftrightarrow> (\<forall>c<nclnt. map_get sk (int c) \<le> Nmaybe (rs ! c) \<and> end_of 0 (appended (int c) es) \<le> Nok (rs ! c) + Nmaybe (rs ! c))"
      unfolding image_int_atLeastLessThan [symmetric, of 0, simplified] by auto
    finally have c: "foldo (check_client rs sk) ex () = Ret () \<longleftrightarrow> \<dots>" .
    have "map_get sk c = end_of 0 (appended c es) - int (length (appended c es))" for c using res [of c] z by simp
    then show ?thesis using True r c
      by (auto simp: CheckAppends_def zero_def [symmetric] Let_def incr_from_iff end_of_def)
  qed
qed

section \<open>Clients that append\<close>

text \<open>
  \<open>OneClientAppend\<close>. The program counter: at the \<open>select\<close>, before the \<open>Get\<close>, during the
  \<open>Put\<close> (with the version read, the entries to be written and whether it has been retried), and
  returned; the counters are the loop variable and the two results.
\<close>

datatype append_pc = AppendSelect | AppendGet | AppendPut Tversion "EntryN list" bool | AppendDone | AppendFatal

record append_client =
  ac_pc :: append_pc
  ac_i :: int
  ac_nok :: int
  ac_nmay :: int

definition append_start :: append_client where
  "append_start = \<lparr>ac_pc = AppendSelect, ac_i = 0, ac_nok = 0, ac_nmay = 0\<rparr>"

definition append_put_result :: "append_client \<Rightarrow> Err \<Rightarrow> append_client" where
  "append_put_result cl err =
     (if err = OK then cl\<lparr>ac_pc := AppendSelect, ac_nok := ac_nok cl + 1, ac_i := ac_i cl + 1\<rparr>
      else if err = ErrMaybe then cl\<lparr>ac_pc := AppendSelect, ac_nmay := ac_nmay cl + 1, ac_i := ac_i cl + 1\<rparr>
      else cl\<lparr>ac_pc := AppendGet\<rparr>)"

definition append_get_result :: "(string \<Rightarrow> EntryN list option) \<Rightarrow> int \<Rightarrow> append_client \<Rightarrow> string \<times> Tversion \<times> Err \<Rightarrow> append_client" where
  "append_get_result unmar me cl res = (case GetJson unmar res of
      Inl e \<Rightarrow> cl\<lparr>ac_pc := AppendFatal\<rparr>
    | Inr (es, ver) \<Rightarrow> cl\<lparr>ac_pc := AppendPut ver (es @ [\<lparr>en_Id = me, en_N = ac_i cl\<rparr>]) False\<rparr>)"

datatype append_action = Signalled | NotSignalled | Try delivery

fun OneClientAppend :: "(EntryN list \<Rightarrow> string) \<Rightarrow> (string \<Rightarrow> EntryN list option) \<Rightarrow> int \<Rightarrow> append_action \<Rightarrow>
    append_pc \<Rightarrow> append_client \<Rightarrow> KVServer \<Rightarrow> (append_client \<times> KVServer) option" where
  "OneClientAppend mar unmar me Signalled AppendSelect cl kv = Some (cl\<lparr>ac_pc := AppendDone\<rparr>, kv)"
| "OneClientAppend mar unmar me NotSignalled AppendSelect cl kv = Some (cl\<lparr>ac_pc := AppendGet\<rparr>, kv)"
| "OneClientAppend mar unmar me (Try d) AppendGet cl kv =
     Some (if d = Delivered then append_get_result unmar me cl (get_attempt kv ''k'') else cl, kv)"
| "OneClientAppend mar unmar me (Try d) (AppendPut ver es r) cl kv =
     Some (put_attempt ''k'' (mar es) ver r (\<lambda>r. cl\<lparr>ac_pc := AppendPut ver es r\<rparr>) (append_put_result cl) d kv)"
| "OneClientAppend mar unmar me _ _ cl kv = None"

text \<open>
  Runs of \<open>nclnt\<close> clients, from a server where \<open>k\<close> has been put once, holding no entry, with
  puts of anyone to other keys; with the number of steps.
\<close>

record append_state =
  as_kv :: KVServer
  as_cl :: "nat \<Rightarrow> append_client"

inductive append_run :: "(EntryN list \<Rightarrow> string) \<Rightarrow> (string \<Rightarrow> EntryN list option) \<Rightarrow> nat \<Rightarrow> nat \<Rightarrow> append_state \<Rightarrow> bool"
  for mar unmar nclnt where
  start: "append_run mar unmar nclnt 0 \<lparr>as_kv = snd (kv_put MakeKVServer ''k'' (mar []) 0), as_cl = (\<lambda>_. append_start)\<rparr>"
| client: "append_run mar unmar nclnt n s \<Longrightarrow> c < nclnt \<Longrightarrow>
    OneClientAppend mar unmar (int c) act (ac_pc (as_cl s c)) (as_cl s c) (as_kv s) = Some (cl, kv) \<Longrightarrow>
    append_run mar unmar nclnt (Suc n) \<lparr>as_kv = kv, as_cl = (as_cl s)(c := cl)\<rparr>"
| other_key: "append_run mar unmar nclnt n s \<Longrightarrow> pa_Key a \<noteq> ''k'' \<Longrightarrow>
    append_run mar unmar nclnt (Suc n) (s\<lparr>as_kv := kv_run [a] (as_kv s)\<rparr>)"

text \<open>The version of the key while it holds \<open>es\<close>.\<close>

definition ver_of :: "EntryN list \<Rightarrow> Tversion" where
  "ver_of es = of_nat (Suc (length es))"

text \<open>
  What holds of a client while the value is \<open>es\<close>: its numbers increase and are below its counter,
  except that a pending retried put may have been performed already; at least its successful puts
  are there; the entries a pending put would write are current as long as its version is.
\<close>

fun append_pc_ok :: "append_pc \<Rightarrow> int \<Rightarrow> int \<Rightarrow> EntryN list \<Rightarrow> bool" where
  "append_pc_ok (AppendPut v es' r) c i es \<longleftrightarrow> v \<le> ver_of es \<and>
     (v = ver_of es \<longrightarrow> es' = es @ [\<lparr>en_Id = c, en_N = i\<rparr>] \<and> i \<notin> set (appended c es)) \<and>
     (i \<in> set (appended c es) \<longrightarrow> r)"
| "append_pc_ok AppendFatal c i es \<longleftrightarrow> False"
| "append_pc_ok _ c i es \<longleftrightarrow> i \<notin> set (appended c es)"

definition append_client_ok :: "int \<Rightarrow> append_client \<Rightarrow> EntryN list \<Rightarrow> bool" where
  "append_client_ok c cl es \<longleftrightarrow> (let ns = appended c es in
     ac_i cl = ac_nok cl + ac_nmay cl \<and> 0 \<le> ac_nok cl \<and> 0 \<le> ac_nmay cl \<and> incr_from 0 ns \<and> (\<forall>n\<in>set ns. n \<le> ac_i cl) \<and>
     ac_nok cl \<le> int (length (filter (\<lambda>n. n < ac_i cl) ns)) \<and> append_pc_ok (ac_pc cl) c (ac_i cl) es)"

definition append_inv :: "(EntryN list \<Rightarrow> string) \<Rightarrow> nat \<Rightarrow> nat \<Rightarrow> append_state \<Rightarrow> bool" where
  "append_inv mar nclnt n s \<longleftrightarrow> (\<exists>es. srv.cell (as_kv s) ''k'' = (mar es, ver_of es) \<and> length es \<le> n \<and>
     en_Id ` set es \<subseteq> {0..<int nclnt} \<and> (\<forall>c. append_client_ok (int c) (as_cl s c) es))"

lemma ver_of_snoc: "ver_of (es @ [e]) = ver_of es + 1"
  by (simp add: ver_of_def)

lemma unat_ver_of: "length es < 2 ^ 64 - 2 \<Longrightarrow> unat (ver_of es) = Suc (length es)"
  unfolding ver_of_def unat_of_nat by simp

lemma ver_of_less:
  assumes "length es < 2 ^ 64 - 2" "v \<le> ver_of es"
  shows "v \<le> ver_of (es @ [e]) \<and> v \<noteq> ver_of (es @ [e])"
  using version_less [of "ver_of es" v] unat_ver_of [OF assms(1)] assms by (simp add: ver_of_snoc)

lemma append_other_client:
  assumes "append_client_ok d cl es" "d \<noteq> c" "length es < 2 ^ 64 - 2"
  shows "append_client_ok d cl (es @ [\<lparr>en_Id = c, en_N = i\<rparr>])"
proof -
  have a: "appended d (es @ [\<lparr>en_Id = c, en_N = i\<rparr>]) = appended d es" using assms(2) by simp
  have "append_pc_ok (ac_pc cl) d (ac_i cl) (es @ [\<lparr>en_Id = c, en_N = i\<rparr>])"
    using assms ver_of_less [OF assms(3)] by (cases "ac_pc cl") (auto simp: append_client_ok_def Let_def)
  then show ?thesis using assms(1) unfolding append_client_ok_def Let_def a by blast
qed

text \<open>An own put that is performed, whether its answer arrives or not.\<close>

lemma append_performed:
  assumes "append_client_ok c cl es" "ac_pc cl = AppendPut (ver_of es) es' r" "length es < 2 ^ 64 - 2"
  shows "es' = es @ [\<lparr>en_Id = c, en_N = ac_i cl\<rparr>]"
    "append_client_ok c (cl\<lparr>ac_pc := AppendPut (ver_of es) es' True\<rparr>) es'"
    "append_client_ok c (append_put_result cl OK) es'"
proof -
  let ?ns = "appended c es" and ?i = "ac_i cl"
  have 1: "es' = es @ [\<lparr>en_Id = c, en_N = ?i\<rparr>]" "?i \<notin> set ?ns" using assms(1,2) by (auto simp: append_client_ok_def Let_def)
  then show "es' = es @ [\<lparr>en_Id = c, en_N = ?i\<rparr>]" by simp
  have ns: "appended c es' = ?ns @ [?i]" by (simp add: 1)
  have lt: "\<forall>n\<in>set ?ns. n < ?i" using assms(1) 1(2) unfolding append_client_ok_def Let_def by (metis order_le_less)
  have "0 \<le> ?i" using assms(1) by (auto simp: append_client_ok_def Let_def)
  moreover have "last ?ns < ?i" if "?ns \<noteq> []" using lt last_in_set [OF that] by blast
  ultimately have "end_of 0 ?ns \<le> ?i" by (auto simp: end_of_def)
  then have incr: "incr_from 0 (?ns @ [?i])" using assms(1) by (auto simp: incr_from_snoc append_client_ok_def Let_def)
  have f: "filter (\<lambda>n. n < ?i) ?ns = ?ns" "filter (\<lambda>n. n < ?i + 1) ?ns = ?ns" using lt by (auto intro!: filter_True)
  have nok: "ac_nok cl \<le> int (length ?ns)" using assms(1) by (simp add: append_client_ok_def Let_def f)
  show "append_client_ok c (cl\<lparr>ac_pc := AppendPut (ver_of es) es' True\<rparr>) es'"
    using assms(1) incr nok lt ver_of_less [OF assms(3) order.refl, of "\<lparr>en_Id = c, en_N = ?i\<rparr>"]
    unfolding append_client_ok_def Let_def ns by (auto simp: f 1(1))
  show "append_client_ok c (append_put_result cl OK) es'"
    using assms(1) incr nok lt unfolding append_client_ok_def Let_def ns by (auto simp: append_put_result_def f ns)
qed

lemma length_filter_less: "length (filter (\<lambda>n. n < i) ns) \<le> length (filter (\<lambda>n. n < i + 1) ns)" for i :: int
  by (induction ns) auto

lemma append_refused:
  assumes "append_client_ok c cl es" "ac_pc cl = AppendPut v es' r"
  shows "append_client_ok c (append_put_result cl (put_return r ErrVersion)) es"
    "append_client_ok c (cl\<lparr>ac_pc := AppendPut v es' True\<rparr>) es"
proof -
  let ?i = "ac_i cl"
  have ok: "ac_nok cl \<le> int (length (filter (\<lambda>n. n < ?i) (appended c es)))" "\<forall>n\<in>set (appended c es). n \<le> ?i"
    using assms(1) unfolding append_client_ok_def Let_def by blast+
  have "ac_nok cl \<le> int (length (filter (\<lambda>n. n < ?i + 1) (appended c es)))"
    using ok(1) length_filter_less [of ?i "appended c es"] by linarith
  moreover have "\<forall>n\<in>set (appended c es). n < ?i + 1" using ok(2) by auto
  ultimately show "append_client_ok c (append_put_result cl (put_return r ErrVersion)) es"
    using assms by (cases r) (auto simp: append_client_ok_def Let_def append_put_result_def put_return_def)
  show "append_client_ok c (cl\<lparr>ac_pc := AppendPut v es' True\<rparr>) es"
    using assms by (auto simp: append_client_ok_def Let_def)
qed

lemma append_client_step:
  assumes "\<And>es. unmar (mar es) = Some es" "srv.cell kv ''k'' = (mar es, ver_of es)"
    "append_client_ok c cl es" "length es < 2 ^ 64 - 2"
    "OneClientAppend mar unmar c act (ac_pc cl) cl kv = Some (cl', kv')"
  shows "\<exists>es'. srv.cell kv' ''k'' = (mar es', ver_of es') \<and> append_client_ok c cl' es' \<and>
    (es' = es \<or> es' = es @ [\<lparr>en_Id = c, en_N = ac_i cl\<rparr>])"
proof (cases "ac_pc cl")
  case AppendGet
  have "kv_look kv ''k'' \<noteq> None" using cell_missing [of kv "''k''"] assms(2) unat_ver_of [OF assms(4)] by (metis Pair_inject nat.distinct(1) unat_0)
  then have "get_attempt kv ''k'' = (mar es, ver_of es, OK)" by (simp add: get_attempt_cell assms(2))
  then have "cl' = cl \<or> cl' = cl\<lparr>ac_pc := AppendPut (ver_of es) (es @ [\<lparr>en_Id = c, en_N = ac_i cl\<rparr>]) False\<rparr>" "kv' = kv"
    using assms(5) AppendGet by (cases act; auto simp: append_get_result_def GetJson_def assms(1) split: if_splits)+
  then show ?thesis using assms(2,3) AppendGet by (auto simp: append_client_ok_def Let_def)
next
  case (AppendPut v es1 r)
  then obtain d where p: "put_attempt ''k'' (mar es1) v r (\<lambda>r. cl\<lparr>ac_pc := AppendPut v es1 r\<rparr>) (append_put_result cl) d kv = (cl', kv')"
    using assms(5) by (cases act) auto
  have v: "v \<le> ver_of es" using assms(3) AppendPut by (auto simp: append_client_ok_def Let_def)
  show ?thesis
  proof (cases rule: put_attempt_cell [OF assms(2) v p])
    case 1
    then show ?thesis using append_refused(2) [OF assms(3) AppendPut] assms(2) by auto
  next
    case 2
    note q = append_performed [OF assms(3) AppendPut [unfolded 2(1)] assms(4)]
    then show ?thesis using 2(2,3) q ver_of_snoc unfolding 2(1) by (intro exI [of _ es1]) auto
  next
    case 3
    then show ?thesis using append_refused(1) [OF assms(3) AppendPut] assms(2) by auto
  qed
next
  case AppendSelect
  then show ?thesis using assms(2,3,5) by (cases act) (auto simp: append_client_ok_def Let_def)
qed (use assms(5) in \<open>cases act; auto\<close>)+

lemma append_start_ok: "append_client_ok c append_start []"
  by (simp add: append_client_ok_def append_start_def)

lemma append_run_inv:
  assumes "\<And>es. unmar (mar es) = Some es"
  shows "append_run mar unmar nclnt n s \<Longrightarrow> n < 2 ^ 64 - 2 \<Longrightarrow> append_inv mar nclnt n s"
proof (induction rule: append_run.induct)
  case start
  have "srv.cell (snd (kv_put MakeKVServer ''k'' (mar []) 0)) ''k'' = (mar [], 1)"
    using put_at_cell [of MakeKVServer "''k''" "''''" 0 0 "mar []"] cell_missing [of MakeKVServer "''k''"]
    by (simp add: kv_look_def MakeKVServer_def)
  then show ?case unfolding append_inv_def using append_start_ok by (intro exI [of _ "[]"]) (simp add: ver_of_def)
next
  case (client n s c act cl kv)
  then obtain es where es: "srv.cell (as_kv s) ''k'' = (mar es, ver_of es)" "length es \<le> n"
    "en_Id ` set es \<subseteq> {0..<int nclnt}" "\<And>d. append_client_ok (int d) (as_cl s d) es" by (auto simp: append_inv_def)
  have len: "length es < 2 ^ 64 - 2" using es(2) client.prems by simp
  obtain es' where es': "srv.cell kv ''k'' = (mar es', ver_of es')" "append_client_ok (int c) cl es'"
    "es' = es \<or> es' = es @ [\<lparr>en_Id = int c, en_N = ac_i (as_cl s c)\<rparr>]"
    using append_client_step [OF assms es(1,4) len client.hyps(3)] by blast
  have "append_client_ok (int d) (as_cl s d) es'" if "d \<noteq> c" for d
    using es'(3) es(4) append_other_client [OF es(4) _ len, of d "int c"] that by auto
  moreover have "en_Id ` set es' \<subseteq> {0..<int nclnt}" using es'(3) es(3) client.hyps(2) by (elim disjE) simp_all
  ultimately show ?case unfolding append_inv_def using es' es(2) by (intro exI [of _ es']) auto
next
  case (other_key n s a)
  then have "srv.cell (kv_run [a] (as_kv s)) ''k'' = srv.cell (as_kv s) ''k''"
    by (simp add: kv_run_srv srv.cell_put_other)
  then show ?case using other_key.IH other_key.prems by (auto simp: append_inv_def)
qed

lemma sint_ver_of: "length es < 2 ^ 63 - 2 \<Longrightarrow> sint (ver_of es) = int (length es) + 1"
proof -
  assume a: "length es < 2 ^ 63 - 2"
  have "ver_of es = word_of_int (int (length es) + 1)" by (simp add: ver_of_def)
  then have "sint (ver_of es) = signed_take_bit 63 (int (length es) + 1)" by (simp only: sint_sbintrunc') simp
  also have "\<dots> = int (length es) + 1" using a by (intro signed_take_bit_int_eq_self) auto
  finally show ?thesis .
qed

text \<open>When a client has stopped, its numbers are as the check wants them.\<close>

lemma append_done:
  assumes "append_client_ok c cl es" "ac_pc cl = AppendDone"
  defines "ns \<equiv> appended c es"
  shows "sorted_wrt (<) ns" "\<And>n. n \<in> set ns \<Longrightarrow> 0 \<le> n" "ns \<noteq> [] \<Longrightarrow> last ns + 1 - int (length ns) \<le> ac_nmay cl"
    "ns \<noteq> [] \<Longrightarrow> last ns + 1 \<le> ac_nok cl + ac_nmay cl" "0 \<le> ac_nok cl" "0 \<le> ac_nmay cl"
proof -
  have ok: "ac_i cl = ac_nok cl + ac_nmay cl" "0 \<le> ac_nok cl" "0 \<le> ac_nmay cl" "incr_from 0 ns" "\<forall>n\<in>set ns. n \<le> ac_i cl"
    "ac_nok cl \<le> int (length (filter (\<lambda>n. n < ac_i cl) ns))" "ac_i cl \<notin> set ns"
    using assms unfolding append_client_ok_def Let_def by auto
  have "length (filter (\<lambda>n. n < ac_i cl) ns) \<le> length ns" by (rule length_filter_le)
  then have len: "ac_nok cl \<le> int (length ns)" using ok(6) by linarith
  have lt: "last ns < ac_i cl" if "ns \<noteq> []" using last_in_set [OF that] ok(5,7) by (metis order_le_less)
  show "sorted_wrt (<) ns" "\<And>n. n \<in> set ns \<Longrightarrow> 0 \<le> n" using ok(4) by (simp_all add: incr_from_iff)
  show "last ns + 1 - int (length ns) \<le> ac_nmay cl" "last ns + 1 \<le> ac_nok cl + ac_nmay cl" if "ns \<noteq> []"
    using lt [OF that] len ok(1) by linarith+
  show "0 \<le> ac_nok cl" "0 \<le> ac_nmay cl" using ok by simp_all
qed

text \<open>
  The test never blames a correct server: whatever number of clients append concurrently, over
  any network that loses requests and replies, once all of them have stopped the value under the key
  decodes to entries that \<open>CheckAppends\<close> accepts for the results the clients report. No client's
  \<open>GetJson\<close> fails on the way. The JSON encoder is only assumed to be decodable, and there are fewer
  than \<open>2 ^ 63 - 2\<close> steps, so that the version is a positive \<open>int\<close>.
\<close>

lemma append_test_passes:
  assumes "\<And>es. unmar (mar es) = Some es" "append_run mar unmar nclnt n s" "n < 2 ^ 63 - 2"
    and "\<forall>c<nclnt. ac_pc (as_cl s c) = AppendDone"
  shows "\<exists>es ver. GetJson unmar (get_attempt (as_kv s) ''k'') = Ret (es, ver) \<and>
    CheckAppends es nclnt (map (\<lambda>c. \<lparr>Nok = ac_nok (as_cl s c), Nmaybe = ac_nmay (as_cl s c)\<rparr>) [0..<nclnt]) ver = Ret ()"
proof -
  obtain es where es: "srv.cell (as_kv s) ''k'' = (mar es, ver_of es)" "length es \<le> n"
    "en_Id ` set es \<subseteq> {0..<int nclnt}" "\<And>d. append_client_ok (int d) (as_cl s d) es"
    using append_run_inv [OF assms(1,2)] assms(3) by (auto simp: append_inv_def)
  let ?rs = "map (\<lambda>c. \<lparr>Nok = ac_nok (as_cl s c), Nmaybe = ac_nmay (as_cl s c)\<rparr>) [0..<nclnt]"
  have ver: "sint (ver_of es) = int (length es) + 1" using es(2) assms(3) by (intro sint_ver_of) simp
  have "CheckAppends es nclnt ?rs (ver_of es) = Ret ()"
    using es(3) by (subst CheckAppends_iff)
      (auto simp: ver Let_def append_done [OF es(4)] assms(4) dest: append_done(2) [OF es(4) assms(4) [rule_format]])
  moreover have "ver_of es \<noteq> 0" using ver by auto
  then have "kv_look (as_kv s) ''k'' \<noteq> None" using cell_missing [of "as_kv s" "''k''"] es(1) by (metis Pair_inject)
  ultimately show ?thesis using es(1) by (auto simp: GetJson_def get_attempt_cell assms(1))
qed

text \<open>Running a list of actions of given clients.\<close>

fun append_exec :: "(EntryN list \<Rightarrow> string) \<Rightarrow> (string \<Rightarrow> EntryN list option) \<Rightarrow> (nat \<times> append_action) list \<Rightarrow>
    append_state \<Rightarrow> append_state option" where
  "append_exec mar unmar [] s = Some s"
| "append_exec mar unmar ((c, act) # acts) s =
     (case OneClientAppend mar unmar (int c) act (ac_pc (as_cl s c)) (as_cl s c) (as_kv s) of
        None \<Rightarrow> None
      | Some (cl, kv) \<Rightarrow> append_exec mar unmar acts \<lparr>as_kv = kv, as_cl = (as_cl s)(c := cl)\<rparr>)"

text \<open>An encoding of entries that can be decoded.\<close>

definition enc_entries :: "EntryN list \<Rightarrow> string" where
  "enc_entries es = join_with '';'' ([] # map (\<lambda>e. itoa (en_Id e) @ '','' @ itoa (en_N e)) es)"

definition dec_entry :: "string \<Rightarrow> EntryN" where
  "dec_entry w = (case split_on CHR '','' w of a # b # _ \<Rightarrow> \<lparr>en_Id = atoi a, en_N = atoi b\<rparr>
     | _ \<Rightarrow> \<lparr>en_Id = 0, en_N = 0\<rparr>)"

definition dec_entries :: "string \<Rightarrow> EntryN list option" where
  "dec_entries s = Some (map dec_entry (tl (split_on CHR '';'' s)))"

lemma dec_enc_entries: "dec_entries (enc_entries es) = Some es"
proof -
  let ?w = "\<lambda>e :: EntryN. itoa (en_Id e) @ '','' @ itoa (en_N e)"
  have "split_on CHR '';'' (enc_entries es) = [] # map ?w es"
    unfolding enc_entries_def by (rule split_on_join) (auto simp: not_in_itoa)
  moreover have "split_on CHR '','' (?w e) = [itoa (en_Id e), itoa (en_N e)]" for e
    using split_on_append [of "CHR '',''" "itoa (en_Id e)"] by (simp add: not_in_itoa split_on_word)
  then have "dec_entry (?w e) = e" for e unfolding dec_entry_def by (simp add: atoi_itoa)
  ultimately show ?thesis by (simp add: dec_entries_def comp_def)
qed

end
