(* ===== verification/KVPuts.thy ===== *)
theory KVPuts
  imports KVTest
begin

text \<open>
  The second workload of \<open>kvtest1/kvtest.go\<close>: clients that race to put to the same key,
  \<open>OnePut\<close> and \<open>OneClientPut\<close>, and the check of the server's version afterwards,
  \<open>CheckPutConcurrent\<close>.
\<close>

section \<open>The clients\<close>

record EntryV =
  ev_Id :: int
  ev_V :: Tversion

text \<open>
  The program counter: at the \<open>select\<close> of \<open>OneClientPut\<close>; in \<open>OnePut\<close> during the \<open>Put\<close>
  with the version it names and whether it has been retried; before the \<open>Get\<close>, with the error of
  the put and its version; returned; failed.
\<close>

datatype put_pc = PutSelect | PutPut Tversion bool | PutGet Err Tversion | PutDone | PutFatal

record put_client =
  pc_pc :: put_pc
  pc_key :: string
  pc_verm :: "string \<Rightarrow> Tversion"
  pc_nok :: int
  pc_nmay :: int

definition put_start :: put_client where
  "put_start = \<lparr>pc_pc = PutSelect, pc_key = '''', pc_verm = (\<lambda>_. 0), pc_nok = 0, pc_nmay = 0\<rparr>"

text \<open>The \<open>default\<close> branch of the \<open>select\<close>: \<open>j\<close> is the index drawn when keys are random.\<close>

definition put_begin :: "bool \<Rightarrow> string list \<Rightarrow> nat \<Rightarrow> put_client \<Rightarrow> put_client" where
  "put_begin randomkeys ka j cl = (let k = (if randomkeys then ka ! (j mod length ka) else ka ! 0)
     in cl\<lparr>pc_key := k, pc_pc := PutPut (pc_verm cl k) False\<rparr>)"

definition put_put_result :: "Tversion \<Rightarrow> put_client \<Rightarrow> Err \<Rightarrow> put_client" where
  "put_put_result ver cl err = (if \<not> (err = OK \<or> err = ErrVersion \<or> err = ErrMaybe) then cl\<lparr>pc_pc := PutFatal\<rparr>
     else cl\<lparr>pc_pc := PutGet err ver\<rparr>)"

text \<open>After the \<open>Get\<close>: the check of an own value, then return to \<open>OneClientPut\<close> or try again.\<close>

definition put_get_result :: "(string \<Rightarrow> EntryV option) \<Rightarrow> int \<Rightarrow> Err \<Rightarrow> Tversion \<Rightarrow> put_client \<Rightarrow> string \<times> Tversion \<times> Err \<Rightarrow> put_client" where
  "put_get_result unmar me err ver cl res = (case GetJson unmar res of
      Inl _ \<Rightarrow> cl\<lparr>pc_pc := PutFatal\<rparr>
    | Inr (e, ver0) \<Rightarrow>
        if err = OK \<and> ver0 = ver + 1 \<and> ev_Id e \<noteq> me \<and> ev_V e \<noteq> ver then cl\<lparr>pc_pc := PutFatal\<rparr>
        else if err = OK \<or> err = ErrMaybe
        then (let cl' = cl\<lparr>pc_pc := PutSelect, pc_verm := (pc_verm cl)(pc_key cl := ver0)\<rparr>
              in if err = OK then cl'\<lparr>pc_nok := pc_nok cl + 1\<rparr> else cl'\<lparr>pc_nmay := pc_nmay cl + 1\<rparr>)
        else cl\<lparr>pc_pc := PutPut ver0 False\<rparr>)"

datatype put_action = PutSignalled | PutNotSignalled nat | PutTry delivery

fun OneClientPut :: "(EntryV \<Rightarrow> string) \<Rightarrow> (string \<Rightarrow> EntryV option) \<Rightarrow> bool \<Rightarrow> string list \<Rightarrow> int \<Rightarrow> put_action \<Rightarrow>
    put_pc \<Rightarrow> put_client \<Rightarrow> KVServer \<Rightarrow> (put_client \<times> KVServer) option" where
  "OneClientPut mar unmar rk ka me PutSignalled PutSelect cl kv = Some (cl\<lparr>pc_pc := PutDone\<rparr>, kv)"
| "OneClientPut mar unmar rk ka me (PutNotSignalled j) PutSelect cl kv = Some (put_begin rk ka j cl, kv)"
| "OneClientPut mar unmar rk ka me (PutTry d) (PutPut ver r) cl kv =
     Some (put_attempt (pc_key cl) (mar \<lparr>ev_Id = me, ev_V = ver\<rparr>) ver r (\<lambda>r. cl\<lparr>pc_pc := PutPut ver r\<rparr>) (put_put_result ver cl) d kv)"
| "OneClientPut mar unmar rk ka me (PutTry d) (PutGet err ver) cl kv =
     Some (if d = Delivered then put_get_result unmar me err ver cl (get_attempt kv (pc_key cl)) else cl, kv)"
| "OneClientPut mar unmar rk ka me _ _ cl kv = None"

section \<open>The check\<close>

definition CheckPutConcurrent :: "(string \<Rightarrow> EntryV option) \<Rightarrow> string \<times> Tversion \<times> Err \<Rightarrow> ClntRes list \<Rightarrow> ClntRes \<Rightarrow> bool \<Rightarrow> ClntRes outcome" where
  "CheckPutConcurrent unmar got rs res reliable = bindo (GetJson unmar got) (\<lambda>(e, ver0).
     let res' = foldl (\<lambda>a r. \<lparr>Nok = Nok a + Nok r, Nmaybe = Nmaybe a + Nmaybe r\<rparr>) res rs in
     if reliable then (if ver0 \<noteq> word_of_int (Nok res') then Inl Fatal else Ret res')
     else if ver0 > word_of_int (Nok res' + Nmaybe res') then Inl Fatal else Ret res')"

section \<open>Runs\<close>

record put_state =
  ps_kv :: KVServer
  ps_cl :: "nat \<Rightarrow> put_client"

text \<open>\<open>nclnt\<close> clients on one key \<open>k\<close>; on a reliable network every attempt is answered.\<close>

inductive put_run :: "(EntryV \<Rightarrow> string) \<Rightarrow> (string \<Rightarrow> EntryV option) \<Rightarrow> bool \<Rightarrow> bool \<Rightarrow> string \<Rightarrow> nat \<Rightarrow> nat \<Rightarrow> put_state \<Rightarrow> bool"
  for mar unmar reliable rk k nclnt where
  start: "put_run mar unmar reliable rk k nclnt 0 \<lparr>ps_kv = MakeKVServer, ps_cl = (\<lambda>_. put_start)\<rparr>"
| client: "put_run mar unmar reliable rk k nclnt n s \<Longrightarrow> c < nclnt \<Longrightarrow>
    OneClientPut mar unmar rk [k] (int c) act (pc_pc (ps_cl s c)) (ps_cl s c) (ps_kv s) = Some (cl, kv) \<Longrightarrow>
    (reliable \<Longrightarrow> act \<noteq> PutTry ReqLost \<and> act \<noteq> PutTry ReplyLost) \<Longrightarrow>
    put_run mar unmar reliable rk k nclnt (Suc n) \<lparr>ps_kv = kv, ps_cl = (ps_cl s)(c := cl)\<rparr>"
| other_key: "put_run mar unmar reliable rk k nclnt n s \<Longrightarrow> pa_Key a \<noteq> k \<Longrightarrow>
    put_run mar unmar reliable rk k nclnt (Suc n) (s\<lparr>ps_kv := kv_run [a] (ps_kv s)\<rparr>)"

text \<open>
  What holds of a client \<open>c\<close> of whose puts \<open>p\<close> have been performed, while the key has the value
  \<open>w\<close> and the version \<open>t\<close>: the difference between \<open>p\<close> and its results is what is pending.
\<close>

fun put_pc_ok :: "(EntryV \<Rightarrow> string) \<Rightarrow> bool \<Rightarrow> int \<Rightarrow> put_pc \<Rightarrow> int \<Rightarrow> int \<Rightarrow> int \<Rightarrow> string \<Rightarrow> nat \<Rightarrow> bool" where
  "put_pc_ok mar rel c (PutPut v r) p nok nmay w t \<longleftrightarrow> v \<le> of_nat t \<and> nok \<le> p \<and> (rel \<longrightarrow> \<not> r) \<and>
     (p \<le> nok + nmay \<or> p = nok + nmay + 1 \<and> r \<and> v < of_nat t)"
| "put_pc_ok mar rel c (PutGet err v) p nok nmay w t \<longleftrightarrow> 0 < t \<and>
     (if err = OK then nok + 1 \<le> p \<and> p \<le> nok + nmay + 1 \<and> v < of_nat t \<and> (v + 1 = of_nat t \<longrightarrow> w = mar \<lparr>ev_Id = c, ev_V = v\<rparr>)
      else if err = ErrMaybe then nok \<le> p \<and> p \<le> nok + nmay + 1 \<and> \<not> rel
      else nok \<le> p \<and> p \<le> nok + nmay)"
| "put_pc_ok mar rel c PutFatal p nok nmay w t \<longleftrightarrow> False"
| "put_pc_ok mar rel c _ p nok nmay w t \<longleftrightarrow> nok \<le> p \<and> p \<le> nok + nmay"

definition put_client_ok :: "(EntryV \<Rightarrow> string) \<Rightarrow> bool \<Rightarrow> string \<Rightarrow> int \<Rightarrow> put_client \<Rightarrow> nat \<Rightarrow> string \<Rightarrow> nat \<Rightarrow> bool" where
  "put_client_ok mar rel k c cl p w t \<longleftrightarrow> 0 \<le> pc_nok cl \<and> 0 \<le> pc_nmay cl \<and> (rel \<longrightarrow> pc_nmay cl = 0) \<and>
     pc_verm cl k \<le> of_nat t \<and> (pc_pc cl \<notin> {PutSelect, PutDone} \<longrightarrow> pc_key cl = k) \<and>
     (0 < pc_nok cl + pc_nmay cl \<longrightarrow> 0 < t) \<and> put_pc_ok mar rel c (pc_pc cl) (int p) (pc_nok cl) (pc_nmay cl) w t"

definition put_inv :: "(EntryV \<Rightarrow> string) \<Rightarrow> bool \<Rightarrow> string \<Rightarrow> nat \<Rightarrow> nat \<Rightarrow> put_state \<Rightarrow> bool" where
  "put_inv mar rel k nclnt n s \<longleftrightarrow> (\<exists>w p t. t = (\<Sum>c<nclnt. p c) \<and> srv.cell (ps_kv s) k = (w, of_nat t) \<and> t \<le> n \<and>
     (0 < t \<longrightarrow> (\<exists>e. w = mar e)) \<and> (\<forall>d. put_client_ok mar rel k (int d) (ps_cl s d) (p d) w t))"

section \<open>The invariant\<close>

lemma of_nat_version:
  assumes "t < 2 ^ 64 - 1"
  shows "of_nat (Suc t) = (of_nat t :: Tversion) + 1" "v \<le> (of_nat t :: Tversion) \<Longrightarrow> v < of_nat (Suc t)"
    "(of_nat t :: Tversion) = 0 \<longleftrightarrow> t = 0"
proof -
  have u: "unat (of_nat t :: Tversion) = t" using assms by (simp add: unat_of_nat)
  show s: "of_nat (Suc t) = (of_nat t :: Tversion) + 1" by simp
  show "v \<le> (of_nat t :: Tversion) \<Longrightarrow> v < of_nat (Suc t)"
    using version_less [of "of_nat t" v] u assms unfolding s by (simp only: order_less_le) simp
  show "(of_nat t :: Tversion) = 0 \<longleftrightarrow> t = 0"
  proof
    assume "(of_nat t :: Tversion) = 0"
    then show "t = 0" using u by (simp only: unat_0)
  qed simp
qed

lemma put_other_client:
  assumes "put_client_ok mar rel k d cl p w t" "t < 2 ^ 64 - 1"
  shows "put_client_ok mar rel k d cl p w' (Suc t)"
proof -
  note v = of_nat_version [OF assms(2)]
  have le: "u \<le> of_nat (Suc t)" if "u \<le> of_nat t" for u :: Tversion using v(2) [OF that] by simp
  have lt: "u < of_nat (Suc t) \<and> u + 1 \<noteq> of_nat (Suc t)" if "u < of_nat t" for u :: Tversion
    using v(1) v(2) [of u] that by auto
  have "put_pc_ok mar rel d (pc_pc cl) (int p) (pc_nok cl) (pc_nmay cl) w' (Suc t)"
    using assms(1) le lt unfolding put_client_ok_def by (cases "pc_pc cl") (auto simp del: of_nat_Suc split: if_splits)
  then show ?thesis using assms(1) le unfolding put_client_ok_def by (auto simp del: of_nat_Suc)
qed

lemma put_client_step:
  assumes "\<And>e. unmar (mar e) = Some e" "srv.cell kv k = (w, of_nat t)" "0 < t \<Longrightarrow> \<exists>e. w = mar e" "t < 2 ^ 64 - 1"
    "put_client_ok mar rel k c cl p w t" "OneClientPut mar unmar rk [k] c act (pc_pc cl) cl kv = Some (cl', kv')"
    "rel \<Longrightarrow> act \<noteq> PutTry ReqLost \<and> act \<noteq> PutTry ReplyLost"
  shows "srv.cell kv' k = (w, of_nat t) \<and> put_client_ok mar rel k c cl' p w t \<or>
    (\<exists>e. srv.cell kv' k = (mar e, of_nat (Suc t)) \<and> put_client_ok mar rel k c cl' (Suc p) (mar e) (Suc t))"
proof (cases "pc_pc cl")
  case (PutPut v r)
  have v: "v \<le> of_nat t" and key: "pc_key cl = k" using assms(5) PutPut by (auto simp: put_client_ok_def)
  note ver = of_nat_version [OF assms(4)]
  obtain d where act: "act = PutTry d" and pa: "put_attempt k (mar \<lparr>ev_Id = c, ev_V = v\<rparr>) v r
      (\<lambda>r. cl\<lparr>pc_pc := PutPut v r\<rparr>) (put_put_result v cl) d kv = (cl', kv')"
    using assms(6) PutPut key by (cases act) auto
  have rel: "d = Delivered" if rel using assms(7) [OF that] act by (cases d) auto
  show ?thesis
  proof (cases rule: put_attempt_cell [OF assms(2) v pa])
    case 1
    then show ?thesis using assms(2,5) PutPut rel by (auto simp: put_client_ok_def)
  next
    case 2
    have "put_client_ok mar rel k c cl' (Suc p) (mar \<lparr>ev_Id = c, ev_V = v\<rparr>) (Suc t)"
      using put_other_client [OF assms(5,4), of "mar \<lparr>ev_Id = c, ev_V = v\<rparr>"] assms(5) PutPut 2 rel ver(1) ver(2) [OF v]
      by (auto simp: put_client_ok_def put_put_result_def simp del: of_nat_Suc)
    then show ?thesis using 2(1,2) ver(1) by auto
  next
    case 3
    have "v < of_nat t" using v 3(1) by simp
    moreover from this have "0 < t" by (cases t) auto
    ultimately show ?thesis using assms(2,5) PutPut 3 by (auto simp: put_client_ok_def put_put_result_def put_return_def)
  qed
next
  case (PutGet err v)
  have t: "0 < t" and key: "pc_key cl = k" using assms(5) PutGet by (auto simp: put_client_ok_def)
  obtain e where w: "w = mar e" using assms(3) t by blast
  have "(of_nat t :: Tversion) \<noteq> 0" using of_nat_version(3) [OF assms(4)] t by simp
  then have "kv_look kv k \<noteq> None" using cell_missing [of kv k] assms(2) by (metis Pair_inject)
  then have g: "GetJson unmar (get_attempt kv k) = Ret (e, of_nat t)" by (simp add: get_attempt_cell assms(1,2) GetJson_def w)
  obtain d where "act = PutTry d" "kv' = kv" "cl' = (if d = Delivered then put_get_result unmar c err v cl (get_attempt kv k) else cl)"
    using assms(6) PutGet key by (cases act) auto
  moreover have "e = \<lparr>ev_Id = c, ev_V = v\<rparr>" if "mar e = mar \<lparr>ev_Id = c, ev_V = v\<rparr>" using assms(1) that by (metis option.inject)
  ultimately have "put_client_ok mar rel k c cl' p w t"
    using assms(5) PutGet t g w by (auto simp: put_client_ok_def put_get_result_def split: if_splits)
  then show ?thesis using assms(2) \<open>kv' = kv\<close> by simp
next
  case PutSelect
  then show ?thesis using assms(2,5,6) by (cases act) (auto simp: put_client_ok_def put_begin_def Let_def)
qed (use assms(6) in \<open>cases act; auto\<close>)+

lemma put_invI:
  "t = (\<Sum>c<nclnt. p c) \<Longrightarrow> srv.cell (ps_kv s) k = (w, of_nat t) \<Longrightarrow> t \<le> n \<Longrightarrow> (0 < t \<Longrightarrow> \<exists>e. w = mar e) \<Longrightarrow>
    (\<And>d. put_client_ok mar rel k (int d) (ps_cl s d) (p d) w t) \<Longrightarrow> put_inv mar rel k nclnt n s"
  unfolding put_inv_def by (intro exI [of _ w] exI [of _ p] exI [of _ t]) auto

lemma put_run_inv:
  assumes "\<And>e. unmar (mar e) = Some e"
  shows "put_run mar unmar rel rk k nclnt n s \<Longrightarrow> n < 2 ^ 64 - 1 \<Longrightarrow> put_inv mar rel k nclnt n s"
proof (induction rule: put_run.induct)
  case start
  have "srv.cell MakeKVServer k = ('''', 0)" by (rule cell_missing) (simp add: kv_look_def MakeKVServer_def)
  then show ?case unfolding put_inv_def
    by (intro exI [of _ "''''"] exI [of _ "\<lambda>_. 0"]) (simp add: put_client_ok_def put_start_def)
next
  case (client n s c act cl kv)
  then have "put_inv mar rel k nclnt n s" by simp
  then obtain w p t where inv: "t = (\<Sum>c<nclnt. p c)" "srv.cell (ps_kv s) k = (w, of_nat t)" "t \<le> n"
    "0 < t \<longrightarrow> (\<exists>e. w = mar e)" "\<forall>d. put_client_ok mar rel k (int d) (ps_cl s d) (p d) w t"
    unfolding put_inv_def by (elim exE conjE) (rule that)
  have t: "t < 2 ^ 64 - 1" using inv(3) client.prems by simp
  have up: "Suc t = (\<Sum>d<nclnt. (p(c := Suc (p c))) d)" unfolding inv(1)
    using client.hyps(2) sum.remove [of "{..<nclnt}" c p] sum.remove [of "{..<nclnt}" c "p(c := Suc (p c))"] by simp
  from put_client_step [OF assms inv(2) inv(4) [rule_format] t inv(5) [rule_format] client.hyps(3,4)]
  consider "srv.cell kv k = (w, of_nat t)" "put_client_ok mar rel k (int c) cl (p c) w t"
    | e where "srv.cell kv k = (mar e, of_nat (Suc t))" "put_client_ok mar rel k (int c) cl (Suc (p c)) (mar e) (Suc t)" by blast
  then show ?case
  proof cases
    case 1
    then show ?thesis using inv by (intro put_invI [OF inv(1), where w = w]) auto
  next
    case 2
    have "put_client_ok mar rel k (int d) (((ps_cl s)(c := cl)) d) ((p(c := Suc (p c))) d) (mar e) (Suc t)" for d
      using 2(2) put_other_client [OF inv(5) [rule_format] t] by simp
    then show ?thesis using 2(1) inv(3) by (intro put_invI [OF up, where w = "mar e"]) auto
  qed
next
  case (other_key n s a)
  then have "srv.cell (kv_run [a] (ps_kv s)) k = srv.cell (ps_kv s) k" by (simp add: kv_run_srv srv.cell_put_other)
  moreover obtain w p t where inv: "t = (\<Sum>c<nclnt. p c)" "srv.cell (ps_kv s) k = (w, of_nat t)" "t \<le> n"
    "0 < t \<longrightarrow> (\<exists>e. w = mar e)" "\<forall>d. put_client_ok mar rel k (int d) (ps_cl s d) (p d) w t"
    using other_key.IH [OF Suc_lessD [OF other_key.prems]] unfolding put_inv_def by (elim exE conjE) (rule that)
  ultimately show ?case by (intro put_invI [OF inv(1), where w = w]) auto
qed

definition put_results :: "nat \<Rightarrow> put_state \<Rightarrow> ClntRes list" where
  "put_results nclnt s = map (\<lambda>c. \<lparr>Nok = pc_nok (ps_cl s c), Nmaybe = pc_nmay (ps_cl s c)\<rparr>) [0..<nclnt]"

lemma sum_results:
  "foldl (\<lambda>a r. \<lparr>Nok = Nok a + Nok r, Nmaybe = Nmaybe a + Nmaybe r\<rparr>) \<lparr>Nok = x, Nmaybe = y\<rparr> (put_results nclnt s) =
    \<lparr>Nok = x + (\<Sum>c<nclnt. pc_nok (ps_cl s c)), Nmaybe = y + (\<Sum>c<nclnt. pc_nmay (ps_cl s c))\<rparr>"
  by (induction nclnt) (simp_all add: put_results_def)

lemma uint_version: "0 \<le> x \<Longrightarrow> x < 2 ^ 64 \<Longrightarrow> uint (word_of_int x :: Tversion) = x"
  by (simp add: uint_word_of_int)


section \<open>A race\<close>

fun put_exec :: "(EntryV \<Rightarrow> string) \<Rightarrow> (string \<Rightarrow> EntryV option) \<Rightarrow> string \<Rightarrow> (nat \<times> put_action) list \<Rightarrow> put_state \<Rightarrow> put_state option" where
  "put_exec mar unmar k [] s = Some s"
| "put_exec mar unmar k ((c, act) # acts) s =
     (case OneClientPut mar unmar False [k] (int c) act (pc_pc (ps_cl s c)) (ps_cl s c) (ps_kv s) of
        None \<Rightarrow> None
      | Some (cl, kv) \<Rightarrow> put_exec mar unmar k acts \<lparr>ps_kv = kv, ps_cl = (ps_cl s)(c := cl)\<rparr>)"

lemma put_exec_run:
  "put_run mar unmar False False k nclnt n s \<Longrightarrow> fst ` set acts \<subseteq> {..<nclnt} \<Longrightarrow> put_exec mar unmar k acts s = Some s' \<Longrightarrow>
    put_run mar unmar False False k nclnt (n + length acts) s'"
proof (induction mar unmar k acts s arbitrary: n rule: put_exec.induct)
  case (2 mar unmar k c act acts s)
  then obtain cl kv where 1: "OneClientPut mar unmar False [k] (int c) act (pc_pc (ps_cl s c)) (ps_cl s c) (ps_kv s) = Some (cl, kv)"
    "put_exec mar unmar k acts \<lparr>ps_kv = kv, ps_cl = (ps_cl s)(c := cl)\<rparr> = Some s'" by (auto split: option.splits)
  have "put_run mar unmar False False k nclnt (Suc n) \<lparr>ps_kv = kv, ps_cl = (ps_cl s)(c := cl)\<rparr>"
    using put_run.client [OF "2.prems"(1) _ 1(1)] "2.prems"(2) by simp
  then show ?case using "2.IH" [OF 1(1) refl _ _ 1(2)] "2.prems"(2) by fastforce
qed simp

definition enc_entry :: "EntryV \<Rightarrow> string" where
  "enc_entry e = itoa (ev_Id e) @ '','' @ nat_str (unat (ev_V e))"

definition dec_value :: "string \<Rightarrow> EntryV option" where
  "dec_value s = (case split_on CHR '','' s of a # b # _ \<Rightarrow> Some \<lparr>ev_Id = atoi a, ev_V = of_nat (str_nat b)\<rparr> | _ \<Rightarrow> None)"

lemma dec_enc_entry: "dec_value (enc_entry e) = Some e"
proof -
  have "split_on CHR '','' (enc_entry e) = [itoa (ev_Id e), nat_str (unat (ev_V e))]"
    using split_on_append [of "CHR '',''" "itoa (ev_Id e)"] by (simp add: enc_entry_def not_in_itoa not_in_nat_str split_on_word)
  then show ?thesis by (simp add: dec_value_def atoi_itoa str_nat_nat_str)
qed

definition put_example :: "put_state option" where
  "put_example = put_exec enc_entry dec_value ''k''
     [(0, PutNotSignalled 0), (1, PutNotSignalled 0), (0, PutTry ReplyLost), (1, PutTry Delivered), (0, PutTry Delivered),
      (1, PutTry Delivered), (1, PutTry Delivered), (0, PutTry Delivered), (1, PutTry Delivered), (0, PutSignalled), (1, PutSignalled)]
     \<lparr>ps_kv = MakeKVServer, ps_cl = (\<lambda>_. put_start)\<rparr>"

lemma put_example_done:
  "map_option (\<lambda>s. map (\<lambda>c. (pc_pc (ps_cl s c), pc_nok (ps_cl s c), pc_nmay (ps_cl s c))) [0, 1]) put_example
     = Some [(PutDone, 0, 1), (PutDone, 1, 0)]"
  by code_simp


end
