(* ===== verification/KVOps.thy ===== *)
theory KVOps
  imports KVAttempt GoStr
begin

text \<open>
  The recorded operations of \<open>kvtest1/porcupine.go\<close> and the single-client helpers of
  \<open>kvtest1/kvtest.go\<close> on top of the clerk: each call of the clerk has a schedule, as in the
  clerk's theory, and clock readings; a call that does not return is \<^const>\<open>None\<close>.
\<close>

section \<open>The operation log\<close>

type_synonym OpLog = "Operation list"

definition OpLog_Len :: "OpLog \<Rightarrow> nat" where
  "OpLog_Len log = length log"

definition OpLog_Append :: "Operation \<Rightarrow> OpLog \<Rightarrow> OpLog" where
  "OpLog_Append oper log = log @ [oper]"

definition OpLog_Read :: "OpLog \<Rightarrow> Operation list" where
  "OpLog_Read log = log"

text \<open>One call of the clerk: when it starts and ends and what the network does to it.\<close>

record clerk_call =
  ca_start :: int
  ca_end :: int
  ca_sched :: "attempt list"

type_synonym test_state = "KVServer \<times> OpLog"

definition ts_Get :: "string \<Rightarrow> int \<Rightarrow> clerk_call \<Rightarrow> test_state \<Rightarrow> ((string \<times> Tversion \<times> Err) \<times> test_state) option" where
  "ts_Get key cli ca = (\<lambda>(kv, log). case Clerk_Get key (ca_sched ca) kv of
      None \<Rightarrow> None
    | Some ((val, ver, err), kv') \<Rightarrow> Some ((val, ver, err), kv',
        OpLog_Append \<lparr>op_ClientId = cli, op_Input = get_input key, op_Call = ca_start ca, op_Output = get_output val ver err,
                      op_Return = ca_end ca\<rparr> log))"

definition ts_Put :: "string \<Rightarrow> string \<Rightarrow> Tversion \<Rightarrow> int \<Rightarrow> clerk_call \<Rightarrow> test_state \<Rightarrow> (Err \<times> test_state) option" where
  "ts_Put key val ver cli ca = (\<lambda>(kv, log). case Clerk_Put key val ver (ca_sched ca) kv of
      None \<Rightarrow> None
    | Some (err, kv') \<Rightarrow> Some (err, kv',
        OpLog_Append \<lparr>op_ClientId = cli, op_Input = put_input \<lparr>pa_Key = key, pa_Value = val, pa_Version = ver\<rparr>, op_Call = ca_start ca,
                      op_Output = put_output err, op_Return = ca_end ca\<rparr> log))"

section \<open>Helpers\<close>

fun PutAtLeastOnce :: "string \<Rightarrow> string \<Rightarrow> Tversion \<Rightarrow> int \<Rightarrow> clerk_call list \<Rightarrow> test_state \<Rightarrow> (Tversion \<times> test_state) outcome option" where
  "PutAtLeastOnce key val ver me [] s = None"
| "PutAtLeastOnce key val ver me (ca # cas) s = (case ts_Put key val ver me ca s of
      None \<Rightarrow> None
    | Some (err, s') \<Rightarrow>
        if err = OK then Some (Ret (ver + 1, s'))
        else if err = ErrMaybe \<or> err = ErrVersion then PutAtLeastOnce key val (ver + 1) me cas s'
        else if ver \<noteq> 0 then Some (Inl Fatal)
        else PutAtLeastOnce key val ver me cas s')"

text \<open>\<open>PutJson\<close> with the encoder as argument, and the loop that repeats it; the version it puts is always 0.\<close>

definition PutJson :: "('v \<Rightarrow> string option) \<Rightarrow> string \<Rightarrow> 'v \<Rightarrow> Tversion \<Rightarrow> int \<Rightarrow> clerk_call \<Rightarrow> test_state \<Rightarrow> (Err \<times> test_state) outcome option" where
  "PutJson mar key v ver me ca s = (case mar v of
      None \<Rightarrow> Some (Inl Fatal)
    | Some b \<Rightarrow> map_option Inr (ts_Put key b ver me ca s))"

fun PutAtLeastOnceJson :: "('v \<Rightarrow> string option) \<Rightarrow> string \<Rightarrow> 'v \<Rightarrow> Tversion \<Rightarrow> int \<Rightarrow> clerk_call list \<Rightarrow> test_state \<Rightarrow>
    (Tversion \<times> test_state) outcome option" where
  "PutAtLeastOnceJson mar key v ver me [] s = None"
| "PutAtLeastOnceJson mar key v ver me (ca # cas) s = (case PutJson mar key v 0 me ca s of
      None \<Rightarrow> None
    | Some (Inl e) \<Rightarrow> Some (Inl e)
    | Some (Inr (err, s')) \<Rightarrow> if err \<noteq> ErrMaybe then Some (Ret (ver, s'))
        else PutAtLeastOnceJson mar key v (ver + 1) me cas s')"

definition CheckGet :: "string \<Rightarrow> string \<Rightarrow> Tversion \<Rightarrow> clerk_call \<Rightarrow> test_state \<Rightarrow> test_state outcome option" where
  "CheckGet key val ver ca s = (case ts_Get key 0 ca s of
      None \<Rightarrow> None
    | Some ((v, n, err), s') \<Rightarrow>
        if err \<noteq> OK then Some (Inl Fatal)
        else if v \<noteq> val \<or> n \<noteq> ver then Some (Inl Fatal)
        else Some (Ret s'))"

definition MakeKeys :: "nat \<Rightarrow> string list" where
  "MakeKeys n = map (\<lambda>i. ''k'' @ itoa (int i)) [0..<n]"

text \<open>The two loops of \<open>SpreadPutsSize\<close>; the puts go to the clerk directly and are not logged. \<open>va\<close> are the random values.\<close>

fun spread_puts :: "(string \<times> string) list \<Rightarrow> attempt list list \<Rightarrow> KVServer \<Rightarrow> KVServer option" where
  "spread_puts [] scheds kv = Some kv"
| "spread_puts ((k, v) # kvs) (sched # scheds) kv = (case Clerk_Put k v 0 sched kv of
      None \<Rightarrow> None
    | Some (err, kv') \<Rightarrow> spread_puts kvs scheds kv')"
| "spread_puts _ [] kv = None"

fun spread_checks :: "(string \<times> string) list \<Rightarrow> clerk_call list \<Rightarrow> test_state \<Rightarrow> test_state outcome option" where
  "spread_checks [] cas s = Some (Ret s)"
| "spread_checks ((k, v) # kvs) (ca # cas) s = (case CheckGet k v 1 ca s of
      None \<Rightarrow> None
    | Some (Inl e) \<Rightarrow> Some (Inl e)
    | Some (Inr s') \<Rightarrow> spread_checks kvs cas s')"
| "spread_checks _ [] s = None"

definition SpreadPutsSize :: "string list \<Rightarrow> attempt list list \<Rightarrow> clerk_call list \<Rightarrow> test_state \<Rightarrow> test_state outcome option" where
  "SpreadPutsSize va scheds cas = (\<lambda>(kv, log).
     case spread_puts (zip (MakeKeys (length va)) va) scheds kv of
       None \<Rightarrow> None
     | Some kv' \<Rightarrow> spread_checks (zip (MakeKeys (length va)) va) cas (kv', log))"

section \<open>The checks hold for the server\<close>

lemma MakeKeys_distinct: "distinct (MakeKeys n)"
  by (auto simp: MakeKeys_def distinct_map inj_on_def)

lemma Clerk_Get_cell:
  "Clerk_Get k sched kv = Some ((v, m, err), kv') \<Longrightarrow> kv' = kv_run (env_of sched) kv \<and> (v, m) = srv.cell kv' k \<and>
    (err = OK \<longleftrightarrow> kv_look kv' k \<noteq> None)"
  using Clerk_Get_loop_result [of "\<lparr>ga_Key = k\<rparr>" _ sched kv] get_attempt_cell [of kv' k]
  by (fastforce simp: Clerk_Get_def get_attempt_def split: if_splits)

text \<open>\<open>PutAtLeastOnce\<close> returns the version under which the value is then stored.\<close>

lemma PutAtLeastOnce_stored:
  "PutAtLeastOnce key val ver me cas s = Some (Ret (ver', s')) \<Longrightarrow> srv.cell (fst s') key = (val, ver')"
proof (induction key val ver me cas s rule: PutAtLeastOnce.induct)
  case (2 key val ver me ca cas s)
  obtain kv log where s: "s = (kv, log)" by force
  obtain err kv1 log1 where p: "ts_Put key val ver me ca s = Some (err, kv1, log1)" "Clerk_Put key val ver (ca_sched ca) kv = Some (err, kv1)"
    using "2.prems" by (auto simp: ts_Put_def s split: option.splits)
  show ?case
  proof (cases "err = OK")
    case True
    then show ?thesis using "2.prems" p Clerk_Put_loop_OK [OF p(2) [unfolded Clerk_Put_def] True] by auto
  next
    case False
    then show ?thesis using "2.IH" [OF p(1) refl False] "2.prems" p(1) by (auto split: if_splits)
  qed
qed simp

text \<open>What the other clients do leaves a set of keys \<open>K\<close> alone, and the call is answered.\<close>

definition calm :: "string set \<Rightarrow> attempt list \<Rightarrow> bool" where
  "calm K sched \<longleftrightarrow> Delivered \<in> snd ` set sched \<and> pa_Key ` set (env_of sched) \<inter> K = {} \<and> length (env_of sched) < 2 ^ 64 - 1"

lemma kv_look_run_other: "k \<notin> pa_Key ` set l \<Longrightarrow> kv_look (kv_run l kv) k = kv_look kv k"
proof (induction l arbitrary: kv)
  case (Cons a l)
  have "kv_run (a # l) kv = kv_run l (kv_run [a] kv)" using kv_run_append [of "[a]" l kv] by simp
  moreover have "kv_look (kv_run [a] kv) k = kv_look kv k" using Cons.prems by (simp add: kv_run_srv srv.look_put_other)
  ultimately show ?case using Cons by simp
qed simp

lemma Clerk_Put_fresh:
  assumes "calm K sched" "k \<in> K" "kv_look kv k = None"
  shows "\<exists>err kv'. Clerk_Put k v 0 sched kv = Some (err, kv') \<and> kv_look kv' k = Some (v, 1) \<and>
    (\<forall>j\<in>K. j \<noteq> k \<longrightarrow> kv_look kv' j = kv_look kv j)"
proof -
  let ?a = "\<lparr>pa_Key = k, pa_Value = v, pa_Version = 0\<rparr>"
  obtain err kv' where c: "Clerk_Put k v 0 sched kv = Some (err, kv')"
    using Clerk_Put_loop_returns [of ?a _ False sched kv] assms(1) by (fastforce simp: Clerk_Put_def calm_def)
  obtain E1 E2 where E: "E1 @ E2 = env_of sched" "kv' = kv_run E2 (snd (do_Put ?a (kv_run E1 kv)))"
    using Clerk_Put_loop_once [OF c [unfolded Clerk_Put_def]] assms(1) by (auto simp: performed_at_def calm_def)
  have K: "j \<notin> pa_Key ` set E1" "j \<notin> pa_Key ` set E2" if "j \<in> K" for j
    using assms(1) that unfolding calm_def E(1) [symmetric] by auto
  have "kv_look (kv_run E1 kv) k = None" using kv_look_run_other [OF K(1)] assms(2,3) by simp
  then have "kv_look (snd (do_Put ?a (kv_run E1 kv))) = (kv_look (kv_run E1 kv))(k \<mapsto> (v, 1))" using srv.put_create by simp
  then show ?thesis using c E(2) kv_look_run_other [OF K(2)] kv_look_run_other [OF K(1)] assms(2) by simp
qed

lemma spread_puts_stored:
  assumes "length scheds = length kvs" "\<forall>sched\<in>set scheds. calm K sched" "distinct (map fst kvs)" "fst ` set kvs \<subseteq> K"
    "\<forall>k\<in>fst ` set kvs. kv_look kv k = None"
  shows "\<exists>kv'. spread_puts kvs scheds kv = Some kv' \<and> (\<forall>(k, v)\<in>set kvs. kv_look kv' k = Some (v, 1)) \<and>
    (\<forall>j\<in>K - fst ` set kvs. kv_look kv' j = kv_look kv j)"
  using assms
proof (induction kvs scheds kv rule: spread_puts.induct)
  case (2 k v kvs sched scheds kv)
  obtain err kv1 where 1: "Clerk_Put k v 0 sched kv = Some (err, kv1)" "kv_look kv1 k = Some (v, 1)"
    "\<forall>j\<in>K. j \<noteq> k \<longrightarrow> kv_look kv1 j = kv_look kv j" using Clerk_Put_fresh [of K sched k kv v] "2.prems" by auto
  have new: "\<forall>j\<in>fst ` set kvs. kv_look kv1 j = None" using "2.prems"(3-5) 1(3) by (metis distinct.simps(2) image_set insert_iff list.set(2) list.simps(9) subsetD fst_conv)
  obtain kv' where 2: "spread_puts kvs scheds kv1 = Some kv'" "\<forall>(k, v)\<in>set kvs. kv_look kv' k = Some (v, 1)"
    "\<forall>j\<in>K - fst ` set kvs. kv_look kv' j = kv_look kv1 j"
    using "2.IH" [OF 1(1) refl] "2.prems" new by auto
  have "kv_look kv' k = Some (v, 1)" using 2(3) 1(2) "2.prems"(3,4) by simp
  then show ?case using 1 2 by auto
qed simp_all

lemma CheckGet_passes:
  assumes "calm K (ca_sched ca)" "k \<in> K" "kv_look (fst s) k = Some (v, n)"
  shows "\<exists>s'. CheckGet k v n ca s = Some (Ret s') \<and> (\<forall>j\<in>K. kv_look (fst s') j = kv_look (fst s) j)"
proof -
  obtain kv log where s: "s = (kv, log)" by force
  obtain u m err kv' where c: "Clerk_Get k (ca_sched ca) kv = Some ((u, m, err), kv')"
    using Clerk_Get_loop_returns [of "\<lparr>ga_Key = k\<rparr>" _ "ca_sched ca" kv] assms(1) by (fastforce simp: Clerk_Get_def calm_def)
  note g = Clerk_Get_cell [OF c]
  have K: "kv_look kv' j = kv_look kv j" if "j \<in> K" for j using g kv_look_run_other [of j "env_of (ca_sched ca)" kv] assms(1) that by (auto simp: calm_def)
  have "kv_look kv' k = Some (v, n)" using K [OF assms(2)] assms(3) s by simp
  then have "srv.cell kv' k = (v, n)" by (simp add: srv.cell_def)
  then show ?thesis using c g K \<open>kv_look kv' k = Some (v, n)\<close> by (auto simp: CheckGet_def ts_Get_def s)
qed

lemma spread_checks_pass:
  assumes "length cas = length kvs" "\<forall>ca\<in>set cas. calm K (ca_sched ca)" "fst ` set kvs \<subseteq> K"
    "\<forall>(k, v)\<in>set kvs. kv_look (fst s) k = Some (v, 1)"
  shows "\<exists>s'. spread_checks kvs cas s = Some (Ret s')"
  using assms
proof (induction kvs cas s rule: spread_checks.induct)
  case (2 k v kvs ca cas s)
  obtain s1 where 1: "CheckGet k v 1 ca s = Some (Ret s1)" "\<forall>j\<in>K. kv_look (fst s1) j = kv_look (fst s) j"
    using CheckGet_passes [of K ca k s v 1] "2.prems" by auto
  have "\<forall>(k, v)\<in>set kvs. kv_look (fst s1) k = Some (v, 1)" using "2.prems"(3,4) 1(2) by force
  then show ?case using "2.IH" [OF 1(1)] 1(1) "2.prems" by simp
qed simp_all

text \<open>
  \<open>SpreadPuts\<close> passes on a server that does not have its keys yet: although every put may be
  repeated and may report \<open>ErrMaybe\<close>, as long as each call is answered at some attempt and nobody
  else writes these keys, every value is stored under its own key at version 1 and every check of it
  succeeds; the keys it makes up are different.
\<close>

lemma SpreadPuts_pass:
  assumes "length scheds = length va" "length cas = length va"
    and "\<forall>sched\<in>set scheds \<union> ca_sched ` set cas. calm (set (MakeKeys (length va))) sched"
    and "\<forall>k\<in>set (MakeKeys (length va)). kv_look kv k = None"
  shows "\<exists>s'. SpreadPutsSize va scheds cas (kv, log) = Some (Ret s')"
proof -
  let ?ks = "MakeKeys (length va)" let ?kvs = "zip ?ks va"
  have len: "length ?ks = length va" by (simp add: MakeKeys_def)
  have keys: "map fst ?kvs = ?ks" "fst ` set ?kvs = set ?ks" using len by (simp_all add: set_map [symmetric] del: set_map)
  obtain kv' where 1: "spread_puts ?kvs scheds kv = Some kv'" "\<forall>(k, v)\<in>set ?kvs. kv_look kv' k = Some (v, 1)"
    using spread_puts_stored [of scheds ?kvs "set ?ks" kv] assms keys len MakeKeys_distinct [of "length va"] by auto
  obtain s' where "spread_checks ?kvs cas (kv', log) = Some (Ret s')"
    using spread_checks_pass [of cas ?kvs "set ?ks" "(kv', log)"] assms(2,3) keys(2) 1(2) len by auto
  then show ?thesis using 1(1) by (simp add: SpreadPutsSize_def)
qed

lemma SpreadPuts_pass_witness:
  "\<exists>s'. SpreadPutsSize [''a'', ''b''] [[([], ReplyLost), ([], Delivered)], [([], Delivered)]]
     [\<lparr>ca_start = 0, ca_end = 1, ca_sched = [([], Delivered)]\<rparr>, \<lparr>ca_start = 2, ca_end = 3, ca_sched = [([], ReqLost), ([], Delivered)]\<rparr>]
     (MakeKVServer, []) = Some (Ret s')"
  by (rule SpreadPuts_pass) (auto simp: calm_def kv_look_def MakeKVServer_def)

text \<open>
  \<open>PutAtLeastOnceJson\<close> on a key that is already there puts nothing: the put at version 0 is refused,
  and the loop ends with the version it was given.
\<close>

lemma PutAtLeastOnceJson_existing:
  "(case PutAtLeastOnceJson Some ''k'' ''new'' 5 0 [\<lparr>ca_start = 0, ca_end = 1, ca_sched = [([], Delivered)]\<rparr>]
     (snd (kv_put MakeKVServer ''k'' ''old'' 0), []) of
     Some (Inr (ver, kv, log)) \<Rightarrow> ver = 5 \<and> kv_look kv ''k'' = Some (''old'', 1) | _ \<Rightarrow> False)"
  by code_simp

end
