(* ===== verification/Persister.thy ===== *)
theory Persister
  imports Prelude
begin

text \<open>
  The stable storage of a server, \<open>tester1/persister.go\<close>: the Raft state and the snapshot as
  byte strings. Every read and write clones its slice; lists are values, so the clone is the
  identity here.
\<close>

record Persister =
  raftstate :: string
  snapshot :: string

definition MakePersister :: Persister where
  "MakePersister = \<lparr>raftstate = [], snapshot = []\<rparr>"

definition Checkpoint :: "Persister \<Rightarrow> Persister" where
  "Checkpoint ps = MakePersister\<lparr>raftstate := raftstate ps, snapshot := snapshot ps\<rparr>"

definition ReadRaftState :: "Persister \<Rightarrow> string" where
  "ReadRaftState ps = raftstate ps"

definition RaftStateSize :: "Persister \<Rightarrow> nat" where
  "RaftStateSize ps = length (raftstate ps)"

definition Save :: "string \<Rightarrow> string \<Rightarrow> Persister \<Rightarrow> Persister" where
  "Save rs sn ps = ps\<lparr>raftstate := rs, snapshot := sn\<rparr>"

definition ReadSnapshot :: "Persister \<Rightarrow> string" where
  "ReadSnapshot ps = snapshot ps"

definition SnapshotSize :: "Persister \<Rightarrow> nat" where
  "SnapshotSize ps = length (snapshot ps)"

text \<open>Both parts are saved together and read back as they were saved, also from a checkpoint.\<close>

lemma Save_Checkpoint_Read:
  "ReadRaftState (Checkpoint (Save rs sn ps)) = rs" "ReadSnapshot (Checkpoint (Save rs sn ps)) = sn"
  "RaftStateSize (Save rs sn ps) = length rs" "SnapshotSize (Save rs sn ps) = length sn"
  by (simp_all add: Save_def Checkpoint_def ReadRaftState_def ReadSnapshot_def RaftStateSize_def
      SnapshotSize_def MakePersister_def)

end
