(* ===== verification/Group.thy ===== *)
theory Group
  imports Labrpc Persister
begin

text \<open>
  The tester's server groups, \<open>tester1/group.go\<close> and \<open>tester1/srv.go\<close>, and its clients,
  \<open>tester1/clnts.go\<close>: which ends of the simulated network are enabled. The network is shared;
  every operation takes it and returns it. Random names are arguments. A server's process is
  started and stopped outside: what the tester keeps of a running one is its persister.
\<close>

section \<open>Servers\<close>

type_synonym Tgid = int

definition ServerName :: "Tgid \<Rightarrow> int \<Rightarrow> string" where
  "ServerName gid i = ''server-'' @ itoa gid @ ''-'' @ itoa i"

text \<open>\<open>dc\<close> is the running process, seen as the persister it works on.\<close>

record tserver =
  saved :: "Persister option"
  endNames :: "name list"
  dc :: "Persister option"

text \<open>One pass of the loop of \<open>makeServer\<close>: a fresh end to server \<open>j\<close> of the group.\<close>

definition make_one_end :: "Tgid \<Rightarrow> int \<times> name \<Rightarrow> Network \<Rightarrow> Network outcome" where
  "make_one_end gid = (\<lambda>(j, nm) net. bindo (MakeEnd nm net) (\<lambda>net'. Ret (Connect nm (ServerName gid j) net')))"

definition makeServer :: "Tgid \<Rightarrow> name list \<Rightarrow> Network \<Rightarrow> (tserver \<times> Network) outcome" where
  "makeServer gid names net =
     bindo (foldo (make_one_end gid) (map (\<lambda>(j, nm). (int j, nm)) (List.enumerate 0 names)) net)
       (\<lambda>net'. Ret (\<lparr>saved = None, endNames = names, dc = None\<rparr>, net'))"

definition startServer :: "Tgid \<Rightarrow> name list \<Rightarrow> tserver \<Rightarrow> Network \<Rightarrow> (tserver \<times> Network) outcome" where
  "startServer gid names s net = bindo (makeServer gid names net)
     (\<lambda>(srv, net'). Ret (srv\<lparr>saved := Some (case saved s of None \<Rightarrow> MakePersister | Some p \<Rightarrow> p)\<rparr>, net'))"

definition shutdownServer :: "tserver \<Rightarrow> tserver" where
  "shutdownServer s = (case dc s of None \<Rightarrow> s | Some p \<Rightarrow> s\<lparr>saved := Some (Checkpoint p), dc := None\<rparr>)"

definition Server_raftSize :: "tserver \<Rightarrow> nat outcome" where
  "Server_raftSize s = (case dc s of Some p \<Rightarrow> Ret (RaftStateSize p)
     | None \<Rightarrow> (case saved s of None \<Rightarrow> Inl Panic | Some p \<Rightarrow> Ret (RaftStateSize p)))"

definition Server_snapshotSize :: "tserver \<Rightarrow> nat outcome" where
  "Server_snapshotSize s = (case dc s of Some p \<Rightarrow> Ret (SnapshotSize p)
     | None \<Rightarrow> (case saved s of None \<Rightarrow> Inl Panic | Some p \<Rightarrow> Ret (SnapshotSize p)))"

section \<open>Groups of servers\<close>

record ServerGrp =
  srvs :: "tserver list"
  servernames :: "string list"
  gid :: Tgid
  connected :: "bool list"

type_synonym grp_net = "ServerGrp \<times> Network"

definition makeSrvGrp :: "Tgid \<Rightarrow> name list list \<Rightarrow> Network \<Rightarrow> grp_net outcome" where
  "makeSrvGrp g names net =
     bindo (foldo (\<lambda>ns (ss, net). bindo (makeServer g ns net) (\<lambda>(s, net'). Ret (ss @ [s], net'))) names ([], net))
       (\<lambda>(ss, net'). Ret (\<lparr>srvs = ss, servernames = map (\<lambda>i. ServerName g (int i)) [0..<length names], gid = g,
                           connected = replicate (length names) False\<rparr>, net'))"

definition N :: "ServerGrp \<Rightarrow> int" where
  "N sg = int (length (srvs sg))"

definition SrvName :: "int \<Rightarrow> ServerGrp \<Rightarrow> string outcome" where
  "SrvName i sg = idx (servernames sg) i"

definition SrvNamesTo :: "int list \<Rightarrow> ServerGrp \<Rightarrow> string list outcome" where
  "SrvNamesTo to sg = foldo (\<lambda>i ns. bindo (idx (servernames sg) i) (\<lambda>n. Ret (ns @ [n]))) to []"

definition all_srvs :: "ServerGrp \<Rightarrow> int list" where
  "all_srvs sg = map int [0..<length (srvs sg)]"

definition IsConnected :: "int \<Rightarrow> ServerGrp \<Rightarrow> bool outcome" where
  "IsConnected i sg = idx (connected sg) i"

text \<open>The two loops of \<open>connect\<close>: the server's own ends, then the ends of the others to it.\<close>

definition enable_out :: "tserver \<Rightarrow> ServerGrp \<Rightarrow> int \<Rightarrow> Network \<Rightarrow> Network outcome" where
  "enable_out s sg j net = bindo (IsConnected j sg) (\<lambda>c.
     if c then bindo (idx (endNames s) j) (\<lambda>e. Ret (Enable e True net)) else Ret net)"

definition enable_in :: "int \<Rightarrow> ServerGrp \<Rightarrow> int \<Rightarrow> Network \<Rightarrow> Network outcome" where
  "enable_in i sg j net = bindo (IsConnected j sg) (\<lambda>c.
     if c then bindo (idx (srvs sg) j) (\<lambda>s. bindo (idx (endNames s) i) (\<lambda>e. Ret (Enable e True net))) else Ret net)"

definition grp_connect :: "int \<Rightarrow> int list \<Rightarrow> grp_net \<Rightarrow> grp_net outcome" where
  "grp_connect i to = (\<lambda>(sg, net).
     bindo (set_idx (connected sg) i True) (\<lambda>c.
     let sg' = sg\<lparr>connected := c\<rparr> in
     bindo (idx (srvs sg') i) (\<lambda>s.
     bindo (foldo (enable_out s sg') to net) (\<lambda>net1.
     bindo (foldo (enable_in i sg') to net1) (\<lambda>net2. Ret (sg', net2))))))"

definition disable_out :: "tserver \<Rightarrow> int \<Rightarrow> Network \<Rightarrow> Network outcome" where
  "disable_out s j net = bindo (idx (endNames s) j) (\<lambda>e. Ret (Enable e False net))"

definition disable_in :: "int \<Rightarrow> ServerGrp \<Rightarrow> int \<Rightarrow> Network \<Rightarrow> Network outcome" where
  "disable_in i sg j net = bindo (idx (srvs sg) j) (\<lambda>s. bindo (idx (endNames s) i) (\<lambda>e. Ret (Enable e False net)))"

definition grp_disconnect :: "int \<Rightarrow> int list \<Rightarrow> grp_net \<Rightarrow> grp_net outcome" where
  "grp_disconnect i frm = (\<lambda>(sg, net).
     bindo (set_idx (connected sg) i False) (\<lambda>c.
     let sg' = sg\<lparr>connected := c\<rparr> in
     bindo (idx (srvs sg') i) (\<lambda>s.
     bindo (foldo (disable_out s) frm net) (\<lambda>net1.
     bindo (foldo (disable_in i sg') frm net1) (\<lambda>net2. Ret (sg', net2))))))"

definition ConnectOne :: "int \<Rightarrow> grp_net \<Rightarrow> grp_net outcome" where
  "ConnectOne i x = grp_connect i (all_srvs (fst x)) x"

definition ConnectAll :: "grp_net \<Rightarrow> grp_net outcome" where
  "ConnectAll x = foldo ConnectOne (all_srvs (fst x)) x"

definition DisconnectAll :: "int \<Rightarrow> grp_net \<Rightarrow> grp_net outcome" where
  "DisconnectAll i x = grp_disconnect i (all_srvs (fst x)) x"

text \<open>
  \<open>StartServer\<close>: \<open>labsrv\<close> is the address of the new labrpc server and \<open>started\<close> says whether its
  process could be started; the process starts from the saved persister. The first component
  of the result is whether there was no error.
\<close>

definition StartServer :: "int \<Rightarrow> name list \<Rightarrow> addr \<Rightarrow> bool \<Rightarrow> grp_net \<Rightarrow> (bool \<times> grp_net) outcome" where
  "StartServer i names labsrv started = (\<lambda>(sg, net).
     bindo (idx (srvs sg) i) (\<lambda>s.
     bindo (startServer (gid sg) names s net) (\<lambda>(srv, net').
     if \<not> started then Ret (False, sg\<lparr>srvs := (srvs sg)[nat i := srv]\<rparr>, net')
     else let srv' = srv\<lparr>dc := saved srv\<rparr>
     in Ret (True, sg\<lparr>srvs := (srvs sg)[nat i := srv']\<rparr>, AddServer (ServerName (gid sg) i) labsrv net'))))"

definition ShutdownServer :: "int \<Rightarrow> grp_net \<Rightarrow> grp_net outcome" where
  "ShutdownServer i x =
     bindo (grp_disconnect i (all_srvs (fst x)) x) (\<lambda>(sg, net).
     bindo (idx (srvs sg) i) (\<lambda>s.
     Ret (sg\<lparr>srvs := (srvs sg)[nat i := shutdownServer s]\<rparr>, DeleteServer (ServerName (gid sg) i) net)))"

definition Kill :: "int list \<Rightarrow> grp_net \<Rightarrow> grp_net outcome" where
  "Kill is x = foldo ShutdownServer is x"

definition Shutdown :: "grp_net \<Rightarrow> grp_net outcome" where
  "Shutdown x = Kill (all_srvs (fst x)) x"

definition StartSrvs :: "(int \<times> name list \<times> addr \<times> bool) list \<Rightarrow> grp_net \<Rightarrow> grp_net outcome" where
  "StartSrvs l x = foldo (\<lambda>(i, names, a, started) x. bindo (StartServer i names a started x) (\<lambda>r. Ret (snd r))) l x"

definition StartServers :: "(name list \<times> addr \<times> bool) list \<Rightarrow> grp_net \<Rightarrow> grp_net outcome" where
  "StartServers l x = bindo (StartSrvs (zip (all_srvs (fst x)) l) x) ConnectAll"

definition RaftSize :: "ServerGrp \<Rightarrow> nat outcome" where
  "RaftSize sg = foldo (\<lambda>s m. bindo (Server_raftSize s) (\<lambda>n. Ret (if n > m then n else m))) (srvs sg) 0"

definition grp_SnapshotSize :: "ServerGrp \<Rightarrow> nat outcome" where
  "grp_SnapshotSize sg = foldo (\<lambda>s m. bindo (Server_snapshotSize s) (\<lambda>n. Ret (if n > m then n else m))) (srvs sg) 0"

definition RpcCount :: "int \<Rightarrow> grp_net \<Rightarrow> (addr \<Rightarrow> 's Server) \<Rightarrow> int outcome" where
  "RpcCount i = (\<lambda>(sg, net) heap. GetCount (ServerName (gid sg) i) net heap)"

text \<open>
  \<open>MakePartition\<close>: the loop over the servers with its counter \<open>j\<close>; then the leader goes
  into the last place of the second part.
\<close>

definition partition_step :: "int \<Rightarrow> nat \<Rightarrow> nat \<times> int list \<times> int list \<Rightarrow> (nat \<times> int list \<times> int list) outcome" where
  "partition_step l i = (\<lambda>(j, p1, p2).
     if int i \<noteq> l then
       (if j < length p1 then Ret (j + 1, p1[j := int i], p2)
        else bindo (set_idx p2 (int (j - length p1)) (int i)) (\<lambda>p2'. Ret (j + 1, p1, p2')))
     else Ret (j, p1, p2))"

definition MakePartition :: "int \<Rightarrow> ServerGrp \<Rightarrow> (int list \<times> int list) outcome" where
  "MakePartition l sg =
     (let n = length (srvs sg) in
      bindo (foldo (partition_step l) [0..<n] (0, replicate (n div 2 + 1) 0, replicate (n div 2) 0)) (\<lambda>(j, p1, p2).
      bindo (set_idx p2 (int (length p2) - 1) l) (\<lambda>p2'. Ret (p1, p2'))))"

definition partition_one :: "int list \<Rightarrow> int list \<Rightarrow> int \<Rightarrow> grp_net \<Rightarrow> grp_net outcome" where
  "partition_one own other i x = bindo (grp_disconnect i other x) (grp_connect i own)"

definition Partition :: "int list \<Rightarrow> int list \<Rightarrow> grp_net \<Rightarrow> grp_net outcome" where
  "Partition p1 p2 x = bindo (foldo (partition_one p1 p2) p1 x) (foldo (partition_one p2 p1) p2)"

text \<open>
  One round of \<open>Partitioner\<close> of \<open>kvtest1/kvtest.go\<close>: \<open>a\<close> are the random bits, one for each
  server; the servers with bit 0 and those with bit 1 are the two sides.
\<close>

definition bit_side :: "int list \<Rightarrow> int \<Rightarrow> int list" where
  "bit_side a i = filter (\<lambda>j. a ! nat j = i) (map int [0..<length a])"

definition Partitioner_round :: "int list \<Rightarrow> grp_net \<Rightarrow> grp_net outcome" where
  "Partitioner_round a x = Partition (bit_side a 0) (bit_side a 1) x"

section \<open>The table of groups\<close>

type_synonym Groups = "(Tgid \<times> ServerGrp) list"

definition MakeGroup :: "Tgid \<Rightarrow> name list list \<Rightarrow> Groups \<times> Network \<Rightarrow> (Groups \<times> Network) outcome" where
  "MakeGroup g names = (\<lambda>(gs, net). bindo (makeSrvGrp g names net) (\<lambda>(sg, net'). Ret (AList.update g sg gs, net')))"

definition lookupGroup :: "Tgid \<Rightarrow> Groups \<Rightarrow> ServerGrp option" where
  "lookupGroup g gs = map_of gs g"

definition delete_group :: "Tgid \<Rightarrow> Groups \<Rightarrow> Groups" where
  "delete_group g gs = AList.delete g gs"

definition Groups_cleanup :: "Groups \<times> Network \<Rightarrow> Network outcome" where
  "Groups_cleanup = (\<lambda>(gs, net). foldo (\<lambda>(g, sg) net. bindo (Shutdown (sg, net)) (\<lambda>x. Ret (snd x))) gs net)"

definition MakeGroupStart :: "Tgid \<Rightarrow> name list list \<Rightarrow> (name list \<times> addr \<times> bool) list \<Rightarrow> Groups \<times> Network \<Rightarrow> (Groups \<times> Network) outcome" where
  "MakeGroupStart g names l x = bindo (MakeGroup g names x) (\<lambda>(gs, net). case lookupGroup g gs of None \<Rightarrow> Inl Panic
     | Some sg \<Rightarrow> bindo (StartServers l (sg, net)) (\<lambda>(sg', net'). Ret (AList.update g sg' gs, net')))"

definition ExitGroup :: "Tgid \<Rightarrow> Groups \<times> Network \<Rightarrow> (Groups \<times> Network) outcome" where
  "ExitGroup g = (\<lambda>(gs, net). case lookupGroup g gs of None \<Rightarrow> Inl Panic
     | Some sg \<Rightarrow> bindo (Shutdown (sg, net)) (\<lambda>(sg', net'). Ret (delete_group g gs, net')))"

section \<open>Clients\<close>

text \<open>\<open>cl_srvs\<close> is the slice of servers the client may reach; the nil slice, \<^const>\<open>None\<close>, is all of them.\<close>

record Clnt =
  cl_ends :: "(string \<times> name) list"
  cl_srvs :: "string list option"

definition makeClntTo :: "string list option \<Rightarrow> Clnt" where
  "makeClntTo ss = \<lparr>cl_ends = [], cl_srvs = ss\<rparr>"

definition allowedL :: "string \<Rightarrow> Clnt \<Rightarrow> bool" where
  "allowedL server c = (case cl_srvs c of None \<Rightarrow> True | Some ss \<Rightarrow> list_ex (\<lambda>n. n = server) ss)"

definition Clnt_makeEnd :: "string \<Rightarrow> name \<Rightarrow> Clnt \<times> Network \<Rightarrow> (name \<times> Clnt \<times> Network) outcome" where
  "Clnt_makeEnd server nm = (\<lambda>(c, net). case map_of (cl_ends c) server of
      Some e \<Rightarrow> Ret (e, c, net)
    | None \<Rightarrow> bindo (MakeEnd nm net) (\<lambda>net1.
        let net2 = Connect nm server net1;
            net3 = Enable nm (allowedL server c) net2
        in Ret (nm, c\<lparr>cl_ends := AList.update server nm (cl_ends c)\<rparr>, net3)))"

definition Clnt_ConnectAll :: "Clnt \<times> Network \<Rightarrow> Clnt \<times> Network" where
  "Clnt_ConnectAll = (\<lambda>(c, net). (c\<lparr>cl_srvs := None\<rparr>, foldl (\<lambda>net (s, e). Enable e True net) net (cl_ends c)))"

definition ConnectTo :: "string list \<Rightarrow> Clnt \<times> Network \<Rightarrow> Clnt \<times> Network" where
  "ConnectTo ss = (\<lambda>(c, net). let c' = c\<lparr>cl_srvs := Some ss\<rparr> in
     (c', foldl (\<lambda>net (s, e). if allowedL s c' then Enable e True net else net) net (cl_ends c)))"

definition Clnt_Disconnect :: "string \<Rightarrow> Clnt \<times> Network \<Rightarrow> Clnt \<times> Network" where
  "Clnt_Disconnect srv = (\<lambda>(c, net). (c, foldl (\<lambda>net (s, e). if s = srv then Enable e False net else net) net (cl_ends c)))"

definition Clnt_DisconnectAll :: "Clnt \<times> Network \<Rightarrow> Clnt \<times> Network" where
  "Clnt_DisconnectAll = (\<lambda>(c, net). (c\<lparr>cl_srvs := Some []\<rparr>, foldl (\<lambda>net (s, e). Enable e False net) net (cl_ends c)))"

definition Clnt_remove :: "Clnt \<times> Network \<Rightarrow> Network outcome" where
  "Clnt_remove = (\<lambda>(c, net). foldo (\<lambda>(s, e). DeleteEnd e) (cl_ends c) net)"

text \<open>The clients of a test, by address.\<close>

type_synonym Clnts = "(addr \<times> Clnt) list"

definition MakeClientTo :: "string list option \<Rightarrow> addr \<Rightarrow> Clnts \<Rightarrow> Clnts" where
  "MakeClientTo ss a cs = AList.update a (makeClntTo ss) cs"

definition MakeClient :: "addr \<Rightarrow> Clnts \<Rightarrow> Clnts" where
  "MakeClient a cs = MakeClientTo None a cs"

definition Clnts_makeEnd :: "string \<Rightarrow> name \<Rightarrow> Network \<Rightarrow> (name \<times> Network) outcome" where
  "Clnts_makeEnd servername nm net = bindo (MakeEnd nm net) (\<lambda>net1. Ret (nm, Enable nm True (Connect nm servername net1)))"

definition DeleteClient :: "addr \<Rightarrow> Clnts \<times> Network \<Rightarrow> (Clnts \<times> Network) outcome" where
  "DeleteClient a = (\<lambda>(cs, net). case map_of cs a of None \<Rightarrow> Ret (cs, net)
     | Some c \<Rightarrow> bindo (Clnt_remove (c, net)) (\<lambda>net'. Ret (AList.delete a cs, net')))"

definition Clnts_cleanup :: "Clnts \<times> Network \<Rightarrow> (Clnts \<times> Network) outcome" where
  "Clnts_cleanup = (\<lambda>(cs, net). bindo (foldo (\<lambda>(a, c) net. Clnt_remove (c, net)) cs net) (\<lambda>net'. Ret ([], net')))"

end
