(* ===== verification/GroupProps.thy ===== *)
theory GroupProps
  imports Group
begin

text \<open>
  What the tester's partitions do: \<open>MakePartition\<close> splits a group so that the leader is in the
  minority, and \<open>Partition\<close> leaves exactly the ends within each side enabled.
\<close>

section \<open>Names and connectivity\<close>

definition nm :: "ServerGrp \<Rightarrow> int \<Rightarrow> int \<Rightarrow> name" where
  "nm sg a b = endNames (srvs sg ! nat a) ! nat b"

definition conn :: "ServerGrp \<Rightarrow> Network \<Rightarrow> int \<Rightarrow> int \<Rightarrow> bool" where
  "conn sg net a b \<longleftrightarrow> is_enabled net (nm sg a b)"

text \<open>A group of \<open>n\<close> servers, each with an end of its own name to each server.\<close>

definition wf_grp :: "int \<Rightarrow> ServerGrp \<Rightarrow> bool" where
  [wf_simps]: "wf_grp n sg \<longleftrightarrow> int (length (srvs sg)) = n \<and> int (length (connected sg)) = n \<and>
     (\<forall>s\<in>set (srvs sg). int (length (endNames s)) = n) \<and>
     (\<forall>a\<in>{0..<n}. \<forall>b\<in>{0..<n}. \<forall>c\<in>{0..<n}. \<forall>d\<in>{0..<n}. nm sg a b = nm sg c d \<longrightarrow> a = c \<and> b = d)"

definition is_up :: "ServerGrp \<Rightarrow> int \<Rightarrow> bool" where
  "is_up sg a = connected sg ! nat a"

definition set_up :: "int \<Rightarrow> bool \<Rightarrow> ServerGrp \<Rightarrow> ServerGrp" where
  "set_up i b sg = sg\<lparr>connected := (connected sg)[nat i := b]\<rparr>"

lemma set_up_simps [simp]:
  "nm (set_up i b sg) = nm sg" "srvs (set_up i b sg) = srvs sg" "wf_grp n (set_up i b sg) = wf_grp n sg"
  "conn (set_up i b sg) net = conn sg net"
  by (auto simp: set_up_def nm_def wf_grp_def conn_def fun_eq_iff)

lemma set_up_up:
  "wf_grp n sg \<Longrightarrow> i \<in> {0..<n} \<Longrightarrow> a \<in> {0..<n} \<Longrightarrow> is_up (set_up i b sg) a = (if a = i then b else is_up sg a)"
  by (auto simp: is_up_def set_up_def wf_grp_def nth_list_update nat_eq_iff2)

definition enable_all :: "bool \<Rightarrow> name list \<Rightarrow> Network \<Rightarrow> Network" where
  "enable_all b es net = fold (\<lambda>e. Enable e b) es net"

lemma is_enabled_all: "is_enabled (enable_all b es net) e = (if e \<in> set es then b else is_enabled net e)"
  unfolding enable_all_def by (induction es arbitrary: net) (auto simp: is_enabled_def Enable_def)

lemma grp_idx:
  assumes "wf_grp n sg" "a \<in> {0..<n}" "b \<in> {0..<n}"
  shows "idx (srvs sg) a = Ret (srvs sg ! nat a)" "idx (endNames (srvs sg ! nat a)) b = Ret (nm sg a b)"
    "IsConnected a sg = Ret (is_up sg a)" "set_idx (connected sg) a v = Ret ((connected sg)[nat a := v])"
proof -
  have l: "int (length (srvs sg)) = n" "int (length (connected sg)) = n" "\<forall>s\<in>set (srvs sg). int (length (endNames s)) = n"
    using assms(1) unfolding wf_grp_def by blast+
  have "srvs sg ! nat a \<in> set (srvs sg)" using l(1) assms(2) by auto
  then have "int (length (endNames (srvs sg ! nat a))) = n" using l(3) by blast
  then show "idx (srvs sg) a = Ret (srvs sg ! nat a)" "idx (endNames (srvs sg ! nat a)) b = Ret (nm sg a b)"
    "IsConnected a sg = Ret (is_up sg a)" "set_idx (connected sg) a v = Ret ((connected sg)[nat a := v])"
    using l assms(2,3) by (simp_all add: idx_def set_idx_def in_range_def nm_def IsConnected_def is_up_def)
qed

text \<open>The four loops, as one list of ends each.\<close>

lemma enable_loops:
  assumes "wf_grp n sg" "i \<in> {0..<n}" "set to \<subseteq> {0..<n}"
  shows "foldo (enable_out (srvs sg ! nat i) sg) to net = Ret (enable_all True (map (nm sg i) (filter (is_up sg) to)) net)"
    "foldo (enable_in i sg) to net = Ret (enable_all True (map (\<lambda>j. nm sg j i) (filter (is_up sg) to)) net)"
    "foldo (disable_out (srvs sg ! nat i)) to net = Ret (enable_all False (map (nm sg i) to) net)"
    "foldo (disable_in i sg) to net = Ret (enable_all False (map (\<lambda>j. nm sg j i) to) net)"
  using assms(3)
  by (induction to arbitrary: net)
    (auto simp: enable_out_def enable_in_def disable_out_def disable_in_def enable_all_def
      grp_idx [OF assms(1)] grp_idx [OF assms(1,2)] grp_idx [OF assms(1) _ assms(2)])

lemma grp_connect_effect:
  assumes "wf_grp n sg" "i \<in> {0..<n}" "set to \<subseteq> {0..<n}"
  shows "\<exists>net'. grp_connect i to (sg, net) = Ret (set_up i True sg, net') \<and>
    (\<forall>a\<in>{0..<n}. \<forall>b\<in>{0..<n}. conn sg net' a b \<longleftrightarrow> conn sg net a b \<or>
      (a = i \<and> b \<in> set to \<and> is_up (set_up i True sg) b) \<or> (b = i \<and> a \<in> set to \<and> is_up (set_up i True sg) a))"
proof -
  let ?sg = "set_up i True sg"
  let ?up = "filter (is_up ?sg) to"
  let ?net' = "enable_all True (map (\<lambda>j. nm sg j i) ?up) (enable_all True (map (nm sg i) ?up) net)"
  have wf: "wf_grp n ?sg" using assms(1) by simp
  have e: "grp_connect i to (sg, net) = Ret (?sg, ?net')"
    using grp_idx(4) [OF assms(1,2,2), of True] grp_idx(1) [OF assms(1,2,2)] enable_loops(1,2) [OF wf assms(2,3)]
    by (simp add: grp_connect_def set_up_def [symmetric] Let_def)
  have inj: "nm sg a b = nm sg c d \<longleftrightarrow> a = c \<and> b = d" if "a \<in> {0..<n}" "b \<in> {0..<n}" "c \<in> {0..<n}" "d \<in> {0..<n}" for a b c d
    using assms(1) that unfolding wf_grp_def by blast
  have "conn sg ?net' a b \<longleftrightarrow> conn sg net a b \<or>
      (a = i \<and> b \<in> set to \<and> is_up ?sg b) \<or> (b = i \<and> a \<in> set to \<and> is_up ?sg a)"
    if ab: "a \<in> {0..<n}" "b \<in> {0..<n}" for a b
  proof -
    have sub: "x \<in> {0..<n}" if "x \<in> set to" for x using assms(3) that by blast
    have "nm sg a b \<in> nm sg i ` set ?up \<longleftrightarrow> a = i \<and> b \<in> set to \<and> is_up ?sg b"
      using inj [OF ab assms(2)] sub by (auto simp: image_iff)
    moreover have "nm sg a b \<in> (\<lambda>j. nm sg j i) ` set ?up \<longleftrightarrow> b = i \<and> a \<in> set to \<and> is_up ?sg a"
      using inj [OF ab _ assms(2)] sub by (auto simp: image_iff)
    ultimately show ?thesis by (auto simp: conn_def is_enabled_all)
  qed
  then show ?thesis using e by blast
qed

lemma grp_disconnect_effect:
  assumes "wf_grp n sg" "i \<in> {0..<n}" "set frm \<subseteq> {0..<n}"
  shows "\<exists>net'. grp_disconnect i frm (sg, net) = Ret (set_up i False sg, net') \<and>
    (\<forall>a\<in>{0..<n}. \<forall>b\<in>{0..<n}. conn sg net' a b \<longleftrightarrow> conn sg net a b \<and>
      \<not> (a = i \<and> b \<in> set frm) \<and> \<not> (b = i \<and> a \<in> set frm))"
proof -
  let ?sg = "set_up i False sg"
  let ?net' = "enable_all False (map (\<lambda>j. nm sg j i) frm) (enable_all False (map (nm sg i) frm) net)"
  have wf: "wf_grp n ?sg" using assms(1) by simp
  have e: "grp_disconnect i frm (sg, net) = Ret (?sg, ?net')"
    using grp_idx(4) [OF assms(1,2,2), of False] grp_idx(1) [OF assms(1,2,2)] enable_loops(3,4) [OF wf assms(2,3)]
    by (simp add: grp_disconnect_def set_up_def [symmetric] Let_def)
  have inj: "nm sg a b = nm sg c d \<longleftrightarrow> a = c \<and> b = d" if "a \<in> {0..<n}" "b \<in> {0..<n}" "c \<in> {0..<n}" "d \<in> {0..<n}" for a b c d
    using assms(1) that unfolding wf_grp_def by blast
  have "conn sg ?net' a b \<longleftrightarrow> conn sg net a b \<and> \<not> (a = i \<and> b \<in> set frm) \<and> \<not> (b = i \<and> a \<in> set frm)"
    if ab: "a \<in> {0..<n}" "b \<in> {0..<n}" for a b
  proof -
    have sub: "x \<in> {0..<n}" if "x \<in> set frm" for x using assms(3) that by blast
    have "nm sg a b \<in> nm sg i ` set frm \<longleftrightarrow> a = i \<and> b \<in> set frm"
      using inj [OF ab assms(2)] sub by (auto simp: image_iff)
    moreover have "nm sg a b \<in> (\<lambda>j. nm sg j i) ` set frm \<longleftrightarrow> b = i \<and> a \<in> set frm"
      using inj [OF ab _ assms(2)] sub by (auto simp: image_iff)
    ultimately show ?thesis by (auto simp: conn_def is_enabled_all)
  qed
  then show ?thesis using e by blast
qed

section \<open>Partitions\<close>

text \<open>What is known after the servers \<open>xs\<close> of the side \<open>own\<close> have been moved away from \<open>other\<close>.\<close>

definition side_done :: "int \<Rightarrow> int list \<Rightarrow> int list \<Rightarrow> int list \<Rightarrow> grp_net \<Rightarrow> grp_net \<Rightarrow> bool" where
  "side_done n own other xs = (\<lambda>(sg, net) (sg', net').
     wf_grp n sg' \<and> nm sg' = nm sg \<and>
     (\<forall>a\<in>{0..<n}. a \<in> set xs \<or> is_up sg a \<longrightarrow> is_up sg' a) \<and>
     (\<forall>a\<in>set own. \<forall>b\<in>set own. conn sg net a b \<longrightarrow> conn sg net' a b) \<and>
     (\<forall>a\<in>set xs. \<forall>b\<in>set own. b \<in> set xs \<or> is_up sg b \<longrightarrow> conn sg net' a b \<and> conn sg net' b a) \<and>
     (\<forall>a\<in>set own. \<forall>b\<in>set other. (conn sg net' a b \<longrightarrow> conn sg net a b \<and> a \<notin> set xs) \<and>
        (conn sg net' b a \<longrightarrow> conn sg net b a \<and> a \<notin> set xs)) \<and>
     (\<forall>a\<in>set other. \<forall>b\<in>set other. conn sg net' a b = conn sg net a b))"

lemma partition_one_effect:
  assumes "wf_grp n sg" "i \<in> set own" "set own \<subseteq> {0..<n}" "set other \<subseteq> {0..<n}" "set own \<inter> set other = {}"
  shows "\<exists>s'. partition_one own other i (sg, net) = Ret s' \<and> side_done n own other [i] (sg, net) s'"
proof -
  have i: "i \<in> {0..<n}" "i \<notin> set other" using assms by blast+
  have own: "a \<in> {0..<n}" if "a \<in> set own" for a using assms(3) that by blast
  have other: "a \<in> {0..<n}" if "a \<in> set other" for a using assms(4) that by blast
  let ?d = "set_up i False sg"
  let ?c = "set_up i True ?d"
  have wf: "wf_grp n ?d" using assms(1) by simp
  obtain net1 where 1: "grp_disconnect i other (sg, net) = Ret (?d, net1)"
    "\<And>a b. a \<in> {0..<n} \<Longrightarrow> b \<in> {0..<n} \<Longrightarrow> conn sg net1 a b \<longleftrightarrow> conn sg net a b \<and>
      \<not> (a = i \<and> b \<in> set other) \<and> \<not> (b = i \<and> a \<in> set other)"
    using grp_disconnect_effect [OF assms(1) i(1) assms(4), of net] by blast
  obtain net2 where 2: "grp_connect i own (?d, net1) = Ret (?c, net2)"
    "\<And>a b. a \<in> {0..<n} \<Longrightarrow> b \<in> {0..<n} \<Longrightarrow> conn sg net2 a b \<longleftrightarrow> conn sg net1 a b \<or>
      (a = i \<and> b \<in> set own \<and> is_up ?c b) \<or> (b = i \<and> a \<in> set own \<and> is_up ?c a)"
    using grp_connect_effect [OF wf i(1) assms(3), of net1] by auto
  have up: "is_up ?c a \<longleftrightarrow> a = i \<or> is_up sg a" if "a \<in> {0..<n}" for a
    using set_up_up [OF wf i(1) that, of True] set_up_up [OF assms(1) i(1) that, of False] by auto
  have "side_done n own other [i] (sg, net) (?c, net2)"
    unfolding side_done_def using assms(1,2,5) i own other by (auto simp: 1(2) 2(2) up)
  moreover have "partition_one own other i (sg, net) = Ret (?c, net2)" using 1(1) 2(1) by (simp add: partition_one_def)
  ultimately show ?thesis by blast
qed

lemma side_doneD:
  assumes "side_done n own other xs (sg, net) (sg', net')"
  shows "wf_grp n sg'" "nm sg' = nm sg"
    "\<And>a. a \<in> {0..<n} \<Longrightarrow> a \<in> set xs \<or> is_up sg a \<Longrightarrow> is_up sg' a"
    "\<And>a b. a \<in> set own \<Longrightarrow> b \<in> set own \<Longrightarrow> conn sg net a b \<Longrightarrow> conn sg net' a b"
    "\<And>a b. a \<in> set xs \<Longrightarrow> b \<in> set own \<Longrightarrow> b \<in> set xs \<or> is_up sg b \<Longrightarrow> conn sg net' a b \<and> conn sg net' b a"
    "\<And>a b. a \<in> set own \<Longrightarrow> b \<in> set other \<Longrightarrow> conn sg net' a b \<Longrightarrow> conn sg net a b \<and> a \<notin> set xs"
    "\<And>a b. a \<in> set own \<Longrightarrow> b \<in> set other \<Longrightarrow> conn sg net' b a \<Longrightarrow> conn sg net b a \<and> a \<notin> set xs"
    "\<And>a b. a \<in> set other \<Longrightarrow> b \<in> set other \<Longrightarrow> conn sg net' a b = conn sg net a b"
  using assms unfolding side_done_def prod.case by blast+

lemma side_done_Nil: "wf_grp n (fst s) \<Longrightarrow> side_done n own other [] s s"
  by (cases s) (simp add: side_done_def)

lemma side_done_Cons:
  assumes "side_done n own other [i] s1 s2" "side_done n own other xs s2 s3"
    and "set (i # xs) \<subseteq> set own" "set own \<subseteq> {0..<n}"
  shows "side_done n own other (i # xs) s1 s3"
proof -
  obtain sg1 net1 sg2 net2 sg3 net3 where s: "s1 = (sg1, net1)" "s2 = (sg2, net2)" "s3 = (sg3, net3)" by (metis prod.exhaust)
  note d1 = side_doneD [OF assms(1) [unfolded s]] and d2 = side_doneD [OF assms(2) [unfolded s]]
  have c: "conn sg2 = conn sg1" using d1(2) by (simp add: conn_def fun_eq_iff)
  note d2 = d2 [unfolded c]
  have own: "a \<in> {0..<n}" if "a \<in> set own" for a using assms(4) that by blast
  have i: "i \<in> set own" "i \<in> {0..<n}" and xs: "\<And>x. x \<in> set xs \<Longrightarrow> x \<in> set own" using assms(3,4) by auto
  have up: "is_up sg2 a" if "a \<in> {0..<n}" "a = i \<or> is_up sg1 a" for a using d1(3) that by auto
  have both: "conn sg1 net3 a b \<and> conn sg1 net3 b a"
    if a: "a \<in> set (i # xs)" and b: "b \<in> set own" "b \<in> set (i # xs) \<or> is_up sg1 b" for a b
  proof (cases "a \<in> set xs")
    case True
    then show ?thesis using d2(5) [OF True b(1)] b(2) up [OF own [OF b(1)]] by auto
  next
    case False
    then have ai: "a = i" using a by simp
    show ?thesis
    proof (cases "b \<in> set xs")
      case True
      then show ?thesis using d2(5) [OF True i(1)] up [OF i(2)] ai by auto
    next
      case False
      then have "conn sg1 net2 a b \<and> conn sg1 net2 b a" using d1(5) [of i b] b ai by auto
      then show ?thesis using d2(4) ai i(1) b(1) by blast
    qed
  qed
  show ?thesis unfolding s side_done_def prod.case
  proof (intro conjI ballI impI)
    show "wf_grp n sg3" "nm sg3 = nm sg1" using d1(2) d2(1,2) by simp_all
    show "is_up sg3 a" if "a \<in> {0..<n}" "a \<in> set (i # xs) \<or> is_up sg1 a" for a
      using d2(3) [OF that(1)] up [OF that(1)] that(2) by auto
    show "conn sg1 net3 a b" if "a \<in> set own" "b \<in> set own" "conn sg1 net1 a b" for a b
      using d2(4) [OF that(1,2)] d1(4) [OF that(1,2)] that(3) by blast
  next
    fix a b assume ab: "a \<in> set own" "b \<in> set other"
    show "conn sg1 net1 a b" "a \<notin> set (i # xs)" if "conn sg1 net3 a b"
      using d2(6) [OF ab] d1(6) [OF ab] that by auto
    show "conn sg1 net1 b a" "a \<notin> set (i # xs)" if "conn sg1 net3 b a"
      using d2(7) [OF ab] d1(7) [OF ab] that by auto
  next
    show "conn sg1 net3 a b = conn sg1 net1 a b" if "a \<in> set other" "b \<in> set other" for a b
      using d2(8) [OF that] d1(8) [OF that] by simp
  qed (use both in blast)+
qed

lemma partition_side:
  assumes "wf_grp n (fst s)" "set xs \<subseteq> set own" "set own \<subseteq> {0..<n}" "set other \<subseteq> {0..<n}" "set own \<inter> set other = {}"
  shows "\<exists>s'. foldo (partition_one own other) xs s = Ret s' \<and> side_done n own other xs s s'"
  using assms
proof (induction xs arbitrary: s)
  case Nil
  then show ?case using side_done_Nil by auto
next
  case (Cons i xs)
  obtain sg net where s: "s = (sg, net)" by force
  obtain s1 where 1: "partition_one own other i s = Ret s1" "side_done n own other [i] s s1"
    using partition_one_effect [of n sg i own other net] Cons.prems unfolding s by auto
  then have "wf_grp n (fst s1)" by (auto simp: side_done_def split: prod.splits)
  then obtain s2 where 2: "foldo (partition_one own other) xs s1 = Ret s2" "side_done n own other xs s1 s2"
    using Cons.IH [of s1] Cons.prems by auto
  show ?case using 1(1) 2(1) side_done_Cons [OF 1(2) 2(2) Cons.prems(2,3)] by auto
qed

lemma Partition_sides:
  assumes "wf_grp n sg" "set p1 \<union> set p2 = {0..<n}" "set p1 \<inter> set p2 = {}"
  shows "\<exists>sg' net'. Partition p1 p2 (sg, net) = Ret (sg', net') \<and> wf_grp n sg' \<and>
    (\<forall>a\<in>{0..<n}. \<forall>b\<in>{0..<n}. is_up sg' a \<and> (conn sg' net' a b \<longleftrightarrow> (a \<in> set p1 \<longleftrightarrow> b \<in> set p1)))"
proof -
  have sub: "set p1 \<subseteq> {0..<n}" "set p2 \<subseteq> {0..<n}" "set p2 \<inter> set p1 = {}" using assms by blast+
  obtain s1 where 1: "foldo (partition_one p1 p2) p1 (sg, net) = Ret s1" "side_done n p1 p2 p1 (sg, net) s1"
    using partition_side [of n "(sg, net)" p1 p1 p2] assms sub by auto
  obtain sg1 net1 where s1: "s1 = (sg1, net1)" by force
  have wf: "wf_grp n sg1" using 1(2) by (simp add: side_done_def s1)
  obtain s2 where 2: "foldo (partition_one p2 p1) p2 s1 = Ret s2" "side_done n p2 p1 p2 s1 s2"
    using partition_side [of n s1 p2 p2 p1] wf sub by (auto simp: s1)
  obtain sg2 net2 where s2: "s2 = (sg2, net2)" by force
  have nms: "nm sg1 = nm sg" "nm sg2 = nm sg" using 1(2) 2(2) by (simp_all add: side_done_def s1 s2)
  have c: "conn sg1 = conn sg" "conn sg2 = conn sg" using nms by (simp_all add: conn_def fun_eq_iff)
  have r: "a \<in> {0..<n} \<longleftrightarrow> a \<in> set p1 \<or> a \<in> set p2" for a using assms(2) by blast
  note d1 = side_doneD [OF 1(2) [unfolded s1]] and d2 = side_doneD [OF 2(2) [unfolded s1 s2], unfolded c]
  have "is_up sg2 a \<and> (conn sg2 net2 a b \<longleftrightarrow> (a \<in> set p1 \<longleftrightarrow> b \<in> set p1))" if ab: "a \<in> {0..<n}" "b \<in> {0..<n}" for a b
  proof -
    have "is_up sg2 a" using d1(3) [OF ab(1)] d2(3) [OF ab(1)] r [of a] ab(1) by blast
    moreover have "conn sg net2 a b" if "a \<in> set p1" "b \<in> set p1" using d1(5) d2(8) that by blast
    moreover have "conn sg net2 a b" if "a \<in> set p2" "b \<in> set p2" using d2(5) that by blast
    moreover have "\<not> conn sg net2 a b" if "a \<in> set p1" "b \<in> set p2" using d2(7) that by blast
    moreover have "\<not> conn sg net2 a b" if "a \<in> set p2" "b \<in> set p1" using d2(6) that by blast
    ultimately show ?thesis using ab r assms(3) unfolding c by blast
  qed
  moreover have "wf_grp n sg2" using 2(2) by (simp add: side_done_def s1 s2)
  moreover have "Partition p1 p2 (sg, net) = Ret (sg2, net2)" using 1(1) 2(1) by (simp add: Partition_def s2)
  ultimately show ?thesis by blast
qed

text \<open>
  C18. Partitioning a group of \<open>n\<close> servers into two sides that cover it always returns, whatever
  was connected before, and afterwards two servers can exchange messages, in both directions,
  exactly if they are on the same side.
\<close>

theorem Partition_connectivity:
  assumes "wf_grp n sg" "set p1 \<union> set p2 = {0..<n}" "set p1 \<inter> set p2 = {}"
  shows "\<exists>sg' net'. Partition p1 p2 (sg, net) = Ret (sg', net') \<and> wf_grp n sg' \<and>
    (\<forall>a\<in>{0..<n}. \<forall>b\<in>{0..<n}. is_up sg' a \<and> (conn sg' net' a b \<longleftrightarrow> (a \<in> set p1 \<longleftrightarrow> b \<in> set p1)))"
  using assms by (rule Partition_sides)

lemma Partitioner_round_connectivity:
  assumes "wf_grp (int (length a)) sg" "set a \<subseteq> {0, 1}"
  shows "\<exists>sg' net'. Partitioner_round a (sg, net) = Ret (sg', net') \<and> wf_grp (int (length a)) sg' \<and>
    (\<forall>i<length a. \<forall>j<length a. conn sg' net' (int i) (int j) \<longleftrightarrow> a ! i = a ! j)"
proof -
  have bit: "a ! i = 0 \<or> a ! i = 1" if "i < length a" for i using assms(2) nth_mem [OF that] by blast
  have bit': "a ! nat j = 0 \<or> a ! nat j = 1" if "0 \<le> j" "j < int (length a)" for j
    using bit [of "nat j"] that by (simp add: nat_less_iff)
  have side: "int i \<in> set (bit_side a b) \<longleftrightarrow> i < length a \<and> a ! i = b" for i b by (auto simp: bit_side_def)
  have "set (map int [0..<length a]) = {0..<int (length a)}" by (auto simp: image_int_atLeastLessThan)
  then have "set (bit_side a 0) \<union> set (bit_side a 1) = {0..<int (length a)}"
    unfolding bit_side_def set_filter by (auto dest: bit')
  moreover have "set (bit_side a 0) \<inter> set (bit_side a 1) = {}" by (auto simp: bit_side_def)
  ultimately obtain sg' net' where p: "Partition (bit_side a 0) (bit_side a 1) (sg, net) = Ret (sg', net')" "wf_grp (int (length a)) sg'"
    "\<forall>i\<in>{0..<int (length a)}. \<forall>j\<in>{0..<int (length a)}. is_up sg' i \<and>
       (conn sg' net' i j \<longleftrightarrow> (i \<in> set (bit_side a 0) \<longleftrightarrow> j \<in> set (bit_side a 0)))"
    using Partition_sides [OF assms(1)] by blast
  have "conn sg' net' (int i) (int j) \<longleftrightarrow> a ! i = a ! j" if "i < length a" "j < length a" for i j
    using p(3) bit [OF that(1)] bit [OF that(2)] that side by auto
  then show ?thesis using p(1,2) by (simp add: Partitioner_round_def)
qed

text \<open>The two parts of \<open>MakePartition\<close> are filled as one array.\<close>

lemma partition_step_effect:
  assumes "j < length p1 + length p2" "int i \<noteq> l"
  shows "\<exists>p1' p2'. partition_step l i (j, p1, p2) = Ret (j + 1, p1', p2') \<and> p1' @ p2' = (p1 @ p2)[j := int i] \<and>
    length p1' = length p1 \<and> length p2' = length p2"
  using assms by (auto simp: partition_step_def set_idx_def in_range_def list_update_append nat_diff_distrib')

lemma partition_loop:
  assumes "length is \<le> length p1 + length p2 - j"
  shows "\<exists>p1' p2'. foldo (partition_step l) is (j, p1, p2) =
      Ret (j + length (filter (\<lambda>i. int i \<noteq> l) is), p1', p2') \<and> length p1' = length p1 \<and> length p2' = length p2 \<and>
      p1' @ p2' = take j (p1 @ p2) @ map int (filter (\<lambda>i. int i \<noteq> l) is) @
        drop (j + length (filter (\<lambda>i. int i \<noteq> l) is)) (p1 @ p2)"
  using assms
proof (induction "is" arbitrary: j p1 p2)
  case Nil
  then show ?case by (simp del: take_append drop_append)
next
  case (Cons i "is")
  show ?case
  proof (cases "int i = l")
    case True
    then show ?thesis using Cons.IH [of p1 p2 j] Cons.prems by (simp add: partition_step_def)
  next
    case False
    have j: "j < length p1 + length p2" using Cons.prems by simp
    obtain q1 q2 where 1: "partition_step l i (j, p1, p2) = Ret (j + 1, q1, q2)" "q1 @ q2 = (p1 @ p2)[j := int i]"
      "length q1 = length p1" "length q2 = length p2" using partition_step_effect [OF j False] by blast
    have "length is \<le> length q1 + length q2 - (j + 1)" using Cons.prems 1(3,4) by simp
    from Cons.IH [OF this] obtain p1' p2' where 2: "foldo (partition_step l) is (j + 1, q1, q2) =
        Ret (j + 1 + length (filter (\<lambda>i. int i \<noteq> l) is), p1', p2')"
      "length p1' = length p1" "length p2' = length p2"
      "p1' @ p2' = take (j + 1) (q1 @ q2) @ map int (filter (\<lambda>i. int i \<noteq> l) is) @
        drop (j + 1 + length (filter (\<lambda>i. int i \<noteq> l) is)) (q1 @ q2)" using 1(3,4) by auto
    have "take (j + 1) (q1 @ q2) = take j (p1 @ p2) @ [int i]"
      using j unfolding 1(2) by (simp add: take_Suc_conv_app_nth del: take_append)
    moreover have "drop (j + 1 + m) (q1 @ q2) = drop (j + 1 + m) (p1 @ p2)" for m
      unfolding 1(2) by (simp del: drop_append)
    ultimately show ?thesis using 1(1) 2 False by (simp del: take_append drop_append)
  qed
qed

lemma partition_filter_length:
  "l \<in> {0..<int n} \<Longrightarrow> length (filter (\<lambda>i. int i \<noteq> l) [0..<n]) = n - 1"
proof -
  assume l: "l \<in> {0..<int n}"
  have "set (filter (\<lambda>i. int i \<noteq> l) [0..<n]) = {0..<n} - {nat l}" using l by auto
  moreover have "card ({0..<n} - {nat l}) = n - 1" using l by (subst card_Diff_singleton) (auto simp: nat_less_iff)
  moreover have "distinct (filter (\<lambda>i. int i \<noteq> l) [0..<n])" by simp
  ultimately show ?thesis using distinct_card by metis
qed

text \<open>
  In a group of \<open>2k+1\<close> servers, at least three, \<open>MakePartition\<close> with the leader \<open>l\<close> returns a
  majority of \<open>k+1\<close> servers without the leader and a minority of \<open>k\<close> with it; every server is on
  exactly one side.
\<close>

lemma MakePartition_splits:
  assumes "length (srvs sg) = 2 * k + 1" "0 < k" "l \<in> {0..<N sg}"
  shows "\<exists>p1 p2. MakePartition l sg = Ret (p1, p2) \<and> length p1 = k + 1 \<and> length p2 = k \<and>
    l \<in> set p2 \<and> distinct (p1 @ p2) \<and> set p1 \<union> set p2 = {0..<N sg}"
proof -
  let ?js = "filter (\<lambda>i. int i \<noteq> l) [0..<2 * k + 1]"
  have l: "l \<in> {0..<int (2 * k + 1)}" using assms by (simp add: N_def)
  have len: "length ?js = 2 * k" using partition_filter_length [OF l] by simp
  have z: "replicate (k + 1) (0::int) @ replicate k 0 = replicate (2 * k) 0 @ [0]"
    unfolding replicate_add [symmetric] replicate_append_same by (simp add: mult_2)
  obtain p1 p2 where 1: "foldo (partition_step l) [0..<2 * k + 1] (0, replicate (k + 1) 0, replicate k 0) = Ret (2 * k, p1, p2)"
    "length p1 = k + 1" "length p2 = k" "p1 @ p2 = map int ?js @ [0]"
    using partition_loop [of "[0..<2 * k + 1]" "replicate (k + 1) 0" "replicate k 0" 0 l] unfolding len z by auto
  let ?p2 = "p2[k - 1 := l]"
  have "p1 @ ?p2 = (p1 @ p2)[length (map int ?js) := l]" using 1(2,3) assms(2) len by (simp add: list_update_append)
  then have a: "p1 @ ?p2 = map int ?js @ [l]" unfolding 1(4) by (simp add: list_update_append)
  have "MakePartition l sg = Ret (p1, ?p2)"
    using 1 assms(1,2) by (auto simp: MakePartition_def Let_def set_idx_def in_range_def nat_diff_distrib')
  moreover have "l \<in> set ?p2" using 1(3) assms(2) by (simp add: set_update_memI)
  moreover have "distinct (p1 @ ?p2)" unfolding a by (auto simp: distinct_map inj_on_def)
  moreover have "set p1 \<union> set ?p2 = {0..<N sg}"
  proof -
    have "set p1 \<union> set ?p2 = int ` set ?js \<union> {l}" using arg_cong [OF a, of set] by simp
    also have "\<dots> = {0..<int (2 * k + 1)}"
    proof -
      have "x = l \<or> x \<in> int ` set ?js" if "x \<in> {0..<int (2 * k + 1)}" for x
      proof (rule disjCI)
        assume "x \<notin> int ` set ?js"
        then have "nat x \<notin> set ?js" using that by (metis atLeastLessThan_iff image_eqI int_nat_eq)
        then show "x = l" using that by (auto simp del: upt_Suc)
      qed
      moreover have "int ` set ?js \<subseteq> {0..<int (2 * k + 1)}" by (auto simp del: upt_Suc)
      ultimately show ?thesis using l by blast
    qed
    finally show ?thesis using assms(1) by (simp add: N_def)
  qed
  ultimately show ?thesis using 1(2,3) by (intro exI [of _ p1] exI [of _ ?p2]) simp
qed

lemma MakePartition_example:
  "\<exists>p1 p2. MakePartition 1 \<lparr>srvs = replicate 3 \<lparr>saved = None, endNames = [], dc = None\<rparr>, servernames = [], gid = 0,
      connected = []\<rparr> = Ret (p1, p2) \<and> length p1 = 2 \<and> length p2 = 1 \<and> 1 \<in> set p2 \<and> distinct (p1 @ p2) \<and>
    set p1 \<union> set p2 = {0..<3}"
  using MakePartition_splits [of "\<lparr>srvs = replicate 3 \<lparr>saved = None, endNames = [], dc = None\<rparr>, servernames = [], gid = 0,
      connected = []\<rparr>" 1 1] by (simp add: N_def eval_nat_numeral)

text \<open>With an even number of servers the parts have one place too many, and server 0 is listed twice.\<close>

lemma MakePartition_even:
  "MakePartition 0 \<lparr>srvs = replicate 4 \<lparr>saved = None, endNames = [], dc = None\<rparr>, servernames = [], gid = 0,
      connected = []\<rparr> = Ret ([1, 2, 3], [0, 0])"
  "MakePartition 2 \<lparr>srvs = replicate 4 \<lparr>saved = None, endNames = [], dc = None\<rparr>, servernames = [], gid = 0,
      connected = []\<rparr> = Ret ([0, 1, 3], [0, 2])"
  "MakePartition 0 \<lparr>srvs = [\<lparr>saved = None, endNames = [], dc = None\<rparr>], servernames = [], gid = 0,
      connected = []\<rparr> = Inl Panic"
  by code_simp+

definition grp3 :: ServerGrp where
  "grp3 = \<lparr>srvs = [\<lparr>saved = None, endNames = [''00'', ''01'', ''02''], dc = None\<rparr>,
      \<lparr>saved = None, endNames = [''10'', ''11'', ''12''], dc = None\<rparr>,
      \<lparr>saved = None, endNames = [''20'', ''21'', ''22''], dc = None\<rparr>],
    servernames = [], gid = 0, connected = [True, False, True]\<rparr>"

theorem Partition_connectivity_witness:
  "\<exists>sg' net'. Partition [0, 2] [1] (grp3, MakeNetwork) = Ret (sg', net') \<and>
     conn sg' net' 0 2 \<and> conn sg' net' 2 0 \<and> \<not> conn sg' net' 0 1 \<and> \<not> conn sg' net' 1 2"
proof -
  have "wf_grp 3 grp3" by code_simp
  moreover have "set [0::int, 2] \<union> set [1] = {0..<3}" by code_simp
  moreover have "set [0::int, 2] \<inter> set [1] = {}" by simp
  ultimately obtain sg' net' where "Partition [0, 2] [1] (grp3, MakeNetwork) = Ret (sg', net')"
    "\<forall>a\<in>{0..<3}. \<forall>b\<in>{0..<3}. is_up sg' a \<and> (conn sg' net' a b \<longleftrightarrow> (a \<in> set [0::int, 2] \<longleftrightarrow> b \<in> set [0, 2]))"
    using Partition_connectivity [of 3 grp3 "[0, 2]" "[1]" MakeNetwork] by blast
  then show ?thesis by (intro exI [of _ sg'] exI [of _ net']) auto
qed

end
