(* ===== verification/TestCfg.thy ===== *)
theory TestCfg
  imports GroupProps GoStr
begin

text \<open>
  The configuration of a test, \<open>tester1/config.go\<close>: the groups, the clients and the network of a test
  and its statistics. Printing is left out; the clock and the random bytes are arguments.
\<close>

section \<open>The configuration\<close>

record Config =
  cf_groups :: Groups
  cf_clnts :: Clnts
  cf_net :: Network
  cf_failed :: bool
  cf_start :: int
  cf_t0 :: int
  cf_rpcs0 :: int
  cf_ops :: "32 word"
  cf_endName :: string

definition GRP0 :: Tgid where
  "GRP0 = 0"

definition Randstring :: "nat list \<Rightarrow> nat \<Rightarrow> string outcome" where
  "Randstring b n = (let s = EncodeToString b in if n \<le> length s then Ret (take n s) else Inl Panic)"

definition MakeConfig :: "nat list \<Rightarrow> name list list \<Rightarrow> (name list \<times> addr \<times> bool) list \<Rightarrow> bool \<Rightarrow> int \<Rightarrow> Config outcome" where
  "MakeConfig b names l rel now = bindo (Randstring b 20) (\<lambda>endName.
     bindo (MakeGroupStart GRP0 names l ([], MakeNetwork)) (\<lambda>(gs, net).
     Ret \<lparr>cf_groups = gs, cf_clnts = [], cf_net = Reliable rel net, cf_failed = False, cf_start = now, cf_t0 = 0, cf_rpcs0 = 0,
          cf_ops = 0, cf_endName = endName\<rparr>))"

definition SetReliable :: "bool \<Rightarrow> Config \<Rightarrow> Config" where
  "SetReliable rel cfg = cfg\<lparr>cf_net := Reliable rel (cf_net cfg)\<rparr>"

definition SetLongReordering :: "bool \<Rightarrow> Config \<Rightarrow> Config" where
  "SetLongReordering longrel cfg = cfg\<lparr>cf_net := LongReordering longrel (cf_net cfg)\<rparr>"

definition SetLongDelays :: "bool \<Rightarrow> Config \<Rightarrow> Config" where
  "SetLongDelays longdel cfg = cfg\<lparr>cf_net := LongDelays longdel (cf_net cfg)\<rparr>"

definition RpcTotal :: "Config \<Rightarrow> int" where
  "RpcTotal cfg = GetTotalCount (cf_net cfg)"

definition Config_Begin :: "int \<Rightarrow> Config \<Rightarrow> Config" where
  "Config_Begin now cfg = cfg\<lparr>cf_t0 := now, cf_rpcs0 := RpcTotal cfg, cf_ops := 0\<rparr>"

definition OpInc :: "Config \<Rightarrow> Config" where
  "OpInc cfg = cfg\<lparr>cf_ops := cf_ops cfg + 1\<rparr>"

text \<open>Two minutes, in nanoseconds.\<close>

definition CheckTimeout :: "int \<Rightarrow> Config \<Rightarrow> unit outcome" where
  "CheckTimeout now cfg = (if \<not> cf_failed cfg \<and> now - cf_start cfg > 120 * 10 ^ 9 then Inl Fatal else Ret ())"

text \<open>\<open>End\<close>: the numbers it prints, time, peers, RPCs and operations, or nothing for a test that failed.\<close>

definition Config_End :: "int \<Rightarrow> Config \<Rightarrow> (int \<times> int \<times> int \<times> int) option outcome" where
  "Config_End now cfg = bindo (CheckTimeout now cfg) (\<lambda>_.
     if cf_failed cfg then Ret None
     else case lookupGroup GRP0 (cf_groups cfg) of
       None \<Rightarrow> Inl Panic
     | Some sg \<Rightarrow> Ret (Some (now - cf_t0 cfg, N sg, RpcTotal cfg - cf_rpcs0 cfg, sint (cf_ops cfg))))"

definition Config_Cleanup :: "Config \<Rightarrow> (string \<times> Config) outcome" where
  "Config_Cleanup cfg = bindo (Clnts_cleanup (cf_clnts cfg, cf_net cfg)) (\<lambda>(cs, net).
     bindo (Groups_cleanup (cf_groups cfg, net)) (\<lambda>net'.
     Ret (if cf_failed cfg then ''test failed'' else ''test passed'', cfg\<lparr>cf_clnts := cs, cf_net := net'\<rparr>)))"

text \<open>\<open>random_handles\<close>: \<open>js ! i\<close> is what \<open>rand.Intn(i + 1)\<close> gives in pass \<open>i\<close>.\<close>

definition swap_at :: "'a list \<Rightarrow> nat \<Rightarrow> nat \<Rightarrow> 'a list" where
  "swap_at sa i j = sa[i := sa ! j, j := sa ! i]"

definition random_handles :: "nat list \<Rightarrow> 'a list \<Rightarrow> 'a list" where
  "random_handles js kvh = foldl (\<lambda>sa i. swap_at sa i (js ! i)) kvh [0..<length kvh]"

section \<open>What a test reports\<close>

text \<open>One request that the network takes from a client.\<close>

definition request_taken :: "Config \<Rightarrow> Config" where
  "request_taken cfg = cfg\<lparr>cf_net := (cf_net cfg)\<lparr>nw_count := nw_count (cf_net cfg) + 1\<rparr>\<rparr>"

lemma request_taken_count: "nw_count (cf_net ((request_taken ^^ k) cfg)) = nw_count (cf_net cfg) + of_nat k"
  by (induction k) (simp_all add: request_taken_def)

lemma OpInc_count: "cf_ops ((OpInc ^^ k) cfg) = cf_ops cfg + of_nat k"
  by (induction k) (simp_all add: OpInc_def)

lemma request_taken_other:
  "cf_groups ((request_taken ^^ k) cfg) = cf_groups cfg" "cf_ops ((request_taken ^^ k) cfg) = cf_ops cfg"
  "cf_rpcs0 ((request_taken ^^ k) cfg) = cf_rpcs0 cfg" "cf_failed ((request_taken ^^ k) cfg) = cf_failed cfg"
  "cf_start ((request_taken ^^ k) cfg) = cf_start cfg" "cf_t0 ((request_taken ^^ k) cfg) = cf_t0 cfg"
  by (induction k) (simp_all add: request_taken_def)

lemma OpInc_other:
  "cf_groups ((OpInc ^^ k) cfg) = cf_groups cfg" "cf_net ((OpInc ^^ k) cfg) = cf_net cfg"
  "cf_rpcs0 ((OpInc ^^ k) cfg) = cf_rpcs0 cfg" "cf_failed ((OpInc ^^ k) cfg) = cf_failed cfg"
  "cf_start ((OpInc ^^ k) cfg) = cf_start cfg" "cf_t0 ((OpInc ^^ k) cfg) = cf_t0 cfg"
  by (induction k) (simp_all add: OpInc_def)

lemma sint_of_nat_small: "k < 2 ^ 31 \<Longrightarrow> sint (of_nat k :: 32 word) = int k"
  by (simp add: signed_of_nat signed_take_bit_int_eq_self_iff)

text \<open>
  \<open>End\<close> reports the requests and operations since \<open>Begin\<close>, as long as the network's counter and the
  number of operations stay below \<open>2 ^ 31\<close>.
\<close>

lemma End_reports:
  assumes "nw_count (cf_net cfg) = of_nat r0" "r0 + k < 2 ^ 31" "m < 2 ^ 31" "\<not> cf_failed cfg" "now - cf_start cfg \<le> 120 * 10 ^ 9"
    "lookupGroup GRP0 (cf_groups cfg) = Some sg"
  shows "Config_End now ((OpInc ^^ m) ((request_taken ^^ k) (Config_Begin t0 cfg))) = Ret (Some (now - t0, N sg, int k, int m))"
proof -
  let ?c = "Config_Begin t0 cfg"
  have r0: "sint (of_nat r0 :: 32 word) = int r0" using assms(2) by (intro sint_of_nat_small) simp
  have rk: "sint (of_nat r0 + of_nat k :: 32 word) = int (r0 + k)"
    using sint_of_nat_small [OF assms(2)] by (simp only: of_nat_add)
  have "RpcTotal ((OpInc ^^ m) ((request_taken ^^ k) ?c)) = int (r0 + k)"
    unfolding RpcTotal_def GetTotalCount_def OpInc_other request_taken_count using rk assms(1) by (simp add: Config_Begin_def)
  moreover have "cf_ops ((OpInc ^^ m) ((request_taken ^^ k) ?c)) = of_nat m"
    unfolding OpInc_count request_taken_other by (simp add: Config_Begin_def)
  ultimately show ?thesis using assms(4-6) r0 assms(1) sint_of_nat_small [OF assms(3)]
    by (simp add: Config_End_def CheckTimeout_def OpInc_other request_taken_other)
      (simp add: Config_Begin_def RpcTotal_def GetTotalCount_def OpInc_other request_taken_other)
qed

text \<open>\<open>random_handles\<close> gives a permutation, whatever numbers are drawn in range.\<close>

lemma random_handles_perm:
  assumes "\<forall>i<length kvh. js ! i \<le> i"
  shows "mset (random_handles js kvh) = mset kvh"
proof -
  have "mset (foldl (\<lambda>sa i. swap_at sa i (js ! i)) kvh [0..<n]) = mset kvh \<and>
    length (foldl (\<lambda>sa i. swap_at sa i (js ! i)) kvh [0..<n]) = length kvh" if "n \<le> length kvh" for n
    using that
  proof (induction n)
    case (Suc n)
    have "js ! n \<le> n" using assms Suc.prems by simp
    then show ?case using Suc by (simp add: swap_at_def mset_swap)
  qed simp
  then show ?thesis by (simp add: random_handles_def)
qed

text \<open>A name of \<open>n\<close> characters is always there to cut from the encoding of \<open>2 * n\<close> random bytes.\<close>

lemma Randstring_length: "length b = 2 * n \<Longrightarrow> \<exists>s. Randstring b n = Ret s \<and> length s = n"
  using take_EncodeToString_fits [of b n] by (simp add: Randstring_def Let_def)

end
