(* ===== verification/KVSpawn.thy ===== *)
theory KVSpawn
  imports KVTest TestCfg
begin

text \<open>
  \<open>runClient\<close> and \<open>SpawnClientsAndWait\<close> of \<open>kvtest1/kvtest.go\<close>: the test starts one goroutine for
  each client, sends every one of them a signal over one unbuffered channel that they all read, and
  collects their results over one unbuffered channel each. A rendezvous is one step. The clients'
  function is an argument; it is instantiated with \<open>OneClientAppend\<close>.
\<close>

section \<open>Goroutines\<close>

text \<open>
  A clerk maker and a client function with its local state: \<open>fn_step i k l g l' g'\<close> is a step of
  client \<open>i\<close> with clerk \<open>k\<close> that does not receive; \<open>fn_signal\<close> receives from \<open>done\<close>, which is possible
  where the function looks at it; \<open>fn_result\<close> is the value when it has returned.
\<close>

record ('k, 'l, 'g) Fclnt =
  fn_make :: "'g \<Rightarrow> 'k \<Rightarrow> 'g \<Rightarrow> bool"
  fn_delete :: "'k \<Rightarrow> 'g \<Rightarrow> 'g \<Rightarrow> bool"
  fn_start :: 'l
  fn_step :: "nat \<Rightarrow> 'k \<Rightarrow> 'l \<Rightarrow> 'g \<Rightarrow> 'l \<Rightarrow> 'g \<Rightarrow> bool"
  fn_signal :: "'l \<Rightarrow> 'l option"
  fn_result :: "'l \<Rightarrow> ClntRes option"

datatype 'k runner = Unborn | Born | Running 'k | Sending 'k ClntRes | Leaving 'k | Gone

datatype spawn_pc = Spawning nat | Signalling nat | Collecting "ClntRes list" | Spawned "ClntRes list"

record ('k, 'l, 'g) spawn =
  sp_main :: spawn_pc
  sp_run :: "nat \<Rightarrow> 'k runner"
  sp_loc :: "nat \<Rightarrow> 'l"
  sp_g :: 'g

inductive spawn_step :: "('k, 'l, 'g) Fclnt \<Rightarrow> nat \<Rightarrow> ('k, 'l, 'g) spawn \<Rightarrow> ('k, 'l, 'g) spawn \<Rightarrow> bool" for fn nclnt where
  go: "sp_main s = Spawning cli \<Longrightarrow> cli < nclnt \<Longrightarrow>
    spawn_step fn nclnt s (s\<lparr>sp_main := Spawning (Suc cli), sp_run := (sp_run s)(cli := Born)\<rparr>)"
| slept: "sp_main s = Spawning nclnt \<Longrightarrow> spawn_step fn nclnt s (s\<lparr>sp_main := Signalling 0\<rparr>)"
| make: "sp_run s i = Born \<Longrightarrow> fn_make fn (sp_g s) k g \<Longrightarrow>
    spawn_step fn nclnt s (s\<lparr>sp_run := (sp_run s)(i := Running k), sp_g := g\<rparr>)"
| work: "sp_run s i = Running k \<Longrightarrow> fn_step fn i k (sp_loc s i) (sp_g s) l g \<Longrightarrow>
    spawn_step fn nclnt s (s\<lparr>sp_loc := (sp_loc s)(i := l), sp_g := g\<rparr>)"
| signal: "sp_main s = Signalling d \<Longrightarrow> d < nclnt \<Longrightarrow> sp_run s i = Running k \<Longrightarrow> fn_signal fn (sp_loc s i) = Some l \<Longrightarrow>
    spawn_step fn nclnt s (s\<lparr>sp_main := Signalling (Suc d), sp_loc := (sp_loc s)(i := l)\<rparr>)"
| signalled: "sp_main s = Signalling nclnt \<Longrightarrow> spawn_step fn nclnt s (s\<lparr>sp_main := Collecting []\<rparr>)"
| returns: "sp_run s i = Running k \<Longrightarrow> fn_result fn (sp_loc s i) = Some v \<Longrightarrow>
    spawn_step fn nclnt s (s\<lparr>sp_run := (sp_run s)(i := Sending k v)\<rparr>)"
| receive: "sp_main s = Collecting rs \<Longrightarrow> length rs < nclnt \<Longrightarrow> sp_run s (length rs) = Sending k v \<Longrightarrow>
    spawn_step fn nclnt s (s\<lparr>sp_main := Collecting (rs @ [v]), sp_run := (sp_run s)(length rs := Leaving k)\<rparr>)"
| delete: "sp_run s i = Leaving k \<Longrightarrow> fn_delete fn k (sp_g s) g \<Longrightarrow>
    spawn_step fn nclnt s (s\<lparr>sp_run := (sp_run s)(i := Gone), sp_g := g\<rparr>)"
| collected: "sp_main s = Collecting rs \<Longrightarrow> length rs = nclnt \<Longrightarrow> spawn_step fn nclnt s (s\<lparr>sp_main := Spawned rs\<rparr>)"

definition spawn_start :: "('k, 'l, 'g) Fclnt \<Rightarrow> 'g \<Rightarrow> ('k, 'l, 'g) spawn" where
  "spawn_start fn g = \<lparr>sp_main = Spawning 0, sp_run = (\<lambda>_. Unborn), sp_loc = (\<lambda>_. fn_start fn), sp_g = g\<rparr>"

abbreviation spawn_steps :: "('k, 'l, 'g) Fclnt \<Rightarrow> nat \<Rightarrow> ('k, 'l, 'g) spawn \<Rightarrow> ('k, 'l, 'g) spawn \<Rightarrow> bool" where
  "spawn_steps fn nclnt \<equiv> (spawn_step fn nclnt)\<^sup>*\<^sup>*"

section \<open>What a client function has to promise\<close>

text \<open>
  \<open>lok\<close> holds of a client that has not been signalled and \<open>sok\<close> of the shared state: the function
  returns once it is signalled, and never before, and it always comes back to look at the channel.
\<close>

locale client_function =
  fixes fn :: "('k, 'l, 'g) Fclnt" and lok :: "'l \<Rightarrow> bool" and sok :: "'g \<Rightarrow> bool"
  assumes starts: "lok (fn_start fn)"
    and unfinished: "lok l \<Longrightarrow> fn_result fn l = None"
    and stops: "lok l \<Longrightarrow> fn_signal fn l = Some l' \<Longrightarrow> fn_result fn l' \<noteq> None"
    and stopped: "fn_result fn l \<noteq> None \<Longrightarrow> fn_signal fn l = None \<and> \<not> fn_step fn i k l g l' g'"
    and keeps: "lok l \<Longrightarrow> sok g \<Longrightarrow> fn_step fn i k l g l' g' \<Longrightarrow> lok l' \<and> sok g'"
    and makes: "sok g \<Longrightarrow> \<exists>k g'. fn_make fn g k g'"
    and make_keeps: "sok g \<Longrightarrow> fn_make fn g k g' \<Longrightarrow> sok g'"
    and delete_keeps: "sok g \<Longrightarrow> fn_delete fn k g g' \<Longrightarrow> sok g'"
    and looks: "lok l \<Longrightarrow> sok g \<Longrightarrow>
      \<exists>l' g'. (\<lambda>(l, g) (l', g'). fn_step fn i k l g l' g')\<^sup>*\<^sup>* (l, g) (l', g') \<and> fn_signal fn l' \<noteq> None"
begin

definition told :: "'k runner \<Rightarrow> 'l \<Rightarrow> bool" where
  "told r l \<longleftrightarrow> (case r of Unborn \<Rightarrow> False | Born \<Rightarrow> False | _ \<Rightarrow> fn_result fn l \<noteq> None)"

definition left :: "'k runner \<Rightarrow> bool" where
  "left r \<longleftrightarrow> (case r of Leaving _ \<Rightarrow> True | Gone \<Rightarrow> True | _ \<Rightarrow> False)"

definition runner_ok :: "'k runner \<Rightarrow> 'l \<Rightarrow> bool" where
  "runner_ok r l \<longleftrightarrow> (case r of Unborn \<Rightarrow> l = fn_start fn | Born \<Rightarrow> l = fn_start fn | Running _ \<Rightarrow> lok l \<or> fn_result fn l \<noteq> None
     | Sending _ v \<Rightarrow> fn_result fn l = Some v | _ \<Rightarrow> fn_result fn l \<noteq> None)"

fun main_ok :: "nat \<Rightarrow> spawn_pc \<Rightarrow> (nat \<Rightarrow> 'k runner) \<Rightarrow> (nat \<Rightarrow> 'l) \<Rightarrow> bool" where
  "main_ok n (Spawning c) r l \<longleftrightarrow> c \<le> n \<and> (\<forall>i. (r i = Unborn) = (c \<le> i)) \<and> (\<forall>i. \<not> told (r i) (l i) \<and> \<not> left (r i))"
| "main_ok n (Signalling d) r l \<longleftrightarrow> (\<forall>i. (r i = Unborn) = (n \<le> i)) \<and> d \<le> n \<and> card {i. i < n \<and> told (r i) (l i)} = d \<and> (\<forall>i. \<not> left (r i))"
| "main_ok n (Collecting rs) r l \<longleftrightarrow> (\<forall>i. (r i = Unborn) = (n \<le> i)) \<and> length rs \<le> n \<and> (\<forall>i<n. told (r i) (l i)) \<and>
     (\<forall>i<n. left (r i) = (i < length rs)) \<and> (\<forall>i<length rs. fn_result fn (l i) = Some (rs ! i))"
| "main_ok n (Spawned rs) r l \<longleftrightarrow> length rs = n \<and> (\<forall>i<n. fn_result fn (l i) = Some (rs ! i))"

definition spawn_ok :: "nat \<Rightarrow> ('k, 'l, 'g) spawn \<Rightarrow> bool" where
  "spawn_ok n s \<longleftrightarrow> sok (sp_g s) \<and> (\<forall>i. runner_ok (sp_run s i) (sp_loc s i)) \<and> main_ok n (sp_main s) (sp_run s) (sp_loc s)"

lemma spawn_ok_start: "sok g \<Longrightarrow> spawn_ok n (spawn_start fn g)"
  using starts by (simp add: spawn_ok_def spawn_start_def runner_ok_def told_def left_def)

text \<open>A step of a client that does not change whether it was told or has left keeps what the test sees.\<close>

lemma main_ok_same:
  assumes "main_ok n m r l" "told r' l' = told (r i) (l i)" "left r' = left (r i)" "(r' = Unborn) = (r i = Unborn)"
    "fn_result fn (l i) \<noteq> None \<Longrightarrow> l' = l i"
  shows "main_ok n m (r(i := r')) (l(i := l'))"
proof -
  have eq: "fn_result fn (l j) = Some v \<Longrightarrow> fn_result fn ((l(i := l')) j) = Some v" for j v using assms(5) by auto
  have told: "told ((r(i := r')) j) ((l(i := l')) j) = told (r j) (l j)" for j using assms(2) by simp
  have left: "left ((r(i := r')) j) = left (r j)" and un: "((r(i := r')) j = Unborn) = (r j = Unborn)" for j
    using assms(3,4) by simp_all
  show ?thesis using assms(1) eq by (cases m) (simp_all add: told left un del: fun_upd_apply)
qed

lemma main_ok_runner:
  assumes "main_ok n m r l" "told r' (l i) = told (r i) (l i)" "left r' = left (r i)" "(r' = Unborn) = (r i = Unborn)"
  shows "main_ok n m (r(i := r')) l"
  using main_ok_same [OF assms] by simp

lemma count_told:
  assumes "i < (n :: nat)" "\<not> told (r i) (l i)" "told (r' i) (l' i)" "\<And>j. j \<noteq> i \<Longrightarrow> told (r' j) (l' j) = told (r j) (l j)"
  shows "card {j. j < n \<and> told (r' j) (l' j)} = Suc (card {j. j < n \<and> told (r j) (l j)})"
proof -
  have "{j. j < n \<and> told (r' j) (l' j)} = insert i {j. j < n \<and> told (r j) (l j)}" using assms by (auto split: if_splits) (metis assms(4))+
  moreover have "finite {j. j < n \<and> told (r j) (l j)}" by (rule finite_subset [of _ "{..<n}"]) auto
  ultimately show ?thesis using assms(2) by (simp only: card_insert_disjoint mem_Collect_eq not_False_eq_True simp_thms)
qed

lemma spawn_ok_step: "spawn_step fn n s s' \<Longrightarrow> spawn_ok n s \<Longrightarrow> spawn_ok n s'"
proof (induction rule: spawn_step.induct)
  case (go s cli)
  then have u: "sp_run s cli = Unborn" and o: "\<forall>i. runner_ok (sp_run s i) (sp_loc s i)" by (auto simp: spawn_ok_def)
  then have b: "runner_ok Born (sp_loc s cli)" by (auto simp: runner_ok_def dest: spec [of _ cli])
  have m: "cli \<le> n" "\<forall>i. (sp_run s i = Unborn) = (cli \<le> i)" "\<forall>i. \<not> told (sp_run s i) (sp_loc s i) \<and> \<not> left (sp_run s i)"
    using go by (simp_all add: spawn_ok_def)
  then have "main_ok n (Spawning (Suc cli)) ((sp_run s)(cli := Born)) (sp_loc s)"
    using go(2) by (auto simp: told_def left_def)
  with go b o show ?case by (simp add: spawn_ok_def)
next
  case (slept s)
  then show ?case by (auto simp: spawn_ok_def)
next
  case (make s i k g)
  have l: "sp_loc s i = fn_start fn" using make by (auto simp: spawn_ok_def runner_ok_def dest!: spec [of _ i] split: runner.splits)
  then have "\<not> told (Running k) (sp_loc s i)" using unfinished [OF starts] by (simp add: told_def)
  then have "main_ok n (sp_main s) ((sp_run s)(i := Running k)) (sp_loc s)"
    using make by (intro main_ok_runner) (simp_all add: spawn_ok_def told_def left_def)
  moreover have "sok g" using make make_keeps by (auto simp: spawn_ok_def)
  ultimately show ?case using make l starts by (simp add: spawn_ok_def runner_ok_def)
next
  case (work s i k l g)
  have li: "lok (sp_loc s i)" "sok (sp_g s)"
    using work stopped by (auto simp: spawn_ok_def runner_ok_def dest!: spec [of _ i])
  then have l: "lok l" "sok g" using keeps work by blast+
  then have "main_ok n (sp_main s) (sp_run s) ((sp_loc s)(i := l))"
    using main_ok_same [of n "sp_main s" "sp_run s" "sp_loc s" "sp_run s i" l i, unfolded fun_upd_triv] work li l unfinished
    by (simp add: spawn_ok_def told_def)
  then show ?case using work l by (simp add: spawn_ok_def runner_ok_def)
next
  case (signal s d i k l)
  have m: "main_ok n (Signalling d) (sp_run s) (sp_loc s)" using signal by (simp add: spawn_ok_def)
  have r: "runner_ok (sp_run s i) (sp_loc s i)" using signal(5) unfolding spawn_ok_def by blast
  have li: "lok (sp_loc s i)" using r signal stopped by (auto simp: runner_ok_def)
  then have l: "fn_result fn l \<noteq> None" using stops signal by blast
  have i: "i < n" using m signal by (metis main_ok.simps(2) not_le runner.distinct(3))
  have "card {j. j < n \<and> told (sp_run s j) (((sp_loc s)(i := l)) j)} = Suc d"
    using count_told [OF i, where r = "sp_run s" and l = "sp_loc s" and r' = "sp_run s" and l' = "(sp_loc s)(i := l)"]
      m li l unfinished signal by (auto simp: told_def)
  then show ?case using signal m l by (auto simp: spawn_ok_def runner_ok_def)
next
  case (signalled s)
  have c: "card {i. i < n \<and> told (sp_run s i) (sp_loc s i)} = n" using signalled by (simp add: spawn_ok_def)
  have "{i. i < n \<and> told (sp_run s i) (sp_loc s i)} = {..<n}"
    by (rule card_subset_eq) (use c in auto)
  then have "\<forall>i<n. told (sp_run s i) (sp_loc s i)" by auto
  then show ?case using signalled by (auto simp: spawn_ok_def)
next
  case (returns s i k v)
  have "main_ok n (sp_main s) ((sp_run s)(i := Sending k v)) (sp_loc s)"
    using returns by (intro main_ok_runner) (simp_all add: spawn_ok_def told_def left_def)
  then show ?case using returns by (simp add: spawn_ok_def runner_ok_def)
next
  case (receive s rs k v)
  have m: "main_ok n (Collecting rs) (sp_run s) (sp_loc s)" using receive by (auto simp: spawn_ok_def)
  have r: "fn_result fn (sp_loc s (length rs)) = Some v"
    using receive by (auto simp: spawn_ok_def runner_ok_def dest!: spec [of _ "length rs"])
  then have "main_ok n (Collecting (rs @ [v])) ((sp_run s)(length rs := Leaving k)) (sp_loc s)"
    using m receive by (auto simp: told_def left_def nth_append less_Suc_eq)
  then show ?case using receive r by (auto simp: spawn_ok_def runner_ok_def)
next
  case (delete s i k g)
  have "main_ok n (sp_main s) ((sp_run s)(i := Gone)) (sp_loc s)"
    using delete by (intro main_ok_runner) (simp_all add: spawn_ok_def told_def left_def)
  moreover have "runner_ok Gone (sp_loc s i)" using delete by (auto simp: spawn_ok_def runner_ok_def dest!: spec [of _ i])
  ultimately show ?case using delete delete_keeps by (auto simp: spawn_ok_def)
next
  case (collected s rs)
  then show ?case by (auto simp: spawn_ok_def)
qed

lemma spawn_ok_steps: "spawn_steps fn n s s' \<Longrightarrow> spawn_ok n s \<Longrightarrow> spawn_ok n s'"
  by (induction rule: rtranclp_induct) (auto intro: spawn_ok_step)

text \<open>Whatever happened before, the test can go on to its end.\<close>

lemma spawn_all:
  assumes "sp_main s = Spawning c" "c \<le> n"
  shows "\<exists>s'. spawn_steps fn n s s' \<and> sp_main s' = Signalling 0"
  using assms
proof (induction "n - c" arbitrary: c s)
  case 0
  then have "spawn_step fn n s (s\<lparr>sp_main := Signalling 0\<rparr>)" by (intro spawn_step.slept) simp
  then show ?case by (intro exI [of _ "s\<lparr>sp_main := Signalling 0\<rparr>"]) auto
next
  case (Suc d)
  let ?s = "s\<lparr>sp_main := Spawning (Suc c), sp_run := (sp_run s)(c := Born)\<rparr>"
  have "spawn_step fn n s ?s" using Suc by (intro spawn_step.go) simp_all
  moreover have "\<exists>s'. spawn_steps fn n ?s s' \<and> sp_main s' = Signalling 0" using Suc by (intro Suc(1) [of "Suc c"]) simp_all
  ultimately show ?case by (meson converse_rtranclp_into_rtranclp)
qed

text \<open>A client that has not been told can come to the point where it looks.\<close>

lemma work_on:
  assumes "(\<lambda>(l, g) (l', g'). fn_step fn i k l g l' g')\<^sup>*\<^sup>* (l, g) (l', g')"
    "sp_run s i = Running k" "sp_loc s i = l" "sp_g s = g"
  shows "spawn_steps fn n s (s\<lparr>sp_loc := (sp_loc s)(i := l'), sp_g := g'\<rparr>)"
  using assms(1)
proof (induction rule: rtranclp_induct2)
  case refl
  have "(sp_loc s)(i := l) = sp_loc s" using assms(3) by auto
  then have "s\<lparr>sp_loc := (sp_loc s)(i := l), sp_g := g\<rparr> = s" using assms(4) by simp
  then show ?case by (metis rtranclp.rtrancl_refl)
next
  case (step l1 g1 l2 g2)
  have "spawn_step fn n (s\<lparr>sp_loc := (sp_loc s)(i := l1), sp_g := g1\<rparr>)
      ((s\<lparr>sp_loc := (sp_loc s)(i := l1), sp_g := g1\<rparr>)\<lparr>sp_loc := ((sp_loc s)(i := l1))(i := l2), sp_g := g2\<rparr>)"
    using spawn_step.work [of "s\<lparr>sp_loc := (sp_loc s)(i := l1), sp_g := g1\<rparr>" i k fn l2 g2 n] step(2) assms(2) by simp
  then have "spawn_step fn n (s\<lparr>sp_loc := (sp_loc s)(i := l1), sp_g := g1\<rparr>) (s\<lparr>sp_loc := (sp_loc s)(i := l2), sp_g := g2\<rparr>)" by simp
  with step(3) show ?case by (rule rtranclp.rtrancl_into_rtrancl)
qed

lemma signal_one:
  assumes "spawn_ok n s" "sp_main s = Signalling d" "d < n"
  shows "\<exists>s'. spawn_steps fn n s s' \<and> sp_main s' = Signalling (Suc d)"
proof -
  have "card {i. i < n \<and> told (sp_run s i) (sp_loc s i)} = d" using assms by (simp add: spawn_ok_def)
  then have "{i. i < n \<and> told (sp_run s i) (sp_loc s i)} \<noteq> {..<n}" using assms(3) card_lessThan by (metis less_irrefl)
  then obtain i where i: "i < n" "\<not> told (sp_run s i) (sp_loc s i)" by auto
  have "\<forall>i. (sp_run s i = Unborn) = (n \<le> i)" using assms(1,2) by (simp add: spawn_ok_def)
  then have born: "sp_run s i \<noteq> Unborn" using i(1) by simp
  have r: "runner_ok (sp_run s i) (sp_loc s i)" and g: "sok (sp_g s)" using assms(1) by (simp_all add: spawn_ok_def)
  have "\<exists>s1 k. spawn_steps fn n s s1 \<and> sp_main s1 = Signalling d \<and> sp_run s1 i = Running k \<and> lok (sp_loc s1 i) \<and> sok (sp_g s1)"
  proof (cases "sp_run s i = Born")
    case True
    obtain k g' where m: "fn_make fn (sp_g s) k g'" using makes [OF g] by blast
    let ?s = "s\<lparr>sp_run := (sp_run s)(i := Running k), sp_g := g'\<rparr>"
    have "spawn_step fn n s ?s" by (rule spawn_step.make [where fn = fn, OF True m])
    moreover have "lok (sp_loc ?s i)" using r True starts by (simp add: runner_ok_def)
    moreover have "sok (sp_g ?s)" using make_keeps [OF g m] by simp
    ultimately show ?thesis using assms(2) by (intro exI [of _ ?s] exI [of _ k]) auto
  next
    case False
    then obtain k where "sp_run s i = Running k" "lok (sp_loc s i)"
      using born r i(2) by (cases "sp_run s i") (auto simp: runner_ok_def told_def)
    then show ?thesis using assms(2) g by blast
  qed
  then obtain s1 k where s1: "spawn_steps fn n s s1" "sp_main s1 = Signalling d" "sp_run s1 i = Running k"
    "lok (sp_loc s1 i)" "sok (sp_g s1)" by blast
  obtain l' g' where l': "(\<lambda>(l, g) (l', g'). fn_step fn i k l g l' g')\<^sup>*\<^sup>* (sp_loc s1 i, sp_g s1) (l', g')" "fn_signal fn l' \<noteq> None"
    using looks [OF s1(4,5)] by blast
  let ?s2 = "s1\<lparr>sp_loc := (sp_loc s1)(i := l'), sp_g := g'\<rparr>"
  have 2: "spawn_steps fn n s1 ?s2" by (rule work_on [OF l'(1) s1(3) refl refl])
  obtain l2 where "fn_signal fn l' = Some l2" using l'(2) by blast
  then have "spawn_step fn n ?s2 (?s2\<lparr>sp_main := Signalling (Suc d), sp_loc := (sp_loc ?s2)(i := l2)\<rparr>)"
    using s1 assms(3) by (intro spawn_step.signal [where k = k]) simp_all
  then show ?thesis using s1(1) 2
    by (intro exI [of _ "?s2\<lparr>sp_main := Signalling (Suc d), sp_loc := (sp_loc ?s2)(i := l2)\<rparr>"]) auto
qed

lemma signal_all:
  assumes "spawn_ok n s" "sp_main s = Signalling d"
  shows "\<exists>s'. spawn_steps fn n s s' \<and> sp_main s' = Collecting []"
  using assms
proof (induction "n - d" arbitrary: d s)
  case 0
  then have "d = n" by (simp add: spawn_ok_def)
  then have "spawn_step fn n s (s\<lparr>sp_main := Collecting []\<rparr>)" using 0 by (intro spawn_step.signalled) simp
  then show ?case by (intro exI [of _ "s\<lparr>sp_main := Collecting []\<rparr>"]) auto
next
  case (Suc e)
  obtain s1 where s1: "spawn_steps fn n s s1" "sp_main s1 = Signalling (Suc d)" using signal_one [OF Suc(3,4)] Suc(2) by (metis zero_less_Suc zero_less_diff)
  have "\<exists>s'. spawn_steps fn n s1 s' \<and> sp_main s' = Collecting []"
    using Suc(2) s1(2) spawn_ok_steps [OF s1(1) Suc(3)] by (intro Suc(1) [of "Suc d"]) simp_all
  then show ?case using s1(1) by (meson rtranclp_trans)
qed

lemma collect_all:
  assumes "spawn_ok n s" "sp_main s = Collecting rs"
  shows "\<exists>s' rs'. spawn_steps fn n s s' \<and> sp_main s' = Spawned rs'"
  using assms
proof (induction "n - length rs" arbitrary: rs s)
  case 0
  then have "length rs = n" by (simp add: spawn_ok_def)
  then have "spawn_step fn n s (s\<lparr>sp_main := Spawned rs\<rparr>)" using 0 by (intro spawn_step.collected) simp_all
  then show ?case by (intro exI [of _ "s\<lparr>sp_main := Spawned rs\<rparr>"] exI [of _ rs]) auto
next
  case (Suc e)
  let ?c = "length rs"
  have c: "?c < n" and m: "main_ok n (Collecting rs) (sp_run s) (sp_loc s)" using Suc by (auto simp: spawn_ok_def)
  then have t: "told (sp_run s ?c) (sp_loc s ?c)" "\<not> left (sp_run s ?c)" by auto
  have "\<exists>s1 k v. spawn_steps fn n s s1 \<and> sp_main s1 = Collecting rs \<and> sp_run s1 ?c = Sending k v"
  proof (cases "\<exists>k. sp_run s ?c = Running k")
    case True
    then obtain k v where kv: "sp_run s ?c = Running k" "fn_result fn (sp_loc s ?c) = Some v" using t(1) by (auto simp: told_def)
    then show ?thesis using spawn_step.returns [where fn = fn, OF kv, of n] Suc(4)
      by (intro exI [of _ "s\<lparr>sp_run := (sp_run s)(?c := Sending k v)\<rparr>"] exI [of _ k] exI [of _ v]) auto
  next
    case False
    then obtain k v where "sp_run s ?c = Sending k v" using t by (cases "sp_run s ?c") (auto simp: told_def left_def)
    then show ?thesis using Suc(4) by blast
  qed
  then obtain s1 k v where s1: "spawn_steps fn n s s1" "sp_main s1 = Collecting rs" "sp_run s1 ?c = Sending k v" by blast
  let ?s2 = "s1\<lparr>sp_main := Collecting (rs @ [v]), sp_run := (sp_run s1)(?c := Leaving k)\<rparr>"
  have 2: "spawn_steps fn n s ?s2" using spawn_step.receive [where fn = fn, OF s1(2) c s1(3)] s1(1) by (metis rtranclp.simps)
  have "\<exists>s' rs'. spawn_steps fn n ?s2 s' \<and> sp_main s' = Spawned rs'"
    using Suc(2) spawn_ok_steps [OF 2 Suc(3)] by (intro Suc(1) [of "rs @ [v]"]) simp_all
  then show ?case using 2 by (meson rtranclp_trans)
qed

lemma spawn_returns:
  assumes "sok g" "spawn_steps fn n (spawn_start fn g) s"
  shows "\<exists>s' rs. spawn_steps fn n s s' \<and> sp_main s' = Spawned rs"
proof -
  have ok: "spawn_ok n s" by (rule spawn_ok_steps [OF assms(2) spawn_ok_start [OF assms(1)]])
  have sig: "\<exists>s'. spawn_steps fn n s s' \<and> ((\<exists>rs. sp_main s' = Collecting rs) \<or> (\<exists>rs. sp_main s' = Spawned rs))"
  proof (cases "sp_main s")
    case (Spawning c)
    have "c \<le> n" using ok Spawning by (simp add: spawn_ok_def)
    then obtain s1 where 1: "spawn_steps fn n s s1" "sp_main s1 = Signalling 0" using spawn_all [OF Spawning] by blast
    then show ?thesis using signal_all [OF spawn_ok_steps [OF 1(1) ok] 1(2)] by (meson rtranclp_trans)
  next
    case (Signalling d)
    then show ?thesis using signal_all [OF ok] by blast
  qed (blast intro: rtranclp.rtrancl_refl)+
  then obtain s1 where 1: "spawn_steps fn n s s1" "(\<exists>rs. sp_main s1 = Collecting rs) \<or> (\<exists>rs. sp_main s1 = Spawned rs)" by blast
  then show ?thesis using collect_all [OF spawn_ok_steps [OF 1(1) ok]] by (meson rtranclp_trans)
qed

text \<open>When the test has all results, each is what its client returned.\<close>

lemma spawn_results:
  assumes "sok g" "spawn_steps fn n (spawn_start fn g) s" "sp_main s = Spawned rs"
  shows "length rs = n" "i < n \<Longrightarrow> fn_result fn (sp_loc s i) = Some (rs ! i)"
  using spawn_ok_steps [OF assms(2) spawn_ok_start [OF assms(1)]] assms(3) by (simp_all add: spawn_ok_def)

end

section \<open>The append test\<close>

text \<open>\<open>MakeClerk\<close> and \<open>DeleteClerk\<close> of \<open>kvsrv1/test.go\<close>; a clerk is the address of its client.\<close>

definition TestKV_MakeClerk :: "addr \<Rightarrow> Config \<Rightarrow> Config" where
  "TestKV_MakeClerk a cfg = cfg\<lparr>cf_clnts := MakeClient a (cf_clnts cfg)\<rparr>"

definition TestKV_DeleteClerk :: "addr \<Rightarrow> Config \<Rightarrow> Config outcome" where
  "TestKV_DeleteClerk a cfg = bindo (DeleteClient a (cf_clnts cfg, cf_net cfg)) (\<lambda>(cs, net). Ret (cfg\<lparr>cf_clnts := cs, cf_net := net\<rparr>))"

definition append_result :: "append_client \<Rightarrow> ClntRes option" where
  "append_result l = (if ac_pc l = AppendDone then Some \<lparr>Nok = ac_nok l, Nmaybe = ac_nmay l\<rparr> else None)"

definition append_signal :: "append_client \<Rightarrow> append_client option" where
  "append_signal l = (if ac_pc l = AppendSelect then Some (l\<lparr>ac_pc := AppendDone\<rparr>) else None)"

text \<open>\<open>OneClientAppend\<close> as a client function.\<close>

definition append_fn :: "(EntryN list \<Rightarrow> string) \<Rightarrow> (string \<Rightarrow> EntryN list option) \<Rightarrow> (addr, append_client, Config \<times> KVServer) Fclnt" where
  "append_fn mar unmar =
     \<lparr>fn_make = (\<lambda>(cfg, kv) a (cfg', kv'). map_of (cf_clnts cfg) a = None \<and> cfg' = TestKV_MakeClerk a cfg \<and> kv' = kv),
      fn_delete = (\<lambda>a (cfg, kv) (cfg', kv'). TestKV_DeleteClerk a cfg = Ret cfg' \<and> kv' = kv),
      fn_start = append_start,
      fn_step = (\<lambda>i a l (cfg, kv) l' (cfg', kv'). cfg' = cfg \<and>
        (\<exists>act. act \<noteq> Signalled \<and> OneClientAppend mar unmar (int i) act (ac_pc l) l kv = Some (l', kv'))),
      fn_signal = append_signal,
      fn_result = append_result\<rparr>"

lemma append_signal_is: "append_signal l = Some l' \<longleftrightarrow> OneClientAppend mar unmar me Signalled (ac_pc l) l kv = Some (l', kv)"
  by (cases "ac_pc l") (auto simp: append_signal_def)

definition append_unsignalled :: "append_client \<Rightarrow> bool" where
  "append_unsignalled l \<longleftrightarrow> ac_pc l \<noteq> AppendDone \<and> ac_pc l \<noteq> AppendFatal"

definition holds_entries :: "(EntryN list \<Rightarrow> string) \<Rightarrow> KVServer \<Rightarrow> bool" where
  "holds_entries mar kv \<longleftrightarrow> (\<exists>es v. kv_look kv ''k'' = Some (mar es, v))"

lemma put_holds_entries:
  "holds_entries mar kv \<Longrightarrow> holds_entries mar (snd (kv_put kv ''k'' (mar es) n))"
  using srv.put_effect [of kv "''k''" "mar es" n] srv.put_no_effect [of kv "''k''" "mar es" n]
  by (cases "fst (kv_put kv ''k'' (mar es) n) = OK") (auto simp: holds_entries_def)

lemma append_put_result_pc: "ac_pc (append_put_result l e) = AppendSelect \<or> ac_pc (append_put_result l e) = AppendGet"
  by (simp add: append_put_result_def)

locale append_json =
  fixes mar :: "EntryN list \<Rightarrow> string" and unmar :: "string \<Rightarrow> EntryN list option"
  assumes decodes: "unmar (mar es) = Some es"
begin

lemma get_entries:
  assumes "holds_entries mar kv"
  obtains es v where "kv_look kv ''k'' = Some (mar es, v)"
    "append_get_result unmar me cl (get_attempt kv ''k'') = cl\<lparr>ac_pc := AppendPut v (es @ [\<lparr>en_Id = me, en_N = ac_i cl\<rparr>]) False\<rparr>"
  using assms that unfolding holds_entries_def
  by (force simp: append_get_result_def GetJson_def get_attempt_cell srv.cell_def decodes)

lemma client_keeps:
  assumes "append_unsignalled l" "holds_entries mar kv" "act \<noteq> Signalled"
    "OneClientAppend mar unmar me act (ac_pc l) l kv = Some (l', kv')"
  shows "append_unsignalled l' \<and> holds_entries mar kv'"
proof (cases "ac_pc l")
  case AppendSelect
  then show ?thesis using assms by (cases act) (auto simp: append_unsignalled_def)
next
  case AppendGet
  then obtain d where "act = Try d" using assms(3,4) by (cases act) simp_all
  then have d: "l' = (if d = Delivered then append_get_result unmar me l (get_attempt kv ''k'') else l)" "kv' = kv"
    using assms(4) AppendGet by simp_all
  obtain es v where "append_get_result unmar me l (get_attempt kv ''k'') =
      l\<lparr>ac_pc := AppendPut v (es @ [\<lparr>en_Id = me, en_N = ac_i l\<rparr>]) False\<rparr>" by (rule get_entries [OF assms(2)])
  then show ?thesis using d assms(1,2) by (auto simp: append_unsignalled_def)
next
  case (AppendPut v es r)
  then obtain d where "act = Try d" using assms(3,4) by (cases act) simp_all
  then have "put_attempt ''k'' (mar es) v r (\<lambda>r. l\<lparr>ac_pc := AppendPut v es r\<rparr>) (append_put_result l) d kv = (l', kv')"
    using assms(4) AppendPut by simp
  then have "kv' = kv \<or> kv' = snd (kv_put kv ''k'' (mar es) v)"
    "ac_pc l' = AppendPut v es True \<or> (\<exists>e. l' = append_put_result l e)"
    by (auto simp: put_attempt_def split: delivery.splits prod.splits)
  then show ?thesis using put_holds_entries [OF assms(2), of es v] assms(2) append_put_result_pc
    unfolding append_unsignalled_def by (metis append_pc.distinct)
qed (use assms in \<open>auto simp: append_unsignalled_def\<close>)

lemma get_then_select:
  assumes "holds_entries mar kv" "ac_pc l = AppendGet"
  shows "\<exists>l1 l2 kv2. OneClientAppend mar unmar me (Try Delivered) (ac_pc l) l kv = Some (l1, kv) \<and>
    OneClientAppend mar unmar me (Try Delivered) (ac_pc l1) l1 kv = Some (l2, kv2) \<and> ac_pc l2 = AppendSelect"
proof -
  obtain es v where e: "kv_look kv ''k'' = Some (mar es, v)"
    "append_get_result unmar me l (get_attempt kv ''k'') = l\<lparr>ac_pc := AppendPut v (es @ [\<lparr>en_Id = me, en_N = ac_i l\<rparr>]) False\<rparr>"
    by (rule get_entries [OF assms(1)])
  have ok: "fst (kv_put kv ''k'' x v) = OK" for x using srv.put_match [OF e(1)] by simp
  obtain kv2 where "kv_put kv ''k'' (mar (es @ [\<lparr>en_Id = me, en_N = ac_i l\<rparr>])) v = (OK, kv2)"
    using ok [of "mar (es @ [\<lparr>en_Id = me, en_N = ac_i l\<rparr>])"] by (cases "kv_put kv ''k'' (mar (es @ [\<lparr>en_Id = me, en_N = ac_i l\<rparr>])) v") simp
  then show ?thesis using assms(2) e(2) by (simp add: put_attempt_def put_return_def append_put_result_def)
qed

text \<open>Left alone, a client that has not been signalled comes back to the \<open>select\<close>.\<close>

lemma client_looks:
  assumes "append_unsignalled l" "holds_entries mar kv"
  shows "\<exists>l' kv'. (\<lambda>(l, g) (l', g'). fn_step (append_fn mar unmar) i a l g l' g')\<^sup>*\<^sup>* (l, cfg, kv) (l', cfg, kv') \<and> append_signal l' \<noteq> None"
proof -
  let ?R = "\<lambda>(l, g) (l', g'). fn_step (append_fn mar unmar) i a l g l' g'"
  have step: "OneClientAppend mar unmar (int i) (Try Delivered) (ac_pc l) l kv = Some (l', kv') \<Longrightarrow> ?R (l, cfg, kv) (l', cfg, kv')" for l kv l' kv'
    by (auto simp: append_fn_def intro: exI [of _ "Try Delivered"])
  have get: "\<exists>l' kv'. ?R\<^sup>*\<^sup>* (l, cfg, kv) (l', cfg, kv') \<and> append_signal l' \<noteq> None"
    if g: "ac_pc l = AppendGet" and h: "holds_entries mar kv" for l kv
  proof -
    obtain l1 l2 kv2 where s: "OneClientAppend mar unmar (int i) (Try Delivered) (ac_pc l) l kv = Some (l1, kv)"
      "OneClientAppend mar unmar (int i) (Try Delivered) (ac_pc l1) l1 kv = Some (l2, kv2)" "ac_pc l2 = AppendSelect"
      using get_then_select [OF h g, of "int i"] by blast
    have "?R\<^sup>*\<^sup>* (l, cfg, kv) (l2, cfg, kv2)" using step [OF s(1)] step [OF s(2)] by (meson converse_rtranclp_into_rtranclp r_into_rtranclp)
    then show ?thesis using s(3) by (intro exI [of _ l2] exI [of _ kv2]) (simp add: append_signal_def)
  qed
  show ?thesis
  proof (cases "ac_pc l")
    case AppendSelect
    then show ?thesis by (intro exI [of _ l] exI [of _ kv]) (simp add: append_signal_def)
  next
    case AppendGet
    then show ?thesis by (rule get [OF _ assms(2)])
  next
    case (AppendPut v es r)
    obtain l1 kv1 where o: "OneClientAppend mar unmar (int i) (Try Delivered) (ac_pc l) l kv = Some (l1, kv1)" using AppendPut by force
    then have "ac_pc l1 = AppendSelect \<or> ac_pc l1 = AppendGet"
      using AppendPut append_put_result_pc by (auto simp: put_attempt_def split: prod.splits)
    moreover have "holds_entries mar kv1" using client_keeps [OF assms _ o] by simp
    ultimately show ?thesis
    proof (elim disjE)
      assume "ac_pc l1 = AppendSelect"
      then show ?thesis using step [OF o] by (intro exI [of _ l1] exI [of _ kv1]) (auto simp: append_signal_def)
    next
      assume "ac_pc l1 = AppendGet" "holds_entries mar kv1"
      then obtain l' kv' where "?R\<^sup>*\<^sup>* (l1, cfg, kv1) (l', cfg, kv')" "append_signal l' \<noteq> None" using get by blast
      then show ?thesis using step [OF o] by (meson converse_rtranclp_into_rtranclp)
    qed
  qed (use assms in \<open>auto simp: append_unsignalled_def\<close>)
qed

lemma fresh_client: "\<exists>a. map_of (cs :: Clnts) a = None"
proof -
  obtain a where "a \<notin> fst ` set cs" using ex_new_if_finite [of "fst ` set cs"] by auto
  then show ?thesis by (auto simp: map_of_eq_None_iff)
qed

end

sublocale append_json \<subseteq> spawned: client_function "append_fn mar unmar" append_unsignalled "\<lambda>(cfg, kv). holds_entries mar kv"
proof
  show "append_unsignalled (fn_start (append_fn mar unmar))" by (simp add: append_fn_def append_unsignalled_def append_start_def)
  show "append_unsignalled l \<Longrightarrow> fn_result (append_fn mar unmar) l = None" for l
    by (simp add: append_fn_def append_result_def append_unsignalled_def)
  show "append_unsignalled l \<Longrightarrow> fn_signal (append_fn mar unmar) l = Some l' \<Longrightarrow> fn_result (append_fn mar unmar) l' \<noteq> None" for l l'
    by (auto simp: append_fn_def append_signal_def append_result_def split: if_splits)
  show "fn_result (append_fn mar unmar) l \<noteq> None \<Longrightarrow> fn_signal (append_fn mar unmar) l = None \<and> \<not> fn_step (append_fn mar unmar) i k l g l' g'" for l i k g l' g'
    by (auto simp: append_fn_def append_result_def append_signal_def split: if_splits)
  show "append_unsignalled l \<Longrightarrow> (case g of (cfg, kv) \<Rightarrow> holds_entries mar kv) \<Longrightarrow> fn_step (append_fn mar unmar) i k l g l' g' \<Longrightarrow>
      append_unsignalled l' \<and> (case g' of (cfg, kv) \<Rightarrow> holds_entries mar kv)" for l g i k l' g'
    using client_keeps [of l "snd g" _ "int i" l' "snd g'"] by (cases g; cases g') (auto simp: append_fn_def)
  show "(case g of (cfg, kv) \<Rightarrow> holds_entries mar kv) \<Longrightarrow> \<exists>k g'. fn_make (append_fn mar unmar) g k g'" for g
    using fresh_client [of "cf_clnts (fst g)"] by (auto simp: append_fn_def split_beta)
  show "(case g of (cfg, kv) \<Rightarrow> holds_entries mar kv) \<Longrightarrow> fn_make (append_fn mar unmar) g k g' \<Longrightarrow> (case g' of (cfg, kv) \<Rightarrow> holds_entries mar kv)" for g k g'
    by (auto simp: append_fn_def)
  show "(case g of (cfg, kv) \<Rightarrow> holds_entries mar kv) \<Longrightarrow> fn_delete (append_fn mar unmar) k g g' \<Longrightarrow> (case g' of (cfg, kv) \<Rightarrow> holds_entries mar kv)" for g k g'
    by (auto simp: append_fn_def)
  show "append_unsignalled l \<Longrightarrow> (case g of (cfg, kv) \<Rightarrow> holds_entries mar kv) \<Longrightarrow>
      \<exists>l' g'. (\<lambda>(l, g) (l', g'). fn_step (append_fn mar unmar) i k l g l' g')\<^sup>*\<^sup>* (l, g) (l', g') \<and> fn_signal (append_fn mar unmar) l' \<noteq> None" for l g i k
    using client_looks [of l "snd g" i k "fst g"] by (cases g) (auto simp: append_fn_def)
qed

interpretation entries: append_json enc_entries dec_entries
  by unfold_locales (rule dec_enc_entries)

text \<open>A run of the goroutines is a run of the clients.\<close>

lemma spawn_step_unborn: "spawn_step fn n s s' \<Longrightarrow> \<forall>i\<ge>n. sp_run s i = Unborn \<Longrightarrow> \<forall>i\<ge>n. sp_run s' i = Unborn"
  by (induction rule: spawn_step.induct) auto

lemma spawn_append_run:
  assumes "(spawn_step (append_fn mar unmar) nclnt ^^ m) (spawn_start (append_fn mar unmar) (cfg, snd (kv_put MakeKVServer ''k'' (mar []) 0))) s"
  shows "(\<forall>i\<ge>nclnt. sp_run s i = Unborn) \<and> (\<exists>n\<le>m. append_run mar unmar nclnt n \<lparr>as_kv = snd (sp_g s), as_cl = sp_loc s\<rparr>)"
  using assms
proof (induction m arbitrary: s)
  case 0
  then show ?case by (auto simp: spawn_start_def append_fn_def intro: append_run.start)
next
  case (Suc m)
  obtain t where st: "(spawn_step (append_fn mar unmar) nclnt ^^ m)
      (spawn_start (append_fn mar unmar) (cfg, snd (kv_put MakeKVServer ''k'' (mar []) 0))) t" "spawn_step (append_fn mar unmar) nclnt t s"
    using Suc.prems by (rule relpowp_Suc_E)
  obtain n where t: "spawn_step (append_fn mar unmar) nclnt t s" "\<forall>i\<ge>nclnt. sp_run t i = Unborn"
    "n \<le> m" "append_run mar unmar nclnt n \<lparr>as_kv = snd (sp_g t), as_cl = sp_loc t\<rparr>"
    using Suc.IH [OF st(1)] st(2) by blast
  have low: "i < nclnt" if "sp_run t i \<noteq> Unborn" for i using t(2) that by (meson not_le)
  have "\<exists>n\<le>Suc m. append_run mar unmar nclnt n \<lparr>as_kv = snd (sp_g s), as_cl = sp_loc s\<rparr>" using t(1)
  proof cases
    case (work i k l g)
    then obtain act where "OneClientAppend mar unmar (int i) act (ac_pc (sp_loc t i)) (sp_loc t i) (snd (sp_g t)) = Some (l, snd g)"
      by (auto simp: append_fn_def split_beta)
    from append_run.client [OF t(4) low, of i act l "snd g"] this show ?thesis using work t(3) by (intro exI [of _ "Suc n"]) simp
  next
    case (signal d i k l)
    then have "OneClientAppend mar unmar (int i) Signalled (ac_pc (sp_loc t i)) (sp_loc t i) (snd (sp_g t)) = Some (l, snd (sp_g t))"
      using append_signal_is by (auto simp: append_fn_def)
    from append_run.client [OF t(4) low, of i Signalled l "snd (sp_g t)"] this show ?thesis using signal t(3) by (intro exI [of _ "Suc n"]) simp
  qed (use t(3,4) in \<open>auto simp: append_fn_def split_beta intro!: exI [of _ n]\<close>)
  then show ?case using spawn_step_unborn [OF t(1,2)] by blast
qed

context append_json
begin

lemma append_starts: "holds_entries mar (snd (kv_put MakeKVServer ''k'' (mar []) 0))"
  using srv.put_create [of MakeKVServer "''k''" "mar []"] by (auto simp: holds_entries_def MakeKVServer_def kv_look_def)

lemma append_spawn:
  assumes "spawn_steps (append_fn mar unmar) n (spawn_start (append_fn mar unmar) (cfg, snd (kv_put MakeKVServer ''k'' (mar []) 0))) s"
  shows "\<exists>s' rs. spawn_steps (append_fn mar unmar) n s s' \<and> sp_main s' = Spawned rs"
    "sp_main s = Spawned rs \<Longrightarrow> length rs = n \<and> (\<forall>i<n. append_result (sp_loc s i) = Some (rs ! i))"
  using spawned.spawn_returns [OF _ assms] spawned.spawn_results [OF _ assms] append_starts by (simp_all add: append_fn_def)

end

text \<open>
  C8. The append test as it is run: \<open>SpawnClientsAndWait\<close> with any number of clients that append
  concurrently, over a network that loses requests and replies. From every state it reaches, the test
  can go on until it returns, so neither the shared channel of signals nor the channels of results ever
  block it for good; and when it returns, with one result for every client, the value of the key decodes
  and \<open>CheckAppends\<close> accepts it with these results. The JSON encoder is only assumed to be decodable,
  and there are fewer than \<open>2 ^ 63 - 2\<close> steps, so that the version is a positive \<open>int\<close>.
\<close>

theorem spawned_append_test_passes:
  assumes "\<And>es. unmar (mar es) = Some es"
    "(spawn_step (append_fn mar unmar) nclnt ^^ m) (spawn_start (append_fn mar unmar) (cfg, snd (kv_put MakeKVServer ''k'' (mar []) 0))) s"
    "m < 2 ^ 63 - 2"
  shows "(\<exists>s' rs. spawn_steps (append_fn mar unmar) nclnt s s' \<and> sp_main s' = Spawned rs) \<and>
    (\<forall>rs. sp_main s = Spawned rs \<longrightarrow> length rs = nclnt \<and>
      (\<exists>es ver. GetJson unmar (get_attempt (snd (sp_g s)) ''k'') = Ret (es, ver) \<and> CheckAppends es nclnt rs ver = Ret ()))"
proof -
  have json: "append_json mar unmar" by (rule append_json.intro [OF assms(1)])
  note spawn = append_json.append_spawn [OF json relpowp_imp_rtranclp [OF assms(2)]]
  obtain n where n: "n \<le> m" "append_run mar unmar nclnt n \<lparr>as_kv = snd (sp_g s), as_cl = sp_loc s\<rparr>"
    using spawn_append_run [OF assms(2)] by blast
  have "length rs = nclnt \<and> (\<exists>es ver. GetJson unmar (get_attempt (snd (sp_g s)) ''k'') = Ret (es, ver) \<and> CheckAppends es nclnt rs ver = Ret ())"
    if "sp_main s = Spawned rs" for rs
  proof -
    have rs: "length rs = nclnt" "\<And>i. i < nclnt \<Longrightarrow> append_result (sp_loc s i) = Some (rs ! i)" using spawn(2) [OF that] by blast+
    have fin: "ac_pc (sp_loc s i) = AppendDone \<and> rs ! i = \<lparr>Nok = ac_nok (sp_loc s i), Nmaybe = ac_nmay (sp_loc s i)\<rparr>" if "i < nclnt" for i
      using rs(2) [OF that] by (auto simp: append_result_def split: if_splits)
    then have "rs = map (\<lambda>c. \<lparr>Nok = ac_nok (sp_loc s c), Nmaybe = ac_nmay (sp_loc s c)\<rparr>) [0..<nclnt]"
      using rs(1) by (intro nth_equalityI) simp_all
    then show ?thesis using append_test_passes [OF assms(1) n(2)] n(1) assms(3) fin rs(1) by simp
  qed
  then show ?thesis using spawn(1) by blast
qed

section \<open>A run of the test\<close>

lemma spawn_exec:
  assumes "append_exec mar unmar acts \<lparr>as_kv = snd (sp_g s), as_cl = sp_loc s\<rparr> = Some t"
    "\<forall>(c, act)\<in>set acts. act \<noteq> Signalled \<and> (\<exists>k. sp_run s c = Running k)"
  shows "(spawn_step (append_fn mar unmar) n ^^ length acts) s (s\<lparr>sp_loc := as_cl t, sp_g := (fst (sp_g s), as_kv t)\<rparr>)"
  using assms
proof (induction acts arbitrary: s)
  case (Cons x acts)
  obtain c act where x: "x = (c, act)" by force
  obtain cl kv where o: "OneClientAppend mar unmar (int c) act (ac_pc (sp_loc s c)) (sp_loc s c) (snd (sp_g s)) = Some (cl, kv)"
    "append_exec mar unmar acts \<lparr>as_kv = kv, as_cl = (sp_loc s)(c := cl)\<rparr> = Some t" using Cons.prems x by (auto split: option.splits)
  obtain k where k: "sp_run s c = Running k" "act \<noteq> Signalled" using Cons.prems(2) x by auto
  let ?s = "s\<lparr>sp_loc := (sp_loc s)(c := cl), sp_g := (fst (sp_g s), kv)\<rparr>"
  have "spawn_step (append_fn mar unmar) n s ?s"
    by (rule spawn_step.work [OF k(1)]) (use o(1) k(2) in \<open>auto simp: append_fn_def split_beta\<close>)
  moreover have "(spawn_step (append_fn mar unmar) n ^^ length acts) ?s (?s\<lparr>sp_loc := as_cl t, sp_g := (fst (sp_g ?s), as_kv t)\<rparr>)"
    using Cons.prems(2) o(2) by (intro Cons.IH) (auto simp del: fun_upd_apply)
  ultimately have "(spawn_step (append_fn mar unmar) n ^^ Suc (length acts)) s (?s\<lparr>sp_loc := as_cl t, sp_g := (fst (sp_g ?s), as_kv t)\<rparr>)"
    by (rule relpowp_Suc_I2)
  then show ?case by (simp del: relpowp.simps)
qed (auto simp: relpowp.simps)

definition plain_config :: Config where
  "plain_config = \<lparr>cf_groups = [], cf_clnts = [], cf_net = MakeNetwork, cf_failed = False, cf_start = 0, cf_t0 = 0, cf_rpcs0 = 0,
     cf_ops = 0, cf_endName = ''''\<rparr>"

text \<open>One client; the reply of its first put is lost and it puts again.\<close>

definition one_append :: "append_state option" where
  "one_append = append_exec enc_entries dec_entries [(0, NotSignalled), (0, Try Delivered), (0, Try ReplyLost), (0, Try Delivered)]
     \<lparr>as_kv = snd (kv_put MakeKVServer ''k'' (enc_entries []) 0), as_cl = (\<lambda>_. append_start)\<rparr>"

lemma one_append_result: "map_option (\<lambda>t. as_cl t 0) one_append = Some \<lparr>ac_pc = AppendSelect, ac_i = 1, ac_nok = 0, ac_nmay = 1\<rparr>"
  by code_simp

lemma one_append_spawn:
  assumes "one_append = Some t"
  defines "fn \<equiv> append_fn enc_entries dec_entries" and "cfg' \<equiv> TestKV_MakeClerk 7 plain_config"
  shows "(spawn_step fn 1 ^^ 12) (spawn_start fn (plain_config, snd (kv_put MakeKVServer ''k'' (enc_entries []) 0)))
    \<lparr>sp_main = Spawned [\<lparr>Nok = 0, Nmaybe = 1\<rparr>], sp_run = (\<lambda>_. Unborn)(0 := Leaving 7),
     sp_loc = (as_cl t)(0 := \<lparr>ac_pc = AppendDone, ac_i = 1, ac_nok = 0, ac_nmay = 1\<rparr>), sp_g = (cfg', as_kv t)\<rparr>"
proof -
  let ?kv = "snd (kv_put MakeKVServer ''k'' (enc_entries []) 0)" and ?R = "spawn_step fn 1" and ?r = "(\<lambda>_. Unborn) :: nat \<Rightarrow> addr runner"
  let ?st = "\<lambda>m r l g. \<lparr>sp_main = m, sp_run = r, sp_loc = l, sp_g = g\<rparr> :: (addr, append_client, Config \<times> KVServer) spawn"
  let ?a = "\<lambda>_ :: nat. append_start" and ?v = "\<lparr>Nok = 0, Nmaybe = 1\<rparr>"
  have l0: "as_cl t 0 = \<lparr>ac_pc = AppendSelect, ac_i = 1, ac_nok = 0, ac_nmay = 1\<rparr>" using one_append_result [unfolded assms(1)] by simp
  let ?l = "(as_cl t)(0 := \<lparr>ac_pc = AppendDone, ac_i = 1, ac_nok = 0, ac_nmay = 1\<rparr>)" and ?g = "(cfg', as_kv t)"
  have s1: "?R (spawn_start fn (plain_config, ?kv)) (?st (Spawning 1) (?r(0 := Born)) ?a (plain_config, ?kv))"
    using spawn_step.go [of "spawn_start fn (plain_config, ?kv)" 0 1 fn] by (simp add: spawn_start_def fn_def append_fn_def)
  have s2: "?R (?st (Spawning 1) (?r(0 := Born)) ?a (plain_config, ?kv)) (?st (Signalling 0) (?r(0 := Born)) ?a (plain_config, ?kv))"
    using spawn_step.slept [of "?st (Spawning 1) (?r(0 := Born)) ?a (plain_config, ?kv)" 1 fn] by simp
  have s3: "?R (?st (Signalling 0) (?r(0 := Born)) ?a (plain_config, ?kv)) (?st (Signalling 0) (?r(0 := Running 7)) ?a (cfg', ?kv))"
    using spawn_step.make [of "?st (Signalling 0) (?r(0 := Born)) ?a (plain_config, ?kv)" 0 fn 7 "(cfg', ?kv)" 1]
    by (simp add: fn_def append_fn_def cfg'_def plain_config_def)
  let ?acts = "[(0 :: nat, NotSignalled), (0, Try Delivered), (0, Try ReplyLost), (0, Try Delivered)]"
  let ?s4 = "?st (Signalling 0) (?r(0 := Running 7)) ?a (cfg', ?kv)"
  have "append_exec enc_entries dec_entries ?acts \<lparr>as_kv = snd (sp_g ?s4), as_cl = sp_loc ?s4\<rparr> = Some t"
    using assms(1) by (simp add: one_append_def del: append_exec.simps)
  from spawn_exec [OF this, of 1]
  have "(?R ^^ length ?acts) ?s4 (?s4\<lparr>sp_loc := as_cl t, sp_g := (fst (sp_g ?s4), as_kv t)\<rparr>)" by (simp add: fn_def del: relpowp.simps list.size)
  moreover have "length ?acts = 4" by simp
  ultimately have s4: "(?R ^^ 4) ?s4 (?st (Signalling 0) (?r(0 := Running 7)) (as_cl t) ?g)" by (simp del: relpowp.simps list.size)
  have s5: "?R (?st (Signalling 0) (?r(0 := Running 7)) (as_cl t) ?g) (?st (Signalling 1) (?r(0 := Running 7)) ?l ?g)"
    using spawn_step.signal [of "?st (Signalling 0) (?r(0 := Running 7)) (as_cl t) ?g" 0 1 0 7 fn "?l 0"] l0
    by (simp add: fn_def append_fn_def append_signal_def)
  have s6: "?R (?st (Signalling 1) (?r(0 := Running 7)) ?l ?g) (?st (Collecting []) (?r(0 := Running 7)) ?l ?g)"
    using spawn_step.signalled [of "?st (Signalling 1) (?r(0 := Running 7)) ?l ?g" 1 fn] by simp
  have s7: "?R (?st (Collecting []) (?r(0 := Running 7)) ?l ?g) (?st (Collecting []) (?r(0 := Sending 7 ?v)) ?l ?g)"
    using spawn_step.returns [of "?st (Collecting []) (?r(0 := Running 7)) ?l ?g" 0 7 fn ?v 1]
    by (simp add: fn_def append_fn_def append_result_def)
  have s8: "?R (?st (Collecting []) (?r(0 := Sending 7 ?v)) ?l ?g) (?st (Collecting [?v]) (?r(0 := Leaving 7)) ?l ?g)"
    using spawn_step.receive [of "?st (Collecting []) (?r(0 := Sending 7 ?v)) ?l ?g" "[]" 1 7 ?v fn] by simp
  have s9: "?R (?st (Collecting [?v]) (?r(0 := Leaving 7)) ?l ?g) (?st (Spawned [?v]) (?r(0 := Leaving 7)) ?l ?g)"
    using spawn_step.collected [of "?st (Collecting [?v]) (?r(0 := Leaving 7)) ?l ?g" "[?v]" 1 fn] by simp
  have base: "(?R ^^ 1) (?st (Collecting [?v]) (?r(0 := Leaving 7)) ?l ?g) (?st (Spawned [?v]) (?r(0 := Leaving 7)) ?l ?g)"
    using s9 by (simp only: relpowp_1)
  have step: "?R x y \<Longrightarrow> (?R ^^ n) y z \<Longrightarrow> (?R ^^ Suc n) x z" for x y z n by (rule relpowp_Suc_I2)
  from step [OF s1 step [OF s2 step [OF s3 relpowp_trans [OF s4 step [OF s5 step [OF s6 step [OF s7 step [OF s8 base]]]]]]]]
  show ?thesis by (simp add: eval_nat_numeral del: relpowp.simps)
qed

theorem spawned_append_test_passes_witness:
  "\<exists>t es ver. one_append = Some t \<and> GetJson dec_entries (get_attempt (as_kv t) ''k'') = Ret (es, ver) \<and>
    CheckAppends es 1 [\<lparr>Nok = 0, Nmaybe = 1\<rparr>] ver = Ret ()"
proof -
  obtain t where t: "one_append = Some t" using one_append_result by (cases one_append) auto
  show ?thesis using spawned_append_test_passes [OF dec_enc_entries one_append_spawn [OF t]] t by auto
qed

end
