(* ===== verification/Annotation.thy ===== *)
theory Annotation
  imports GoStr "HOL-Library.AList"
begin

text \<open>
  The annotations the tester keeps for the visualisation of a run, \<open>tester1/annotation.go\<close>:
  points, intervals, and one continuous annotation per tag that is ended by the next; and the
  status of the servers, which the continuous annotation of the fault tag shows. The clock is an
  argument. The globals \<open>annotation\<close> and \<open>finfo\<close> are a pair; \<open>finfo\<close> is nil until
  \<open>AnnotateTest\<close>.
\<close>

section \<open>State\<close>

record p_annotation =
  a_Tag :: string
  a_Start :: int
  a_End :: int
  a_Description :: string
  a_Details :: string
  a_BackgroundColor :: string

record Continuous =
  c_start :: int
  c_desp :: string
  c_details :: string
  c_bgcolor :: string

record Annotation =
  annotations :: "p_annotation list"
  continuous :: "(string \<times> Continuous) list"
  finalized :: bool

record CheckerBegin =
  ck_ts :: int
  ck_details :: string

record FrameworkInfo =
  nservers :: nat
  fi_connected :: "bool list"
  crashed :: "bool list"
  ckbegin :: CheckerBegin

type_synonym tester = "FrameworkInfo option \<times> Annotation"

definition COLOR_INFO :: string where "COLOR_INFO = ''#FAFAFA''"
definition COLOR_NEUTRAL :: string where "COLOR_NEUTRAL = ''#FFECB3''"
definition COLOR_SUCCESS :: string where "COLOR_SUCCESS = ''#C8E6C9''"
definition COLOR_FAILURE :: string where "COLOR_FAILURE = ''#FFCDD2''"
definition COLOR_FAULT :: string where "COLOR_FAULT = ''#B3E5FC''"
definition COLOR_USER :: string where "COLOR_USER = ''#FFF176''"
definition TAG_CHECKER :: string where "TAG_CHECKER = ''$ Checker''"
definition TAG_PARTITION :: string where "TAG_PARTITION = ''$ Failure''"
definition TAG_INFO :: string where "TAG_INFO = ''$ Test Info''"

definition mkAnnotation :: Annotation where
  "mkAnnotation = \<lparr>annotations = [], continuous = [], finalized = False\<rparr>"

definition mkFrameworkInfo :: "nat \<Rightarrow> FrameworkInfo" where
  "mkFrameworkInfo n = \<lparr>nservers = n, fi_connected = replicate n True, crashed = replicate n False,
     ckbegin = \<lparr>ck_ts = 0, ck_details = ''''\<rparr>\<rparr>"

section \<open>Annotations\<close>

definition annotatePointColor :: "int \<Rightarrow> string \<Rightarrow> string \<Rightarrow> string \<Rightarrow> string \<Rightarrow> Annotation \<Rightarrow> Annotation" where
  "annotatePointColor t tag desp details bgcolor an = an\<lparr>annotations := annotations an @
     [\<lparr>a_Tag = tag, a_Start = t, a_End = 0, a_Description = desp, a_Details = details, a_BackgroundColor = bgcolor\<rparr>]\<rparr>"

definition annotateIntervalColor :: "int \<Rightarrow> string \<Rightarrow> int \<Rightarrow> string \<Rightarrow> string \<Rightarrow> string \<Rightarrow> Annotation \<Rightarrow> Annotation" where
  "annotateIntervalColor t tag start desp details bgcolor an = an\<lparr>annotations := annotations an @
     [\<lparr>a_Tag = tag, a_Start = start, a_End = t, a_Description = desp, a_Details = details, a_BackgroundColor = bgcolor\<rparr>]\<rparr>"

text \<open>The annotation that a continuous one becomes when it ends at \<open>t\<close>.\<close>

definition concretize :: "string \<Rightarrow> Continuous \<Rightarrow> int \<Rightarrow> p_annotation" where
  "concretize tag cont t = \<lparr>a_Tag = tag, a_Start = c_start cont, a_End = t, a_Description = c_desp cont,
     a_Details = c_details cont, a_BackgroundColor = c_bgcolor cont\<rparr>"

definition annotateContinuousColor :: "int \<Rightarrow> string \<Rightarrow> string \<Rightarrow> string \<Rightarrow> string \<Rightarrow> Annotation \<Rightarrow> Annotation" where
  "annotateContinuousColor t tag desp details bgcolor an =
     (let new = \<lparr>c_start = t, c_desp = desp, c_details = details, c_bgcolor = bgcolor\<rparr> in
      case map_of (continuous an) tag of
        None \<Rightarrow> an\<lparr>continuous := AList.update tag new (continuous an)\<rparr>
      | Some cont \<Rightarrow> an\<lparr>annotations := annotations an @ [concretize tag cont t],
                        continuous := AList.update tag new (continuous an)\<rparr>)"

text \<open>A tag without continuous annotation is not skipped: the zero value of the map is concretized.\<close>

definition annotateContinuousEnd :: "int \<Rightarrow> string \<Rightarrow> Annotation \<Rightarrow> Annotation" where
  "annotateContinuousEnd t tag an =
     (let cont = (case map_of (continuous an) tag of Some c \<Rightarrow> c
                    | None \<Rightarrow> \<lparr>c_start = 0, c_desp = '''', c_details = '''', c_bgcolor = ''''\<rparr>)
      in an\<lparr>annotations := annotations an @ [concretize tag cont t], continuous := AList.delete tag (continuous an)\<rparr>)"

text \<open>\<open>finalize\<close> goes through the map in the order of its list; Go's order is not determined.\<close>

definition finalize :: "int \<Rightarrow> Annotation \<Rightarrow> p_annotation list \<times> Annotation" where
  "finalize t an = (annotations an @ map (\<lambda>(tag, cont). concretize tag cont t) (continuous an), an\<lparr>finalized := True\<rparr>)"

definition clear_annotations :: "Annotation \<Rightarrow> Annotation" where
  "clear_annotations an = an\<lparr>annotations := [], continuous := [], finalized := False\<rparr>"

definition FinalizeAnnotations :: "int \<Rightarrow> int \<Rightarrow> string \<Rightarrow> Annotation \<Rightarrow> p_annotation list \<times> Annotation" where
  "FinalizeAnnotations t t' e an = (let (l, an') = finalize t an in
     (l @ [\<lparr>a_Tag = TAG_INFO, a_Start = t', a_End = 0, a_Description = e, a_Details = e, a_BackgroundColor = COLOR_INFO\<rparr>], an'))"

text \<open>\<open>cleanup\<close> up to the file: what it writes, if anything, and what it leaves. \<open>env\<close> is VIS_ENABLE.\<close>

definition Annotation_cleanup :: "string \<Rightarrow> int \<Rightarrow> int \<Rightarrow> bool \<Rightarrow> string \<Rightarrow> Annotation \<Rightarrow> p_annotation list option \<times> Annotation" where
  "Annotation_cleanup env t t' failed e an =
     (if env = ''never'' \<or> (\<not> failed \<and> env \<noteq> ''always'') \<or> finalized an then (None, clear_annotations an)
      else let (l, an') = finalize t an in
        if length l = 0 then (None, an')
        else (Some (l @ [\<lparr>a_Tag = TAG_INFO, a_Start = t', a_End = 0, a_Description = e, a_Details = e,
                          a_BackgroundColor = COLOR_INFO\<rparr>]), an'))"

definition SetAnnotationFinalized :: "Annotation \<Rightarrow> Annotation" where
  "SetAnnotationFinalized an = an\<lparr>finalized := True\<rparr>"

definition isFinalized :: "Annotation \<Rightarrow> bool" where
  "isFinalized an = finalized an"

definition AnnotatePoint :: "int \<Rightarrow> string \<Rightarrow> string \<Rightarrow> string \<Rightarrow> Annotation \<Rightarrow> Annotation" where
  "AnnotatePoint t tag desp details an = annotatePointColor t tag desp details COLOR_USER an"

definition AnnotateInterval :: "int \<Rightarrow> string \<Rightarrow> int \<Rightarrow> string \<Rightarrow> string \<Rightarrow> Annotation \<Rightarrow> Annotation" where
  "AnnotateInterval t tag start desp details an = annotateIntervalColor t tag start desp details COLOR_USER an"

definition AnnotateContinuous :: "int \<Rightarrow> string \<Rightarrow> string \<Rightarrow> string \<Rightarrow> Annotation \<Rightarrow> Annotation" where
  "AnnotateContinuous t tag desp details an = annotateContinuousColor t tag desp details COLOR_USER an"

definition AnnotateInfo :: "int \<Rightarrow> string \<Rightarrow> string \<Rightarrow> Annotation \<Rightarrow> Annotation" where
  "AnnotateInfo t desp details an = annotatePointColor t TAG_INFO desp details COLOR_INFO an"

definition AnnotateInfoInterval :: "int \<Rightarrow> int \<Rightarrow> string \<Rightarrow> string \<Rightarrow> Annotation \<Rightarrow> Annotation" where
  "AnnotateInfoInterval t start desp details an = annotateIntervalColor t TAG_INFO start desp details COLOR_INFO an"

section \<open>The framework\<close>

definition AnnotateTest :: "int \<Rightarrow> string \<Rightarrow> nat \<Rightarrow> tester \<Rightarrow> tester" where
  "AnnotateTest t desp n = (\<lambda>(fi, an).
     let details = desp @ '' ('' @ nat_str n @ '' servers)''
     in (Some (mkFrameworkInfo n), AnnotateInfo t details details (clear_annotations an)))"

definition AnnotateCheckerBegin :: "int \<Rightarrow> string \<Rightarrow> tester \<Rightarrow> tester outcome" where
  "AnnotateCheckerBegin t details = (\<lambda>(fi, an). case fi of None \<Rightarrow> Inl Panic
     | Some f \<Rightarrow> Ret (Some (f\<lparr>ckbegin := \<lparr>ck_ts = t, ck_details = details\<rparr>\<rparr>), an))"

text \<open>The source resets the timestamp of its local copy of \<open>ckbegin\<close>; \<open>finfo\<close> keeps the old one.\<close>

definition AnnotateCheckerEnd :: "int \<Rightarrow> string \<Rightarrow> string \<Rightarrow> string \<Rightarrow> tester \<Rightarrow> tester outcome" where
  "AnnotateCheckerEnd t desp details color = (\<lambda>(fi, an). case fi of None \<Rightarrow> Inl Panic
     | Some f \<Rightarrow>
         if ck_ts (ckbegin f) = 0 then Ret (fi, annotatePointColor t TAG_CHECKER desp details color an)
         else Ret (fi, annotateIntervalColor t TAG_CHECKER (ck_ts (ckbegin f)) desp
                (ck_details (ckbegin f) @ '': '' @ details) color an))"

definition AnnotateCheckerSuccess :: "int \<Rightarrow> string \<Rightarrow> string \<Rightarrow> tester \<Rightarrow> tester outcome" where
  "AnnotateCheckerSuccess t desp details = AnnotateCheckerEnd t desp details COLOR_SUCCESS"

definition AnnotateCheckerFailure :: "int \<Rightarrow> string \<Rightarrow> string \<Rightarrow> tester \<Rightarrow> tester outcome" where
  "AnnotateCheckerFailure t desp details = AnnotateCheckerEnd t desp details COLOR_FAILURE"

definition AnnotateCheckerNeutral :: "int \<Rightarrow> string \<Rightarrow> string \<Rightarrow> tester \<Rightarrow> tester outcome" where
  "AnnotateCheckerNeutral t desp details = AnnotateCheckerEnd t desp details COLOR_NEUTRAL"

definition AnnotateCheckerFailureBeforeExit :: "string \<Rightarrow> int \<Rightarrow> int \<Rightarrow> int \<Rightarrow> string \<Rightarrow> string \<Rightarrow> tester \<Rightarrow> (p_annotation list option \<times> tester) outcome" where
  "AnnotateCheckerFailureBeforeExit env t t1 t2 desp details x = bindo (AnnotateCheckerFailure t desp details x) (\<lambda>(fi, an).
     let (out, an') = Annotation_cleanup env t1 t2 True ''test failed'' an in Ret (out, fi, an'))"

text \<open>\<open>%v\<close> of a slice of ints.\<close>

definition show_ints :: "nat list \<Rightarrow> string" where
  "show_ints l = ''['' @ join_with '' '' (map nat_str l) @ '']''"

text \<open>The text of \<open>annotateFault\<close>: each disconnected server alone, the connected ones together, then the crashed ones.\<close>

definition fault_text :: "FrameworkInfo \<Rightarrow> string" where
  "fault_text f =
     (let ids = [0..<length (fi_connected f)];
          crashes = filter (\<lambda>i. crashed f ! i) ids;
          live = filter (\<lambda>i. \<not> crashed f ! i) ids;
          conn = filter (\<lambda>i. fi_connected f ! i) live;
          alone = filter (\<lambda>i. \<not> fi_connected f ! i) live
      in ''partition = '' @ concat (map (\<lambda>i. ''['' @ nat_str i @ ''] '') alone) @
         (if conn \<noteq> [] then show_ints conn else '''') @
         (if crashes \<noteq> [] then '' / crash = '' @ show_ints crashes else ''''))"

definition no_fault :: "FrameworkInfo \<Rightarrow> bool" where
  "no_fault f \<longleftrightarrow> replicate (nservers f) True = fi_connected f \<and> replicate (nservers f) False = crashed f"

definition annotateFault :: "int \<Rightarrow> FrameworkInfo \<times> Annotation \<Rightarrow> FrameworkInfo \<times> Annotation" where
  "annotateFault t = (\<lambda>(f, an).
     if no_fault f then (f, annotateContinuousEnd t TAG_PARTITION an)
     else (f, annotateContinuousColor t TAG_PARTITION (fault_text f) (fault_text f) COLOR_FAULT an))"

text \<open>\<open>copy(dst, src)\<close> of Go: as many elements as both have.\<close>

definition copy_slice :: "'a list \<Rightarrow> 'a list \<Rightarrow> 'a list" where
  "copy_slice dst src = take (length dst) src @ drop (length src) dst"

definition AnnotateConnection :: "int \<Rightarrow> bool list \<Rightarrow> tester \<Rightarrow> tester outcome" where
  "AnnotateConnection t connection = (\<lambda>(fi, an). case fi of None \<Rightarrow> Inl Panic
     | Some f \<Rightarrow>
         if fi_connected f = connection then Ret (fi, an)
         else let (f', an') = annotateFault t (f\<lparr>fi_connected := copy_slice (fi_connected f) connection\<rparr>, an)
              in Ret (Some f', an'))"

definition AnnotateTwoPartitions :: "int \<Rightarrow> nat list \<Rightarrow> nat list \<Rightarrow> tester \<Rightarrow> tester" where
  "AnnotateTwoPartitions t p1 p2 = (\<lambda>(fi, an).
     let text = ''partition = '' @ show_ints p1 @ '' '' @ show_ints p2
     in (fi, annotateContinuousColor t TAG_PARTITION text text COLOR_FAULT an))"

definition AnnotateClearFailure :: "int \<Rightarrow> tester \<Rightarrow> tester outcome" where
  "AnnotateClearFailure t = (\<lambda>(fi, an). case fi of None \<Rightarrow> Inl Panic
     | Some f \<Rightarrow> Ret (Some (f\<lparr>crashed := map (\<lambda>_. False) (crashed f), fi_connected := map (\<lambda>_. True) (fi_connected f)\<rparr>),
                      annotateContinuousEnd t TAG_PARTITION an))"

text \<open>The loop of \<open>AnnotateShutdown\<close> and \<open>AnnotateRestart\<close>: \<open>b\<close> is the new status.\<close>

definition crash_step :: "bool \<Rightarrow> int \<Rightarrow> bool \<times> bool list \<Rightarrow> (bool \<times> bool list) outcome" where
  "crash_step b i = (\<lambda>(changed, cr). bindo (idx cr i) (\<lambda>old.
     bindo (set_idx cr i b) (\<lambda>cr'. Ret (changed \<or> old \<noteq> b, cr'))))"

definition set_crashed :: "bool \<Rightarrow> int \<Rightarrow> int list \<Rightarrow> tester \<Rightarrow> tester outcome" where
  "set_crashed b t servers = (\<lambda>(fi, an). case fi of None \<Rightarrow> Inl Panic
     | Some f \<Rightarrow> bindo (foldo (crash_step b) servers (False, crashed f)) (\<lambda>(changed, cr).
         let f' = f\<lparr>crashed := cr\<rparr> in
         if \<not> changed then Ret (Some f', an)
         else let (f2, an') = annotateFault t (f', an) in Ret (Some f2, an')))"

definition AnnotateShutdown :: "int \<Rightarrow> int list \<Rightarrow> tester \<Rightarrow> tester outcome" where
  "AnnotateShutdown t servers = set_crashed True t servers"

definition AnnotateRestart :: "int \<Rightarrow> int list \<Rightarrow> tester \<Rightarrow> tester outcome" where
  "AnnotateRestart t servers = set_crashed False t servers"

definition AnnotateShutdownAll :: "int \<Rightarrow> tester \<Rightarrow> tester outcome" where
  "AnnotateShutdownAll t = (\<lambda>(fi, an). case fi of None \<Rightarrow> Inl Panic
     | Some f \<Rightarrow> AnnotateShutdown t (map int [0..<nservers f]) (fi, an))"

definition AnnotateRestartAll :: "int \<Rightarrow> tester \<Rightarrow> tester outcome" where
  "AnnotateRestartAll t = (\<lambda>(fi, an). case fi of None \<Rightarrow> Inl Panic
     | Some f \<Rightarrow> AnnotateRestart t (map int [0..<nservers f]) (fi, an))"

section \<open>The fault annotation shows the status of the servers\<close>

text \<open>
  What the framework does between \<open>AnnotateTest\<close> and the end of a test that does not use
  \<open>AnnotateTwoPartitions\<close>; other annotations use other tags.
\<close>

inductive test_run :: "tester \<Rightarrow> bool" where
  begin_test: "test_run (AnnotateTest t desp n x)"
| conn: "test_run x \<Longrightarrow> AnnotateConnection t c x = Ret y \<Longrightarrow> test_run y"
| shut: "test_run x \<Longrightarrow> AnnotateShutdown t l x = Ret y \<Longrightarrow> test_run y"
| restart: "test_run x \<Longrightarrow> AnnotateRestart t l x = Ret y \<Longrightarrow> test_run y"
| clear: "test_run x \<Longrightarrow> AnnotateClearFailure t x = Ret y \<Longrightarrow> test_run y"
| check_begin: "test_run x \<Longrightarrow> AnnotateCheckerBegin t d x = Ret y \<Longrightarrow> test_run y"
| check_end: "test_run x \<Longrightarrow> AnnotateCheckerEnd t desp d col x = Ret y \<Longrightarrow> test_run y"
| point: "test_run (fi, an) \<Longrightarrow> test_run (fi, annotatePointColor t tag desp d col an)"
| interval: "test_run (fi, an) \<Longrightarrow> test_run (fi, annotateIntervalColor t tag start desp d col an)"
| cont: "test_run (fi, an) \<Longrightarrow> tag \<noteq> TAG_PARTITION \<Longrightarrow> test_run (fi, annotateContinuousColor t tag desp d col an)"
| cont_end: "test_run (fi, an) \<Longrightarrow> tag \<noteq> TAG_PARTITION \<Longrightarrow> test_run (fi, annotateContinuousEnd t tag an)"

definition wf_finfo :: "FrameworkInfo \<Rightarrow> bool" where
  [wf_simps]: "wf_finfo f \<longleftrightarrow> length (fi_connected f) = nservers f \<and> length (crashed f) = nservers f"

definition shown :: "FrameworkInfo \<Rightarrow> Annotation \<Rightarrow> bool" where
  "shown f an \<longleftrightarrow> distinct (map fst (continuous an)) \<and>
     (case map_of (continuous an) TAG_PARTITION of None \<Rightarrow> no_fault f
      | Some c \<Rightarrow> \<not> no_fault f \<and> c_desp c = fault_text f)"

lemma annotate_other [simp]:
  "shown f (annotatePointColor t tag desp d col an) = shown f an"
  "shown f (annotateIntervalColor t tag start desp d col an) = shown f an"
  by (simp_all add: shown_def annotatePointColor_def annotateIntervalColor_def)

lemma continuous_of:
  "map_of (continuous (annotateContinuousColor t tag desp d col an)) =
     (map_of (continuous an))(tag \<mapsto> \<lparr>c_start = t, c_desp = desp, c_details = d, c_bgcolor = col\<rparr>)"
  "map_of (continuous (annotateContinuousEnd t tag an)) = (map_of (continuous an))(tag := None)"
  "distinct (map fst (continuous an)) \<Longrightarrow> distinct (map fst (continuous (annotateContinuousColor t tag desp d col an)))"
  "distinct (map fst (continuous an)) \<Longrightarrow> distinct (map fst (continuous (annotateContinuousEnd t tag an)))"
  by (simp_all add: annotateContinuousColor_def annotateContinuousEnd_def Let_def update_conv' distinct_update
      AList.delete_conv' distinct_delete split: option.split)

lemma shown_other_cont:
  "shown f an \<Longrightarrow> tag \<noteq> TAG_PARTITION \<Longrightarrow> shown f (annotateContinuousColor t tag desp d col an)"
  "shown f an \<Longrightarrow> tag \<noteq> TAG_PARTITION \<Longrightarrow> shown f (annotateContinuousEnd t tag an)"
  by (simp_all add: shown_def continuous_of)

lemma annotateFault_shown:
  assumes "distinct (map fst (continuous an))" "annotateFault t (f, an) = (f', an')"
  shows "f' = f \<and> shown f an'"
  using assms by (auto simp: annotateFault_def shown_def continuous_of split: if_splits)

lemma shown_cong: "no_fault f = no_fault g \<Longrightarrow> fault_text f = fault_text g \<Longrightarrow> shown f an = shown g an"
  by (simp add: shown_def cong: option.case_cong)

lemma shown_ckbegin [simp]: "shown (f\<lparr>ckbegin := b\<rparr>) an = shown f an"
  by (rule shown_cong) (simp_all add: no_fault_def fault_text_def)

lemma crash_loop:
  "foldo (crash_step b) l (ch, cr) = Ret (ch', cr') \<Longrightarrow> length cr' = length cr \<and> (\<not> ch' \<longrightarrow> \<not> ch \<and> cr' = cr)"
proof (induction l arbitrary: ch cr)
  case (Cons i l)
  then obtain ch1 cr1 where 1: "crash_step b i (ch, cr) = Ret (ch1, cr1)" "foldo (crash_step b) l (ch1, cr1) = Ret (ch', cr')"
    by (auto simp: bindo_Ret)
  have "length cr1 = length cr \<and> (\<not> ch1 \<longrightarrow> \<not> ch \<and> cr1 = cr)"
    using 1(1) by (auto simp: crash_step_def idx_def set_idx_def in_range_def list_update_same_conv nat_less_iff split: if_splits)
  then show ?case using Cons.IH [OF 1(2)] by auto
qed simp

lemma set_crashed_shown:
  assumes "set_crashed b t l (Some f, an) = Ret y" "wf_finfo f" "shown f an"
  shows "\<exists>f' an'. y = (Some f', an') \<and> wf_finfo f' \<and> shown f' an'"
proof -
  obtain ch cr where 1: "foldo (crash_step b) l (False, crashed f) = Ret (ch, cr)" using assms(1) by (auto simp: set_crashed_def bindo_Ret)
  note cr = crash_loop [OF 1]
  obtain f2 an2 where 2: "annotateFault t (f\<lparr>crashed := cr\<rparr>, an) = (f2, an2)" by fastforce
  have "distinct (map fst (continuous an))" using assms(3) by (simp add: shown_def)
  note 3 = annotateFault_shown [OF this 2]
  have "y = (if ch then (Some f2, an2) else (Some (f\<lparr>crashed := cr\<rparr>), an))" using assms(1) 1 2 by (auto simp: set_crashed_def Let_def split: if_splits)
  then show ?thesis using 3 cr assms(2,3) by (cases ch) (auto simp: wf_finfo_def)
qed

lemma test_run_shown: "test_run x \<Longrightarrow> \<exists>f an. x = (Some f, an) \<and> wf_finfo f \<and> shown f an"
proof (induction rule: test_run.induct)
  case (begin_test t desp n x)
  then show ?case
    by (cases x) (auto simp: AnnotateTest_def Let_def wf_finfo_def mkFrameworkInfo_def AnnotateInfo_def shown_def
        clear_annotations_def annotatePointColor_def no_fault_def)
next
  case (conn x t c y)
  then obtain f an where x: "x = (Some f, an)" "wf_finfo f" "shown f an" by blast
  let ?f = "f\<lparr>fi_connected := copy_slice (fi_connected f) c\<rparr>"
  obtain f2 an2 where 2: "annotateFault t (?f, an) = (f2, an2)" by fastforce
  have "distinct (map fst (continuous an))" using x(3) by (simp add: shown_def)
  note 3 = annotateFault_shown [OF this 2]
  have "wf_finfo ?f" using x(2) by (auto simp: wf_finfo_def copy_slice_def)
  then show ?case using conn.hyps(2) x 2 3 by (auto simp: AnnotateConnection_def split: if_splits)
next
  case (shut x t l y)
  then show ?case using set_crashed_shown unfolding AnnotateShutdown_def by blast
next
  case (restart x t l y)
  then show ?case using set_crashed_shown unfolding AnnotateRestart_def by blast
next
  case (clear x t y)
  then obtain f an where x: "x = (Some f, an)" "wf_finfo f" "shown f an" by blast
  have "shown (f\<lparr>crashed := map (\<lambda>_. False) (crashed f), fi_connected := map (\<lambda>_. True) (fi_connected f)\<rparr>) (annotateContinuousEnd t TAG_PARTITION an)"
    using x(2,3) by (simp add: shown_def continuous_of no_fault_def wf_finfo_def map_replicate_const)
  then show ?case using clear.hyps(2) x by (auto simp: AnnotateClearFailure_def wf_finfo_def)
next
  case (check_begin x t d y)
  then show ?case by (auto simp: AnnotateCheckerBegin_def wf_finfo_def)
next
  case (check_end x t desp d col y)
  then show ?case by (auto simp: AnnotateCheckerEnd_def split: if_splits)
qed (auto simp: shown_other_cont)




text \<open>
  The interval of a checker is not reset when it ends: a second end without a begin is an interval
  from the first begin, not the point that the comment in the source promises.
\<close>

lemma AnnotateCheckerEnd_keeps_begin:
  assumes "AnnotateCheckerBegin t1 d x = Ret y" "AnnotateCheckerEnd t2 desp d2 col y = Ret z" "t1 \<noteq> 0"
  shows "\<exists>w. AnnotateCheckerEnd t3 desp' d3 col' z = Ret w \<and> a_Start (last (annotations (snd w))) = t1"
  using assms by (auto simp: AnnotateCheckerBegin_def AnnotateCheckerEnd_def annotateIntervalColor_def split: option.splits prod.splits)

text \<open>Ending a tag without a continuous annotation adds one from time 0 with no text.\<close>

lemma annotateContinuousEnd_absent:
  "tag \<notin> fst ` set (continuous an) \<Longrightarrow>
    annotations (annotateContinuousEnd t tag an) = annotations an @
      [\<lparr>a_Tag = tag, a_Start = 0, a_End = t, a_Description = '''', a_Details = '''', a_BackgroundColor = ''''\<rparr>]"
  by (simp add: annotateContinuousEnd_def concretize_def Let_def map_of_eq_None_iff [THEN iffD2])

end
