(* ===== verification/KVHarness.thy ===== *)
theory KVHarness
  imports KVSpawn KVPuts KVOps KVHist Annotation
begin

text \<open>
  The rest of the key/value test harness: the test objects of \<open>kvtest1/kvtest.go\<close>, \<open>kvsrv1/test.go\<close>
  and \<open>kvraft1/test.go\<close>, counted clerks, the helper \<open>OnePut\<close>, the partitioner with its annotations,
  and \<open>checkPorcupine\<close> with the visualization it may write. The environment, the clock, random
  numbers, whether a file can be opened and the checker are arguments.
\<close>

section \<open>Values, clerks and tests\<close>

definition letterBytes :: string where
  "letterBytes = ''abcdefghijklmnopqrstuvwxyzABCDEFGHIJKLMNOPQRSTUVWXYZ''"

text \<open>\<open>rs\<close> are the numbers drawn, one for each byte.\<close>

definition RandValue :: "nat list \<Rightarrow> string" where
  "RandValue rs = map (\<lambda>r. letterBytes ! (r mod length letterBytes)) rs"

text \<open>A \<open>TestClerk\<close> counts its operations in the configuration.\<close>

definition TestClerk_Put :: "string \<Rightarrow> string \<Rightarrow> Tversion \<Rightarrow> attempt list \<Rightarrow> Config \<times> KVServer \<Rightarrow> (Err \<times> Config \<times> KVServer) option" where
  "TestClerk_Put key val ver sched = (\<lambda>(cfg, kv). map_option (\<lambda>(err, kv'). (err, OpInc cfg, kv')) (Clerk_Put key val ver sched kv))"

definition TestClerk_Get :: "string \<Rightarrow> attempt list \<Rightarrow> Config \<times> KVServer \<Rightarrow> ((string \<times> Tversion \<times> Err) \<times> Config \<times> KVServer) option" where
  "TestClerk_Get key sched = (\<lambda>(cfg, kv). map_option (\<lambda>(r, kv'). (r, OpInc cfg, kv')) (Clerk_Get key sched kv))"

record kv_test =
  kt_Config :: Config
  kt_oplog :: OpLog
  kt_randomkeys :: bool

definition kvtest_MakeTest :: "Config \<Rightarrow> bool \<Rightarrow> kv_test" where
  "kvtest_MakeTest cfg randomkeys = \<lparr>kt_Config = cfg, kt_oplog = [], kt_randomkeys = randomkeys\<rparr>"

definition kvtest_Cleanup :: "int \<Rightarrow> kv_test \<Rightarrow> ((int \<times> int \<times> int \<times> int) option \<times> string \<times> kv_test) outcome" where
  "kvtest_Cleanup now ts = bindo (Config_End now (kt_Config ts)) (\<lambda>report.
     bindo (Config_Cleanup (kt_Config ts)) (\<lambda>(verdict, cfg). Ret (report, verdict, ts\<lparr>kt_Config := cfg\<rparr>)))"

fun ConnectClnts :: "Clnt list \<times> Network \<Rightarrow> Clnt list \<times> Network" where
  "ConnectClnts ([], net) = ([], net)"
| "ConnectClnts (c # cs, net) = (let (c', net1) = Clnt_ConnectAll (c, net); (cs', net2) = ConnectClnts (cs, net1) in (c' # cs', net2))"

text \<open>\<open>MakeTestKV\<close>: one server, whose random names and start are \<open>ns\<close> and \<open>s\<close>.\<close>

definition MakeTestKV :: "nat list \<Rightarrow> name list \<Rightarrow> name list \<times> addr \<times> bool \<Rightarrow> bool \<Rightarrow> int \<Rightarrow> kv_test outcome" where
  "MakeTestKV b ns s rel now = bindo (MakeConfig b [ns] [s] rel now) (\<lambda>cfg. Ret (kvtest_MakeTest cfg False))"

section \<open>The test of the replicated server\<close>

record kvraft_test =
  kr_Test :: kv_test
  kr_part :: string
  kr_nclients :: int
  kr_nservers :: int
  kr_crash :: bool
  kr_partitions :: bool
  kr_maxraftstate :: int
  kr_randomkeys :: bool

definition Gid :: Tgid where
  "Gid = GRP0"

definition makeTitle :: "kvraft_test \<Rightarrow> string" where
  "makeTitle ts = ''Test: '' @ (if kr_crash ts then ''restarts, '' else '''') @ (if kr_partitions ts then ''partitions, '' else '''') @
     (if kr_maxraftstate ts \<noteq> -1 then ''snapshots, '' else '''') @ (if kr_randomkeys ts then ''random keys, '' else '''') @
     (if kr_nclients ts > 1 then ''many clients'' else ''one client'') @ '' ('' @ kr_part ts @ '')''"

definition raft_state_arg :: "int \<Rightarrow> string list" where
  "raft_state_arg maxraftstate = [''--max-raft-state='' @ itoa maxraftstate]"

text \<open>What \<open>MakeTest\<close> returns, the title it prints and the arguments of the servers it starts.\<close>

definition kvraft_MakeTest :: "nat list \<Rightarrow> name list list \<Rightarrow> (name list \<times> addr \<times> bool) list \<Rightarrow> int \<Rightarrow> string \<Rightarrow> int \<Rightarrow> bool \<Rightarrow> bool \<Rightarrow> bool \<Rightarrow> int \<Rightarrow> bool \<Rightarrow>
    (kvraft_test \<times> string \<times> string list) outcome" where
  "kvraft_MakeTest b names l now part nclients rel crash partitions maxraftstate randomkeys =
     bindo (MakeConfig b names l rel now) (\<lambda>cfg.
     let ts = \<lparr>kr_Test = kvtest_MakeTest cfg randomkeys, kr_part = part, kr_nclients = nclients, kr_nservers = int (length names), kr_crash = crash,
               kr_partitions = partitions, kr_maxraftstate = maxraftstate, kr_randomkeys = randomkeys\<rparr>
     in Ret (ts\<lparr>kr_Test := (kr_Test ts)\<lparr>kt_Config := Config_Begin now cfg\<rparr>\<rparr>, makeTitle ts, raft_state_arg maxraftstate))"

text \<open>An operation on one group of a configuration; there is no group for a missing identifier, and the code dereferences nil.\<close>

definition on_group :: "Tgid \<Rightarrow> (grp_net \<Rightarrow> grp_net outcome) \<Rightarrow> Config \<Rightarrow> Config outcome" where
  "on_group g f cfg = (case lookupGroup g (cf_groups cfg) of None \<Rightarrow> Inl Panic
     | Some sg \<Rightarrow> bindo (f (sg, cf_net cfg)) (\<lambda>(sg', net). Ret (cfg\<lparr>cf_groups := AList.update g sg' (cf_groups cfg), cf_net := net\<rparr>)))"

definition killall :: "int \<Rightarrow> Config \<times> tester \<Rightarrow> (Config \<times> tester) outcome" where
  "killall now = (\<lambda>(cfg, tr). bindo (on_group Gid Shutdown cfg) (\<lambda>cfg'. bindo (AnnotateShutdownAll now tr) (\<lambda>tr'. Ret (cfg', tr'))))"

definition restartall :: "int \<Rightarrow> (name list \<times> addr \<times> bool) list \<Rightarrow> Config \<times> tester \<Rightarrow> (Config \<times> tester) outcome" where
  "restartall now l = (\<lambda>(cfg, tr). bindo (on_group Gid (StartServers l) cfg) (\<lambda>cfg'.
     bindo (AnnotateRestartAll now tr) (\<lambda>tr'. Ret (cfg', tr'))))"

text \<open>The clerk of \<open>kvraft1/client.go\<close>; its operations have no code yet and return zero values.\<close>

record kvraft_Clerk =
  kc_clnt :: addr
  kc_servers :: "string list"
  kc_leader :: int

definition kvraft_NewClerk :: "addr \<Rightarrow> string list \<Rightarrow> kvraft_Clerk" where
  "kvraft_NewClerk a ss = \<lparr>kc_clnt = a, kc_servers = ss, kc_leader = 0\<rparr>"

definition kvraft_MakeClerk :: "addr \<Rightarrow> Config \<Rightarrow> (kvraft_Clerk \<times> Config) outcome" where
  "kvraft_MakeClerk a cfg = (case lookupGroup Gid (cf_groups cfg) of None \<Rightarrow> Inl Panic
     | Some sg \<Rightarrow> Ret (kvraft_NewClerk a (servernames sg), cfg\<lparr>cf_clnts := MakeClient a (cf_clnts cfg)\<rparr>))"

definition kvraft_DeleteClerk :: "kvraft_Clerk \<Rightarrow> Config \<Rightarrow> Config outcome" where
  "kvraft_DeleteClerk ck cfg = bindo (DeleteClient (kc_clnt ck) (cf_clnts cfg, cf_net cfg)) (\<lambda>(cs, net). Ret (cfg\<lparr>cf_clnts := cs, cf_net := net\<rparr>))"

text \<open>The slice that \<open>SrvNamesTo\<close> makes is never nil, so that the client may reach just these servers.\<close>

definition MakeClerkTo :: "int list \<Rightarrow> addr \<Rightarrow> Config \<Rightarrow> (kvraft_Clerk \<times> Config) outcome" where
  "MakeClerkTo to a cfg = (case lookupGroup Gid (cf_groups cfg) of None \<Rightarrow> Inl Panic
     | Some sg \<Rightarrow> bindo (SrvNamesTo to sg) (\<lambda>ns.
         Ret (kvraft_NewClerk a (servernames sg), cfg\<lparr>cf_clnts := MakeClientTo (Some ns) a (cf_clnts cfg)\<rparr>)))"

section \<open>Operations of the tests\<close>

text \<open>\<open>OnePut\<close>, with what happens in the calls of each round; a list that ends is a call that has not returned.\<close>

fun OnePut :: "(EntryV \<Rightarrow> string option) \<Rightarrow> (string \<Rightarrow> EntryV option) \<Rightarrow> int \<Rightarrow> string \<Rightarrow> Tversion \<Rightarrow> (clerk_call \<times> clerk_call) list \<Rightarrow>
    test_state \<Rightarrow> ((Tversion \<times> bool) \<times> test_state) outcome option" where
  "OnePut mar unmar me key ver [] s = None"
| "OnePut mar unmar me key ver ((pc, gc) # calls) s = (case PutJson mar key \<lparr>ev_Id = me, ev_V = ver\<rparr> ver me pc s of
      None \<Rightarrow> None
    | Some (Inl e) \<Rightarrow> Some (Inl e)
    | Some (Inr (err, s1)) \<Rightarrow>
        if \<not> (err = OK \<or> err = ErrVersion \<or> err = ErrMaybe) then Some (Inl Fatal)
        else (case ts_Get key me gc s1 of
            None \<Rightarrow> None
          | Some (res, s2) \<Rightarrow> (case GetJson unmar res of
              Inl e \<Rightarrow> Some (Inl e)
            | Inr (e, ver0) \<Rightarrow>
                if err = OK \<and> ver0 = ver + 1 \<and> ev_Id e \<noteq> me \<and> ev_V e \<noteq> ver then Some (Inl Fatal)
                else if err = OK \<or> err = ErrMaybe then Some (Ret ((ver0, err = OK), s2))
                else OnePut mar unmar me key ver0 calls s2)))"

text \<open>\<open>SpreadPuts\<close> with values of 20 characters; \<open>bs\<close> are the random bytes that \<open>Randstring\<close> reads for each of them.\<close>

definition rand_values :: "nat \<Rightarrow> nat list list \<Rightarrow> string list outcome" where
  "rand_values n bs = foldo (\<lambda>b va. bindo (Randstring b n) (\<lambda>v. Ret (va @ [v]))) bs []"

definition SpreadPuts :: "nat list list \<Rightarrow> attempt list list \<Rightarrow> clerk_call list \<Rightarrow> test_state \<Rightarrow> test_state outcome option" where
  "SpreadPuts bs scheds cas s = (case rand_values 20 bs of Inl e \<Rightarrow> Some (Inl e) | Inr va \<Rightarrow> SpreadPutsSize va scheds cas s)"

text \<open>\<open>Partitioner\<close>: the rounds it makes before it is told to stop, each with its time and its random bits; then it answers on its channel.\<close>

definition Partitioner_turn :: "Tgid \<Rightarrow> int \<times> int list \<Rightarrow> Config \<times> tester \<Rightarrow> (Config \<times> tester) outcome" where
  "Partitioner_turn g = (\<lambda>(t, a) (cfg, tr). bindo (on_group g (Partitioner_round a) cfg) (\<lambda>cfg'.
     Ret (cfg', AnnotateTwoPartitions t (map nat (bit_side a 0)) (map nat (bit_side a 1)) tr)))"

definition Partitioner :: "Tgid \<Rightarrow> (int \<times> int list) list \<Rightarrow> Config \<times> tester \<Rightarrow> (bool \<times> Config \<times> tester) outcome" where
  "Partitioner g rounds x = bindo (foldo (Partitioner_turn g) rounds x) (\<lambda>y. Ret (True, y))"

section \<open>Visualizations\<close>

text \<open>What the environment holds: \<open>VIS_ENABLE\<close>, \<open>VIS_FILE\<close>, the temporary file, and whether files can be opened and written.\<close>

record vis_env =
  ve_enable :: string
  ve_file :: string
  ve_temp :: "string option"
  ve_open :: bool
  ve_write :: bool

datatype vis_act = CannotOpen string | Opened string | Wrote string "p_annotation list" | NotWritten string | TimedOut

definition vis_open :: "vis_env \<Rightarrow> string option" where
  "vis_open v = (if ve_file v = '''' then ve_temp v else if ve_open v then Some (ve_file v) else None)"

definition write_vis :: "vis_env \<Rightarrow> string \<Rightarrow> p_annotation list \<Rightarrow> vis_act" where
  "write_vis v f l = (if ve_write v then Wrote f l else NotWritten f)"

definition checkPorcupine_vis :: "vis_env \<Rightarrow> int \<Rightarrow> int \<Rightarrow> (Operation list \<Rightarrow> CheckResult) \<Rightarrow> OpLog \<Rightarrow> Annotation \<Rightarrow> unit outcome \<times> vis_act list \<times> Annotation" where
  "checkPorcupine_vis v t t' check opLog an =
     (let res = check (OpLog_Read opLog) in
      if res = Illegal then (case vis_open v of
          None \<Rightarrow> (Inl Fatal, [CannotOpen (ve_file v)], an)
        | Some f \<Rightarrow> if ve_enable v \<noteq> ''never''
            then (let (l, an') = FinalizeAnnotations t t' ''test failed'' an in (Inl Fatal, [Opened f, write_vis v f l], an'))
            else (Inl Fatal, [Opened f], an))
      else let acts = (if res = Unknown then [TimedOut] else []) in
        if ve_enable v = ''always'' \<and> isFinalized an then (case vis_open v of
            None \<Rightarrow> (Ret (), acts @ [CannotOpen (ve_file v)], an)
          | Some f \<Rightarrow> (let (l, an') = FinalizeAnnotations t t' ''test passed'' an in (Ret (), acts @ [Opened f, write_vis v f l], an')))
        else (Ret (), acts, an))"

text \<open>The end of \<open>cleanup\<close>: the file is announced as written whether or not that succeeds. A signal interrupts a test in the same way.\<close>

definition cleanup_vis :: "vis_env \<Rightarrow> int \<Rightarrow> int \<Rightarrow> bool \<Rightarrow> string \<Rightarrow> Annotation \<Rightarrow> vis_act list \<times> Annotation" where
  "cleanup_vis v t t' isFailed end_text an = (case Annotation_cleanup (ve_enable v) t t' isFailed end_text an of
      (None, an') \<Rightarrow> ([], an')
    | (Some l, an') \<Rightarrow> (case vis_open v of None \<Rightarrow> ([CannotOpen (ve_file v)], an') | Some f \<Rightarrow> ([Opened f, Wrote f l], an')))"

definition interrupted :: "vis_env \<Rightarrow> int \<Rightarrow> int \<Rightarrow> Annotation \<Rightarrow> vis_act list \<times> unit outcome" where
  "interrupted v t t' an = (fst (cleanup_vis v t t' True ''interrupted'' an), Inl Fatal)"

definition CheckPorcupineT :: "vis_env \<Rightarrow> int \<Rightarrow> int \<Rightarrow> (Operation list \<Rightarrow> CheckResult) \<Rightarrow> kv_test \<Rightarrow> Annotation \<Rightarrow> unit outcome \<times> vis_act list \<times> Annotation" where
  "CheckPorcupineT v t t' check ts an = checkPorcupine_vis v t t' check (kt_oplog ts) an"

text \<open>\<open>checks nsec\<close> is the checker with a time limit, in nanoseconds.\<close>

definition CheckPorcupine :: "(int \<Rightarrow> Operation list \<Rightarrow> CheckResult) \<Rightarrow> vis_env \<Rightarrow> int \<Rightarrow> int \<Rightarrow> kv_test \<Rightarrow> Annotation \<Rightarrow> unit outcome \<times> vis_act list \<times> Annotation" where
  "CheckPorcupine checks v t t' ts an = CheckPorcupineT v t t' (checks (10 ^ 9)) ts an"

text \<open>The recording calls of a test, with the statistics: \<open>Get\<close> and \<open>Put\<close> of \<open>Test\<close> on a counting clerk.\<close>

definition Test_Get :: "string \<Rightarrow> int \<Rightarrow> clerk_call \<Rightarrow> kv_test \<times> KVServer \<Rightarrow> ((string \<times> Tversion \<times> Err) \<times> kv_test \<times> KVServer) option" where
  "Test_Get key cli ca = (\<lambda>(ts, kv). case TestClerk_Get key (ca_sched ca) (kt_Config ts, kv) of
      None \<Rightarrow> None
    | Some ((val, ver, err), cfg, kv') \<Rightarrow> Some ((val, ver, err), ts\<lparr>kt_Config := OpInc cfg, kt_oplog := OpLog_Append
        \<lparr>op_ClientId = cli, op_Input = get_input key, op_Call = ca_start ca, op_Output = get_output val ver err, op_Return = ca_end ca\<rparr> (kt_oplog ts)\<rparr>, kv'))"

definition Test_Put :: "string \<Rightarrow> string \<Rightarrow> Tversion \<Rightarrow> int \<Rightarrow> clerk_call \<Rightarrow> kv_test \<times> KVServer \<Rightarrow> (Err \<times> kv_test \<times> KVServer) option" where
  "Test_Put key val ver cli ca = (\<lambda>(ts, kv). case TestClerk_Put key val ver (ca_sched ca) (kt_Config ts, kv) of
      None \<Rightarrow> None
    | Some (err, cfg, kv') \<Rightarrow> Some (err, ts\<lparr>kt_Config := cfg, kt_oplog := OpLog_Append
        \<lparr>op_ClientId = cli, op_Input = put_input \<lparr>pa_Key = key, pa_Value = val, pa_Version = ver\<rparr>, op_Call = ca_start ca,
         op_Output = put_output err, op_Return = ca_end ca\<rparr> (kt_oplog ts)\<rparr>, kv'))"

section \<open>Lemmas\<close>

lemma RandValue_letters: "length (RandValue rs) = length rs" "set (RandValue rs) \<subseteq> set letterBytes"
proof -
  have "length letterBytes > 0" by (simp add: letterBytes_def)
  then have "letterBytes ! (r mod length letterBytes) \<in> set letterBytes" for r by (intro nth_mem mod_less_divisor)
  then show "set (RandValue rs) \<subseteq> set letterBytes" by (auto simp: RandValue_def)
qed (simp add: RandValue_def)

text \<open>A get is counted twice in the statistics of a test, by the clerk and by the test; a put once.\<close>

lemma Get_counted_twice:
  "Test_Get key cli ca (ts, kv) = Some (r, ts', kv') \<Longrightarrow> cf_ops (kt_Config ts') = cf_ops (kt_Config ts) + 2"
  "Test_Put key val ver cli ca (ts, kv) = Some (err, ts', kv') \<Longrightarrow> cf_ops (kt_Config ts') = cf_ops (kt_Config ts) + 1"
  by (auto simp: Test_Get_def Test_Put_def TestClerk_Get_def TestClerk_Put_def OpInc_def split: option.splits)

text \<open>They record what the histories are made of.\<close>

lemma Test_ops_record:
  "map_option (\<lambda>(r, ts', kv'). (r, kv', kt_oplog ts')) (Test_Get key cli ca (ts, kv)) = ts_Get key cli ca (kv, kt_oplog ts)"
  "map_option (\<lambda>(e, ts', kv'). (e, kv', kt_oplog ts')) (Test_Put key val ver cli ca (ts, kv)) = ts_Put key val ver cli ca (kv, kt_oplog ts)"
  by (auto simp: Test_Get_def Test_Put_def TestClerk_Get_def TestClerk_Put_def ts_Get_def ts_Put_def split: option.splits)

text \<open>\<open>OnePut\<close> returns the version that the key has then, and the value there decodes.\<close>

lemma OnePut_current:
  "OnePut mar unmar me key ver calls s = Some (Ret ((ver', ok), s')) \<Longrightarrow>
    \<exists>v. srv.cell (fst s') key = (v, ver') \<and> unmar v \<noteq> None"
proof (induction mar unmar me key ver calls s rule: OnePut.induct)
  case (2 mar unmar me key ver pc gc calls s)
  from "2.prems" obtain err s1 val n e s2 x where o: "PutJson mar key \<lparr>ev_Id = me, ev_V = ver\<rparr> ver me pc s = Some (Inr (err, s1))"
    "err = OK \<or> err = ErrVersion \<or> err = ErrMaybe" "ts_Get key me gc s1 = Some ((val, n, e), s2)" "GetJson unmar (val, n, e) = Ret (x, n)"
    by (auto simp: GetJson_def split: option.splits sum.splits if_splits)
  obtain kv log kv2 where s: "s1 = (kv, log)" "Clerk_Get key (ca_sched gc) kv = Some ((val, n, e), kv2)" "fst s2 = kv2"
    using o(3) by (cases s1) (auto simp: ts_Get_def split: option.splits)
  have here: "srv.cell (fst s2) key = (val, n)" "unmar val \<noteq> None"
    using Clerk_Get_cell [OF s(2)] s(3) o(4) by (auto simp: GetJson_def split: if_splits option.splits)
  show ?case
  proof (cases "err = OK \<or> err = ErrMaybe")
    case True
    then show ?thesis using "2.prems" o here by (auto split: if_splits)
  next
    case False
    then show ?thesis using "2.IH" [OF o(1) refl refl _ o(3) refl o(4) refl] "2.prems" o by (auto split: if_splits)
  qed
qed simp

text \<open>The random values can be made, so that \<open>SpreadPuts\<close> passes where \<open>SpreadPutsSize\<close> does.\<close>

lemma rand_values_made:
  assumes "\<forall>b\<in>set bs. length b = 2 * n"
  shows "\<exists>va. rand_values n bs = Ret va \<and> length va = length bs \<and> (\<forall>v\<in>set va. length v = n)"
proof -
  have "\<exists>va'. foldo (\<lambda>b va. bindo (Randstring b n) (\<lambda>v. Ret (va @ [v]))) bs va = Ret (va @ va') \<and> length va' = length bs \<and> (\<forall>v\<in>set va'. length v = n)" for va
    using assms
  proof (induction bs arbitrary: va)
    case (Cons b bs)
    obtain v where v: "Randstring b n = Ret v" "length v = n" using Randstring_length [of b n] Cons.prems by auto
    obtain vs where "foldo (\<lambda>b va. bindo (Randstring b n) (\<lambda>v. Ret (va @ [v]))) bs (va @ [v]) = Ret ((va @ [v]) @ vs)"
      "length vs = length bs" "\<forall>v\<in>set vs. length v = n" using Cons.IH [of "va @ [v]"] Cons.prems by auto
    then show ?case using v by (intro exI [of _ "v # vs"]) simp
  qed simp
  from this [of "[]"] show ?thesis by (simp add: rand_values_def)
qed

lemma SpreadPuts_passes:
  assumes "\<forall>b\<in>set bs. length b = 40" "length scheds = length bs" "length cas = length bs"
    and "\<forall>sched\<in>set scheds \<union> ca_sched ` set cas. calm (set (MakeKeys (length bs))) sched"
    and "\<forall>k\<in>set (MakeKeys (length bs)). kv_look kv k = None"
  shows "\<exists>s'. SpreadPuts bs scheds cas (kv, log) = Some (Ret s')"
proof -
  obtain va where va: "rand_values 20 bs = Ret va" "length va = length bs" using rand_values_made [of bs 20] assms(1) by auto
  then show ?thesis using SpreadPuts_pass [of scheds va cas kv log] assms(2-) by (simp add: SpreadPuts_def)
qed

text \<open>
  The partitioner returns, and after it two servers can reach each other exactly if they drew the same bit in
  the last round.
\<close>

lemma Partitioner_turn_connects:
  assumes "lookupGroup g (cf_groups cfg) = Some sg" "wf_grp (int (length a)) sg" "set a \<subseteq> {0, 1}"
  obtains cfg' tr' sg' where "Partitioner_turn g (t, a) (cfg, tr) = Ret (cfg', tr')" "lookupGroup g (cf_groups cfg') = Some sg'"
    "wf_grp (int (length a)) sg'" "\<forall>i<length a. \<forall>j<length a. conn sg' (cf_net cfg') (int i) (int j) \<longleftrightarrow> a ! i = a ! j"
proof -
  obtain sg' net' where "Partitioner_round a (sg, cf_net cfg) = Ret (sg', net')" "wf_grp (int (length a)) sg'"
    "\<forall>i<length a. \<forall>j<length a. conn sg' net' (int i) (int j) \<longleftrightarrow> a ! i = a ! j"
    using Partitioner_round_connectivity [OF assms(2,3)] by blast
  then show thesis using that assms(1) by (simp add: Partitioner_turn_def on_group_def lookupGroup_def update_conv')
qed

lemma Partitioner_connects:
  assumes "lookupGroup g (cf_groups cfg) = Some sg" "wf_grp (int n) sg" "\<forall>(t, a)\<in>set rounds. length a = n \<and> set a \<subseteq> {0, 1}"
  shows "\<exists>cfg' tr' sg'. Partitioner g rounds (cfg, tr) = Ret (True, cfg', tr') \<and> lookupGroup g (cf_groups cfg') = Some sg' \<and> wf_grp (int n) sg' \<and>
    (rounds \<noteq> [] \<longrightarrow> (\<forall>i<n. \<forall>j<n. conn sg' (cf_net cfg') (int i) (int j) \<longleftrightarrow> snd (last rounds) ! i = snd (last rounds) ! j))"
  using assms
proof (induction rounds arbitrary: cfg tr sg)
  case (Cons r rounds)
  obtain t a where r: "r = (t, a)" by force
  then have a: "length a = n" "set a \<subseteq> {0, 1}" using Cons.prems(3) by auto
  obtain cfg1 tr1 sg1 where 1: "Partitioner_turn g (t, a) (cfg, tr) = Ret (cfg1, tr1)" "lookupGroup g (cf_groups cfg1) = Some sg1"
    "wf_grp (int n) sg1" "\<forall>i<n. \<forall>j<n. conn sg1 (cf_net cfg1) (int i) (int j) \<longleftrightarrow> a ! i = a ! j"
    using Partitioner_turn_connects [OF Cons.prems(1), of a] Cons.prems(2) a by metis
  have eq: "Partitioner g (r # rounds) (cfg, tr) = Partitioner g rounds (cfg1, tr1)" using 1(1) by (simp add: Partitioner_def r)
  show ?case
  proof (cases "rounds = []")
    case True
    then show ?thesis using 1 r eq by (simp add: Partitioner_def)
  next
    case False
    then show ?thesis using Cons.IH [OF 1(2,3), of tr1] Cons.prems(3) unfolding eq by simp
  qed
qed (simp add: Partitioner_def)

text \<open>Whether the test fails depends on the checker only, not on files and annotations.\<close>

lemma checkPorcupine_vis_verdict: "fst (checkPorcupine_vis v t t' check opLog an) = checkPorcupine check opLog"
  by (simp add: checkPorcupine_vis_def checkPorcupine_def Let_def OpLog_Read_def split: option.splits prod.splits)

text \<open>
  A test that passes does not get its visualization, even if \<open>VIS_ENABLE\<close> is \<open>always\<close>, unless the
  annotations have been finalized before; only then are they finalized again.
\<close>

lemma passed_not_visualized:
  "check opLog \<noteq> Illegal \<Longrightarrow> \<not> finalized an \<Longrightarrow> \<exists>acts. checkPorcupine_vis v t t' check opLog an = (Ret (), acts, an) \<and> set acts \<subseteq> {TimedOut}"
  by (auto simp: checkPorcupine_vis_def Let_def OpLog_Read_def isFinalized_def)

text \<open>The file of a failed test is opened, which empties it, although \<open>VIS_ENABLE\<close> is \<open>never\<close>.\<close>

lemma never_still_opens:
  "check opLog = Illegal \<Longrightarrow> ve_enable v = ''never'' \<Longrightarrow> vis_open v = Some f \<Longrightarrow>
    checkPorcupine_vis v t t' check opLog an = (Inl Fatal, [Opened f], an)"
  by (simp add: checkPorcupine_vis_def OpLog_Read_def)

text \<open>After a check that wrote a file, \<open>cleanup\<close> does not overwrite it.\<close>

lemma cleanup_keeps_file:
  "checkPorcupine_vis v t t' check opLog an = (r, acts, an') \<Longrightarrow> Wrote f l \<in> set acts \<Longrightarrow>
    cleanup_vis v u u' isFailed end_text an' = ([], clear_annotations an')"
  by (auto simp: checkPorcupine_vis_def Let_def FinalizeAnnotations_def finalize_def cleanup_vis_def Annotation_cleanup_def write_vis_def
      split: if_splits option.splits prod.splits)

end
