(* ===== verification/Raft.thy ===== *)
theory Raft
  imports Prelude
begin

text \<open>
  One Raft peer, \<open>raft1/raft.go\<close>: its state, its RPC handlers, the bodies of the
  election and replication goroutines and the apply loop. The code takes and releases
  \<open>rf.mu\<close> several times within one function; each stretch under the lock is one definition
  here (a \<^emph>\<open>section\<close>), with the local variables that survive between sections as arguments
  and results, and the function itself is the composition of its sections. An interleaving is then
  another composition of the same sections.

  The clock and the random numbers are arguments: \<open>et\<close> is the next value of
  \<open>generateElectionTimeout\<close>. A slice of \<open>rf.logs\<close> is the list of its values at the time of
  slicing. Printing is left out.
\<close>

section \<open>State and messages\<close>

datatype Mode = Leader | Candidate | Follower

record 'c LogEntry =
  Term :: int
  Command :: "'c option"

record 'c Raft =
  me :: nat
  peers :: nat
  Mode :: Mode
  CurrentTerm :: int
  VotedFor :: int
  ElectionTimeout :: int
  logs :: "'c LogEntry list"
  commitIndex :: int
  appliedIndex :: int
  electionInProgress :: bool
  pNextIndex :: "int list"
  pMatchIndex :: "int list"

record RequestVoteArgs =
  rva_Term :: int
  rva_CandidateId :: int
  rva_LastLogIndex :: int
  rva_LastLogTerm :: int

record RequestVoteReply =
  rvr_Term :: int
  rvr_VoteGranted :: bool

record 'c AppendLogRequest =
  al_Term :: int
  al_LeaderId :: int
  al_PrevLogIndex :: int
  al_PrevLogTerm :: int
  al_Entries :: "'c LogEntry list"
  al_LeaderCommit :: int

record AppendLogResponse =
  ar_Term :: int
  ar_Success :: bool
  ar_ConflictIndex :: int

record 'c ApplyMsg =
  am_CommandValid :: bool
  am_Command :: "'c option"
  am_CommandIndex :: int

section \<open>Helpers of the source\<close>

definition generateElectionTimeout :: "int \<Rightarrow> int \<Rightarrow> int" where
  "generateElectionTimeout now r = now + (325 + r)"

definition getLastLogIndexAndTerm :: "'c Raft \<Rightarrow> int \<times> int" where
  "getLastLogIndexAndTerm rf =
     (if length (logs rf) > 0
      then (int (length (logs rf)) - 1, Term (logs rf ! (length (logs rf) - 1)))
      else (-1, -1))"

definition setToFollower :: "int \<Rightarrow> int \<Rightarrow> 'c Raft \<Rightarrow> 'c Raft" where
  "setToFollower et term rf =
     rf\<lparr>Mode := Follower, CurrentTerm := term, VotedFor := -1, ElectionTimeout := et\<rparr>"

definition setToLeader :: "'c Raft \<Rightarrow> 'c Raft" where
  "setToLeader rf =
     rf\<lparr>Mode := Leader, electionInProgress := False,
        pNextIndex := replicate (peers rf) (fst (getLastLogIndexAndTerm rf) + 1),
        pMatchIndex := replicate (peers rf) 0\<rparr>"

definition isMajority :: "'c Raft \<Rightarrow> int \<Rightarrow> bool" where
  "isMajority rf n \<longleftrightarrow> n \<ge> int (peers rf) div 2 + 1"

text \<open>The loop indexes \<open>pMatchIndex\<close> for every other peer; a short slice panics.\<close>

definition isQuorumReached :: "'c Raft \<Rightarrow> bool outcome" where
  "isQuorumReached rf =
     (let others = filter (\<lambda>p. p \<noteq> me rf) [0..<peers rf] in
      if list_ex (\<lambda>p. length (pMatchIndex rf) \<le> p) others then Inl Panic
      else let matchCount = 1 + int (length (filter (\<lambda>p. pMatchIndex rf ! p = int (length (logs rf)) - 1) others))
           in Ret (matchCount = int (peers rf) div 2 + 1))"

text \<open>The downward loop of \<open>resolveIndexConflict\<close>; \<open>n\<close> is one more than its index.\<close>

fun resolve_from :: "'c LogEntry list \<Rightarrow> int \<Rightarrow> nat \<Rightarrow> int" where
  "resolve_from l prevLogTerm 0 = 0"
| "resolve_from l prevLogTerm (Suc i) =
     (if Term (l ! i) = prevLogTerm then int i else resolve_from l prevLogTerm i)"

definition resolveIndexConflict :: "'c Raft \<Rightarrow> int \<Rightarrow> int" where
  "resolveIndexConflict rf prevLogTerm = resolve_from (logs rf) prevLogTerm (length (logs rf))"

definition buildAppendLogArgs :: "'c Raft \<Rightarrow> int \<Rightarrow> 'c LogEntry list \<Rightarrow> 'c AppendLogRequest outcome" where
  "buildAppendLogArgs rf pIndex entries =
     (let prevLogIndex = pIndex - 1 in
      if prevLogIndex < 0 \<or> int (length (logs rf)) \<le> prevLogIndex then Inl Panic
      else Ret \<lparr>al_Term = CurrentTerm rf, al_LeaderId = int (me rf), al_PrevLogIndex = prevLogIndex,
                al_PrevLogTerm = Term (logs rf ! nat prevLogIndex), al_Entries = entries,
                al_LeaderCommit = commitIndex rf\<rparr>)"

section \<open>The peer's interface\<close>

text \<open>
  \<open>Make\<close>; \<open>readPersist\<close> does nothing with the data it is given, so a restarted peer
  starts from this state too.
\<close>

definition Make :: "nat \<Rightarrow> nat \<Rightarrow> int \<Rightarrow> 'c Raft" where
  "Make n i et = \<lparr>me = i, peers = n, Mode = Follower, CurrentTerm = 0, VotedFor = -1,
     ElectionTimeout = et, logs = [\<lparr>Term = 0, Command = None\<rparr>], commitIndex = 0,
     appliedIndex = 0, electionInProgress = False, pNextIndex = [], pMatchIndex = []\<rparr>"

definition GetState :: "'c Raft \<Rightarrow> int \<times> bool" where
  "GetState rf = (CurrentTerm rf, Mode rf = Leader)"

text \<open>\<open>Start\<close>: the leader test and the append are two sections.\<close>

definition Start_read :: "'c Raft \<Rightarrow> int \<times> int \<times> bool" where
  "Start_read rf = (fst (getLastLogIndexAndTerm rf), CurrentTerm rf, Mode rf = Leader)"

definition Start_append :: "int \<Rightarrow> 'c \<Rightarrow> 'c Raft \<Rightarrow> 'c Raft" where
  "Start_append currentTerm command rf =
     rf\<lparr>logs := logs rf @ [\<lparr>Term = currentTerm, Command = Some command\<rparr>]\<rparr>"

definition Start :: "'c \<Rightarrow> 'c Raft \<Rightarrow> (int \<times> int \<times> bool) \<times> 'c Raft" where
  "Start command rf =
     (let (lastLogIndex, currentTerm, isLeader) = Start_read rf;
          rf' = (if isLeader then Start_append currentTerm command rf else rf)
      in ((lastLogIndex + 1, currentTerm, isLeader), rf'))"

section \<open>RequestVote\<close>

text \<open>The local variables of the handler after its first section.\<close>

record rv_local =
  rvl_currentTerm :: int
  rvl_votedFor :: int
  rvl_lastLogIndex :: int
  rvl_lastLogTerm :: int

definition RequestVote_read :: "'c Raft \<Rightarrow> rv_local" where
  "RequestVote_read rf = (let (i, t) = getLastLogIndexAndTerm rf in
     \<lparr>rvl_currentTerm = CurrentTerm rf, rvl_votedFor = VotedFor rf, rvl_lastLogIndex = i, rvl_lastLogTerm = t\<rparr>)"

text \<open>Second section, entered when the candidate's term is newer than the one that was read.\<close>

definition RequestVote_newer :: "int \<Rightarrow> RequestVoteArgs \<Rightarrow> rv_local \<Rightarrow> 'c Raft \<Rightarrow> rv_local \<times> 'c Raft" where
  "RequestVote_newer et args loc rf =
     (if rva_Term args > rvl_currentTerm loc
      then let rf' = setToFollower et (rva_Term args) rf
           in (loc\<lparr>rvl_votedFor := VotedFor rf', rvl_currentTerm := CurrentTerm rf'\<rparr>, rf')
      else (loc, rf))"

definition RequestVote_ok :: "RequestVoteArgs \<Rightarrow> rv_local \<Rightarrow> bool" where
  "RequestVote_ok args loc \<longleftrightarrow>
     (rvl_votedFor loc = -1 \<or> rvl_votedFor loc = rva_CandidateId args) \<and>
     (rva_LastLogTerm args > rvl_lastLogTerm loc \<or>
      rva_LastLogTerm args = rvl_lastLogTerm loc \<and> rva_LastLogIndex args \<ge> rvl_lastLogIndex loc)"

text \<open>Third section, and the reply.\<close>

definition RequestVote_grant :: "int \<Rightarrow> RequestVoteArgs \<Rightarrow> rv_local \<Rightarrow> 'c Raft \<Rightarrow> RequestVoteReply \<times> 'c Raft" where
  "RequestVote_grant et args loc rf =
     (if RequestVote_ok args loc
      then (\<lparr>rvr_Term = rvl_currentTerm loc, rvr_VoteGranted = True\<rparr>,
            rf\<lparr>VotedFor := rva_CandidateId args, ElectionTimeout := et\<rparr>)
      else (\<lparr>rvr_Term = rvl_currentTerm loc, rvr_VoteGranted = False\<rparr>, rf))"

definition RequestVote :: "int \<Rightarrow> int \<Rightarrow> RequestVoteArgs \<Rightarrow> 'c Raft \<Rightarrow> RequestVoteReply \<times> 'c Raft" where
  "RequestVote et et' args rf =
     (let loc = RequestVote_read rf in
      if rva_Term args < rvl_currentTerm loc
      then (\<lparr>rvr_Term = rvl_currentTerm loc, rvr_VoteGranted = False\<rparr>, rf)
      else let (loc', rf') = RequestVote_newer et args loc rf
           in RequestVote_grant et' args loc' rf')"

section \<open>AppendLogEntry\<close>

text \<open>
  The handler holds the lock throughout except while it sends on \<open>commitChan\<close>; the last
  component says whether it sends. The reply record starts out zero.
\<close>

definition prev_matches :: "'c AppendLogRequest \<Rightarrow> 'c LogEntry list \<Rightarrow> bool" where
  "prev_matches args l \<longleftrightarrow> -1 < al_PrevLogIndex args \<and> al_PrevLogIndex args \<le> int (length l) - 1 \<and>
     Term (l ! nat (al_PrevLogIndex args)) = al_PrevLogTerm args"

definition AppendLogEntry :: "int \<Rightarrow> 'c AppendLogRequest \<Rightarrow> 'c Raft \<Rightarrow> AppendLogResponse \<times> 'c Raft \<times> bool" where
  "AppendLogEntry et args rf0 =
     (let currentTerm = CurrentTerm rf0;
          reply = \<lparr>ar_Term = currentTerm, ar_Success = False, ar_ConflictIndex = 0\<rparr>
      in if \<not> (al_Term args \<ge> currentTerm) then (reply, rf0, False)
      else let rf = setToFollower et (al_Term args) rf0;
               maxLogIndex = int (length (logs rf)) - 1;
               isMatchingTerms = prev_matches args (logs rf)
      in if length (al_Entries args) > 0 then
           (if al_PrevLogIndex args > maxLogIndex then
              (reply\<lparr>ar_ConflictIndex := resolveIndexConflict rf (al_PrevLogTerm args)\<rparr>, rf, False)
            else if \<not> isMatchingTerms then
              (reply\<lparr>ar_ConflictIndex := resolveIndexConflict rf (al_PrevLogTerm args)\<rparr>, rf, False)
            else (reply\<lparr>ar_Success := True\<rparr>,
                  rf\<lparr>logs := take (nat (al_PrevLogIndex args + 1)) (logs rf) @ al_Entries args\<rparr>, False))
         else if isMatchingTerms \<and> al_LeaderCommit args > commitIndex rf then
           (reply, rf\<lparr>commitIndex := min (al_LeaderCommit args) maxLogIndex\<rparr>, True)
         else (reply, rf, False))"

section \<open>The ticker\<close>

definition isTimedOut :: "int \<Rightarrow> 'c Raft \<Rightarrow> 'c Raft" where
  "isTimedOut now rf =
     (if Mode rf \<noteq> Follower then rf
      else if now > ElectionTimeout rf then rf\<lparr>Mode := Candidate\<rparr> else rf)"

text \<open>\<open>isElected\<close>: the test, the start of the election, and the requests it sends.\<close>

definition isElected_test :: "'c Raft \<Rightarrow> bool" where
  "isElected_test rf \<longleftrightarrow> \<not> (Mode rf \<noteq> Candidate \<or> electionInProgress rf)"

definition isElected_begin :: "'c Raft \<Rightarrow> 'c Raft \<times> RequestVoteArgs" where
  "isElected_begin rf =
     (let (lastLogIndex, lastLogTerm) = getLastLogIndexAndTerm rf;
          rf' = rf\<lparr>electionInProgress := True, CurrentTerm := CurrentTerm rf + 1\<rparr>
      in (rf', \<lparr>rva_Term = CurrentTerm rf', rva_CandidateId = int (me rf'),
                rva_LastLogIndex = lastLogIndex, rva_LastLogTerm = lastLogTerm\<rparr>))"

definition isElected :: "'c Raft \<Rightarrow> 'c Raft \<times> RequestVoteArgs option" where
  "isElected rf = (if isElected_test rf then let (rf', a) = isElected_begin rf in (rf', Some a) else (rf, None))"

definition isElected_timer :: "'c Raft \<Rightarrow> 'c Raft" where
  "isElected_timer rf = rf\<lparr>electionInProgress := False\<rparr>"

text \<open>
  What the goroutine of one peer does with its reply (the zero reply if the call failed);
  \<open>votes\<close> is the counter all goroutines of this election share.
\<close>

definition isElected_reply :: "int \<Rightarrow> int \<Rightarrow> RequestVoteReply \<Rightarrow> int \<Rightarrow> 'c Raft \<Rightarrow> int \<times> 'c Raft" where
  "isElected_reply et currentTerm reply votes rf =
     (if Mode rf \<noteq> Candidate then (votes, rf\<lparr>electionInProgress := False\<rparr>)
      else if rvr_Term reply > currentTerm then (votes, setToFollower et (rvr_Term reply) rf)
      else let votes' = (if rvr_VoteGranted reply then votes + 1 else votes)
           in (votes', if isMajority rf votes' then setToLeader rf else rf))"

text \<open>\<open>isLeading\<close>: what the first section reads, then for each other peer what it sends.\<close>

record il_local =
  il_mode :: Mode
  il_currentTerm :: int
  il_lastLogIndex :: int

definition isLeading_read :: "'c Raft \<Rightarrow> il_local" where
  "isLeading_read rf = \<lparr>il_mode = Mode rf, il_currentTerm = CurrentTerm rf,
     il_lastLogIndex = fst (getLastLogIndexAndTerm rf)\<rparr>"

definition isLeading_next :: "nat \<Rightarrow> 'c Raft \<Rightarrow> int outcome" where
  "isLeading_next i rf = (if length (pNextIndex rf) \<le> i then Inl Panic else Ret (pNextIndex rf ! i))"

definition isLeading_send :: "il_local \<Rightarrow> int \<Rightarrow> 'c Raft \<Rightarrow> (bool \<times> 'c AppendLogRequest) outcome" where
  "isLeading_send loc next rf =
     (let isEntriesIncluded = (il_lastLogIndex loc \<ge> next) in
      if isEntriesIncluded \<and> (next < 0 \<or> int (length (logs rf)) < next) then Inl Panic
      else case buildAppendLogArgs rf next (if isEntriesIncluded then drop (nat next) (logs rf) else []) of
        Inl e \<Rightarrow> Inl e
      | Inr args \<Rightarrow> Ret (isEntriesIncluded, args))"

text \<open>The reply; the last component says whether the goroutine sends on \<open>commitChan\<close>.\<close>

definition isLeading_reply :: "int \<Rightarrow> il_local \<Rightarrow> nat \<Rightarrow> int \<Rightarrow> bool \<Rightarrow> 'c AppendLogRequest \<Rightarrow> bool \<Rightarrow>
    AppendLogResponse \<Rightarrow> 'c Raft \<Rightarrow> ('c Raft \<times> bool) outcome" where
  "isLeading_reply et loc i next isEntriesIncluded args ok reply rf =
     (if ar_Term reply > il_currentTerm loc then Ret (setToFollower et (ar_Term reply) rf, False)
      else if ok \<and> isEntriesIncluded \<and> il_currentTerm loc = ar_Term reply \<and> Mode rf = Leader then
        (if length (pNextIndex rf) \<le> i then Inl Panic
         else if ar_Success reply then
           if length (pMatchIndex rf) \<le> i then Inl Panic
           else let rf' = rf\<lparr>pNextIndex := (pNextIndex rf)[i := next + int (length (al_Entries args))],
                        pMatchIndex := (pMatchIndex rf)[i := int (length (logs rf)) - 1]\<rparr>
           in case isQuorumReached rf' of
                Inl e \<Rightarrow> Inl e
              | Inr q \<Rightarrow> if q then Ret (rf'\<lparr>commitIndex := int (length (logs rf')) - 1\<rparr>, True)
                         else Ret (rf', False)
         else Ret (rf\<lparr>pNextIndex := (pNextIndex rf)[i := ar_ConflictIndex reply + 1]\<rparr>, False))
      else Ret (rf, False))"

section \<open>The apply loop\<close>

text \<open>
  One round of \<open>handleCommits\<close>: the new state and the messages it sends on
  \<open>applyChan\<close>. Slicing past the length of a Go slice, within its capacity, reads what the
  backing array holds there: \<open>spare\<close> is that part of the array.
\<close>

definition handleCommits :: "'c LogEntry list \<Rightarrow> 'c Raft \<Rightarrow> ('c Raft \<times> 'c ApplyMsg list) outcome" where
  "handleCommits spare rf =
     (let lo = appliedIndex rf + 1; hi = commitIndex rf + 1; backing = logs rf @ spare in
      if commitIndex rf > appliedIndex rf then
        (if lo < 0 \<or> int (length backing) < hi then Inl Panic
         else let entries = drop (nat lo) (take (nat hi) backing) in
           Ret (rf\<lparr>appliedIndex := appliedIndex rf + int (length entries)\<rparr>,
                map (\<lambda>(i, entry). \<lparr>am_CommandValid = True, am_Command = Command entry,
                                   am_CommandIndex = appliedIndex rf + int i + 1\<rparr>)
                    (List.enumerate 0 entries)))
      else Ret (rf, []))"

end
