(* ===== verification/RaftProps.thy ===== *)
theory RaftProps
  imports Raft
begin

text \<open>
  What holds of the Raft peer of \<^theory_text>\<open>Raft\<close>, and what does not: log replication
  between a leader and a follower, the voting rule, the order in which commands are applied, the
  invariant of a peer under every section of its code; and concrete runs that lose the guarantees
  Raft is meant to give.
\<close>

section \<open>The conflict index\<close>

lemma resolve_from_nonneg [simp]: "0 \<le> resolve_from l t n"
  by (induction n) auto

lemma resolve_from_less: "0 < n \<Longrightarrow> resolve_from l t n < int n"
proof (induction n)
  case (Suc n)
  then show ?case by (cases "n = 0") auto
qed simp

lemma resolve_from_max:
  "resolve_from l t n = int j \<Longrightarrow> i < n \<Longrightarrow> Term (l ! i) = t \<Longrightarrow> i \<le> j \<and> Term (l ! j) = t"
  by (induction n) (auto simp: less_Suc_eq split: if_splits)

lemma resolve_from_zero: "\<forall>i<n. Term (l ! i) \<noteq> t \<Longrightarrow> resolve_from l t n = 0"
  by (induction n) auto

text \<open>The last index with a given term, or 0.\<close>

definition last_with_term :: "'c LogEntry list \<Rightarrow> int \<Rightarrow> nat \<Rightarrow> bool" where
  "last_with_term l t j \<longleftrightarrow> j < length l \<and>
     (if \<exists>i<length l. Term (l ! i) = t
      then Term (l ! j) = t \<and> (\<forall>i<length l. Term (l ! i) = t \<longrightarrow> i \<le> j) else j = 0)"

lemma resolve_last:
  assumes "l \<noteq> []"
  shows "last_with_term l t (nat (resolve_from l t (length l)))"
proof -
  obtain j where j: "resolve_from l t (length l) = int j"
    using nonneg_eq_int [OF resolve_from_nonneg] by blast
  have "j < length l" using resolve_from_less [of "length l" l t] assms j by simp
  then show ?thesis
    using resolve_from_max [OF j] resolve_from_zero [of "length l" l t] j
    by (auto simp: last_with_term_def)
qed

section \<open>Appending entries\<close>

lemma AppendLogEntry_success:
  assumes "AppendLogEntry et args rf = (reply, rf', sig)"
  shows "ar_Success reply \<longleftrightarrow>
      al_Term args \<ge> CurrentTerm rf \<and> al_Entries args \<noteq> [] \<and> prev_matches args (logs rf)"
    and "logs rf' = (if ar_Success reply
      then take (nat (al_PrevLogIndex args + 1)) (logs rf) @ al_Entries args else logs rf)"
  using assms by (auto simp: AppendLogEntry_def Let_def setToFollower_def prev_matches_def split: if_splits)

lemma AppendLogEntry_term:
  assumes "AppendLogEntry et args rf = (reply, rf', sig)"
  shows "ar_Term reply = CurrentTerm rf" "CurrentTerm rf' = max (CurrentTerm rf) (al_Term args)"
  using assms by (auto simp: AppendLogEntry_def Let_def setToFollower_def split: if_splits)

lemma AppendLogEntry_conflict:
  assumes "AppendLogEntry et args rf = (reply, rf', sig)"
    "al_Term args \<ge> CurrentTerm rf" "al_Entries args \<noteq> []" "\<not> ar_Success reply"
  shows "ar_ConflictIndex reply = resolve_from (logs rf) (al_PrevLogTerm args) (length (logs rf))"
  using assms by (auto simp: AppendLogEntry_def Let_def setToFollower_def resolveIndexConflict_def split: if_splits)

text \<open>
  C7. A follower's log changes only when the request is accepted: then it is its own log up to
  and including the previous index followed by the entries sent, and the accepting conditions are
  exactly a term that is not older, a non-empty request and an equal term at the previous index. A
  refused request names an index inside the follower's log: the last one with the leader's previous
  term, or 0 if there is none. The follower's term never goes back.
\<close>

theorem AppendLogEntry_correct:
  assumes "AppendLogEntry et args rf = (reply, rf', sig)" "logs rf \<noteq> []"
  shows "CurrentTerm rf' = max (CurrentTerm rf) (al_Term args) \<and>
    (ar_Success reply \<longleftrightarrow>
      al_Term args \<ge> CurrentTerm rf \<and> al_Entries args \<noteq> [] \<and> prev_matches args (logs rf)) \<and>
    logs rf' = (if ar_Success reply
      then take (nat (al_PrevLogIndex args + 1)) (logs rf) @ al_Entries args else logs rf) \<and>
    (\<not> ar_Success reply \<and> al_Term args \<ge> CurrentTerm rf \<and> al_Entries args \<noteq> [] \<longrightarrow>
      0 \<le> ar_ConflictIndex reply \<and>
      last_with_term (logs rf) (al_PrevLogTerm args) (nat (ar_ConflictIndex reply)))"
proof (intro conjI)
  show "CurrentTerm rf' = max (CurrentTerm rf) (al_Term args)" by (rule AppendLogEntry_term [OF assms(1)])
  show "\<not> ar_Success reply \<and> al_Term args \<ge> CurrentTerm rf \<and> al_Entries args \<noteq> [] \<longrightarrow>
      0 \<le> ar_ConflictIndex reply \<and>
      last_with_term (logs rf) (al_PrevLogTerm args) (nat (ar_ConflictIndex reply))"
    using AppendLogEntry_conflict [OF assms(1)] resolve_last [OF assms(2)] by simp
qed (rule AppendLogEntry_success [OF assms(1)])+

text \<open>A log, an acceptance and a refusal, as concrete runs.\<close>

definition entry :: "int \<Rightarrow> nat \<Rightarrow> nat LogEntry" where
  "entry t c = \<lparr>Term = t, Command = Some c\<rparr>"

definition sentinel :: "nat LogEntry" where
  "sentinel = \<lparr>Term = 0, Command = None\<rparr>"

definition peer :: "nat \<Rightarrow> int \<Rightarrow> nat LogEntry list \<Rightarrow> nat Raft" where
  "peer i t l = (Make 3 i 0)\<lparr>CurrentTerm := t, logs := l\<rparr>"

definition request :: "int \<Rightarrow> int \<Rightarrow> int \<Rightarrow> nat LogEntry list \<Rightarrow> nat AppendLogRequest" where
  "request t i pt es = \<lparr>al_Term = t, al_LeaderId = 0, al_PrevLogIndex = i, al_PrevLogTerm = pt,
     al_Entries = es, al_LeaderCommit = 0\<rparr>"

lemmas run_defs = AppendLogEntry_def setToFollower_def prev_matches_def resolveIndexConflict_def
  peer_def request_def Make_def entry_def sentinel_def Let_def

theorem AppendLogEntry_correct_witness:
  "logs (fst (snd (AppendLogEntry 9 (request 2 1 1 [entry 2 8]) (peer 1 1 [sentinel, entry 1 7, entry 1 6]))))
    = [sentinel, entry 1 7, entry 2 8]"
proof -
  obtain reply rf' sig where e: "AppendLogEntry 9 (request 2 1 1 [entry 2 8]) (peer 1 1 [sentinel, entry 1 7, entry 1 6])
      = (reply, rf', sig)" by (cases rule: prod_cases3)
  have "logs (peer 1 1 [sentinel, entry 1 7, entry 1 6]) \<noteq> []" by (simp add: peer_def)
  from AppendLogEntry_correct [OF e this] show ?thesis
    by (simp add: e run_defs eval_nat_numeral)
qed

section \<open>Replication from a leader to a follower\<close>

text \<open>
  The log matching property, in the form replication needs: if the follower has, at or after index
  \<open>p\<close>, an entry of the term of the leader's entry at \<open>p\<close>, then both logs agree up to
  \<open>p\<close>.
\<close>

definition log_matching :: "'c LogEntry list \<Rightarrow> 'c LogEntry list \<Rightarrow> bool" where
  "log_matching f l \<longleftrightarrow> (\<forall>p<length l. \<forall>i<length f. p \<le> i \<and> Term (f ! i) = Term (l ! p) \<longrightarrow>
     take (Suc p) f = take (Suc p) l)"

text \<open>One round for peer \<open>i\<close> that is not disturbed: the leader's request, the follower's handler, the leader's handling of the reply.\<close>

definition replicate_round :: "int \<Rightarrow> nat \<Rightarrow> 'c Raft \<times> 'c Raft \<Rightarrow> ('c Raft \<times> 'c Raft) outcome" where
  "replicate_round et i = (\<lambda>(ldr, fol).
     let loc = isLeading_read ldr in
     case isLeading_next i ldr of Inl e \<Rightarrow> Inl e | Inr next \<Rightarrow>
     case isLeading_send loc next ldr of Inl e \<Rightarrow> Inl e | Inr (included, args) \<Rightarrow>
     case AppendLogEntry et args fol of (reply, fol', _) \<Rightarrow>
     case isLeading_reply et loc i next included args True reply ldr of Inl e \<Rightarrow> Inl e
     | Inr (ldr', _) \<Rightarrow> Ret (ldr', fol'))"

fun replicate_rounds :: "nat \<Rightarrow> int \<Rightarrow> nat \<Rightarrow> 'c Raft \<times> 'c Raft \<Rightarrow> ('c Raft \<times> 'c Raft) outcome" where
  "replicate_rounds 0 et i s = Ret s"
| "replicate_rounds (Suc n) et i s = (case replicate_round et i s of Inl e \<Rightarrow> Inl e | Inr s' \<Rightarrow> replicate_rounds n et i s')"

definition leads :: "nat \<Rightarrow> 'c Raft \<Rightarrow> bool" where
  "leads i ldr \<longleftrightarrow> Mode ldr = Leader \<and> i < peers ldr \<and> length (pNextIndex ldr) = peers ldr \<and>
     length (pMatchIndex ldr) = peers ldr \<and> logs ldr \<noteq> []"

text \<open>The request a leader sends for \<open>next\<close> when it has entries from there on.\<close>

definition leader_request :: "'c Raft \<Rightarrow> nat \<Rightarrow> 'c AppendLogRequest" where
  "leader_request ldr p = \<lparr>al_Term = CurrentTerm ldr, al_LeaderId = int (me ldr), al_PrevLogIndex = int p,
     al_PrevLogTerm = Term (logs ldr ! p), al_Entries = drop (Suc p) (logs ldr), al_LeaderCommit = commitIndex ldr\<rparr>"

lemma isLeading_send_entries:
  assumes "Suc p < length (logs ldr)"
  shows "isLeading_send (isLeading_read ldr) (int p + 1) ldr = Ret (True, leader_request ldr p)"
  using assms
  by (auto simp: isLeading_send_def isLeading_read_def getLastLogIndexAndTerm_def buildAppendLogArgs_def
      leader_request_def Let_def nat_add_distrib)

lemma leader_request_prev:
  "p < length (logs ldr) \<Longrightarrow> prev_matches (leader_request ldr p) f \<longleftrightarrow>
     p < length f \<and> Term (f ! p) = Term (logs ldr ! p)"
  by (auto simp: prev_matches_def leader_request_def)

text \<open>An accepted request leaves the follower with the leader's log.\<close>

lemma accepted_request:
  assumes "AppendLogEntry et (leader_request ldr p) fol = (reply, fol', sig)" "ar_Success reply"
    "Suc p < length (logs ldr)" "log_matching (logs fol) (logs ldr)"
  shows "logs fol' = logs ldr"
proof -
  have m: "p < length (logs fol)" "Term (logs fol ! p) = Term (logs ldr ! p)"
    using AppendLogEntry_success(1) [OF assms(1)] assms(2,3) by (auto simp: leader_request_prev)
  have pl: "p < length (logs ldr)" using assms(3) by simp
  have "take (Suc p) (logs fol) = take (Suc p) (logs ldr)"
    using assms(4) m pl unfolding log_matching_def by blast
  then show ?thesis using AppendLogEntry_success(2) [OF assms(1)] assms(2)
    by (simp add: leader_request_def nat_add_distrib)
qed

text \<open>A refused request makes the leader step back.\<close>

lemma refused_request:
  assumes "AppendLogEntry et (leader_request ldr p) fol = (reply, fol', sig)" "\<not> ar_Success reply"
    "Suc p < length (logs ldr)" "log_matching (logs fol) (logs ldr)" "CurrentTerm fol \<le> CurrentTerm ldr"
    "logs fol \<noteq> []" "Term (logs fol ! 0) = Term (logs ldr ! 0)"
  obtains c where "ar_ConflictIndex reply = int c" "c < p" "logs fol' = logs fol"
proof -
  let ?c = "nat (ar_ConflictIndex reply)"
  have pre: "al_Term (leader_request ldr p) \<ge> CurrentTerm fol" "al_Entries (leader_request ldr p) \<noteq> []"
    using assms(3,5) by (auto simp: leader_request_def)
  have conf: "ar_ConflictIndex reply = int ?c" "last_with_term (logs fol) (Term (logs ldr ! p)) ?c"
    using AppendLogEntry_conflict [OF assms(1) pre assms(2)] resolve_last [OF assms(6)]
    by (auto simp: leader_request_def)
  have mis: "\<not> (p < length (logs fol) \<and> Term (logs fol ! p) = Term (logs ldr ! p))"
    using AppendLogEntry_success(1) [OF assms(1)] assms(2,3) pre by (simp add: leader_request_prev)
  have p0: "p \<noteq> 0" using mis assms(6,7) by (intro notI) auto
  have "?c < p"
  proof (rule ccontr)
    assume "\<not> ?c < p"
    then have c: "p \<le> ?c" "?c \<noteq> 0" using p0 by auto
    then have t: "?c < length (logs fol)" "Term (logs fol ! ?c) = Term (logs ldr ! p)"
      using conf(2) by (auto simp: last_with_term_def split: if_splits)
    then have "take (Suc p) (logs fol) = take (Suc p) (logs ldr)"
      using assms(3,4) c(1) by (auto simp: log_matching_def)
    then have "take (Suc p) (logs fol) ! p = take (Suc p) (logs ldr) ! p" by simp
    then show False using mis c(1) t(1) by auto
  qed
  moreover have "logs fol' = logs fol" using AppendLogEntry_success(2) [OF assms(1)] assms(2) by simp
  ultimately show ?thesis using that conf(1) by blast
qed

lemma isQuorumReached_total: "length (pMatchIndex rf) = peers rf \<Longrightarrow> \<exists>q. isQuorumReached rf = Ret q"
  by (auto simp: isQuorumReached_def Let_def list_ex_iff)

text \<open>What the leader does with the answer to its request.\<close>

definition keeps_leading :: "nat \<Rightarrow> 'c Raft \<Rightarrow> 'c Raft \<Rightarrow> bool" where
  "keeps_leading i ldr ldr' \<longleftrightarrow> leads i ldr' \<and> logs ldr' = logs ldr \<and> CurrentTerm ldr' = CurrentTerm ldr"

lemma reply_ignored:
  assumes "leads i ldr" "ar_Term reply < CurrentTerm ldr"
  shows "isLeading_reply et (isLeading_read ldr) i next True args True reply ldr = Ret (ldr, False)"
  using assms by (simp add: isLeading_reply_def isLeading_read_def)

lemma reply_success:
  assumes "leads i ldr" "ar_Term reply = CurrentTerm ldr" "ar_Success reply"
  shows "\<exists>ldr' sig. isLeading_reply et (isLeading_read ldr) i next True args True reply ldr = Ret (ldr', sig) \<and>
    keeps_leading i ldr ldr'"
proof -
  let ?l = "ldr\<lparr>pNextIndex := (pNextIndex ldr)[i := next + int (length (al_Entries args))],
                pMatchIndex := (pMatchIndex ldr)[i := int (length (logs ldr)) - 1]\<rparr>"
  have "length (pMatchIndex ?l) = peers ?l" using assms(1) by (simp add: leads_def)
  then obtain q where "isQuorumReached ?l = Ret q" using isQuorumReached_total by blast
  then show ?thesis using assms
    by (cases q) (auto simp: isLeading_reply_def isLeading_read_def leads_def keeps_leading_def Let_def)
qed

lemma reply_refused:
  assumes "leads i ldr" "ar_Term reply = CurrentTerm ldr" "\<not> ar_Success reply"
  shows "isLeading_reply et (isLeading_read ldr) i next True args True reply ldr
    = Ret (ldr\<lparr>pNextIndex := (pNextIndex ldr)[i := ar_ConflictIndex reply + 1]\<rparr>, False)"
  using assms by (simp add: isLeading_reply_def isLeading_read_def leads_def)

text \<open>
  One round: the follower has the leader's log, or it is as before and the leader's next index has
  moved back, except perhaps in the first round, whose reply carries the follower's old term.
\<close>

lemma replicate_round_step:
  assumes "leads i ldr" "pNextIndex ldr ! i = int p + 1" "Suc p < length (logs ldr)"
    "log_matching (logs fol) (logs ldr)" "CurrentTerm fol \<le> CurrentTerm ldr"
    "logs fol \<noteq> []" "Term (logs fol ! 0) = Term (logs ldr ! 0)"
  shows "\<exists>ldr' fol'. replicate_round et i (ldr, fol) = Ret (ldr', fol') \<and>
    keeps_leading i ldr ldr' \<and> CurrentTerm fol' = CurrentTerm ldr \<and>
    (logs fol' = logs ldr \<or> logs fol' = logs fol \<and>
      (\<exists>q. pNextIndex ldr' ! i = int q + 1 \<and> q \<le> p \<and> (CurrentTerm fol = CurrentTerm ldr \<longrightarrow> q < p)))"
proof -
  obtain reply fol' sig where a: "AppendLogEntry et (leader_request ldr p) fol = (reply, fol', sig)"
    by (cases rule: prod_cases3)
  have nx: "isLeading_next i ldr = Ret (int p + 1)" using assms(1,2) by (simp add: isLeading_next_def leads_def)
  have tm: "ar_Term reply = CurrentTerm fol" "CurrentTerm fol' = CurrentTerm ldr"
    using AppendLogEntry_term [OF a] assms(5) by (auto simp: leader_request_def)
  have rr: "replicate_round et i (ldr, fol) =
      (case isLeading_reply et (isLeading_read ldr) i (int p + 1) True (leader_request ldr p) True reply ldr of
        Inl e \<Rightarrow> Inl e | Inr (ldr', _) \<Rightarrow> Ret (ldr', fol'))"
    by (simp add: replicate_round_def nx isLeading_send_entries [OF assms(3)] a Let_def)
  have self: "keeps_leading i ldr ldr" using assms(1) by (simp add: keeps_leading_def)
  have acc: "ar_Success reply \<Longrightarrow> logs fol' = logs ldr" by (rule accepted_request [OF a _ assms(3,4)])
  have ref: "\<not> ar_Success reply \<Longrightarrow> logs fol' = logs fol" using AppendLogEntry_success(2) [OF a] by simp
  consider "CurrentTerm fol < CurrentTerm ldr" | "CurrentTerm fol = CurrentTerm ldr" "ar_Success reply"
    | "CurrentTerm fol = CurrentTerm ldr" "\<not> ar_Success reply" using assms(5) by linarith
  then show ?thesis
  proof cases
    case 1
    then show ?thesis using reply_ignored [OF assms(1)] tm self acc ref assms(2) rr by auto
  next
    case 2
    then obtain ldr' s' where "isLeading_reply et (isLeading_read ldr) i (int p + 1) True (leader_request ldr p) True reply ldr
        = Ret (ldr', s')" "keeps_leading i ldr ldr'"
      using reply_success [OF assms(1), of reply] tm by metis
    then show ?thesis using acc 2 tm rr by auto
  next
    case 3
    obtain c where c: "ar_ConflictIndex reply = int c" "c < p"
      using refused_request [OF a 3(2) assms(3-7)] by blast
    have "i < length (pNextIndex ldr)" using assms(1) by (simp add: leads_def)
    moreover have "keeps_leading i ldr (ldr\<lparr>pNextIndex := (pNextIndex ldr)[i := int c + 1]\<rparr>)"
      using assms(1) by (simp add: keeps_leading_def leads_def)
    ultimately show ?thesis using reply_refused [OF assms(1), of reply] 3 tm c ref rr
      by (auto intro!: exI [of _ c])
  qed
qed

lemma replicate_rounds_same_term:
  assumes "leads i ldr" "pNextIndex ldr ! i = int p + 1" "Suc p < length (logs ldr)"
    "log_matching (logs fol) (logs ldr)" "CurrentTerm fol = CurrentTerm ldr"
    "logs fol \<noteq> []" "Term (logs fol ! 0) = Term (logs ldr ! 0)"
  shows "\<exists>n\<le>Suc p. \<exists>ldr' fol'. replicate_rounds n et i (ldr, fol) = Ret (ldr', fol') \<and>
    logs ldr' = logs ldr \<and> logs fol' = logs ldr"
  using assms
proof (induction p arbitrary: ldr fol rule: less_induct)
  case (less p)
  from replicate_round_step [OF less.prems(1-4) _ less.prems(6,7), of et] less.prems(5)
  obtain ldr' fol' where s: "replicate_round et i (ldr, fol) = Ret (ldr', fol')"
    "keeps_leading i ldr ldr'" "CurrentTerm fol' = CurrentTerm ldr"
    "logs fol' = logs ldr \<or> logs fol' = logs fol \<and> (\<exists>q. pNextIndex ldr' ! i = int q + 1 \<and> q < p)"
    by auto
  from s(4) show ?case
  proof
    assume "logs fol' = logs ldr"
    then show ?thesis using s(1,2) by (intro exI [of _ 1]) (auto simp: keeps_leading_def)
  next
    assume "logs fol' = logs fol \<and> (\<exists>q. pNextIndex ldr' ! i = int q + 1 \<and> q < p)"
    then obtain q where q: "logs fol' = logs fol" "pNextIndex ldr' ! i = int q + 1" "q < p" by auto
    then have "\<exists>n\<le>Suc q. \<exists>l f. replicate_rounds n et i (ldr', fol') = Ret (l, f) \<and> logs l = logs ldr' \<and> logs f = logs ldr'"
      using less.IH [OF q(3), of ldr' fol'] less.prems s by (auto simp: keeps_leading_def)
    then obtain n l f where "n \<le> Suc q" "replicate_rounds n et i (ldr', fol') = Ret (l, f)"
      "logs l = logs ldr'" "logs f = logs ldr'" by blast
    then show ?thesis using s(1,2) q(3) by (intro exI [of _ "Suc n"]) (auto simp: keeps_leading_def)
  qed
qed

text \<open>
  C15. Replication catches up: a leader with entries to send and a follower that is not in a newer
  term end with equal logs after at most as many undisturbed rounds as the follower's next index
  plus one, without any panic, if their logs satisfy the log matching property and share their
  first entry's term. The leader's own log does not change.
\<close>

theorem replication_catches_up:
  assumes "leads i ldr" "pNextIndex ldr ! i = int p + 1" "Suc p < length (logs ldr)"
    "log_matching (logs fol) (logs ldr)" "CurrentTerm fol \<le> CurrentTerm ldr"
    "logs fol \<noteq> []" "Term (logs fol ! 0) = Term (logs ldr ! 0)"
  shows "\<exists>n\<le>p + 2. \<exists>ldr' fol'. replicate_rounds n et i (ldr, fol) = Ret (ldr', fol') \<and>
    logs ldr' = logs ldr \<and> logs fol' = logs ldr"
proof -
  from replicate_round_step [OF assms, of et]
  obtain ldr' fol' where s: "replicate_round et i (ldr, fol) = Ret (ldr', fol')"
    "keeps_leading i ldr ldr'" "CurrentTerm fol' = CurrentTerm ldr"
    "logs fol' = logs ldr \<or> logs fol' = logs fol \<and> (\<exists>q. pNextIndex ldr' ! i = int q + 1 \<and> q \<le> p)"
    by auto
  from s(4) show ?thesis
  proof
    assume "logs fol' = logs ldr"
    then show ?thesis using s(1,2) by (intro exI [of _ 1]) (auto simp: keeps_leading_def)
  next
    assume "logs fol' = logs fol \<and> (\<exists>q. pNextIndex ldr' ! i = int q + 1 \<and> q \<le> p)"
    then obtain q where q: "logs fol' = logs fol" "pNextIndex ldr' ! i = int q + 1" "q \<le> p" by auto
    then have "\<exists>n\<le>Suc q. \<exists>l f. replicate_rounds n et i (ldr', fol') = Ret (l, f) \<and> logs l = logs ldr' \<and> logs f = logs ldr'"
      using replicate_rounds_same_term [of i ldr' q fol' et] assms s by (auto simp: keeps_leading_def)
    then obtain n l f where "n \<le> Suc q" "replicate_rounds n et i (ldr', fol') = Ret (l, f)"
      "logs l = logs ldr'" "logs f = logs ldr'" by blast
    then show ?thesis using s(1,2) q(3) by (intro exI [of _ "Suc n"]) (auto simp: keeps_leading_def)
  qed
qed

definition lagging_leader :: "nat Raft" where
  "lagging_leader = (peer 0 3 [sentinel, entry 1 1, entry 3 2, entry 3 3])\<lparr>Mode := Leader,
     pNextIndex := [3, 3, 3], pMatchIndex := [0, 0, 0]\<rparr>"

theorem replication_catches_up_witness:
  "\<exists>n\<le>2 + 2. \<exists>ldr' fol'. replicate_rounds n 9 1 (lagging_leader, peer 1 2 [sentinel, entry 1 1, entry 2 5]) = Ret (ldr', fol') \<and>
    logs ldr' = logs lagging_leader \<and> logs fol' = logs lagging_leader"
  using replication_catches_up [of 1 lagging_leader 2 "peer 1 2 [sentinel, entry 1 1, entry 2 5]" 9]
  by (simp add: leads_def lagging_leader_def log_matching_def run_defs numeral_3_eq_3 numeral_2_eq_2 less_Suc_eq)

section \<open>Voting\<close>

lemma RequestVote_granted:
  assumes "RequestVote et et' args rf = (reply, rf')" "rvr_VoteGranted reply"
  shows "CurrentTerm rf \<le> rva_Term args" "CurrentTerm rf' = rva_Term args" "VotedFor rf' = rva_CandidateId args"
    "rva_Term args = CurrentTerm rf \<Longrightarrow> VotedFor rf \<in> {-1, rva_CandidateId args}"
    "rva_LastLogTerm args > snd (getLastLogIndexAndTerm rf) \<or>
     rva_LastLogTerm args = snd (getLastLogIndexAndTerm rf) \<and> rva_LastLogIndex args \<ge> fst (getLastLogIndexAndTerm rf)"
  using assms
  by (auto simp: RequestVote_def RequestVote_read_def RequestVote_newer_def RequestVote_grant_def
      RequestVote_ok_def setToFollower_def Let_def split: if_splits prod.splits)

lemma RequestVote_term_mono:
  "RequestVote et et' args rf = (reply, rf') \<Longrightarrow> CurrentTerm rf \<le> CurrentTerm rf'"
  by (auto simp: RequestVote_def RequestVote_read_def RequestVote_newer_def RequestVote_grant_def
      setToFollower_def Let_def split: if_splits prod.splits)

lemma RequestVote_denied:
  "RequestVote et et' args rf = (reply, rf') \<Longrightarrow> \<not> rvr_VoteGranted reply \<Longrightarrow>
    CurrentTerm rf' = CurrentTerm rf \<Longrightarrow> VotedFor rf' = VotedFor rf"
  by (auto simp: RequestVote_def RequestVote_read_def RequestVote_newer_def RequestVote_grant_def
      setToFollower_def Let_def split: if_splits prod.splits)

text \<open>Requests handled one after another; the votes given, with their terms.\<close>

fun serve_votes :: "int \<Rightarrow> RequestVoteArgs list \<Rightarrow> 'c Raft \<Rightarrow> (int \<times> int) list \<times> 'c Raft" where
  "serve_votes et [] rf = ([], rf)"
| "serve_votes et (a # as) rf =
     (case RequestVote et et a rf of (reply, rf') \<Rightarrow>
      case serve_votes et as rf' of (vs, rf'') \<Rightarrow>
        ((if rvr_VoteGranted reply then [(rva_Term a, rva_CandidateId a)] else []) @ vs, rf''))"

lemma serve_votes_later:
  assumes "serve_votes et as rf = (vs, rf')" "(t, c) \<in> set vs" "\<forall>a\<in>set as. rva_CandidateId a \<noteq> -1"
  shows "CurrentTerm rf \<le> t \<and> (t = CurrentTerm rf \<and> VotedFor rf \<noteq> -1 \<longrightarrow> c = VotedFor rf)"
  using assms
proof (induction as arbitrary: rf vs)
  case (Cons a as)
  obtain reply rf1 where r: "RequestVote et et a rf = (reply, rf1)" by fastforce
  obtain vs1 where v: "serve_votes et as rf1 = (vs1, rf')" "vs = (if rvr_VoteGranted reply then [(rva_Term a, rva_CandidateId a)] else []) @ vs1"
    using Cons.prems(1) r by (auto split: prod.splits)
  note mono = RequestVote_term_mono [OF r]
  show ?case
  proof (cases "(t, c) \<in> set vs1")
    case True
    then have ih: "CurrentTerm rf1 \<le> t \<and> (t = CurrentTerm rf1 \<and> VotedFor rf1 \<noteq> -1 \<longrightarrow> c = VotedFor rf1)"
      using Cons.IH [OF v(1)] Cons.prems(3) by simp
    show ?thesis
    proof (cases "CurrentTerm rf1 = CurrentTerm rf \<and> VotedFor rf \<noteq> -1")
      case True
      then have "VotedFor rf1 = VotedFor rf"
        using RequestVote_denied [OF r] RequestVote_granted [OF r] by (cases "rvr_VoteGranted reply") auto
      then show ?thesis using ih True mono by auto
    next
      case False
      then show ?thesis using ih mono by auto
    qed
  next
    case False
    then have g: "rvr_VoteGranted reply" "t = rva_Term a" "c = rva_CandidateId a"
      using Cons.prems(2) v(2) by (auto split: if_splits)
    then show ?thesis using RequestVote_granted(1,4) [OF r] by auto
  qed
qed simp

lemma serve_votes_unique:
  assumes "serve_votes et as rf = (vs, rf')" "(t, c) \<in> set vs" "(t, d) \<in> set vs"
    "\<forall>a\<in>set as. rva_CandidateId a \<noteq> -1"
  shows "c = d"
  using assms
proof (induction as arbitrary: rf vs)
  case (Cons a as)
  obtain reply rf1 where r: "RequestVote et et a rf = (reply, rf1)" by fastforce
  obtain vs1 where v: "serve_votes et as rf1 = (vs1, rf')" "vs = (if rvr_VoteGranted reply then [(rva_Term a, rva_CandidateId a)] else []) @ vs1"
    using Cons.prems(1) r by (auto split: prod.splits)
  have cand: "\<forall>a\<in>set as. rva_CandidateId a \<noteq> -1" "rva_CandidateId a \<noteq> -1" using Cons.prems(4) by auto
  have later: "x = rva_CandidateId a" if "rvr_VoteGranted reply" "(rva_Term a, x) \<in> set vs1" for x
    using serve_votes_later [OF v(1) that(2) cand(1)] RequestVote_granted(2,3) [OF r that(1)] cand(2) by simp
  show ?case using Cons.IH [OF v(1)] cand(1) Cons.prems(2,3) v(2) later by (auto split: if_splits)
qed simp


definition ask :: "int \<Rightarrow> int \<Rightarrow> RequestVoteArgs" where
  "ask t c = \<lparr>rva_Term = t, rva_CandidateId = c, rva_LastLogIndex = 0, rva_LastLogTerm = 0\<rparr>"

lemmas vote_defs = RequestVote_def RequestVote_read_def RequestVote_newer_def RequestVote_grant_def
  RequestVote_ok_def getLastLogIndexAndTerm_def ask_def


section \<open>Quorums\<close>

text \<open>
  What an election relies on: a predicate on the number of votes such that two sets of voters that
  both reach it have a voter in common.
\<close>

locale voting =
  fixes voters :: "nat set" and enough :: "int \<Rightarrow> bool"
  assumes finite_voters: "finite voters"
    and quorums_meet: "A \<subseteq> voters \<Longrightarrow> B \<subseteq> voters \<Longrightarrow> enough (int (card A)) \<Longrightarrow> enough (int (card B)) \<Longrightarrow> A \<inter> B \<noteq> {}"
begin

text \<open>If every voter has one vote, two candidates cannot both have enough.\<close>

lemma one_winner:
  assumes "enough (int (card {v \<in> voters. vote v = Some c}))" "enough (int (card {v \<in> voters. vote v = Some d}))"
  shows "c = d"
  using quorums_meet [of "{v \<in> voters. vote v = Some c}" "{v \<in> voters. vote v = Some d}"] assms by auto

end

lemma majorities_meet:
  assumes "A \<subseteq> {0..<peers rf}" "B \<subseteq> {0..<peers rf}"
    "isMajority rf (int (card A))" "isMajority rf (int (card B))"
  shows "A \<inter> B \<noteq> {}"
proof
  assume "A \<inter> B = {}"
  have fin: "finite A" "finite B" using assms(1,2) finite_subset by blast+
  then have "card A + card B = card (A \<union> B)" using \<open>A \<inter> B = {}\<close> by (simp add: card_Un_disjoint)
  also have "\<dots> \<le> card {0..<peers rf}" using assms(1,2) by (intro card_mono) auto
  finally show False using assms(3,4) by (simp add: isMajority_def)
qed

interpretation peers_vote: voting "{0..<peers rf}" "isMajority rf" for rf :: "'c Raft"
  by unfold_locales (auto dest: majorities_meet)

text \<open>
  \<open>isMajority\<close> is a quorum test: whatever single vote each peer gives, at most one
  candidate has as many votes as the test asks for.
\<close>

lemma isMajority_one_winner:
  fixes rf :: "'c Raft"
  assumes "isMajority rf (int (card {v \<in> {0..<peers rf}. vote v = Some c}))"
    "isMajority rf (int (card {v \<in> {0..<peers rf}. vote v = Some d}))"
  shows "c = d"
  using assms by (rule peers_vote.one_winner)

definition split_vote :: "nat \<Rightarrow> nat option" where
  "split_vote v = (if v < 2 then Some 0 else Some 1)"

lemma isMajority_one_winner_witness:
  "isMajority (peer 0 0 []) (int (card {v \<in> {0..<3}. split_vote v = Some 0})) \<and>
   \<not> isMajority (peer 0 0 []) (int (card {v \<in> {0..<3}. split_vote v = Some 1}))"
proof -
  have e: "{v \<in> {0..<3}. split_vote v = Some 0} = {0, 1}" by (auto simp: split_vote_def)
  have p: "peers (peer 0 0 []) = 3" by (simp add: peer_def Make_def)
  have m: "isMajority (peer 0 0 []) (int (card {v \<in> {0..<3}. split_vote v = Some 0}))"
    unfolding e isMajority_def p by simp
  then show ?thesis using isMajority_one_winner [of "peer 0 0 []" split_vote 0 1] unfolding p by auto
qed

section \<open>Where an election goes wrong\<close>

text \<open>
  Three peers. Peers 0 and 1 time out and stand for term 1. A candidate counts its own vote but does
  not record it in \<open>VotedFor\<close>, so peer 0 grants peer 1 the vote it has counted for itself.
\<close>

definition cand :: "nat \<Rightarrow> nat Raft" where
  "cand i = fst (isElected (isTimedOut 1 (Make 3 i 0)))"

definition vote_of :: "nat Raft \<Rightarrow> nat \<Rightarrow> RequestVoteReply \<times> nat Raft" where
  "vote_of rf c = RequestVote 9 9 (the (snd (isElected (isTimedOut 1 (Make 3 c 0 :: nat Raft))))) rf"

lemmas elect_defs = isElected_def isElected_test_def isElected_begin_def isElected_reply_def isTimedOut_def
  setToLeader_def isMajority_def cand_def vote_of_def


text \<open>
  The handler does not look again after it has released the lock. Two requests for term 1 that
  both read \<open>VotedFor\<close> before either writes it are both granted; and a handler that read an old
  term moves the peer back from term 5 to term 3.
\<close>

lemma RequestVote_races:
  "(let rf = peer 0 1 [sentinel]; loc = RequestVote_read rf;
        (reply1, rf1) = RequestVote_grant 9 (ask 1 1) loc rf;
        (reply2, rf2) = RequestVote_grant 9 (ask 1 2) loc rf1
    in rvr_VoteGranted reply1 \<and> rvr_VoteGranted reply2) \<and>
   (let rf = peer 0 1 [sentinel]; loc = RequestVote_read rf;
        (reply1, rf1) = RequestVote 9 9 (ask 5 1) rf;
        (loc2, rf2) = RequestVote_newer 9 (ask 3 2) loc rf1
    in CurrentTerm rf1 = 5 \<and> CurrentTerm rf2 = 3)"
  by (simp add: vote_defs run_defs)

section \<open>Committing and applying\<close>

text \<open>
  The leader of three peers sends its entry 1 to peer 1. Before the answer arrives a client starts a
  second command, which reaches nobody. The answer then makes the leader record that peer 1 has its
  whole log.
\<close>

definition committing_leader :: "nat Raft" where
  "committing_leader = (peer 0 1 [sentinel, entry 1 7])\<lparr>Mode := Leader, pNextIndex := [1, 1, 1], pMatchIndex := [0, 0, 0]\<rparr>"

lemmas lead_defs = committing_leader_def isLeading_read_def isLeading_send_def isLeading_reply_def
  buildAppendLogArgs_def getLastLogIndexAndTerm_def isQuorumReached_def Start_def Start_read_def Start_append_def

text \<open>
  A leader can commit an entry that no other peer has: the match index is set to the length of
  the leader's log when the answer arrives, not to what was sent.
\<close>

lemma commits_unreplicated_entry:
  "let loc = isLeading_read committing_leader in
   case isLeading_send loc 1 committing_leader of Inl _ \<Rightarrow> False | Inr (included, args) \<Rightarrow>
   case AppendLogEntry 9 args (peer 1 1 [sentinel]) of (reply, follower, _) \<Rightarrow>
   case Start 8 committing_leader of (_, leader) \<Rightarrow>
   case isLeading_reply 9 loc 1 1 included args True reply leader of Inl _ \<Rightarrow> False | Inr (leader', _) \<Rightarrow>
     commitIndex leader' = 2 \<and> length (logs follower) = 2 \<and> logs leader' ! 2 = entry 1 8"
  by (simp add: lead_defs run_defs eval_nat_numeral)

text \<open>
  A follower can lose entries it has acknowledged and committed: a request that was delayed in
  the network, with the same term and fewer entries, cuts the log again, below the commit index; the
  next round of the apply loop then reads past the end of the log, and panics if the array behind it
  has no room.
\<close>

lemma delayed_append_truncates:
  "case AppendLogEntry 9 (request 1 0 0 [entry 1 7, entry 1 8]) (peer 1 1 [sentinel]) of (reply1, rf1, _) \<Rightarrow>
   case AppendLogEntry 9 ((request 1 2 1 [])\<lparr>al_LeaderCommit := 2\<rparr>) rf1 of (_, rf2, _) \<Rightarrow>
   case AppendLogEntry 9 (request 1 0 0 [entry 1 7]) rf2 of (reply3, rf3, _) \<Rightarrow>
     ar_Success reply1 \<and> commitIndex rf2 = 2 \<and> ar_Success reply3 \<and>
     commitIndex rf3 = 2 \<and> logs rf3 = [sentinel, entry 1 7] \<and> handleCommits [] rf3 = Inl Panic"
  by (simp add: run_defs handleCommits_def eval_nat_numeral)

text \<open>One round of the apply loop.\<close>

lemma slice_length:
  "0 \<le> a \<Longrightarrow> a < c \<Longrightarrow> c + 1 \<le> int (length b) \<Longrightarrow>
    int (length (drop (nat (a + 1)) (take (nat (c + 1)) b))) = c - a"
  by auto

lemma slice_nth:
  "0 \<le> a \<Longrightarrow> a < c \<Longrightarrow> c + 1 \<le> int (length b) \<Longrightarrow> i < length (drop (nat (a + 1)) (take (nat (c + 1)) b)) \<Longrightarrow>
    drop (nat (a + 1)) (take (nat (c + 1)) b) ! i = b ! nat (a + int i + 1)"
  by (auto simp: nat_add_distrib add.commute add.left_commute)

lemma enumerate_indices: "map (\<lambda>(i, x). a + int i + 1) (List.enumerate 0 xs) = [a + 1..a + int (length xs)]"
  by (rule nth_equalityI) (auto simp: nth_enumerate_eq)

lemma handleCommits_round:
  assumes "handleCommits spare rf = Ret (rf', msgs)" "0 \<le> appliedIndex rf"
  shows "map am_CommandIndex msgs = [appliedIndex rf + 1..appliedIndex rf']"
    and "appliedIndex rf' = max (appliedIndex rf) (commitIndex rf)"
    and "\<forall>m\<in>set msgs. am_CommandValid m \<and>
      am_Command m = Command ((logs rf @ spare) ! nat (am_CommandIndex m))"
proof -
  define b where "b = logs rf @ spare"
  define es where "es = drop (nat (appliedIndex rf + 1)) (take (nat (commitIndex rf + 1)) b)"
  let ?a = "appliedIndex rf" and ?c = "commitIndex rf"
  show "map am_CommandIndex msgs = [?a + 1..appliedIndex rf']" (is ?idx)
    and "appliedIndex rf' = max ?a ?c" (is ?app)
    and "\<forall>m\<in>set msgs. am_CommandValid m \<and> am_Command m = Command ((logs rf @ spare) ! nat (am_CommandIndex m))" (is ?cmd)
  proof (atomize (full), cases "?c > ?a")
    case True
    then have le: "?c + 1 \<le> int (length b)" and rf': "rf' = rf\<lparr>appliedIndex := ?a + int (length es)\<rparr>"
      and ms: "msgs = map (\<lambda>(i, entry). \<lparr>am_CommandValid = True, am_Command = Command entry,
          am_CommandIndex = ?a + int i + 1\<rparr>) (List.enumerate 0 es)"
      using assms by (auto simp: handleCommits_def Let_def es_def b_def split: if_splits)
    have len: "int (length es) = ?c - ?a" unfolding es_def by (rule slice_length [OF assms(2) True le])
    have "map am_CommandIndex msgs = map (\<lambda>(i, x). ?a + int i + 1) (List.enumerate 0 es)"
      by (simp add: ms case_prod_beta' o_def)
    then have ?idx using rf' by (simp add: enumerate_indices)
    moreover have ?app using rf' len True by simp
    moreover have ?cmd using slice_nth [OF assms(2) True le]
      by (auto simp: ms in_set_enumerate_eq es_def b_def [symmetric] simp del: length_drop length_take)
    ultimately show "?idx \<and> ?app \<and> ?cmd" by blast
  next
    case False
    then show "?idx \<and> ?app \<and> ?cmd" using assms(1) by (auto simp: handleCommits_def Let_def)
  qed
qed

text \<open>
  Successive rounds. Between two rounds the other sections may have replaced the log and moved the
  commit index: each round is given what it finds there. None of them touches \<open>appliedIndex\<close>.
\<close>

fun apply_rounds :: "('c LogEntry list \<times> 'c LogEntry list \<times> int) list \<Rightarrow> 'c Raft \<Rightarrow> ('c Raft \<times> 'c ApplyMsg list) outcome" where
  "apply_rounds [] rf = Ret (rf, [])"
| "apply_rounds ((l, spare, c) # obs) rf =
     (case handleCommits spare (rf\<lparr>logs := l, commitIndex := c\<rparr>) of Inl e \<Rightarrow> Inl e
      | Inr (rf1, msgs) \<Rightarrow>
        (case apply_rounds obs rf1 of Inl e \<Rightarrow> Inl e | Inr (rf2, msgs') \<Rightarrow> Ret (rf2, msgs @ msgs')))"

lemma handleCommits_returns:
  "commitIndex rf < int (length (logs rf)) \<Longrightarrow> 0 \<le> appliedIndex rf \<Longrightarrow> \<exists>x. handleCommits spare rf = Ret x"
  by (auto simp: handleCommits_def Let_def)



section \<open>The invariant of a peer\<close>

text \<open>Every section that writes, with any locals and any messages: all interleavings of one peer's goroutines.\<close>

inductive raft_step :: "'c Raft \<Rightarrow> 'c Raft \<Rightarrow> bool" where
  vote_newer: "raft_step rf (snd (RequestVote_newer et args loc rf))"
| vote_grant: "raft_step rf (snd (RequestVote_grant et args loc rf))"
| append: "AppendLogEntry et args rf = (reply, rf', sig) \<Longrightarrow> raft_step rf rf'"
| start: "raft_step rf (Start_append t cmd rf)"
| timed_out: "raft_step rf (isTimedOut now rf)"
| elect: "raft_step rf (fst (isElected_begin rf))"
| elect_timer: "raft_step rf (isElected_timer rf)"
| elect_reply: "raft_step rf (snd (isElected_reply et t reply votes rf))"
| lead_reply: "isLeading_reply et loc i next included args ok reply rf = Ret (rf', sig) \<Longrightarrow> raft_step rf rf'"
| apply_round: "handleCommits spare rf = Ret (rf', msgs) \<Longrightarrow> raft_step rf rf'"

inductive raft_reachable :: "nat \<Rightarrow> nat \<Rightarrow> 'c Raft \<Rightarrow> bool" for n i where
  make: "raft_reachable n i (Make n i et)"
| step: "raft_reachable n i rf \<Longrightarrow> raft_step rf rf' \<Longrightarrow> raft_reachable n i rf'"

definition raft_inv :: "nat \<Rightarrow> nat \<Rightarrow> 'c Raft \<Rightarrow> bool" where
  [wf_simps]: "raft_inv n i rf \<longleftrightarrow> me rf = i \<and> peers rf = n \<and>
     logs rf \<noteq> [] \<and> logs rf ! 0 = \<lparr>Term = 0, Command = None\<rparr> \<and>
     0 \<le> appliedIndex rf \<and> 0 \<le> commitIndex rf \<and>
     length (pMatchIndex rf) = length (pNextIndex rf) \<and>
     (Mode rf = Leader \<longrightarrow> length (pNextIndex rf) = n)"

lemma raft_inv_append:
  assumes "raft_inv n i rf" "AppendLogEntry et args rf = (reply, rf', sig)"
  shows "raft_inv n i rf'"
proof -
  have frame: "me rf' = me rf" "peers rf' = peers rf" "appliedIndex rf' = appliedIndex rf"
    "pMatchIndex rf' = pMatchIndex rf" "pNextIndex rf' = pNextIndex rf" "Mode rf' = Leader \<longrightarrow> Mode rf = Leader"
    using assms(2) by (auto simp: AppendLogEntry_def Let_def setToFollower_def split: if_splits)
  have ci: "0 \<le> commitIndex rf'"
    using assms by (auto simp: raft_inv_def AppendLogEntry_def Let_def setToFollower_def split: if_splits)
  have "logs rf' \<noteq> [] \<and> logs rf' ! 0 = \<lparr>Term = 0, Command = None\<rparr>"
  proof (cases "ar_Success reply")
    case True
    then have "0 < nat (al_PrevLogIndex args + 1)"
      using AppendLogEntry_success(1) [OF assms(2)] by (simp add: prev_matches_def)
    then show ?thesis using AppendLogEntry_success(2) [OF assms(2)] True assms(1)
      by (auto simp: raft_inv_def nth_append)
  next
    case False
    then show ?thesis using AppendLogEntry_success(2) [OF assms(2)] assms(1) by (simp add: raft_inv_def)
  qed
  then show ?thesis using frame ci assms(1) by (simp add: raft_inv_def)
qed

lemma raft_inv_lead_reply:
  "raft_inv n i rf \<Longrightarrow> isLeading_reply et loc j next included args ok reply rf = Ret (rf', sig) \<Longrightarrow> raft_inv n i rf'"
  by (auto simp: raft_inv_def isLeading_reply_def setToFollower_def Let_def Suc_le_eq split: if_splits sum.splits)

lemma handleCommits_frame: "handleCommits spare rf = Ret (rf', msgs) \<Longrightarrow> \<exists>a. rf' = rf\<lparr>appliedIndex := a\<rparr>"
proof (cases "commitIndex rf > appliedIndex rf")
  case False
  then show "handleCommits spare rf = Ret (rf', msgs) \<Longrightarrow> ?thesis"
    by (intro exI [of _ "appliedIndex rf"]) (simp add: handleCommits_def Let_def)
qed (auto simp: handleCommits_def Let_def split: if_splits)

lemma raft_inv_apply:
  assumes "raft_inv n i rf" "handleCommits spare rf = Ret (rf', msgs)"
  shows "raft_inv n i rf'"
proof -
  have "0 \<le> appliedIndex rf'" using handleCommits_round(2) [OF assms(2)] assms(1) by (simp add: raft_inv_def le_max_iff_disj)
  then show ?thesis using handleCommits_frame [OF assms(2)] assms(1) by (auto simp: raft_inv_def)
qed

lemma raft_inv_step: "raft_step rf rf' \<Longrightarrow> raft_inv n i rf \<Longrightarrow> raft_inv n i rf'"
proof (induction rule: raft_step.induct)
  case (append et args rf reply rf' sig)
  show ?case by (rule raft_inv_append [OF append.prems append.hyps])
next
  case (lead_reply et loc j nxt included args ok reply rf rf' sig)
  show ?case by (rule raft_inv_lead_reply [OF lead_reply.prems lead_reply.hyps])
next
  case (apply_round spare rf rf' msgs)
  show ?case by (rule raft_inv_apply [OF apply_round.prems apply_round.hyps])
qed (auto simp: raft_inv_def RequestVote_newer_def RequestVote_grant_def setToFollower_def Start_append_def
    isTimedOut_def isElected_begin_def isElected_timer_def isElected_reply_def setToLeader_def Let_def nth_append
    split: prod.splits)

lemma raft_reachable_inv: "raft_reachable n i rf \<Longrightarrow> raft_inv n i rf"
proof (induction rule: raft_reachable.induct)
  case (make et)
  show ?case by (simp add: raft_inv_def Make_def)
next
  case (step rf rf')
  show ?case by (rule raft_inv_step [OF step.hyps(2) step.IH])
qed

text \<open>
  C25. In every state a peer can reach, under any interleaving of its sections and any messages, the
  log still starts with the entry \<open>Make\<close> put there, so the last index and term are always
  those of an entry; the commit and applied indices are not negative; and a leader's index tables
  have one entry per peer, so that neither reading the next index of a peer nor counting the quorum
  panics.
\<close>

theorem raft_peer_invariant:
  assumes "raft_reachable n i rf"
  shows "logs rf \<noteq> [] \<and> logs rf ! 0 = \<lparr>Term = 0, Command = None\<rparr> \<and>
    getLastLogIndexAndTerm rf = (int (length (logs rf)) - 1, Term (last (logs rf))) \<and>
    0 \<le> appliedIndex rf \<and> 0 \<le> commitIndex rf \<and>
    (Mode rf = Leader \<longrightarrow> (\<forall>p<n. isLeading_next p rf = Ret (pNextIndex rf ! p)) \<and> (\<exists>q. isQuorumReached rf = Ret q))"
proof -
  have "raft_inv n i rf" using assms by (rule raft_reachable_inv)
  then show ?thesis using isQuorumReached_total [of rf]
    by (simp add: raft_inv_def getLastLogIndexAndTerm_def isLeading_next_def last_conv_nth)
qed

theorem raft_peer_invariant_witness:
  "getLastLogIndexAndTerm (Start_append 1 (5::nat) (Make 3 0 0)) = (1, 1)"
  using raft_peer_invariant [OF raft_reachable.step [OF raft_reachable.make raft_step.start [of "Make 3 0 0" 1 "5::nat"]]]
  by (simp add: Start_append_def Make_def)

end
