(* ===== verification/RaftServer.thy ===== *)
theory RaftServer
  imports Raft GoStr
begin

text \<open>
  The service that runs on top of a Raft peer in the tests, \<open>raft1/server.go\<close>, and what the
  tester checks of it, \<open>raft1/test.go\<close>: every applied command is sent to the tester, which
  compares it with what the other servers have applied at the same index. A command is
  \<^typ>\<open>'c option\<close>, \<^const>\<open>None\<close> being nil; how a command is printed is an argument. Annotations
  are left out here.
\<close>

section \<open>The tester's view of the servers\<close>

record 'c raftServer =
  rs_running :: bool
  applyErr :: string
  rs_logs :: "int \<rightharpoonup> 'c option"

record 'c rtest =
  rt_srvs :: "'c raftServer list"
  maxIndex :: int

definition newRaftServer :: "'c raftServer" where
  "newRaftServer = \<lparr>rs_running = True, applyErr = '''', rs_logs = Map.empty\<rparr>"

text \<open>\<open>makeTest\<close>, after the loop over \<open>mksrv\<close>.\<close>

definition makeTest :: "nat \<Rightarrow> 'c rtest" where
  "makeTest n = \<lparr>rt_srvs = replicate n newRaftServer, maxIndex = 0\<rparr>"

definition rs_entry :: "int \<Rightarrow> 'c raftServer \<Rightarrow> 'c option option" where
  "rs_entry i rs = rs_logs rs i"

definition rt_set :: "int \<Rightarrow> 'c raftServer \<Rightarrow> 'c rtest \<Rightarrow> 'c rtest" where
  "rt_set i rs ts = ts\<lparr>rt_srvs := (rt_srvs ts)[nat i := rs]\<rparr>"

definition mksrv :: "int \<Rightarrow> 'c rtest \<Rightarrow> 'c rtest outcome" where
  "mksrv i ts = bindo (idx (rt_srvs ts) i) (\<lambda>rs. Ret (rt_set i (rs\<lparr>rs_running := True\<rparr>) ts))"

definition rt_kill :: "int list \<Rightarrow> 'c rtest \<Rightarrow> 'c rtest outcome" where
  "rt_kill is ts = foldo (\<lambda>i ts. bindo (idx (rt_srvs ts) i) (\<lambda>rs. Ret (rt_set i (rs\<lparr>rs_running := False\<rparr>) ts))) is ts"

text \<open>The message for a command that another server has applied differently.\<close>

definition commit_err :: "('c option \<Rightarrow> string) \<Rightarrow> int \<Rightarrow> int \<Rightarrow> 'c option \<Rightarrow> int \<Rightarrow> 'c option \<Rightarrow> string" where
  "commit_err shw index i v j old = ''commit index='' @ itoa index @ '' server='' @ itoa i @ '' '' @ shw v @
     '' != server='' @ itoa j @ '' '' @ shw old"

definition logs_differ :: "('c option \<Rightarrow> string) \<Rightarrow> int \<Rightarrow> 'c ApplyMsg \<Rightarrow> string \<Rightarrow> nat \<times> 'c raftServer \<Rightarrow> string" where
  "logs_differ shw i m err = (\<lambda>(j, rs). case rs_entry (am_CommandIndex m) rs of
      Some old \<Rightarrow> if old \<noteq> am_Command m then commit_err shw (am_CommandIndex m) i (am_Command m) (int j) old else err
    | None \<Rightarrow> err)"

definition CheckLogs :: "('c option \<Rightarrow> string) \<Rightarrow> int \<Rightarrow> 'c ApplyMsg \<Rightarrow> 'c rtest \<Rightarrow> ((string \<times> bool) \<times> 'c rtest) outcome" where
  "CheckLogs shw i m ts = bindo (idx (rt_srvs ts) i) (\<lambda>me.
     let err_msg = foldl (logs_differ shw i m) '''' (List.enumerate 0 (rt_srvs ts));
         prevok = rs_entry (am_CommandIndex m - 1) me \<noteq> None;
         ts' = rt_set i (me\<lparr>rs_logs := (rs_logs me)(am_CommandIndex m \<mapsto> am_Command m)\<rparr>) ts
     in Ret ((err_msg, prevok), if am_CommandIndex m > maxIndex ts then ts'\<lparr>maxIndex := am_CommandIndex m\<rparr> else ts'))"

definition IngestLog :: "int \<Rightarrow> (int \<rightharpoonup> 'c option) \<Rightarrow> 'c rtest \<Rightarrow> 'c rtest outcome" where
  "IngestLog i xlog ts = bindo (idx (rt_srvs ts) i) (\<lambda>me. Ret (rt_set i (me\<lparr>rs_logs := xlog\<rparr>) ts))"

definition ApplyErr :: "int \<Rightarrow> string \<Rightarrow> 'c rtest \<Rightarrow> 'c rtest outcome" where
  "ApplyErr i err ts = bindo (idx (rt_srvs ts) i) (\<lambda>me. Ret (rt_set i (me\<lparr>applyErr := err\<rparr>) ts))"

text \<open>\<open>nCommitted\<close>: the loop keeps the number of servers with an entry and the last entry.\<close>

definition committed_one :: "int \<Rightarrow> 'c raftServer \<Rightarrow> int \<times> 'c option \<Rightarrow> (int \<times> 'c option) outcome" where
  "committed_one index rs = (\<lambda>(count, cmd).
     if applyErr rs \<noteq> '''' then Inl Fatal
     else case rs_entry index rs of
       None \<Rightarrow> Ret (count, cmd)
     | Some cmd1 \<Rightarrow> if count > 0 \<and> cmd \<noteq> cmd1 then Inl Fatal else Ret (count + 1, cmd1))"

definition nCommitted :: "int \<Rightarrow> 'c rtest \<Rightarrow> (int \<times> 'c option) outcome" where
  "nCommitted index ts = foldo (committed_one index) (rt_srvs ts) (0, None)"

definition checkNoAgreement :: "int \<Rightarrow> 'c rtest \<Rightarrow> unit outcome" where
  "checkNoAgreement index ts = bindo (nCommitted index ts) (\<lambda>(n, _). if n > 0 then Inl Fatal else Ret ())"

section \<open>The checks of leaders and terms\<close>

text \<open>What a round of \<open>GetState\<close> calls answers: the connected servers with term and leadership.\<close>

type_synonym states = "(int \<times> int \<times> bool) list"

definition add_leader :: "(int \<times> int list) list \<Rightarrow> int \<times> int \<times> bool \<Rightarrow> (int \<times> int list) list" where
  "add_leader leaders = (\<lambda>(i, term, leader). if leader then AList.update term (at leaders term @ [i]) leaders else leaders)"

definition leaders_of :: "states \<Rightarrow> (int \<times> int list) list" where
  "leaders_of sts = foldl add_leader [] sts"

text \<open>One iteration of \<open>checkOneLeader\<close>: no leader means another iteration.\<close>

definition one_leader_round :: "states \<Rightarrow> int option outcome" where
  "one_leader_round sts =
     (let leaders = leaders_of sts in
      if list_ex (\<lambda>(term, ls). length ls > 1) leaders then Inl Fatal
      else let lastTermWithLeader = foldl (\<lambda>last (term, ls). if term > last then term else last) (-1) leaders
      in if leaders \<noteq> [] then bindo (idx (at leaders lastTermWithLeader) 0) (\<lambda>l. Ret (Some l)) else Ret None)"

fun checkOneLeader :: "nat \<Rightarrow> states list \<Rightarrow> int outcome option" where
  "checkOneLeader 0 _ = Some (Inl Fatal)"
| "checkOneLeader (Suc iters) [] = None"
| "checkOneLeader (Suc iters) (sts # rest) = (case one_leader_round sts of
      Inl e \<Rightarrow> Some (Inl e)
    | Inr (Some l) \<Rightarrow> Some (Ret l)
    | Inr None \<Rightarrow> checkOneLeader iters rest)"

definition check_term :: "int \<times> int \<times> bool \<Rightarrow> int \<Rightarrow> int outcome" where
  "check_term = (\<lambda>(i, xterm, _) term. if term = -1 then Ret xterm else if term \<noteq> xterm then Inl Fatal else Ret term)"

definition checkTerms :: "states \<Rightarrow> int outcome" where
  "checkTerms sts = foldo check_term sts (-1)"

definition checkNoLeader :: "states \<Rightarrow> unit outcome" where
  "checkNoLeader sts = foldo (\<lambda>(i, t, is_leader) _. if is_leader then Inl Fatal else Ret ()) sts ()"

section \<open>The server\<close>

definition out_of_order :: "int \<Rightarrow> int \<Rightarrow> string" where
  "out_of_order self index = ''server '' @ itoa self @ '' apply out of order '' @ itoa index"

text \<open>One message of \<open>applier\<close>, with the tester it talks to.\<close>

definition applier :: "('c option \<Rightarrow> string) \<Rightarrow> int \<Rightarrow> 'c ApplyMsg \<Rightarrow> 'c rtest \<Rightarrow> 'c rtest outcome" where
  "applier shw self m ts =
     (if \<not> am_CommandValid m then Ret ts
      else bindo (CheckLogs shw self m ts) (\<lambda>((err, prevok), ts').
        let err_msg = (if am_CommandIndex m > 1 \<and> \<not> prevok then out_of_order self (am_CommandIndex m) else err)
        in if err_msg \<noteq> '''' then ApplyErr self err_msg ts' else Ret ts'))"

text \<open>The configuration with snapshots. A snapshot is bytes; its encoder and decoder are arguments.\<close>

record 'c SnapMsg = "'c ApplyMsg" +
  am_SnapshotValid :: bool
  am_Snapshot :: "string option"
  am_SnapshotTerm :: int
  am_SnapshotIndex :: int

record 'c rfsrv =
  rf_me :: int
  lastApplied :: int
  rf_log :: "int \<rightharpoonup> 'c option"

definition SnapShotInterval :: int where "SnapShotInterval = 10"

definition ingestSnap :: "(string \<Rightarrow> (int \<times> 'c option list) option) \<Rightarrow> string option \<Rightarrow> int \<Rightarrow> 'c rfsrv \<Rightarrow> string \<times> 'c rfsrv" where
  "ingestSnap dec snap index rs = (case snap of
      None \<Rightarrow> (''nil snapshot'', rs)
    | Some b \<Rightarrow> (case dec b of
        None \<Rightarrow> (''failed to decode snapshot'', rs)
      | Some (lastIncludedIndex, xlog) \<Rightarrow>
          if index \<noteq> -1 \<and> index \<noteq> lastIncludedIndex
          then (''server '' @ itoa (rf_me rs) @ '' snapshot doesn't match m.SnapshotIndex'', rs)
          else ('''', rs\<lparr>rf_log := (\<lambda>j. if in_range xlog j then Some (xlog ! nat j) else None), lastApplied := lastIncludedIndex\<rparr>)))"

text \<open>The commands up to an index, as they go into a snapshot: a missing one is nil.\<close>

definition snap_log :: "int \<Rightarrow> 'c rfsrv \<Rightarrow> 'c option list" where
  "snap_log index rs = map (\<lambda>j. case rf_log rs (int j) of None \<Rightarrow> None | Some c \<Rightarrow> c) [0..<nat (index + 1)]"

text \<open>One message of \<open>applierSnap\<close>; the snapshot that is handed to Raft, if any, is the last component.\<close>

definition applierSnap_command :: "('c option \<Rightarrow> string) \<Rightarrow> ('c option list \<Rightarrow> int \<Rightarrow> string) \<Rightarrow> 'c SnapMsg \<Rightarrow> 'c rfsrv \<times> 'c rtest \<Rightarrow>
    (string \<times> 'c rfsrv \<times> 'c rtest \<times> (int \<times> string) option) outcome" where
  "applierSnap_command shw enc m = (\<lambda>(rs, ts).
     let index = am_CommandIndex m;
         err1 = (if index \<noteq> lastApplied rs + 1
                 then ''server '' @ itoa (rf_me rs) @ '' apply out of order, expected index '' @ itoa (lastApplied rs + 1) @ '', got '' @ itoa index
                 else '''')
     in bindo (if err1 = '''' then bindo (CheckLogs shw (rf_me rs) (ApplyMsg.truncate m) ts) (\<lambda>((e, prevok), ts').
                 Ret (if e \<noteq> ''ErrRPC'' \<and> index > 1 \<and> \<not> prevok then out_of_order (rf_me rs) index else e, ts'))
               else Ret (err1, ts)) (\<lambda>(err_msg, ts').
        let rs' = rs\<lparr>rf_log := (rf_log rs)(index \<mapsto> am_Command m), lastApplied := index\<rparr>;
            snap = (if (index + 1) mod SnapShotInterval = 0
                    then Some (index, enc (snap_log index rs') index) else None)
        in Ret (err_msg, rs', ts', snap)))"

definition applierSnap :: "('c option \<Rightarrow> string) \<Rightarrow> ('c option list \<Rightarrow> int \<Rightarrow> string) \<Rightarrow> (string \<Rightarrow> (int \<times> 'c option list) option) \<Rightarrow>
    'c SnapMsg \<Rightarrow> 'c rfsrv \<times> 'c rtest \<Rightarrow> (('c rfsrv \<times> 'c rtest) \<times> (int \<times> string) option) outcome" where
  "applierSnap shw enc dec m = (\<lambda>(rs, ts).
     bindo (if am_SnapshotValid m then
              (let (err, rs') = ingestSnap dec (am_Snapshot m) (am_SnapshotIndex m) rs
               in bindo (IngestLog (rf_me rs) (rf_log rs') ts) (\<lambda>ts'. Ret (err, rs', ts', None)))
            else if am_CommandValid m then applierSnap_command shw enc m (rs, ts)
            else Ret ('''', rs, ts, None))
       (\<lambda>(err_msg, rs', ts', snap).
          if err_msg \<noteq> '''' then bindo (ApplyErr (rf_me rs) err_msg ts') (\<lambda>ts2. Ret ((rs', ts2), snap))
          else Ret ((rs', ts'), snap)))"

text \<open>\<open>newRfsrv\<close>: in the configuration with snapshots a saved snapshot that is not empty is ingested first.\<close>

definition newRfsrv :: "(string \<Rightarrow> (int \<times> 'c option list) option) \<Rightarrow> int \<Rightarrow> string \<Rightarrow> bool \<Rightarrow> 'c rtest \<Rightarrow> ('c rfsrv \<times> 'c rtest) outcome" where
  "newRfsrv dec srv sn snapshot ts =
     (let s = \<lparr>rf_me = srv, lastApplied = 0, rf_log = Map.empty\<rparr> in
      if snapshot \<and> length sn > 0 then
        (let (err, s') = ingestSnap dec (Some sn) (-1) s in
         if err \<noteq> '''' then bindo (ApplyErr srv err ts) (\<lambda>_. Inl Fatal)
         else bindo (IngestLog srv (rf_log s') ts) (\<lambda>ts'. Ret (s', ts')))
      else Ret (s, ts))"

section \<open>What CheckLogs catches\<close>

text \<open>A run of servers without snapshots: the messages in the order the tester sees them.\<close>

definition run_applier :: "('c option \<Rightarrow> string) \<Rightarrow> (nat \<times> 'c ApplyMsg) list \<Rightarrow> 'c rtest \<Rightarrow> 'c rtest outcome" where
  "run_applier shw ms ts = foldo (\<lambda>(i, m). applier shw (int i) m) ms ts"

definition no_applyErr :: "'c rtest \<Rightarrow> bool" where
  "no_applyErr ts \<longleftrightarrow> list_all (\<lambda>rs. applyErr rs = '''') (rt_srvs ts)"

text \<open>The next message fits what has been seen: no other command at its index, and its predecessor was applied.\<close>

definition fits :: "(nat \<times> 'c ApplyMsg) list \<Rightarrow> nat \<times> 'c ApplyMsg \<Rightarrow> bool" where
  "fits ms = (\<lambda>(i, m). am_CommandValid m \<longrightarrow>
     (\<forall>(j, m')\<in>set ms. am_CommandValid m' \<and> am_CommandIndex m' = am_CommandIndex m \<longrightarrow> am_Command m' = am_Command m) \<and>
     (am_CommandIndex m > 1 \<longrightarrow> (\<exists>(j, m')\<in>set ms. j = i \<and> am_CommandValid m' \<and> am_CommandIndex m' = am_CommandIndex m - 1)))"

definition consistent :: "(nat \<times> 'c ApplyMsg) list \<Rightarrow> bool" where
  "consistent ms \<longleftrightarrow> (\<forall>p<length ms. fits (take p ms) (ms ! p))"

lemma consistent_snoc: "consistent (ms @ [x]) \<longleftrightarrow> consistent ms \<and> fits ms x"
  by (auto simp: consistent_def less_Suc_eq nth_append)

lemma commit_err_ne: "commit_err shw index i v j old \<noteq> ''''"
  by (simp add: commit_err_def)

lemma logs_differ_fold:
  "foldl (logs_differ shw i m) err jrs = '''' \<longleftrightarrow>
    err = '''' \<and> (\<forall>(j, rs)\<in>set jrs. rs_logs rs (am_CommandIndex m) \<in> {None, Some (am_Command m)})"
proof (induction jrs arbitrary: err)
  case (Cons x jrs)
  obtain j rs where x: "x = (j, rs)" by force
  have "logs_differ shw i m err x = '''' \<longleftrightarrow> err = '''' \<and> rs_logs rs (am_CommandIndex m) \<in> {None, Some (am_Command m)}"
    by (auto simp: x logs_differ_def rs_entry_def commit_err_ne split: option.splits)
  then show ?case using Cons.IH [of "logs_differ shw i m err x"] by (auto simp: x)
qed simp

lemma consistent_agree:
  assumes "consistent ms" "(i, m) \<in> set ms" "(j, m') \<in> set ms" "am_CommandValid m" "am_CommandValid m'"
    "am_CommandIndex m = am_CommandIndex m'"
  shows "am_Command m = am_Command m'"
  using assms
proof (induction ms rule: rev_induct)
  case (snoc x ms)
  have "consistent ms" "fits ms x" using snoc.prems(1) by (auto simp: consistent_snoc)
  then show ?case using snoc.IH snoc.prems(2-6) by (fastforce simp: fits_def)
qed simp

text \<open>What the tester knows after the messages \<open>ms\<close>.\<close>

definition knows :: "nat \<Rightarrow> (nat \<times> 'c ApplyMsg) list \<Rightarrow> 'c rtest \<Rightarrow> bool" where
  "knows n ms ts \<longleftrightarrow> length (rt_srvs ts) = n \<and> fst ` set ms \<subseteq> {..<n} \<and>
     (\<forall>(i, m)\<in>set ms. am_CommandValid m \<longrightarrow> rs_logs (rt_srvs ts ! i) (am_CommandIndex m) \<noteq> None) \<and>
     (\<forall>i<n. \<forall>k c. rs_logs (rt_srvs ts ! i) k = Some c \<longrightarrow>
       (\<exists>m. (i, m) \<in> set ms \<and> am_CommandValid m \<and> am_CommandIndex m = k \<and> am_Command m = c))"

lemma knowsD:
  assumes "knows n ms ts"
  shows "length (rt_srvs ts) = n" "(j, m) \<in> set ms \<Longrightarrow> j < n"
    "(j, m) \<in> set ms \<Longrightarrow> am_CommandValid m \<Longrightarrow> \<exists>c. rs_logs (rt_srvs ts ! j) (am_CommandIndex m) = Some c"
    "j < n \<Longrightarrow> rs_logs (rt_srvs ts ! j) k = Some c \<Longrightarrow>
      \<exists>m'. (j, m') \<in> set ms \<and> am_CommandValid m' \<and> am_CommandIndex m' = k \<and> am_Command m' = c"
  using assms unfolding knows_def by fastforce+

lemma logs_agree_iff:
  assumes "knows n ms ts" "consistent ms"
  shows "(\<forall>j<n. rs_logs (rt_srvs ts ! j) k \<in> {None, Some c}) \<longleftrightarrow>
    (\<forall>(j, m)\<in>set ms. am_CommandValid m \<and> am_CommandIndex m = k \<longrightarrow> am_Command m = c)"
proof (intro iffI ballI allI impI)
  fix x assume l: "\<forall>j<n. rs_logs (rt_srvs ts ! j) k \<in> {None, Some c}" and x: "x \<in> set ms"
  obtain j m where jm: "x = (j, m)" by force
  show "case x of (j, m) \<Rightarrow> am_CommandValid m \<and> am_CommandIndex m = k \<longrightarrow> am_Command m = c"
  proof (unfold jm prod.case, intro impI)
    assume m: "am_CommandValid m \<and> am_CommandIndex m = k"
    have j: "(j, m) \<in> set ms" "j < n" using x jm knowsD(2) [OF assms(1)] by auto
    obtain d where d: "rs_logs (rt_srvs ts ! j) k = Some d" using knowsD(3) [OF assms(1) j(1)] m by auto
    obtain m' where m': "(j, m') \<in> set ms" "am_CommandValid m'" "am_CommandIndex m' = k" "am_Command m' = d"
      using knowsD(4) [OF assms(1) j(2) d] by blast
    have "d = c" using l j(2) d by auto
    then show "am_Command m = c" using consistent_agree [OF assms(2) j(1) m'(1)] m m'(2-4) by simp
  qed
next
  fix j assume a: "\<forall>(j, m)\<in>set ms. am_CommandValid m \<and> am_CommandIndex m = k \<longrightarrow> am_Command m = c" and j: "j < n"
  show "rs_logs (rt_srvs ts ! j) k \<in> {None, Some c}"
    using a knowsD(4) [OF assms(1) j, of k] by (cases "rs_logs (rt_srvs ts ! j) k") fastforce+
qed

lemma CheckLogs_step:
  assumes "knows n ms ts" "consistent ms" "i < n" "am_CommandValid m"
  shows "\<exists>err prevok ts'. CheckLogs shw (int i) m ts = Ret ((err, prevok), ts') \<and> knows n (ms @ [(i, m)]) ts' \<and>
    map applyErr (rt_srvs ts') = map applyErr (rt_srvs ts) \<and>
    (fits ms (i, m) \<longleftrightarrow> err = '''' \<and> (am_CommandIndex m > 1 \<longrightarrow> prevok))"
proof -
  let ?k = "am_CommandIndex m"
  let ?me = "rt_srvs ts ! i"
  let ?me' = "?me\<lparr>rs_logs := (rs_logs ?me)(?k \<mapsto> am_Command m)\<rparr>"
  let ?ts = "rt_set (int i) ?me' ts"
  let ?ts' = "if ?k > maxIndex ts then ?ts\<lparr>maxIndex := ?k\<rparr> else ?ts"
  let ?err = "foldl (logs_differ shw (int i) m) '''' (List.enumerate 0 (rt_srvs ts))"
  let ?prev = "rs_logs ?me (?k - 1) \<noteq> None"
  have len: "length (rt_srvs ts) = n" by (rule knowsD(1) [OF assms(1)])
  have srvs: "rt_srvs ?ts' = (rt_srvs ts)[i := ?me']" by (simp add: rt_set_def)
  have c: "CheckLogs shw (int i) m ts = Ret ((?err, ?prev), ?ts')"
    using assms(3) len by (simp add: CheckLogs_def idx_def in_range_def Let_def rs_entry_def)
  have "?err = '''' \<longleftrightarrow> (\<forall>j<n. rs_logs (rt_srvs ts ! j) ?k \<in> {None, Some (am_Command m)})"
    unfolding logs_differ_fold using len by (auto simp: in_set_enumerate_eq)
  also have "\<dots> \<longleftrightarrow> (\<forall>(j, m')\<in>set ms. am_CommandValid m' \<and> am_CommandIndex m' = ?k \<longrightarrow> am_Command m' = am_Command m)"
    by (rule logs_agree_iff [OF assms(1,2)])
  finally have err: "?err = '''' \<longleftrightarrow> \<dots>" .
  have prev: "?prev \<longleftrightarrow> (\<exists>(j, m')\<in>set ms. j = i \<and> am_CommandValid m' \<and> am_CommandIndex m' = ?k - 1)"
    using knowsD(3) [OF assms(1)] knowsD(4) [OF assms(1,3), of "?k - 1"] by fastforce
  have "fits ms (i, m) \<longleftrightarrow> ?err = '''' \<and> (?k > 1 \<longrightarrow> ?prev)" unfolding err prev fits_def using assms(4) by simp
  moreover have "map applyErr (rt_srvs ?ts') = map applyErr (rt_srvs ts)"
    unfolding srvs using assms(3) len by (simp add: map_update list_update_same_conv)
  moreover have "knows n (ms @ [(i, m)]) ?ts'"
  proof -
    have look: "rs_logs (rt_srvs ?ts' ! j) k = (if j = i \<and> k = ?k then Some (am_Command m) else rs_logs (rt_srvs ts ! j) k)" if "j < n" for j k
      using that len assms(3) by (simp add: srvs nth_list_update)
    have "rs_logs (rt_srvs ?ts' ! j) (am_CommandIndex m') \<noteq> None"
      if "(j, m') \<in> set (ms @ [(i, m)])" "am_CommandValid m'" for j m'
    proof -
      have "j < n" using that(1) knowsD(2) [OF assms(1), of j m'] assms(3) by auto
      then show ?thesis using that knowsD(3) [OF assms(1), of j m'] unfolding look [OF \<open>j < n\<close>] by auto
    qed
    moreover have "\<exists>m'. (j, m') \<in> set (ms @ [(i, m)]) \<and> am_CommandValid m' \<and> am_CommandIndex m' = k \<and> am_Command m' = d"
      if "j < n" "rs_logs (rt_srvs ?ts' ! j) k = Some d" for j k d
      using that(2) knowsD(4) [OF assms(1) that(1)] assms(4) unfolding look [OF that(1)] by (auto split: if_splits)
    moreover have "length (rt_srvs ?ts') = n" "fst ` set (ms @ [(i, m)]) \<subseteq> {..<n}"
      using len assms(1,3) by (simp_all add: srvs knows_def)
    ultimately show ?thesis unfolding knows_def by blast
  qed
  ultimately show ?thesis using c by blast
qed

lemma out_of_order_ne: "out_of_order s k \<noteq> ''''"
  by (simp add: out_of_order_def)

lemma no_applyErr_map: "no_applyErr ts \<longleftrightarrow> (\<forall>e\<in>set (map applyErr (rt_srvs ts)). e = '''')"
  by (auto simp: no_applyErr_def list_all_iff)

text \<open>An error that is reported is recorded, and an error that has been recorded stays.\<close>

lemma ApplyErr_recorded:
  assumes "i < length (rt_srvs ts)" "e \<noteq> ''''"
  shows "\<exists>ts'. ApplyErr (int i) e ts = Ret ts' \<and> length (rt_srvs ts') = length (rt_srvs ts) \<and> \<not> no_applyErr ts'"
proof -
  let ?ts = "rt_set (int i) ((rt_srvs ts ! i)\<lparr>applyErr := e\<rparr>) ts"
  have "rt_srvs ?ts ! i \<in> set (rt_srvs ?ts)" "applyErr (rt_srvs ?ts ! i) \<noteq> ''''"
    using assms by (simp_all add: rt_set_def set_update_memI)
  then have "\<not> no_applyErr ?ts" by (auto simp: no_applyErr_def list_all_iff)
  then show ?thesis using assms(1) by (auto simp: ApplyErr_def idx_def in_range_def rt_set_def)
qed

lemma applier_step:
  assumes "length (rt_srvs ts) = n" "i < n" "\<not> no_applyErr ts"
  shows "\<exists>ts'. applier shw (int i) m ts = Ret ts' \<and> length (rt_srvs ts') = n \<and> \<not> no_applyErr ts'"
proof (cases "am_CommandValid m")
  case True
  let ?me = "rt_srvs ts ! i"
  obtain err prevok ts1 where c: "CheckLogs shw (int i) m ts = Ret ((err, prevok), ts1)"
    "rt_srvs ts1 = (rt_srvs ts)[i := ?me\<lparr>rs_logs := (rs_logs ?me)(am_CommandIndex m \<mapsto> am_Command m)\<rparr>]"
    using assms(1,2) by (auto simp: CheckLogs_def idx_def in_range_def Let_def rt_set_def)
  have len: "length (rt_srvs ts1) = n" using assms(1) c(2) by simp
  have "map applyErr (rt_srvs ts1) = map applyErr (rt_srvs ts)"
    unfolding c(2) using assms(1,2) by (simp add: map_update list_update_same_conv)
  then have "\<not> no_applyErr ts1" using assms(3) by (simp only: no_applyErr_map) simp
  then show ?thesis using c(1) len True assms(2) ApplyErr_recorded [of i ts1]
    by (auto simp: applier_def Let_def)
qed (use assms in \<open>simp add: applier_def\<close>)

lemma applier_consistent:
  assumes "knows n ms ts" "consistent ms" "no_applyErr ts" "i < n"
  shows "\<exists>ts'. applier shw (int i) m ts = Ret ts' \<and> length (rt_srvs ts') = n \<and> (no_applyErr ts' \<longleftrightarrow> fits ms (i, m)) \<and>
    (fits ms (i, m) \<longrightarrow> knows n (ms @ [(i, m)]) ts')"
proof (cases "am_CommandValid m")
  case True
  obtain err prevok ts1 where c: "CheckLogs shw (int i) m ts = Ret ((err, prevok), ts1)" "knows n (ms @ [(i, m)]) ts1"
    "map applyErr (rt_srvs ts1) = map applyErr (rt_srvs ts)" "fits ms (i, m) \<longleftrightarrow> err = '''' \<and> (am_CommandIndex m > 1 \<longrightarrow> prevok)"
    using CheckLogs_step [OF assms(1,2,4) True, of shw] by blast
  have len: "length (rt_srvs ts1) = n" by (rule knowsD(1) [OF c(2)])
  have n1: "no_applyErr ts1" using assms(3) unfolding no_applyErr_map c(3) .
  let ?err = "if am_CommandIndex m > 1 \<and> \<not> prevok then out_of_order (int i) (am_CommandIndex m) else err"
  have e: "?err = '''' \<longleftrightarrow> fits ms (i, m)" using c(4) by (simp add: out_of_order_ne)
  have a: "applier shw (int i) m ts = (if ?err \<noteq> '''' then ApplyErr (int i) ?err ts1 else Ret ts1)"
    using c(1) True by (simp add: applier_def Let_def)
  show ?thesis
  proof (cases "?err = ''''")
    case True
    then show ?thesis using a c(2) n1 len e by simp
  next
    case False
    then show ?thesis using ApplyErr_recorded [of i ts1 ?err] a len e assms(4) by simp
  qed
next
  case False
  then show ?thesis using assms knowsD(1) [OF assms(1)] by (fastforce simp: applier_def fits_def knows_def)
qed

lemma run_applier_result:
  assumes "fst ` set ms \<subseteq> {..<n}"
  shows "\<exists>ts. run_applier shw ms (makeTest n) = Ret ts \<and> length (rt_srvs ts) = n \<and> (no_applyErr ts \<longleftrightarrow> consistent ms) \<and>
    (consistent ms \<longrightarrow> knows n ms ts)"
  using assms
proof (induction ms rule: rev_induct)
  case Nil
  then show ?case by (auto simp: run_applier_def makeTest_def newRaftServer_def no_applyErr_def list_all_iff consistent_def knows_def)
next
  case (snoc x ms)
  obtain i m where x: "x = (i, m)" by force
  obtain ts where ts: "run_applier shw ms (makeTest n) = Ret ts" "length (rt_srvs ts) = n" "no_applyErr ts \<longleftrightarrow> consistent ms"
    "consistent ms \<longrightarrow> knows n ms ts" using snoc by auto
  have i: "i < n" using snoc.prems x by simp
  have r: "run_applier shw (ms @ [(i, m)]) (makeTest n) = applier shw (int i) m ts"
    using ts(1) by (cases "applier shw (int i) m ts") (simp_all add: run_applier_def foldo_append)
  show ?case
  proof (cases "consistent ms")
    case True
    then show ?thesis using applier_consistent [of n ms ts i shw m] ts i unfolding x r consistent_snoc by auto
  next
    case False
    then show ?thesis using applier_step [of ts n i shw m] ts i unfolding x r consistent_snoc by auto
  qed
qed

text \<open>
  C12. The tester's check of applied commands is exact: whatever the servers apply, in whatever order
  the tester hears of it, some server ends with an \<open>applyErr\<close> exactly if two servers applied different
  commands at one index or a server applied an index above 1 without having applied the one before;
  and without such an error the logs of all servers agree at every index both have.
\<close>

theorem CheckLogs_exact:
  assumes "fst ` set ms \<subseteq> {..<n}"
  shows "\<exists>ts. run_applier shw ms (makeTest n) = Ret ts \<and> (no_applyErr ts \<longleftrightarrow> consistent ms) \<and>
    (no_applyErr ts \<longrightarrow> (\<forall>i<n. \<forall>j<n. \<forall>k c d. rs_logs (rt_srvs ts ! i) k = Some c \<and> rs_logs (rt_srvs ts ! j) k = Some d \<longrightarrow> c = d))"
proof -
  obtain ts :: "'a rtest" where ts: "run_applier shw ms (makeTest n) = Ret ts" "no_applyErr ts \<longleftrightarrow> consistent ms" "consistent ms \<longrightarrow> knows n ms ts"
    using run_applier_result [OF assms, of shw] by blast
  have "c = d" if t: "consistent ms" "i < n" "j < n" "rs_logs (rt_srvs ts ! i) k = Some c" "rs_logs (rt_srvs ts ! j) k = Some d" for i j k c d
  proof -
    have kn: "knows n ms ts" using ts(3) t(1) by blast
    obtain m m' where "(i, m) \<in> set ms" "am_CommandValid m" "am_CommandIndex m = k" "am_Command m = c"
      "(j, m') \<in> set ms" "am_CommandValid m'" "am_CommandIndex m' = k" "am_Command m' = d"
      using knowsD(4) [OF kn t(2,4)] knowsD(4) [OF kn t(3,5)] by blast
    then show ?thesis using consistent_agree [OF t(1), of i m j m'] by simp
  qed
  then show ?thesis using ts by blast
qed

definition two_applies :: "(nat \<times> nat ApplyMsg) list" where
  "two_applies = [(0, \<lparr>am_CommandValid = True, am_Command = Some 7, am_CommandIndex = 1\<rparr>),
                  (1, \<lparr>am_CommandValid = True, am_Command = Some 8, am_CommandIndex = 1\<rparr>)]"

theorem CheckLogs_exact_witness:
  "\<exists>ts. run_applier (\<lambda>_. ''cmd'') two_applies (makeTest 2) = Ret ts \<and> \<not> no_applyErr ts"
proof -
  have "\<not> consistent two_applies" by (auto simp: consistent_def two_applies_def fits_def intro!: exI [of _ "Suc 0"])
  moreover have "fst ` set two_applies \<subseteq> {..<2}" by (simp add: two_applies_def)
  ultimately show ?thesis using CheckLogs_exact [of two_applies 2 "\<lambda>_. ''cmd''"] by blast
qed

end
