(* ===== verification/RaftProxy.thy ===== *)
theory RaftProxy
  imports RaftServer
begin

text \<open>
  The two proxies between a Raft server's process and the tester, \<open>raft1/proxy.go\<close>, and the calls
  they reach, \<open>raft1/server.go\<close>. A call over a socket is answered or not; an answer that does not come
  leaves the reply at its zero value, except for \<open>CheckLogs\<close>, which reports \<open>ErrRPC\<close>.
\<close>

section \<open>From the tester to the server\<close>

text \<open>\<open>Start\<close> of a server without a Raft peer, and with one, given by what its \<open>Start\<close> answers.\<close>

definition rfsrv_Start :: "('c \<Rightarrow> int \<times> int \<times> bool) option \<Rightarrow> 'c \<Rightarrow> int \<times> int \<times> bool" where
  "rfsrv_Start raft command = (case raft of None \<Rightarrow> (0, 0, False) | Some start \<Rightarrow> start command)"

definition rfsrv_GetState :: "(int \<times> bool) option \<Rightarrow> (int \<times> bool) outcome" where
  "rfsrv_GetState raft = (case raft of None \<Rightarrow> Inl Panic | Some s \<Rightarrow> Ret s)"

definition StartRPC :: "('c \<Rightarrow> int \<times> int \<times> bool) option \<Rightarrow> 'c \<Rightarrow> int \<times> int \<times> bool" where
  "StartRPC raft command = rfsrv_Start raft command"

definition GetStateRPC :: "(int \<times> bool) option \<Rightarrow> (int \<times> bool) outcome" where
  "GetStateRPC raft = rfsrv_GetState raft"

definition Rfproxy_GetState :: "(int \<times> bool) option \<Rightarrow> int \<times> bool" where
  "Rfproxy_GetState answer = (case answer of None \<Rightarrow> (0, False) | Some r \<Rightarrow> r)"

definition Rfproxy_Start :: "(int \<times> int \<times> bool) option \<Rightarrow> int \<times> int \<times> bool" where
  "Rfproxy_Start answer = (case answer of None \<Rightarrow> (0, 0, False) | Some r \<Rightarrow> r)"

section \<open>From the server to the tester\<close>

definition TesterProxy_CheckLogs :: "bool \<Rightarrow> ('c option \<Rightarrow> string) \<Rightarrow> int \<Rightarrow> 'c ApplyMsg \<Rightarrow> 'c rtest \<Rightarrow> ((string \<times> bool) \<times> 'c rtest) outcome" where
  "TesterProxy_CheckLogs ok shw i m ts = (if \<not> ok then Ret ((''ErrRPC'', False), ts) else CheckLogs shw i m ts)"

definition TesterProxy_IngestLog :: "bool \<Rightarrow> int \<Rightarrow> (int \<rightharpoonup> 'c option) \<Rightarrow> 'c rtest \<Rightarrow> 'c rtest outcome" where
  "TesterProxy_IngestLog ok i l ts = (if \<not> ok then Ret ts else IngestLog i l ts)"

definition TesterProxy_ApplyErr :: "bool \<Rightarrow> int \<Rightarrow> string \<Rightarrow> 'c rtest \<Rightarrow> 'c rtest outcome" where
  "TesterProxy_ApplyErr ok i err ts = (if \<not> ok then Ret ts else ApplyErr i err ts)"

text \<open>One message of \<open>applier\<close> in a process: \<open>c\<close> and \<open>e\<close> say whether its two calls are answered.\<close>

definition applier_remote :: "('c option \<Rightarrow> string) \<Rightarrow> bool \<Rightarrow> bool \<Rightarrow> int \<Rightarrow> 'c ApplyMsg \<Rightarrow> 'c rtest \<Rightarrow> 'c rtest outcome" where
  "applier_remote shw c e self m ts =
     (if \<not> am_CommandValid m then Ret ts
      else bindo (TesterProxy_CheckLogs c shw self m ts) (\<lambda>((err, prevok), ts').
        let err_msg = (if am_CommandIndex m > 1 \<and> \<not> prevok then out_of_order self (am_CommandIndex m) else err)
        in if err_msg \<noteq> '''' then TesterProxy_ApplyErr e self err_msg ts' else Ret ts'))"

type_synonym 'c report = "nat \<times> 'c ApplyMsg \<times> bool \<times> bool"

definition run_remote :: "('c option \<Rightarrow> string) \<Rightarrow> 'c report list \<Rightarrow> 'c rtest \<Rightarrow> 'c rtest outcome" where
  "run_remote shw ms ts = foldo (\<lambda>(i, m, c, e). applier_remote shw c e (int i) m) ms ts"

definition delivered :: "'c report list \<Rightarrow> (nat \<times> 'c ApplyMsg) list" where
  "delivered ms = map (\<lambda>(i, m, c, e). (i, m)) (filter (\<lambda>(i, m, c, e). c) ms)"

text \<open>A connection that was closed stays closed: after a lost check the error report is lost too.\<close>

definition closed_for_good :: "'c report list \<Rightarrow> bool" where
  "closed_for_good ms \<longleftrightarrow> list_all (\<lambda>(i, m, c, e). e \<longrightarrow> c) ms"

lemma delivered_snoc [simp]: "delivered (ms @ [(i, m, c, e)]) = delivered ms @ (if c then [(i, m)] else [])"
  by (simp add: delivered_def)

lemma applier_remote_lost: "applier_remote shw False False self m ts = Ret ts"
  by (simp add: applier_remote_def TesterProxy_CheckLogs_def TesterProxy_ApplyErr_def Let_def)

lemma applier_remote_delivered: "applier_remote shw True True self m ts = applier shw self m ts"
proof -
  have eq: "(TesterProxy_ApplyErr True :: int \<Rightarrow> string \<Rightarrow> 'a rtest \<Rightarrow> _) = ApplyErr"
    by (simp add: TesterProxy_ApplyErr_def fun_eq_iff)
  show ?thesis unfolding applier_remote_def applier_def TesterProxy_CheckLogs_def eq by simp
qed

text \<open>When the application is fine the error report is not made, so it does not matter that it would be lost.\<close>

lemma applier_remote_silent:
  assumes "applier shw (int i) m ts = Ret ts'" "no_applyErr ts'" "i < length (rt_srvs ts)"
  shows "applier_remote shw True e (int i) m ts = Ret ts'"
proof (cases "am_CommandValid m")
  case True
  obtain err prevok ts1 where c: "CheckLogs shw (int i) m ts = Ret ((err, prevok), ts1)" and len: "length (rt_srvs ts1) = length (rt_srvs ts)"
    using assms(3) by (auto simp: CheckLogs_def idx_def in_range_def Let_def rt_set_def)
  let ?err = "if am_CommandIndex m > 1 \<and> \<not> prevok then out_of_order (int i) (am_CommandIndex m) else err"
  have a: "applier shw (int i) m ts = (if ?err \<noteq> '''' then ApplyErr (int i) ?err ts1 else Ret ts1)"
    using c True by (simp add: applier_def Let_def)
  have "?err = ''''"
  proof (rule ccontr)
    assume ne: "?err \<noteq> ''''"
    then show False using ApplyErr_recorded [of i ts1 ?err] a assms len by auto
  qed
  then show ?thesis using a c True assms(1) by (simp add: applier_remote_def TesterProxy_CheckLogs_def Let_def)
qed (use assms(1) in \<open>simp add: applier_remote_def applier_def\<close>)


definition lost_second :: "nat report list" where
  "lost_second = [(0, \<lparr>am_CommandValid = True, am_Command = Some 7, am_CommandIndex = 1\<rparr>, True, True),
                  (1, \<lparr>am_CommandValid = True, am_Command = Some 8, am_CommandIndex = 1\<rparr>, False, False)]"


end
