(* ===== verification/RaftSnap.thy ===== *)
theory RaftSnap
  imports RaftServer
begin

text \<open>
  Crash and recovery of the server with snapshots of \<open>raft1/server.go\<close>: a server that is fed
  commands in order hands a snapshot to Raft at every tenth index, and a new server that starts
  from the last snapshot and is fed the commands after it again ends where the old one was.
\<close>

section \<open>Runs\<close>

definition command_msg :: "int \<Rightarrow> 'c option \<Rightarrow> 'c SnapMsg" where
  "command_msg k c = \<lparr>am_CommandValid = True, am_Command = c, am_CommandIndex = k,
     am_SnapshotValid = False, am_Snapshot = None, am_SnapshotTerm = 0, am_SnapshotIndex = 0\<rparr>"

text \<open>The messages of the commands from position \<open>p\<close> on; the command at position 0 has index 1.\<close>

definition commands_from :: "'c option list \<Rightarrow> nat \<Rightarrow> 'c SnapMsg list" where
  "commands_from cs p = map (\<lambda>j. command_msg (int (Suc j)) (cs ! j)) [p..<length cs]"

text \<open>The loop of \<open>applierSnap\<close> with the last snapshot that was handed to Raft.\<close>

type_synonym 'c snap_run = "('c rfsrv \<times> 'c rtest) \<times> (int \<times> string) option"

definition snap_step :: "('c option \<Rightarrow> string) \<Rightarrow> ('c option list \<Rightarrow> int \<Rightarrow> string) \<Rightarrow> (string \<Rightarrow> (int \<times> 'c option list) option) \<Rightarrow>
    'c SnapMsg \<Rightarrow> 'c snap_run \<Rightarrow> 'c snap_run outcome" where
  "snap_step shw enc dec m = (\<lambda>(st, sn0). bindo (applierSnap shw enc dec m st) (\<lambda>(st', sn).
     Ret (st', if sn = None then sn0 else sn)))"

definition run_snap :: "('c option \<Rightarrow> string) \<Rightarrow> ('c option list \<Rightarrow> int \<Rightarrow> string) \<Rightarrow> (string \<Rightarrow> (int \<times> 'c option list) option) \<Rightarrow>
    'c SnapMsg list \<Rightarrow> 'c snap_run \<Rightarrow> 'c snap_run outcome" where
  "run_snap shw enc dec = foldo (snap_step shw enc dec)"

definition saved_bytes :: "(int \<times> string) option \<Rightarrow> string" where
  "saved_bytes sn = (case sn of None \<Rightarrow> '''' | Some (_, b) \<Rightarrow> b)"

section \<open>The invariant\<close>

text \<open>No server has another command than \<open>cs\<close> at an index of \<open>cs\<close>, and no error is recorded.\<close>

definition agrees :: "'c option list \<Rightarrow> 'c rtest \<Rightarrow> bool" where
  "agrees cs ts \<longleftrightarrow> no_applyErr ts \<and>
     (\<forall>rs\<in>set (rt_srvs ts). \<forall>j<length cs. rs_logs rs (int (Suc j)) \<in> {None, Some (cs ! j)})"

text \<open>The server \<open>i\<close> has applied the first \<open>p\<close> commands, and the tester knows it.\<close>

definition applied_to :: "nat \<Rightarrow> 'c option list \<Rightarrow> nat \<Rightarrow> 'c rfsrv \<times> 'c rtest \<Rightarrow> bool" where
  "applied_to i cs p = (\<lambda>(rs, ts). rf_me rs = int i \<and> i < length (rt_srvs ts) \<and> lastApplied rs = int p \<and> p \<le> length cs \<and>
     agrees cs ts \<and> (\<forall>j<p. rf_log rs (int (Suc j)) = Some (cs ! j)) \<and> (\<forall>j<p. rs_logs (rt_srvs ts ! i) (int (Suc j)) \<noteq> None))"

text \<open>The last snapshot is the one of the last index that is due.\<close>

definition last_due :: "nat \<Rightarrow> nat" where
  "last_due p = 10 * ((p + 1) div 10) - 1"

definition snap_ok :: "('c option list \<Rightarrow> int \<Rightarrow> string) \<Rightarrow> 'c option list \<Rightarrow> nat \<Rightarrow> (int \<times> string) option \<Rightarrow> bool" where
  "snap_ok enc cs p sn \<longleftrightarrow> (if p < 9 then sn = None else
     \<exists>x. sn = Some (int (last_due p), enc (x # take (last_due p) cs) (int (last_due p))))"

lemma last_due_Suc: "last_due (Suc p) = (if (p + 2) mod 10 = 0 then Suc p else last_due p)"
proof -
  have "Suc (p + 1) div 10 = (if Suc (p + 1) mod 10 = 0 then Suc ((p + 1) div 10) else (p + 1) div 10)" by (rule div_Suc)
  then show ?thesis by (auto simp: last_due_def)
qed

lemma agreesI:
  assumes "map applyErr srvs' = map applyErr (rt_srvs ts)" "rt_srvs ts' = srvs'" "agrees cs ts"
    "\<And>q j. q < length srvs' \<Longrightarrow> j < length cs \<Longrightarrow> rs_logs (srvs' ! q) (int (Suc j)) \<in> {rs_logs (rt_srvs ts ! q) (int (Suc j)), Some (cs ! j), None}"
  shows "agrees cs ts'"
proof -
  have "length srvs' = length (rt_srvs ts)" by (rule map_eq_imp_length_eq [OF assms(1)])
  moreover have "rs_logs (rt_srvs ts ! q) (int (Suc j)) \<in> {None, Some (cs ! j)}" if "q < length (rt_srvs ts)" "j < length cs" for q j
    using assms(3) that by (simp add: agrees_def)
  ultimately have "\<forall>rs\<in>set srvs'. \<forall>j<length cs. rs_logs rs (int (Suc j)) \<in> {None, Some (cs ! j)}"
    using assms(4) by (fastforce simp: in_set_conv_nth)
  then show ?thesis using assms(1-3) by (simp add: agrees_def no_applyErr_map del: of_nat_Suc)
qed

lemma CheckLogs_agrees:
  assumes "i < length (rt_srvs ts)" "agrees cs ts" "p < length cs" "am_CommandIndex m = int (Suc p)" "am_Command m = cs ! p"
  shows "\<exists>ts'. CheckLogs shw (int i) m ts = Ret (('''', rs_logs (rt_srvs ts ! i) (int p) \<noteq> None), ts') \<and>
    length (rt_srvs ts') = length (rt_srvs ts) \<and> agrees cs ts' \<and>
    rs_logs (rt_srvs ts' ! i) = (rs_logs (rt_srvs ts ! i))(int (Suc p) \<mapsto> cs ! p)"
proof -
  let ?me = "rt_srvs ts ! i"
  let ?srvs = "(rt_srvs ts)[i := ?me\<lparr>rs_logs := (rs_logs ?me)(int (Suc p) \<mapsto> cs ! p)\<rparr>]"
  have "foldl (logs_differ shw (int i) m) '''' (List.enumerate 0 (rt_srvs ts)) = ''''"
    unfolding logs_differ_fold using assms(2-5) by (auto simp: in_set_enumerate_eq agrees_def simp del: of_nat_Suc)
  then obtain ts' where ts': "CheckLogs shw (int i) m ts = Ret (('''', rs_logs ?me (int p) \<noteq> None), ts')" "rt_srvs ts' = ?srvs"
    using assms(1,4,5) by (auto simp: CheckLogs_def idx_def in_range_def Let_def rs_entry_def rt_set_def)
  moreover have "agrees cs ts'"
  proof (rule agreesI [OF _ ts'(2) assms(2)])
    show "map applyErr ?srvs = map applyErr (rt_srvs ts)" using assms(1) by (simp add: map_update list_update_same_conv)
    show "rs_logs (?srvs ! q) (int (Suc j)) \<in> {rs_logs (rt_srvs ts ! q) (int (Suc j)), Some (cs ! j), None}"
      if "q < length ?srvs" "j < length cs" for q j
      using that assms(1) by (auto simp: nth_list_update)
  qed
  ultimately show ?thesis using assms(1) by simp
qed

lemma snap_log_commands:
  assumes "\<And>j. j < k \<Longrightarrow> rf_log rs (int (Suc j)) = Some (cs ! j)" "k \<le> length cs"
  shows "\<exists>x. snap_log (int k) rs = x # take k cs"
proof -
  let ?f = "\<lambda>j. case rf_log rs (int j) of None \<Rightarrow> None | Some c \<Rightarrow> c"
  have "snap_log (int k) rs = map ?f [0..<Suc k]" by (simp add: snap_log_def nat_add_distrib)
  also have "\<dots> = ?f 0 # map (\<lambda>j. ?f (Suc j)) [0..<k]" by (simp only: map_upt_Suc)
  also have "map (\<lambda>j. ?f (Suc j)) [0..<k] = take k cs"
    using assms by (intro nth_equalityI) (simp_all del: of_nat_Suc)
  finally show ?thesis by blast
qed

lemma snap_step_applied:
  assumes "applied_to i cs p st" "p < length cs" "snap_ok enc cs p sn0"
  shows "\<exists>st' sn'. snap_step shw enc dec (command_msg (int (Suc p)) (cs ! p)) (st, sn0) = Ret (st', sn') \<and>
    applied_to i cs (Suc p) st' \<and> snap_ok enc cs (Suc p) sn'"
proof -
  obtain rs ts where st: "st = (rs, ts)" by force
  have a: "rf_me rs = int i" "i < length (rt_srvs ts)" "lastApplied rs = int p" "agrees cs ts"
    "\<And>j. j < p \<Longrightarrow> rf_log rs (int (Suc j)) = Some (cs ! j)" "\<And>j. j < p \<Longrightarrow> rs_logs (rt_srvs ts ! i) (int (Suc j)) \<noteq> None"
    using assms(1) by (simp_all add: applied_to_def st)
  let ?m = "command_msg (int (Suc p)) (cs ! p)"
  let ?rs = "rs\<lparr>rf_log := (rf_log rs)(int (Suc p) \<mapsto> cs ! p), lastApplied := int (Suc p)\<rparr>"
  let ?sn = "if (p + 2) mod 10 = 0 then Some (int (Suc p), enc (snap_log (int (Suc p)) ?rs) (int (Suc p))) else None"
  obtain ts' where ts': "CheckLogs shw (int i) (ApplyMsg.truncate ?m) ts = Ret (('''', rs_logs (rt_srvs ts ! i) (int p) \<noteq> None), ts')"
    "length (rt_srvs ts') = length (rt_srvs ts)" "agrees cs ts'"
    "rs_logs (rt_srvs ts' ! i) = (rs_logs (rt_srvs ts ! i))(int (Suc p) \<mapsto> cs ! p)"
    using CheckLogs_agrees [OF a(2,4) assms(2), of "ApplyMsg.truncate ?m" shw] by (auto simp: command_msg_def ApplyMsg.truncate_def)
  have prev: "rs_logs (rt_srvs ts ! i) (int p) \<noteq> None" if "p \<noteq> 0" using a(6) [of "p - 1"] that by simp
  have due: "(int (Suc p) + 1) mod SnapShotInterval = 0 \<longleftrightarrow> (p + 2) mod 10 = 0"
    unfolding SnapShotInterval_def by presburger
  have "snap_step shw enc dec ?m (st, sn0) = Ret ((?rs, ts'), if ?sn = None then sn0 else ?sn)"
    using a(1,3) ts'(1) prev due unfolding st
    by (cases "p = 0") (simp_all add: snap_step_def applierSnap_def applierSnap_command_def command_msg_def Let_def)
  moreover
  have log: "rf_log ?rs (int (Suc j)) = Some (cs ! j)" if "j < Suc p" for j
    using that a(5) [of j] by (auto simp: less_Suc_eq)
  moreover have "applied_to i cs (Suc p) (?rs, ts')"
    using a(1,2,5,6) ts'(2-4) assms(2) unfolding applied_to_def by (auto simp: less_Suc_eq)
  moreover have "snap_ok enc cs (Suc p) (if ?sn = None then sn0 else ?sn)"
  proof (cases "(p + 2) mod 10 = 0")
    case True
    obtain x where "snap_log (int (Suc p)) ?rs = x # take (Suc p) cs"
      using snap_log_commands [of "Suc p" ?rs cs] log assms(2) by auto
    moreover have "\<not> Suc p < 9" using True by presburger
    ultimately show ?thesis using True by (auto simp: snap_ok_def last_due_Suc)
  next
    case False
    have "p \<noteq> 8"
    proof
      assume "p = 8"
      then show False using False by simp
    qed
    then have "Suc p < 9 \<longleftrightarrow> p < 9" by linarith
    moreover have "last_due (Suc p) = last_due p" using False unfolding last_due_Suc by (rule if_not_P)
    ultimately show ?thesis using False assms(3) by (simp only: snap_ok_def if_False if_True simp_thms)
  qed
  ultimately show ?thesis by blast
qed

lemma run_snap_applied:
  assumes "applied_to i cs p st" "snap_ok enc cs p sn0"
  shows "\<exists>st' sn'. run_snap shw enc dec (commands_from cs p) (st, sn0) = Ret (st', sn') \<and>
    applied_to i cs (length cs) st' \<and> snap_ok enc cs (length cs) sn'"
  using assms
proof (induction "length cs - p" arbitrary: p st sn0)
  case 0
  then have "p = length cs" by (simp add: applied_to_def split: prod.splits)
  then show ?case using 0 by (simp add: commands_from_def run_snap_def)
next
  case (Suc n)
  then have p: "p < length cs" by simp
  obtain st' sn' where s: "snap_step shw enc dec (command_msg (int (Suc p)) (cs ! p)) (st, sn0) = Ret (st', sn')"
    "applied_to i cs (Suc p) st'" "snap_ok enc cs (Suc p) sn'"
    using snap_step_applied [OF Suc.prems(1) p Suc.prems(2), of shw dec] by blast
  have "commands_from cs p = command_msg (int (Suc p)) (cs ! p) # commands_from cs (Suc p)"
    using p by (simp add: commands_from_def upt_conv_Cons del: of_nat_Suc)
  then show ?case using s Suc.hyps(1) [OF _ s(2,3)] Suc.hyps(2) by (simp add: run_snap_def)
qed

section \<open>Recovery\<close>

lemma last_due_bounds: "last_due p \<le> p" "p < last_due p + 10" "last_due (last_due p) = last_due p"
  "p < 9 \<Longrightarrow> last_due p = 0" "\<not> p < 9 \<Longrightarrow> 9 \<le> last_due p"
proof -
  define d where "d = (p + 1) div 10"
  have d: "10 * d \<le> p + 1" "p + 1 < 10 * d + 10" "last_due p = 10 * d - 1" by (auto simp: d_def last_due_def)
  show "last_due p \<le> p" "p < last_due p + 10" using d by linarith+
  have "p < 9 \<longleftrightarrow> d = 0" using d(1,2) by arith
  then show "p < 9 \<Longrightarrow> last_due p = 0" "\<not> p < 9 \<Longrightarrow> 9 \<le> last_due p" using d(3) by auto
  show "last_due (last_due p) = last_due p" by (cases d) (simp_all add: d(3), simp_all add: last_due_def)
qed

lemma snap_ok_last_due: "snap_ok enc cs p sn \<Longrightarrow> snap_ok enc cs (last_due p) sn"
  using last_due_bounds(3-5) [of p] by (cases "p < 9") (auto simp: snap_ok_def)

lemma newRfsrv_recovers:
  assumes rt: "\<And>xs k. dec (enc xs k) = Some (k, xs)" and ne: "\<And>xs k. enc xs k \<noteq> ''''"
    and a: "applied_to i cs p (rs, ts)" and sn: "snap_ok enc cs p sn"
  shows "\<exists>s ts'. newRfsrv dec (int i) (saved_bytes sn) True ts = Ret (s, ts') \<and> applied_to i cs (last_due p) (s, ts')"
proof (cases "p < 9")
  case True
  then show ?thesis using a sn last_due_bounds(4) [of p]
    by (simp add: snap_ok_def saved_bytes_def newRfsrv_def applied_to_def Let_def)
next
  case False
  let ?k = "last_due p"
  obtain x where x: "sn = Some (int ?k, enc (x # take ?k cs) (int ?k))" using sn False by (auto simp: snap_ok_def)
  let ?log = "\<lambda>j. if in_range (x # take ?k cs) j then Some ((x # take ?k cs) ! nat j) else None"
  let ?s = "\<lparr>rf_me = int i, lastApplied = int ?k, rf_log = ?log\<rparr>"
  let ?me = "rt_srvs ts ! i"
  let ?srvs = "(rt_srvs ts)[i := ?me\<lparr>rs_logs := ?log\<rparr>]"
  have i: "i < length (rt_srvs ts)" and ag: "agrees cs ts" and k: "?k \<le> length cs"
    using a last_due_bounds(1) [of p] by (simp_all add: applied_to_def)
  have log: "?log (int (Suc j)) = (if j < ?k then Some (cs ! j) else None)" for j
    using k by (simp add: in_range_def nat_add_distrib)
  obtain ts' where ts': "newRfsrv dec (int i) (saved_bytes sn) True ts = Ret (?s, ts')" "rt_srvs ts' = ?srvs"
    using i ne rt by (auto simp: newRfsrv_def x saved_bytes_def Let_def ingestSnap_def IngestLog_def idx_def in_range_def rt_set_def)
  have "agrees cs ts'"
  proof (rule agreesI [OF _ ts'(2) ag])
    show "map applyErr ?srvs = map applyErr (rt_srvs ts)" using i by (simp add: map_update list_update_same_conv)
    show "rs_logs (?srvs ! q) (int (Suc j)) \<in> {rs_logs (rt_srvs ts ! q) (int (Suc j)), Some (cs ! j), None}"
      if "q < length ?srvs" "j < length cs" for q j
      using that i log [of j] by (cases "q = i") (simp_all del: of_nat_Suc)
  qed
  then have "applied_to i cs ?k (?s, ts')"
    using i k log by (simp add: applied_to_def ts'(2) del: of_nat_Suc)
  then show ?thesis using ts'(1) by blast
qed

text \<open>
  C13. Crash recovery of the server with snapshots: a server that is fed the commands \<open>cs\<close> in order
  ends having applied all of them, with a snapshot at most nine commands old; a new server that
  starts from that snapshot and is fed only the commands after it ends with the same commands
  at the same indices, and the tester has recorded no error in either life. The encoding of
  snapshots is assumed to be decodable and never empty.
\<close>

theorem snapshot_recovery:
  assumes "\<And>xs k. dec (enc xs k) = Some (k, xs)" and "\<And>xs k. enc xs k \<noteq> ''''" and "i < n"
  shows "\<exists>rs ts sn k s ts1 rs2 ts2 sn2.
    newRfsrv dec (int i) '''' True (makeTest n) = Ret (s, makeTest n) \<and>
    run_snap shw enc dec (commands_from cs 0) ((s, makeTest n), None) = Ret ((rs, ts), sn) \<and>
    lastApplied rs = int (length cs) \<and> no_applyErr ts \<and> k \<le> length cs \<and> length cs < k + 10 \<and>
    (\<exists>s2. newRfsrv dec (int i) (saved_bytes sn) True ts = Ret (s2, ts1) \<and> lastApplied s2 = int k \<and>
      run_snap shw enc dec (commands_from cs k) ((s2, ts1), sn) = Ret ((rs2, ts2), sn2)) \<and>
    lastApplied rs2 = int (length cs) \<and> no_applyErr ts2 \<and>
    (\<forall>j<length cs. rf_log rs (int (Suc j)) = Some (cs ! j) \<and> rf_log rs2 (int (Suc j)) = Some (cs ! j))"
proof -
  let ?s = "\<lparr>rf_me = int i, lastApplied = 0, rf_log = Map.empty\<rparr>"
  have new: "newRfsrv dec (int i) '''' True (makeTest n) = Ret (?s, makeTest n)" by (simp add: newRfsrv_def)
  have "applied_to i cs 0 (?s, makeTest n)" using assms(3)
    by (simp add: applied_to_def agrees_def makeTest_def newRaftServer_def no_applyErr_def list_all_iff)
  moreover have "snap_ok enc cs 0 None" by (simp add: snap_ok_def)
  ultimately obtain rs ts sn where r: "run_snap shw enc dec (commands_from cs 0) ((?s, makeTest n), None) = Ret ((rs, ts), sn)"
    "applied_to i cs (length cs) (rs, ts)" "snap_ok enc cs (length cs) sn"
    using run_snap_applied [of i cs 0 "(?s, makeTest n)" enc None shw dec] by fast
  let ?k = "last_due (length cs)"
  obtain s2 ts1 where s2: "newRfsrv dec (int i) (saved_bytes sn) True ts = Ret (s2, ts1)" "applied_to i cs ?k (s2, ts1)"
    using newRfsrv_recovers [OF assms(1,2) r(2,3)] by blast
  obtain rs2 ts2 sn2 where r2: "run_snap shw enc dec (commands_from cs ?k) ((s2, ts1), sn) = Ret ((rs2, ts2), sn2)"
    "applied_to i cs (length cs) (rs2, ts2)"
    using run_snap_applied [OF s2(2) snap_ok_last_due [OF r(3)], of shw dec] by fast
  have "lastApplied rs = int (length cs)" "no_applyErr ts" "lastApplied s2 = int ?k" "lastApplied rs2 = int (length cs)" "no_applyErr ts2"
    "\<forall>j<length cs. rf_log rs (int (Suc j)) = Some (cs ! j) \<and> rf_log rs2 (int (Suc j)) = Some (cs ! j)"
    using r(2) s2(2) r2(2) by (auto simp: applied_to_def agrees_def)
  then show ?thesis using new r(1) s2(1) r2(1) last_due_bounds(1,2) [of "length cs"] by blast
qed

text \<open>An encoding of snapshots that can be decoded.\<close>

definition bool_char :: "bool option \<Rightarrow> char" where
  "bool_char x = (case x of None \<Rightarrow> CHR ''n'' | Some b \<Rightarrow> if b then CHR ''t'' else CHR ''f'')"

definition char_bool :: "char \<Rightarrow> bool option" where
  "char_bool c = (if c = CHR ''n'' then None else Some (c = CHR ''t''))"

definition enc_snap :: "bool option list \<Rightarrow> int \<Rightarrow> string" where
  "enc_snap xs k = itoa k @ '' '' @ map bool_char xs"

definition dec_snap :: "string \<Rightarrow> (int \<times> bool option list) option" where
  "dec_snap b = Some (atoi (takeWhile (\<lambda>c. c \<noteq> CHR '' '') b), map char_bool (tl (dropWhile (\<lambda>c. c \<noteq> CHR '' '') b)))"

lemma dec_enc_snap: "dec_snap (enc_snap xs k) = Some (k, xs)"
proof -
  have "CHR '' '' \<notin> set (itoa k)" by (rule not_in_itoa) simp_all
  then have i: "\<forall>c\<in>set (itoa k). c \<noteq> CHR '' ''" by metis
  have "char_bool (bool_char x) = x" for x by (auto simp: char_bool_def bool_char_def split: option.splits)
  then have "map char_bool (map bool_char xs) = xs" by (simp add: comp_def)
  then show ?thesis using i by (simp add: dec_snap_def enc_snap_def takeWhile_append dropWhile_append3 atoi_itoa)
qed

theorem snapshot_recovery_witness:
  "\<exists>rs ts sn k s2 ts1 rs2 ts2 sn2.
    run_snap (\<lambda>_. ''c'') enc_snap dec_snap (commands_from (replicate 12 (Some True)) 0)
      ((\<lparr>rf_me = 1, lastApplied = 0, rf_log = Map.empty\<rparr>, makeTest 3), None) = Ret ((rs, ts), sn) \<and>
    newRfsrv dec_snap 1 (saved_bytes sn) True ts = Ret (s2, ts1) \<and> lastApplied s2 = int k \<and> 2 < k \<and>
    run_snap (\<lambda>_. ''c'') enc_snap dec_snap (commands_from (replicate 12 (Some True)) k) ((s2, ts1), sn) = Ret ((rs2, ts2), sn2) \<and>
    lastApplied rs2 = 12 \<and> no_applyErr ts2 \<and> rf_log rs2 1 = Some (Some True)"
proof -
  have "newRfsrv dec_snap (int 1) '''' True (makeTest 3) = Ret (s, makeTest 3) \<Longrightarrow> s = \<lparr>rf_me = 1, lastApplied = 0, rf_log = Map.empty\<rparr>" for s
    by (simp add: newRfsrv_def)
  moreover have "enc_snap xs k \<noteq> ''''" for xs k by (simp add: enc_snap_def)
  ultimately show ?thesis
    using snapshot_recovery [of dec_snap enc_snap 1 3 "\<lambda>_. ''c''" "replicate 12 (Some True)"] dec_enc_snap
    by (force dest!: spec [of _ "0::nat"])
qed

end
