(* ===== verification/RaftTest.thy ===== *)
theory RaftTest
  imports RaftServer
begin

text \<open>
  What the Raft tests conclude from the tester's view of the servers, \<open>raft1/test.go\<close>:
  \<open>checkOneLeader\<close>, \<open>checkTerms\<close>, \<open>nCommitted\<close>, \<open>one\<close> and \<open>wait\<close>. Time is a list of
  observations: one element for each iteration of a loop that sleeps, with the state the
  iteration sees.
\<close>

section \<open>One leader\<close>

definition leads :: "states \<Rightarrow> int \<Rightarrow> int \<Rightarrow> bool" where
  "leads sts t i \<longleftrightarrow> (i, t, True) \<in> set sts"

text \<open>No two leaders of one term; and the leader of the newest term that has one.\<close>

definition one_per_term :: "states \<Rightarrow> bool" where
  "one_per_term sts \<longleftrightarrow> (\<forall>t i j. leads sts t i \<and> leads sts t j \<longrightarrow> i = j)"

definition newest_leader :: "states \<Rightarrow> int \<Rightarrow> bool" where
  "newest_leader sts l \<longleftrightarrow> (\<exists>t. leads sts t l \<and> (\<forall>u j. leads sts u j \<longrightarrow> u \<le> t))"

lemma leaders_of_facts:
  "wf_map (leaders_of sts)" "at (leaders_of sts) t = map fst (filter (\<lambda>(i, u, l). l \<and> u = t) sts)"
  "t \<in> fst ` set (leaders_of sts) \<longleftrightarrow> (\<exists>i. leads sts t i)"
proof (induction sts rule: rev_induct)
  case (snoc x sts)
  {
    case 1
    show ?case using snoc(1) by (cases x) (simp add: leaders_of_def add_leader_def)
  next
    case 2
    show ?case using snoc(2) by (cases x) (simp add: leaders_of_def add_leader_def at_def update_conv')
  next
    case 3
    show ?case using snoc(3) by (cases x) (auto simp: leaders_of_def add_leader_def leads_def)
  }
qed (simp_all add: leaders_of_def leads_def at_def)

lemma newest_term:
  defines "f \<equiv> \<lambda>last (t, ls). if t > last then t else (last :: int)"
  shows "foldl f b m \<in> insert b (fst ` set m)" "\<forall>t\<in>insert b (fst ` set m). t \<le> foldl f b m"
proof (induction m arbitrary: b)
  case (Cons x m)
  { case 1 show ?case using Cons(1) [of "f b x"] by (cases x) (force simp: f_def) }
  { case 2 show ?case using Cons(2) [of "f b x"] by (cases x) (auto simp: f_def) }
qed simp_all

lemma several_leaders:
  assumes "distinct (map fst sts)"
  shows "list_ex (\<lambda>(t, ls). length ls > 1) (leaders_of sts) \<longleftrightarrow> \<not> one_per_term sts"
proof -
  let ?at = "\<lambda>t. map fst (filter (\<lambda>(i, u, l). l \<and> u = t) sts)"
  have d: "distinct (?at t)" for t using distinct_filter [of sts] assms by (simp add: distinct_map inj_on_filter_key_eq inj_on_def)
  have s: "set (?at t) = {i. leads sts t i}" for t by (force simp: leads_def)
  have len: "length (?at t) > 1 \<longleftrightarrow> (\<exists>i j. leads sts t i \<and> leads sts t j \<and> i \<noteq> j)" for t
    using d [of t] s [of t] by (cases "?at t"; cases "tl (?at t)") (auto simp: set_eq_iff, metis+)
  have e: "at (leaders_of sts) (fst x) = snd x" if "x \<in> set (leaders_of sts)" for x
    using at_entry [OF leaders_of_facts(1), of "fst x" "snd x"] that by simp
  have "list_ex (\<lambda>(t, ls). length ls > 1) (leaders_of sts) \<longleftrightarrow> (\<exists>t\<in>fst ` set (leaders_of sts). length (at (leaders_of sts) t) > 1)"
    by (simp add: list_ex_iff split_beta bex_simps(7) e cong: bex_cong)
  also have "\<dots> \<longleftrightarrow> (\<exists>t. length (?at t) > 1)" unfolding Bex_def leaders_of_facts(2,3) len by blast
  finally show ?thesis unfolding one_per_term_def len by blast
qed

lemma one_leader_round_result:
  assumes "distinct (map fst sts)" "\<forall>(i, t, l)\<in>set sts. 0 \<le> t"
  shows "one_leader_round sts = Ret None \<longleftrightarrow> (\<forall>t i. \<not> leads sts t i)"
    "one_leader_round sts = Ret (Some l) \<longleftrightarrow> one_per_term sts \<and> newest_leader sts l"
proof -
  let ?m = "leaders_of sts"
  let ?t = "foldl (\<lambda>last (t, ls). if t > last then t else last) (- 1) ?m"
  have r: "one_leader_round sts = (if \<not> one_per_term sts then Inl Fatal
    else if ?m \<noteq> [] then bindo (idx (at ?m ?t) 0) (\<lambda>l. Ret (Some l)) else Ret None)"
    unfolding one_leader_round_def Let_def several_leaders [OF assms(1)] by simp
  have none: "?m = [] \<longleftrightarrow> (\<forall>t i. \<not> leads sts t i)" using leaders_of_facts(3) [of _ sts] by (cases ?m) fastforce+
  have l: "\<exists>i. leads sts ?t i" "\<And>u j. leads sts u j \<Longrightarrow> u \<le> ?t" if m: "?m \<noteq> []"
  proof -
    have k: "t \<in> fst ` set ?m \<longleftrightarrow> (\<exists>i. leads sts t i)" for t by (rule leaders_of_facts(3))
    show le: "u \<le> ?t" if "leads sts u j" for u j using newest_term(2) [of "- 1" ?m] k that by blast
    obtain t i where ti: "leads sts t i" using m none by blast
    then have "0 \<le> t" using assms(2) by (auto simp: leads_def)
    then have "?t \<noteq> - 1" using le [OF ti] by linarith
    then show "\<exists>i. leads sts ?t i" using newest_term(1) [of "- 1" ?m] k by blast
  qed
  have at: "set (at ?m t) = {i. leads sts t i}" for t unfolding leaders_of_facts(2) by (force simp: leads_def)
  have ne: "at ?m ?t \<noteq> []" if m: "?m \<noteq> []"
  proof -
    obtain i where "i \<in> set (at ?m ?t)" using l(1) [OF m] unfolding at by blast
    then show ?thesis by auto
  qed
  then show "one_leader_round sts = Ret None \<longleftrightarrow> (\<forall>t i. \<not> leads sts t i)"
    unfolding r none [symmetric] using none by (auto simp: idx_def in_range_def one_per_term_def)
  have "one_leader_round sts = Ret (Some l) \<longleftrightarrow> one_per_term sts \<and> ?m \<noteq> [] \<and> hd (at ?m ?t) = l"
    unfolding r using ne by (auto simp: idx_def in_range_def hd_conv_nth)
  also have "\<dots> \<longleftrightarrow> one_per_term sts \<and> ?m \<noteq> [] \<and> leads sts ?t l"
    using hd_in_set [OF ne] at [of ?t] unfolding one_per_term_def by blast
  also have "\<dots> \<longleftrightarrow> one_per_term sts \<and> newest_leader sts l"
  proof (cases "?m = []")
    case False
    then obtain i where i: "leads sts ?t i" using l(1) by blast
    have "t = ?t" if "leads sts t l" "\<forall>u j. leads sts u j \<longrightarrow> u \<le> t" for t
      using l(2) [OF False that(1)] that(2) i by (blast intro: order_antisym)
    then show ?thesis using False l(2) unfolding newest_leader_def by blast
  qed (use none in \<open>auto simp: newest_leader_def\<close>)
  finally show "one_leader_round sts = Ret (Some l) \<longleftrightarrow> one_per_term sts \<and> newest_leader sts l" .
qed

text \<open>
  \<open>checkOneLeader\<close> returns exactly the leader of the newest term that has one, in the first of its
  at most ten observations in which some server says that it leads, and only if no term has two
  leaders there. Every observation lists a server at most once, with a term that is not negative.
\<close>

lemma checkOneLeader_exact:
  assumes "\<forall>sts\<in>set obs. distinct (map fst sts) \<and> (\<forall>(i, t, b)\<in>set sts. 0 \<le> t)"
  shows "checkOneLeader iters obs = Some (Ret l) \<longleftrightarrow>
    (\<exists>p<length obs. p < iters \<and> (\<forall>q<p. \<forall>t i. \<not> leads (obs ! q) t i) \<and> one_per_term (obs ! p) \<and> newest_leader (obs ! p) l)"
  using assms
proof (induction iters obs rule: checkOneLeader.induct)
  case (3 iters sts rest)
  have "distinct (map fst sts)" "\<forall>(i, t, b)\<in>set sts. 0 \<le> t" using "3.prems" by auto
  note r = one_leader_round_result [OF this]
  show ?case
  proof (cases "one_leader_round sts = Ret None")
    case True
    then have "\<not> newest_leader sts l" "\<forall>t i. \<not> leads sts t i" using r(1) by (auto simp: newest_leader_def)
    then show ?thesis using True "3.IH" [OF True] "3.prems" by (simp add: Ex_less_Suc2 All_less_Suc2 conj_commute)
  next
    case False
    then have "\<exists>t i. leads sts t i" using r(1) by blast
    moreover have "checkOneLeader (Suc iters) (sts # rest) = Some (Ret l) \<longleftrightarrow> one_leader_round sts = Ret (Some l)"
      using False by (auto split: sum.splits option.splits)
    ultimately show ?thesis unfolding r(2) by (auto simp: Ex_less_Suc2 All_less_Suc2)
  qed
qed simp_all

lemma checkOneLeader_exact_witness:
  "checkOneLeader 10 [[(0, 1, False), (1, 1, False)], [(0, 1, True), (1, 2, True)]] = Some (Ret 1)"
proof -
  let ?obs = "[[(0, 1, False), (1, 1, False)], [(0, 1, True), (1, 2, True)]] :: states list"
  have "one_per_term (?obs ! 1) \<and> newest_leader (?obs ! 1) 1" "\<forall>q<1. \<forall>t i. \<not> leads (?obs ! q) t i"
    by (auto simp: one_per_term_def newest_leader_def leads_def)
  then have "\<exists>p<length ?obs. p < 10 \<and> (\<forall>q<p. \<forall>t i. \<not> leads (?obs ! q) t i) \<and> one_per_term (?obs ! p) \<and> newest_leader (?obs ! p) 1"
    by (intro exI [of _ 1]) simp
  moreover have "\<forall>sts\<in>set ?obs. distinct (map fst sts) \<and> (\<forall>(i, t, b)\<in>set sts. 0 \<le> t)" by simp
  ultimately show ?thesis using checkOneLeader_exact [of ?obs 10 1] by blast
qed

section \<open>Agreement\<close>

text \<open>
  One attempt of \<open>one\<close> to find a leader: at most one call of \<open>Start\<close> on each server, from the one
  after the last tried; what a server that is connected and running would answer is \<open>ans\<close>.
\<close>

fun try_start :: "nat \<Rightarrow> nat \<Rightarrow> (nat \<Rightarrow> (int \<times> int \<times> bool) option) \<Rightarrow> nat \<Rightarrow> int \<times> nat" where
  "try_start n 0 ans starts = (-1, starts)"
| "try_start n (Suc left) ans starts = (let starts' = (starts + 1) mod n in
     case ans starts' of
       Some (index1, _, True) \<Rightarrow> (index1, starts')
     | _ \<Rightarrow> try_start n left ans starts')"

text \<open>The wait for agreement; the list ends when its two seconds are over.\<close>

fun await_agreement :: "int \<Rightarrow> 'c option \<Rightarrow> int \<Rightarrow> 'c rtest list \<Rightarrow> bool outcome" where
  "await_agreement index cmd expectedServers [] = Ret False"
| "await_agreement index cmd expectedServers (ts # rest) = bindo (nCommitted index ts) (\<lambda>(nd, cmd1).
     if nd > 0 \<and> nd \<ge> expectedServers \<and> cmd1 = cmd then Ret True
     else await_agreement index cmd expectedServers rest)"

text \<open>The rounds of \<open>one\<close>; the list ends when the ten seconds are over or the test has been \<open>finished\<close>.\<close>

type_synonym 'c one_round = "(nat \<Rightarrow> (int \<times> int \<times> bool) option) \<times> 'c rtest list"

fun one_cmd :: "nat \<Rightarrow> 'c option \<Rightarrow> int \<Rightarrow> bool \<Rightarrow> bool \<Rightarrow> nat \<Rightarrow> 'c one_round list \<Rightarrow> int outcome" where
  "one_cmd n cmd expectedServers retry finished starts [] = (if \<not> finished then Inl Fatal else Ret (-1))"
| "one_cmd n cmd expectedServers retry finished starts ((ans, obs) # rest) =
     (let (index, starts') = try_start n n ans starts in
      if index \<noteq> -1 then bindo (await_agreement index cmd expectedServers obs) (\<lambda>agreed.
        if agreed then Ret index
        else if \<not> retry then Inl Fatal
        else one_cmd n cmd expectedServers retry finished starts' rest)
      else one_cmd n cmd expectedServers retry finished starts' rest)"

text \<open>
  \<open>wait\<close>: at most 30 looks at the servers, with the terms they answer, and a last one. The
  result -1 is \<open>Moved_on\<close>.
\<close>

datatype 'c waited = Moved_on | Decided "'c option"

fun wait_loop :: "nat \<Rightarrow> int \<Rightarrow> int \<Rightarrow> int \<Rightarrow> ('c rtest \<times> int list) list \<Rightarrow> bool outcome option" where
  "wait_loop 0 index n startTerm _ = Some (Ret False)"
| "wait_loop (Suc iters) index n startTerm [] = None"
| "wait_loop (Suc iters) index n startTerm ((ts, terms) # rest) = (case nCommitted index ts of
      Inl e \<Rightarrow> Some (Inl e)
    | Inr (nd, _) \<Rightarrow> if nd \<ge> n then Some (Ret False)
        else if startTerm > -1 \<and> list_ex (\<lambda>t. t > startTerm) terms then Some (Ret True)
        else wait_loop iters index n startTerm rest)"

definition wait :: "int \<Rightarrow> int \<Rightarrow> int \<Rightarrow> ('c rtest \<times> int list) list \<Rightarrow> 'c rtest \<Rightarrow> 'c waited outcome option" where
  "wait index n startTerm obs ts = map_option (\<lambda>r. bindo r (\<lambda>moved.
     if moved then Ret Moved_on
     else bindo (nCommitted index ts) (\<lambda>(nd, cmd). if nd < n then Inl Fatal else Ret (Decided cmd))))
     (wait_loop 30 index n startTerm obs)"

section \<open>What is agreed\<close>

text \<open>The servers that have applied \<open>cmd\<close> at an index.\<close>

definition holders :: "int \<Rightarrow> 'c option \<Rightarrow> 'c rtest \<Rightarrow> nat set" where
  "holders index cmd ts = {i. i < length (rt_srvs ts) \<and> rs_logs (rt_srvs ts ! i) index = Some cmd}"

lemma committed_fold:
  "foldo (committed_one index) srvs (k, c) = Ret (k', c') \<longleftrightarrow>
    (\<forall>rs\<in>set srvs. applyErr rs = '''' \<and> rs_logs rs index \<in> {None, Some c'}) \<and>
    (k > 0 \<and> (\<exists>rs\<in>set srvs. rs_logs rs index \<noteq> None) \<longrightarrow> c = c') \<and>
    ((\<forall>rs\<in>set srvs. rs_logs rs index = None) \<longrightarrow> c = c') \<and>
    k' = k + int (length (filter (\<lambda>rs. rs_logs rs index \<noteq> None) srvs))" if "k \<ge> 0"
  using that
proof (induction srvs arbitrary: k c)
  case (Cons rs srvs)
  show ?case
  proof (cases "rs_logs rs index")
    case None
    then show ?thesis using Cons.IH [OF Cons.prems, of c] by (auto simp: committed_one_def rs_entry_def)
  next
    case (Some d)
    then show ?thesis using Cons.IH [of "k + 1" d] Cons.prems by (auto simp: committed_one_def rs_entry_def)
  qed
qed auto

lemma card_holders:
  assumes "\<forall>rs\<in>set (rt_srvs ts). rs_logs rs index \<in> {None, Some c}"
  shows "card (holders index c ts) = length (filter (\<lambda>rs. rs_logs rs index \<noteq> None) (rt_srvs ts))"
proof -
  have "holders index c ts = {i. i < length (rt_srvs ts) \<and> rs_logs (rt_srvs ts ! i) index \<noteq> None}"
    using assms by (auto simp: holders_def all_set_conv_all_nth)
  then show ?thesis by (simp add: length_filter_conv_card)
qed

lemma nCommitted_result:
  "nCommitted index ts = Ret (k, c) \<longleftrightarrow>
    no_applyErr ts \<and> (\<forall>rs\<in>set (rt_srvs ts). rs_logs rs index \<in> {None, Some c}) \<and> k = int (card (holders index c ts)) \<and>
    (k = 0 \<longrightarrow> c = None)"
proof -
  have "(\<forall>rs\<in>set (rt_srvs ts). rs_logs rs index = None) \<longleftrightarrow> length (filter (\<lambda>rs. rs_logs rs index \<noteq> None) (rt_srvs ts)) = 0"
    by (auto simp: filter_empty_conv)
  then show ?thesis unfolding nCommitted_def committed_fold [OF order_refl]
    using card_holders [of ts index c] by (auto simp: no_applyErr_def list_all_iff)
qed

text \<open>The servers that sent the tester a command at an index.\<close>

definition appliers :: "(nat \<times> 'c ApplyMsg) list \<Rightarrow> int \<Rightarrow> nat set" where
  "appliers ms index = {i. \<exists>m. (i, m) \<in> set ms \<and> am_CommandValid m \<and> am_CommandIndex m = index}"

lemma holders_appliers:
  assumes "knows n ms ts" "\<forall>rs\<in>set (rt_srvs ts). rs_logs rs index \<in> {None, Some c}"
  shows "holders index c ts = appliers ms index"
proof -
  have len: "length (rt_srvs ts) = n" by (rule knowsD(1) [OF assms(1)])
  have "i \<in> appliers ms index" if "i \<in> holders index c ts" for i
    using knowsD(4) [OF assms(1), of i index c] that len by (auto simp: holders_def appliers_def)
  moreover have "i \<in> holders index c ts" if a: "i \<in> appliers ms index" for i
  proof -
    obtain m where m: "(i, m) \<in> set ms" "am_CommandValid m" "am_CommandIndex m = index" using a by (auto simp: appliers_def)
    obtain d where d: "rs_logs (rt_srvs ts ! i) index = Some d" using knowsD(3) [OF assms(1) m(1,2)] m(3) by auto
    have i: "i < n" by (rule knowsD(2) [OF assms(1) m(1)])
    then have "rt_srvs ts ! i \<in> set (rt_srvs ts)" using len by simp
    then have "Some d \<in> {None, Some c}" using assms(2) d by metis
    then show ?thesis using i d len by (simp add: holders_def)
  qed
  ultimately show ?thesis by blast
qed

text \<open>
  \<open>nCommitted\<close> counts: after any messages from the servers it returns, at any index, exactly if
  the messages were consistent; the number is then that of the servers that applied a command at
  the index, and the command is the one that every one of them applied.
\<close>

lemma nCommitted_counts:
  assumes "fst ` set ms \<subseteq> {..<n}"
  shows "\<exists>ts. run_applier shw ms (makeTest n) = Ret ts \<and>
    (nCommitted index ts = Ret (k, c) \<longleftrightarrow> consistent ms \<and> k = int (card (appliers ms index)) \<and> (k = 0 \<longrightarrow> c = None) \<and>
      (\<forall>(i, m)\<in>set ms. am_CommandValid m \<and> am_CommandIndex m = index \<longrightarrow> am_Command m = c))"
proof -
  obtain ts where ts: "run_applier shw ms (makeTest n) = Ret ts" "no_applyErr ts \<longleftrightarrow> consistent ms" "consistent ms \<longrightarrow> knows n ms ts"
    using run_applier_result [OF assms, of shw] by blast
  have "(\<forall>rs\<in>set (rt_srvs ts). rs_logs rs index \<in> {None, Some c}) \<longleftrightarrow>
      (\<forall>(i, m)\<in>set ms. am_CommandValid m \<and> am_CommandIndex m = index \<longrightarrow> am_Command m = c)" if "consistent ms"
    using logs_agree_iff [of n ms ts index c] ts(3) that knowsD(1) [of n ms ts] by (auto simp: all_set_conv_all_nth)
  then show ?thesis using ts holders_appliers [of n ms ts index c] unfolding nCommitted_result by auto
qed

lemma nCommitted_counts_witness:
  "\<exists>ts. run_applier (\<lambda>_. ''cmd'') [(0, \<lparr>am_CommandValid = True, am_Command = Some (7::nat), am_CommandIndex = 1\<rparr>),
      (2, \<lparr>am_CommandValid = True, am_Command = Some 7, am_CommandIndex = 1\<rparr>)] (makeTest 3) = Ret ts \<and>
    nCommitted 1 ts = Ret (2, Some 7)"
proof -
  let ?m = "\<lparr>am_CommandValid = True, am_Command = Some (7::nat), am_CommandIndex = 1\<rparr>"
  have "consistent [(0, ?m), (2, ?m)]" by (auto simp: consistent_def fits_def less_Suc_eq)
  moreover have "appliers [(0, ?m), (2, ?m)] 1 = {0, 2}"
    by (simp add: appliers_def set_eq_iff conj_disj_distribR ex_disj_distrib)
  moreover have "fst ` set [(0, ?m), (2, ?m)] \<subseteq> {..<3::nat}" by simp
  note nCommitted_counts [OF this, of "\<lambda>_. ''cmd''" 1 2 "Some 7"]
  ultimately show ?thesis by simp
qed

lemma try_start_answer:
  "try_start n left ans starts = (index, starts') \<Longrightarrow> index \<noteq> -1 \<Longrightarrow> \<exists>t. ans starts' = Some (index, t, True)"
  by (induction n left ans starts rule: try_start.induct) (auto simp: Let_def split: option.splits prod.splits bool.splits)

lemma await_agreement_True:
  assumes "await_agreement index cmd e obs = Ret True"
  shows "\<exists>ts\<in>set obs. no_applyErr ts \<and> 0 < card (holders index cmd ts) \<and> e \<le> int (card (holders index cmd ts)) \<and>
    (\<forall>rs\<in>set (rt_srvs ts). rs_logs rs index \<in> {None, Some cmd})"
  using assms
proof (induction obs)
  case (Cons ts rest)
  obtain nd cmd1 where n: "nCommitted index ts = Ret (nd, cmd1)" using Cons.prems by (cases "nCommitted index ts") auto
  show ?case
  proof (cases "nd > 0 \<and> nd \<ge> e \<and> cmd1 = cmd")
    case True
    have c: "no_applyErr ts" "nd = int (card (holders index cmd1 ts))" "\<forall>rs\<in>set (rt_srvs ts). rs_logs rs index \<in> {None, Some cmd1}"
      using iffD1 [OF nCommitted_result n] by blast+
    have "0 < card (holders index cmd ts)" "e \<le> int (card (holders index cmd ts))" using True c(2) by auto
    moreover have "\<forall>rs\<in>set (rt_srvs ts). rs_logs rs index \<in> {None, Some cmd}" using True c(3) by metis
    ultimately show ?thesis using c(1) by (meson list.set_intros(1))
  next
    case False
    then have "await_agreement index cmd e rest = Ret True" using Cons.prems n by (simp split: if_splits)
    then show ?thesis using Cons.IH by (meson list.set_intros(2))
  qed
qed simp

text \<open>
  C31. When \<open>one\<close> returns an index, a server had accepted the command at that index as leader, and at
  some moment afterwards at least one and at least the expected number of servers had applied the
  command there, no server had applied another command there, and no server had an apply error.
  Otherwise the test has finished or fails.
\<close>

theorem one_agreement:
  assumes "one_cmd n cmd expectedServers retry finished starts rounds = Ret index"
  shows "index = -1 \<and> finished \<or> (\<exists>(ans, obs)\<in>set rounds. (\<exists>s t. ans s = Some (index, t, True)) \<and>
    (\<exists>ts\<in>set obs. no_applyErr ts \<and> 0 < card (holders index cmd ts) \<and> expectedServers \<le> int (card (holders index cmd ts)) \<and>
      (\<forall>rs\<in>set (rt_srvs ts). rs_logs rs index \<in> {None, Some cmd})))"
  using assms
proof (induction rounds arbitrary: starts)
  case (Cons r rest)
  obtain ans obs where r: "r = (ans, obs)" by force
  obtain i s where t: "try_start n n ans starts = (i, s)" by force
  show ?case
  proof (cases "i \<noteq> -1 \<and> await_agreement i cmd expectedServers obs = Ret True")
    case True
    then have "index = i" using Cons.prems t r by simp
    then show ?thesis using True try_start_answer [OF t] await_agreement_True [of i cmd expectedServers obs] r by auto
  next
    case False
    then have "one_cmd n cmd expectedServers retry finished s rest = Ret index"
      using Cons.prems t r by (cases "await_agreement i cmd expectedServers obs") (auto split: if_splits)
    then show ?thesis using Cons.IH by auto
  qed
qed (simp split: if_splits)

definition agreed_state :: "nat rtest" where
  "agreed_state = \<lparr>rt_srvs = [\<lparr>rs_running = True, applyErr = '''', rs_logs = [1 \<mapsto> Some 7]\<rparr>,
     \<lparr>rs_running = True, applyErr = '''', rs_logs = [1 \<mapsto> Some 7]\<rparr>, newRaftServer], maxIndex = 1\<rparr>"

theorem one_agreement_witness:
  "one_cmd 3 (Some 7) 2 False False 0 [(\<lambda>s. if s = 2 then Some (1, 1, True) else Some (0, 1, False), [makeTest 3, agreed_state])] = Ret 1 \<and>
    2 \<le> card (holders 1 (Some 7) agreed_state)"
proof -
  let ?ans = "\<lambda>s::nat. if s = 2 then Some (1, 1, True) else Some (0, 1, False)"
  have "try_start 3 3 ?ans 0 = (1, 2)" by code_simp
  moreover have z: "nCommitted 1 (makeTest 3 :: nat rtest) = Ret (0, None)"
    by (simp add: nCommitted_def makeTest_def newRaftServer_def eval_nat_numeral committed_one_def rs_entry_def)
  moreover have "nCommitted 1 agreed_state = Ret (2, Some 7)"
    by (simp add: nCommitted_def agreed_state_def newRaftServer_def committed_one_def rs_entry_def)
  ultimately have "one_cmd 3 (Some 7) 2 False False 0 [(?ans, [makeTest 3, agreed_state])] = Ret 1" by simp
  moreover have "holders 1 (Some 7) (makeTest 3 :: nat rtest) = {}"
    by (auto simp: holders_def makeTest_def newRaftServer_def)
  ultimately show ?thesis
    using one_agreement [of 3 "Some 7" 2 False False 0 "[(?ans, [makeTest 3, agreed_state])]" 1] by (simp del: insert_iff)
qed

end
