(* ===== verification/RSM.thy ===== *)
theory RSM
  imports KVSrv Group GoStr
begin

text \<open>
  The replicated state machine's test service and its tester: the counter of
  \<open>kvraft1/rsm/server.go\<close> that operations are applied to, snapshots and restores included, the
  tester's proxy \<open>kvraft1/rsm/proxy.go\<close>, and the search for a leader and the checks of
  \<open>kvraft1/rsm/test.go\<close>. \<open>Submit\<close> of \<open>kvraft1/rsm/rsm.go\<close> only answers \<open>ErrWrongLeader\<close>. The
  encoding of the counter is an argument; what the servers answer to the tester is a schedule.
\<close>

section \<open>The service\<close>

datatype rsm_req = Inc | Null | Dec

datatype rsm_rep = IncRep int | NullRep

record rsmSrv =
  rs_me :: int
  counter :: int

definition newRSMSrv :: "int \<Rightarrow> rsmSrv" where
  "newRSMSrv srv = \<lparr>rs_me = srv, counter = 0\<rparr>"

definition GetCounter :: "rsmSrv \<Rightarrow> int" where
  "GetCounter rs = counter rs"

text \<open>\<open>DoOp\<close> is called by one goroutine, so the counter it returns is the one it has written.\<close>

fun DoOp :: "rsm_req \<Rightarrow> rsmSrv \<Rightarrow> (rsm_rep \<times> rsmSrv) outcome" where
  "DoOp Inc rs = (let rs' = rs\<lparr>counter := counter rs + 1\<rparr> in Ret (IncRep (counter rs'), rs'))"
| "DoOp Null rs = Ret (NullRep, rs)"
| "DoOp Dec rs = Inl Fatal"

definition rsm_Snapshot :: "(int \<Rightarrow> string) \<Rightarrow> rsmSrv \<Rightarrow> string" where
  "rsm_Snapshot enc rs = enc (counter rs)"

definition rsm_Restore :: "(string \<Rightarrow> int option) \<Rightarrow> string \<Rightarrow> rsmSrv \<Rightarrow> rsmSrv outcome" where
  "rsm_Restore dec data rs = (case dec data of None \<Rightarrow> Inl Fatal | Some n \<Rightarrow> Ret (rs\<lparr>counter := n\<rparr>))"

text \<open>\<open>Submit\<close> as it stands, and the handlers that the tester's proxy calls.\<close>

definition RSM_Submit :: "rsm_req \<Rightarrow> Err \<times> rsm_rep option" where
  "RSM_Submit req = (ErrWrongLeader, None)"

definition SubmitRPC :: "rsm_req \<Rightarrow> Err \<times> rsm_rep option" where
  "SubmitRPC req = RSM_Submit req"

definition GetCounterRPC :: "rsmSrv \<Rightarrow> int" where
  "GetCounterRPC rs = GetCounter rs"

text \<open>The proxy: a call that is not answered leaves the reply at its zero value.\<close>

definition proxy_Submit :: "(Err \<times> rsm_rep option) option \<Rightarrow> Err \<times> rsm_rep option" where
  "proxy_Submit answer = (case answer of None \<Rightarrow> (ErrEmpty, None) | Some r \<Rightarrow> r)"

definition proxy_GetCounter :: "int option \<Rightarrow> int" where
  "proxy_GetCounter answer = (case answer of None \<Rightarrow> 0 | Some n \<Rightarrow> n)"

section \<open>Applying a log\<close>

fun run_ops :: "('r \<Rightarrow> 's \<Rightarrow> ('a \<times> 's) outcome) \<Rightarrow> 'r list \<Rightarrow> 's \<Rightarrow> ('a list \<times> 's) outcome" where
  "run_ops doop [] s = Ret ([], s)"
| "run_ops doop (r # rs) s = bindo (doop r s) (\<lambda>(a, s'). bindo (run_ops doop rs s') (\<lambda>(as, s''). Ret (a # as, s'')))"

lemma run_ops_append:
  "run_ops doop (l1 @ l2) s = bindo (run_ops doop l1 s) (\<lambda>(as, s'). bindo (run_ops doop l2 s') (\<lambda>(bs, s''). Ret (as @ bs, s'')))"
  by (induction l1 arbitrary: s) (auto simp: bindo_def split: sum.splits prod.splits)

text \<open>
  The interface \<open>StateMachine\<close>: operations depend on a part of the state only, and that part is what
  a snapshot carries to any other replica.
\<close>

locale state_machine =
  fixes doop :: "'r \<Rightarrow> 's \<Rightarrow> ('a \<times> 's) outcome" and snap :: "'s \<Rightarrow> 'd" and restore :: "'d \<Rightarrow> 's \<Rightarrow> 's outcome"
    and obs :: "'s \<Rightarrow> 'o"
  assumes doop_obs: "obs s = obs t \<Longrightarrow> doop r s = Ret (a, s') \<Longrightarrow> \<exists>t'. doop r t = Ret (a, t') \<and> obs t' = obs s'"
    and restore_snap: "\<exists>t. restore (snap s) s0 = Ret t \<and> obs t = obs s"
begin

lemma run_ops_obs: "run_ops doop l s = Ret (as, s') \<Longrightarrow> obs s = obs t \<Longrightarrow> \<exists>t'. run_ops doop l t = Ret (as, t') \<and> obs t' = obs s'"
proof (induction l arbitrary: s t as)
  case (Cons r l)
  obtain a s1 as1 where s1: "doop r s = Ret (a, s1)" "run_ops doop l s1 = Ret (as1, s')" "as = a # as1"
    using Cons.prems(1) by (auto simp: bindo_Ret)
  obtain t1 where t1: "doop r t = Ret (a, t1)" "obs t1 = obs s1" using doop_obs [OF Cons.prems(2) s1(1)] by blast
  obtain t' where "run_ops doop l t1 = Ret (as1, t')" "obs t' = obs s'" using Cons.IH [OF s1(2)] t1(2) by metis
  then show ?case using t1(1) s1(3) by auto
qed simp

text \<open>A replica that starts from a snapshot answers and ends like one that has applied the whole log.\<close>

lemma snapshot_replay:
  assumes "run_ops doop (l1 @ l2) s = Ret (as, s')" "run_ops doop l1 s = Ret (as1, s1)"
  shows "\<exists>t as2 t'. restore (snap s1) s0 = Ret t \<and> run_ops doop l2 t = Ret (as2, t') \<and> as = as1 @ as2 \<and> obs t' = obs s'"
proof -
  obtain as2 where as2: "run_ops doop l2 s1 = Ret (as2, s')" "as = as1 @ as2"
    using assms by (auto simp: run_ops_append bindo_Ret)
  obtain t where t: "restore (snap s1) s0 = Ret t" "obs t = obs s1" using restore_snap by blast
  then show ?thesis using run_ops_obs [OF as2(1), of t] as2(2) by auto
qed

end

text \<open>The counter, with any encoding that decodes what it encodes, is such a state machine.\<close>

locale counter_codec =
  fixes enc :: "int \<Rightarrow> string" and dec :: "string \<Rightarrow> int option"
  assumes dec_enc: "dec (enc n) = Some n"

sublocale counter_codec \<subseteq> rsm: state_machine DoOp "rsm_Snapshot enc" "rsm_Restore dec" counter
proof
  fix s t :: rsmSrv and r :: rsm_req and a :: rsm_rep and s' :: rsmSrv
  assume "counter s = counter t" "DoOp r s = Ret (a, s')"
  then show "\<exists>t'. DoOp r t = Ret (a, t') \<and> counter t' = counter s'" by (cases r) (auto simp: Let_def)
next
  fix s s0 :: rsmSrv
  show "\<exists>t. rsm_Restore dec (rsm_Snapshot enc s) s0 = Ret t \<and> counter t = counter s"
    by (simp add: rsm_Restore_def rsm_Snapshot_def dec_enc)
qed

context counter_codec
begin

lemma counter_replay:
  assumes "run_ops DoOp (l1 @ l2) s = Ret (as, s')" "run_ops DoOp l1 s = Ret (as1, s1)"
  shows "\<exists>t as2 t'. rsm_Restore dec (rsm_Snapshot enc s1) s0 = Ret t \<and> run_ops DoOp l2 t = Ret (as2, t') \<and>
    as = as1 @ as2 \<and> counter t' = counter s'"
  using assms by (rule rsm.snapshot_replay)

end

interpretation decimal: counter_codec itoa "\<lambda>s. Some (atoi s)"
  by unfold_locales (simp add: atoi_itoa)

text \<open>The replies that a log should get: the \<open>k\<close>-th increment gets \<open>k\<close>.\<close>

fun log_replies :: "int \<Rightarrow> rsm_req list \<Rightarrow> rsm_rep list" where
  "log_replies n [] = []"
| "log_replies n (Null # l) = NullRep # log_replies n l"
| "log_replies n (_ # l) = IncRep (n + 1) # log_replies (n + 1) l"

lemma run_ops_DoOp:
  "Dec \<notin> set l \<Longrightarrow> run_ops DoOp l rs = Ret (log_replies (counter rs) l, rs\<lparr>counter := counter rs + int (count_list l Inc)\<rparr>)"
proof (induction l arbitrary: rs)
  case (Cons r l)
  then show ?case by (cases r) (auto simp: Let_def algebra_simps)
qed simp

lemma run_ops_Dec: "Dec \<in> set l \<Longrightarrow> run_ops DoOp l rs = Inl Fatal"
proof (induction l arbitrary: rs)
  case (Cons r l)
  then show ?case by (cases r) (auto simp: Let_def)
qed simp

text \<open>
  C16. Replicas agree, with and without snapshots. Applying a log without \<open>Dec\<close> to a new server
  answers the increments 1, 2, 3 and so on in log order and ends with the number of increments; a
  server of any other state that restores the snapshot taken after the first part of the log and
  applies the rest gives the same answers for the rest and ends with the same counter, for every
  encoding that decodes what it encodes. A log with a \<open>Dec\<close> ends the server.
\<close>

theorem rsm_snapshot_replay:
  assumes "\<forall>n. dec (enc n) = Some n"
  shows "if Dec \<in> set (l1 @ l2) then run_ops DoOp (l1 @ l2) (newRSMSrv me) = Inl Fatal
    else (\<exists>s1 as1 t as2 t' s'. run_ops DoOp l1 (newRSMSrv me) = Ret (as1, s1) \<and> rsm_Restore dec (rsm_Snapshot enc s1) other = Ret t \<and>
      run_ops DoOp l2 t = Ret (as2, t') \<and> run_ops DoOp (l1 @ l2) (newRSMSrv me) = Ret (log_replies 0 (l1 @ l2), s') \<and>
      as1 @ as2 = log_replies 0 (l1 @ l2) \<and> GetCounter t' = GetCounter s' \<and> GetCounter s' = int (count_list (l1 @ l2) Inc))"
proof (cases "Dec \<in> set (l1 @ l2)")
  case False
  then have l: "Dec \<notin> set l1" "Dec \<notin> set (l1 @ l2)" by auto
  have cc: "counter_codec enc dec" using assms by (simp add: counter_codec_def)
  note r1 = run_ops_DoOp [OF l(1), of "newRSMSrv me"] and r = run_ops_DoOp [OF l(2), of "newRSMSrv me"]
  from counter_codec.counter_replay [OF cc r r1, of other] show ?thesis
    using False r r1 by (auto simp: newRSMSrv_def GetCounter_def)
qed (use run_ops_Dec in auto)

theorem rsm_snapshot_replay_witness:
  "\<exists>s1 as1 t as2 t'. run_ops DoOp [Inc, Null] (newRSMSrv 0) = Ret (as1, s1) \<and>
    rsm_Restore (\<lambda>s. Some (atoi s)) (rsm_Snapshot itoa s1) (newRSMSrv 1) = Ret t \<and> run_ops DoOp [Inc] t = Ret (as2, t') \<and> GetCounter t' = 2"
  using rsm_snapshot_replay [of "\<lambda>s. Some (atoi s)" itoa "[Inc, Null]" "[Inc]" 0 "newRSMSrv 1"] by (auto simp: atoi_itoa)
section \<open>The tester\<close>

text \<open>
  The tester's state: for each server whether its proxy is set, the last leader, and the operations
  counted. One pass of the search sees the group's connections and the servers' answers.
\<close>

definition NSRV :: int where
  "NSRV = 3"

record rsm_test =
  ts_srvs :: "bool list"
  ts_leader :: int
  ts_ops :: "32 word"

record pass =
  ps_grp :: ServerGrp
  ps_answer :: "int \<Rightarrow> (Err \<times> rsm_rep option) option"

definition rsm_makeTest :: rsm_test where
  "rsm_makeTest = \<lparr>ts_srvs = replicate (nat NSRV) True, ts_leader = 0, ts_ops = 0\<rparr>"

definition rsm_Kill :: "int \<Rightarrow> rsm_test \<Rightarrow> rsm_test outcome" where
  "rsm_Kill srv ts = bindo (set_idx (ts_srvs ts) srv False) (\<lambda>s. Ret (ts\<lparr>ts_srvs := s\<rparr>))"

definition rsm_mksrv :: "int \<Rightarrow> rsm_test \<Rightarrow> rsm_test outcome" where
  "rsm_mksrv srv ts = bindo (set_idx (ts_srvs ts) srv True) (\<lambda>s. Ret (ts\<lparr>ts_srvs := s\<rparr>))"

text \<open>\<open>kill\<close> and \<open>restart\<close> with the group's operations; annotations are left out.\<close>

definition rsm_kill :: "int list \<Rightarrow> grp_net \<Rightarrow> grp_net outcome" where
  "rsm_kill ss x = Kill ss x"

definition rsm_restart :: "(int \<times> name list \<times> addr \<times> bool) list \<Rightarrow> rsm_test \<times> grp_net \<Rightarrow> (rsm_test \<times> grp_net) outcome" where
  "rsm_restart l = (\<lambda>(ts, x). bindo (StartSrvs l x) (\<lambda>x1. bindo (ConnectAll x1) (\<lambda>x2.
     bindo (foldo rsm_mksrv (map fst l) ts) (\<lambda>ts'. Ret (ts', x2)))))"

fun inPartition :: "int \<Rightarrow> int list option \<Rightarrow> bool" where
  "inPartition s None = True"
| "inPartition s (Some p) = list_ex (\<lambda>i. s = i) p"

text \<open>The loop over the servers: the server that took the request and its reply.\<close>

fun try_servers :: "nat \<Rightarrow> int \<Rightarrow> int list option \<Rightarrow> pass \<Rightarrow> rsm_test \<Rightarrow> (int \<times> rsm_rep option) option outcome" where
  "try_servers 0 index p ps ts = Ret None"
| "try_servers (Suc k) index p ps ts =
     (if index \<ge> NSRV then Inl Fatal
      else let again = try_servers k ((index + 1) mod int (length (ts_srvs ts))) p ps ts in
        if index = -1 then again
        else bindo (IsConnected index (ps_grp ps)) (\<lambda>c. if \<not> c then again
          else bindo (idx (ts_srvs ts) index) (\<lambda>rsm. if rsm \<and> inPartition index p
            then (let (err, rep) = proxy_Submit (ps_answer ps index) in if err = OK then Ret (Some (index, rep)) else again)
            else again)))"

text \<open>\<open>onePartition\<close> makes passes until the time is over, which is the end of the list.\<close>

fun onePartition :: "int list option \<Rightarrow> pass list \<Rightarrow> rsm_test \<Rightarrow> (rsm_rep option \<times> rsm_test) outcome" where
  "onePartition p [] ts = Ret (None, ts)"
| "onePartition p (ps # pss) ts = bindo (try_servers (length (ts_srvs ts)) (ts_leader ts) p ps ts) (\<lambda>r.
     case r of None \<Rightarrow> onePartition p pss ts
     | Some (index, rep) \<Rightarrow> Ret (rep, ts\<lparr>ts_ops := ts_ops ts + 1, ts_leader := index\<rparr>))"

definition oneInc :: "pass list \<Rightarrow> rsm_test \<Rightarrow> (rsm_rep \<times> rsm_test) outcome" where
  "oneInc pss ts = bindo (onePartition None pss ts) (\<lambda>(rep, ts').
     case rep of None \<Rightarrow> Ret (IncRep 0, ts') | Some (IncRep n) \<Rightarrow> Ret (IncRep n, ts') | Some NullRep \<Rightarrow> Inl Panic)"

definition oneNull :: "pass list \<Rightarrow> rsm_test \<Rightarrow> (rsm_rep \<times> rsm_test) outcome" where
  "oneNull pss ts = bindo (onePartition None pss ts) (\<lambda>(rep, ts').
     case rep of None \<Rightarrow> Ret (NullRep, ts') | Some NullRep \<Rightarrow> Ret (NullRep, ts') | Some (IncRep n) \<Rightarrow> Inl Panic)"

text \<open>\<open>countValue\<close>: a server whose proxy is not set is a nil interface.\<close>

definition countValue :: "int \<Rightarrow> (nat \<Rightarrow> int option) \<Rightarrow> rsm_test \<Rightarrow> nat outcome" where
  "countValue v answer ts = foldo (\<lambda>(j, s) i. if s then Ret (if proxy_GetCounter (answer j) = v then i + 1 else i) else Inl Panic)
     (List.enumerate 0 (ts_srvs ts)) 0"

text \<open>The loop of \<open>checkCounter\<close>, with the iterations left and the time to sleep; it returns the time slept.\<close>

fun check_counter_loop :: "nat \<Rightarrow> int \<Rightarrow> int \<Rightarrow> nat \<Rightarrow> (nat \<Rightarrow> nat \<Rightarrow> int option) \<Rightarrow> rsm_test \<Rightarrow> int outcome" where
  "check_counter_loop 0 to v nsrv answers ts = Inl Fatal"
| "check_counter_loop (Suc k) to v nsrv answers ts = bindo (countValue v (answers (Suc k)) ts) (\<lambda>n.
     if n \<ge> nsrv then Ret 0
     else bindo (check_counter_loop k (if to < 1000 then to * 2 else to) v nsrv answers ts) (\<lambda>t. Ret (to + t)))"

definition checkCounter :: "int \<Rightarrow> nat \<Rightarrow> (nat \<Rightarrow> nat \<Rightarrow> int option) \<Rightarrow> rsm_test \<Rightarrow> int outcome" where
  "checkCounter v nsrv answers ts = check_counter_loop 30 10 v nsrv answers ts"

definition disconnectLeader :: "rsm_test \<Rightarrow> grp_net \<Rightarrow> (int \<times> grp_net) outcome" where
  "disconnectLeader ts x = bindo (DisconnectAll (ts_leader ts) x) (\<lambda>x'. Ret (ts_leader ts, x'))"

definition rsm_connect :: "int \<Rightarrow> grp_net \<Rightarrow> grp_net outcome" where
  "rsm_connect i x = ConnectOne i x"

section \<open>The search for a leader\<close>

text \<open>A server takes a request in a pass: connected, its proxy set, in the partition, and it answers \<open>OK\<close>.\<close>

definition takes :: "int list option \<Rightarrow> pass \<Rightarrow> rsm_test \<Rightarrow> int \<Rightarrow> bool" where
  "takes p ps ts i \<longleftrightarrow> connected (ps_grp ps) ! nat i \<and> ts_srvs ts ! nat i \<and> inPartition i p \<and> fst (proxy_Submit (ps_answer ps i)) = OK"

definition pass_ok :: "pass \<Rightarrow> bool" where
  "pass_ok ps \<longleftrightarrow> length (connected (ps_grp ps)) = nat NSRV"

definition rsm_test_ok :: "rsm_test \<Rightarrow> bool" where
  "rsm_test_ok ts \<longleftrightarrow> length (ts_srvs ts) = nat NSRV \<and> 0 \<le> ts_leader ts \<and> ts_leader ts < NSRV"

lemma try_servers_first:
  assumes "rsm_test_ok ts" "pass_ok ps" "0 \<le> index" "index < 3"
  shows "try_servers k index p ps ts = Ret (map_option (\<lambda>i. (i, snd (proxy_Submit (ps_answer ps i))))
    (List.find (takes p ps ts) (map (\<lambda>j. (index + int j) mod 3) [0..<k])))"
  using assms(3,4)
proof (induction k arbitrary: index)
  case (Suc k)
  have len: "length (ts_srvs ts) = 3" "length (connected (ps_grp ps)) = 3"
    using assms(1,2) by (simp_all add: rsm_test_ok_def pass_ok_def NSRV_def)
  have "map (\<lambda>j. ((index + 1) mod 3 + int j) mod 3) [0..<k] = map (\<lambda>j. (index + int (Suc j)) mod 3) [0..<k]"
    by (simp add: mod_add_left_eq add.assoc)
  then have "map (\<lambda>j. (index + int j) mod 3) [0..<Suc k] = index # map (\<lambda>j. ((index + 1) mod 3 + int j) mod 3) [0..<k]"
    using Suc.prems by (simp add: upt_rec [of 0 "Suc k"] map_Suc_upt [symmetric] o_def del: upt_Suc)
  then have find: "List.find (takes p ps ts) (map (\<lambda>j. (index + int j) mod 3) [0..<Suc k]) = (if takes p ps ts index then Some index
      else List.find (takes p ps ts) (map (\<lambda>j. ((index + 1) mod 3 + int j) mod 3) [0..<k]))" by (simp only: find.simps)
  have IH: "try_servers k ((index + 1) mod 3) p ps ts = Ret (map_option (\<lambda>i. (i, snd (proxy_Submit (ps_answer ps i))))
      (List.find (takes p ps ts) (map (\<lambda>j. ((index + 1) mod 3 + int j) mod 3) [0..<k])))"
    by (rule Suc.IH) auto
  show ?case unfolding find
    using Suc.prems len
    by (simp add: IsConnected_def idx_def in_range_def NSRV_def takes_def [of p ps ts index] Let_def split_beta IH del: upt_Suc)
qed simp

lemma find_in: "List.find P xs = Some x \<Longrightarrow> P x \<and> x \<in> set xs"
  by (auto simp: find_Some_iff)

lemma all_three: "set (map (\<lambda>j. (i + int j) mod 3) [0..<3]) = {0, 1, 2 :: int}"
proof -
  have "[0..<3] = [0, 1, 2::nat]" by (simp add: upt_rec)
  moreover have "(i + 1) mod 3 = (i mod 3 + 1) mod 3" "(i + 2) mod 3 = (i mod 3 + 2) mod 3" by (simp_all add: mod_add_left_eq)
  moreover have "i mod 3 = 0 \<or> i mod 3 = 1 \<or> i mod 3 = 2" using pos_mod_bound [of 3 i] pos_mod_sign [of 3 i] by linarith
  ultimately show ?thesis by (elim disjE) auto
qed

text \<open>
  C32. The search for a leader finds one whenever one takes the request. With three servers and a
  leader in range, whatever the connections, the partition and the answers in each pass,
  \<open>onePartition\<close> neither panics nor ends the test. If in no pass a connected server of the partition
  takes the request it returns nil and leaves the state; otherwise it returns the reply of a server
  that took it in the first pass in which some server did, remembers that server as the leader, and
  counts one operation. The state stays in range.
\<close>

theorem onePartition_finds:
  assumes "rsm_test_ok ts" "\<forall>ps\<in>set pss. pass_ok ps"
  shows "if \<exists>ps\<in>set pss. \<exists>i\<in>{0, 1, 2}. takes p ps ts i
    then (\<exists>before ps after i. pss = before @ ps # after \<and> (\<forall>b\<in>set before. \<forall>j\<in>{0, 1, 2}. \<not> takes p b ts j) \<and>
        i \<in> {0, 1, 2} \<and> takes p ps ts i \<and> rsm_test_ok (ts\<lparr>ts_leader := i\<rparr>) \<and>
        onePartition p pss ts = Ret (snd (proxy_Submit (ps_answer ps i)), ts\<lparr>ts_ops := ts_ops ts + 1, ts_leader := i\<rparr>))
    else onePartition p pss ts = Ret (None, ts)"
  using assms(2)
proof (induction pss)
  case (Cons ps pss)
  let ?l = "map (\<lambda>j. (ts_leader ts + int j) mod 3) [0..<3]"
  have ok: "0 \<le> ts_leader ts" "ts_leader ts < 3" "length (ts_srvs ts) = 3"
    using assms(1) by (simp_all add: rsm_test_ok_def NSRV_def)
  have t: "try_servers 3 (ts_leader ts) p ps ts = Ret (map_option (\<lambda>i. (i, snd (proxy_Submit (ps_answer ps i)))) (List.find (takes p ps ts) ?l))"
    using Cons.prems by (intro try_servers_first [OF assms(1) _ ok(1,2)]) simp
  show ?case
  proof (cases "List.find (takes p ps ts) ?l")
    case None
    then have no: "\<forall>j\<in>{0, 1, 2}. \<not> takes p ps ts j" unfolding find_None_iff all_three by blast
    have one: "onePartition p (ps # pss) ts = onePartition p pss ts" using t None ok(3) by simp
    show ?thesis
    proof (cases "\<exists>ps\<in>set pss. \<exists>i\<in>{0, 1, 2}. takes p ps ts i")
      case True
      then obtain bf q af i where "pss = bf @ q # af" "\<forall>b\<in>set bf. \<forall>j\<in>{0, 1, 2}. \<not> takes p b ts j" "i \<in> {0, 1, 2}"
        "takes p q ts i" "rsm_test_ok (ts\<lparr>ts_leader := i\<rparr>)"
        "onePartition p pss ts = Ret (snd (proxy_Submit (ps_answer q i)), ts\<lparr>ts_ops := ts_ops ts + 1, ts_leader := i\<rparr>)"
        using Cons.IH Cons.prems by (auto simp del: onePartition.simps)
      moreover have "\<exists>r\<in>set (ps # pss). \<exists>i\<in>{0, 1, 2}. takes p r ts i" using True by auto
      ultimately show ?thesis unfolding one using no by (simp only: if_P)
        (rule exI [of _ "ps # bf"], rule exI [of _ q], rule exI [of _ af], rule exI [of _ i], simp)
    next
      case False
      then show ?thesis using Cons no one by auto
    qed
  next
    case (Some i)
    have i: "takes p ps ts i" "i \<in> {0, 1, 2}" using find_in [OF Some] unfolding all_three by auto
    have one: "onePartition p (ps # pss) ts = Ret (snd (proxy_Submit (ps_answer ps i)), ts\<lparr>ts_ops := ts_ops ts + 1, ts_leader := i\<rparr>)"
      using t Some ok(3) by simp
    have "rsm_test_ok (ts\<lparr>ts_leader := i\<rparr>)" using i(2) assms(1) by (auto simp: rsm_test_ok_def NSRV_def)
    moreover have "\<exists>r\<in>set (ps # pss). \<exists>i\<in>{0, 1, 2}. takes p r ts i" using i by (intro bexI [of _ ps] bexI [of _ i]) auto
    ultimately show ?thesis unfolding one using i by (simp only: if_P)
      (rule exI [of _ "[]"], rule exI [of _ ps], rule exI [of _ pss], rule exI [of _ i], simp)
  qed
qed simp

definition quiet_group :: ServerGrp where
  "quiet_group = \<lparr>srvs = [], servernames = [], gid = 0, connected = [False, True, True]\<rparr>"

definition one_pass :: pass where
  "one_pass = \<lparr>ps_grp = quiet_group, ps_answer = (\<lambda>i. if i = 2 then Some (OK, Some (IncRep 1)) else None)\<rparr>"

theorem onePartition_finds_witness:
  "onePartition (Some [1, 2]) [one_pass] rsm_makeTest = Ret (Some (IncRep 1), \<lparr>ts_srvs = [True, True, True], ts_leader = 2, ts_ops = 1\<rparr>)"
proof -
  have ok: "rsm_test_ok rsm_makeTest" "\<forall>ps\<in>set [one_pass]. pass_ok ps"
    by (simp_all add: rsm_test_ok_def rsm_makeTest_def NSRV_def pass_ok_def one_pass_def quiet_group_def)
  have three: "rsm_makeTest = \<lparr>ts_srvs = [True, True, True], ts_leader = 0, ts_ops = 0\<rparr>"
    by (simp add: rsm_makeTest_def NSRV_def numeral_3_eq_3)
  have t: "takes (Some [1, 2]) one_pass rsm_makeTest i \<longleftrightarrow> i = 2" if "i \<in> {0, 1, 2}" for i
    using that by (auto simp: takes_def one_pass_def quiet_group_def three proxy_Submit_def)
  then have "\<exists>ps\<in>set [one_pass]. \<exists>i\<in>{0, 1, 2}. takes (Some [1, 2]) ps rsm_makeTest i" by auto
  then obtain i where "i \<in> {0, 1, 2}" "takes (Some [1, 2]) one_pass rsm_makeTest i"
    "onePartition (Some [1, 2]) [one_pass] rsm_makeTest
      = Ret (snd (proxy_Submit (ps_answer one_pass i)), rsm_makeTest\<lparr>ts_ops := ts_ops rsm_makeTest + 1, ts_leader := i\<rparr>)"
    using onePartition_finds [OF ok, of "Some [1, 2]"] by (simp only: if_P) (auto simp: Cons_eq_append_conv)
  then show ?thesis using t by (auto simp: three proxy_Submit_def one_pass_def)
qed

text \<open>
  With \<open>Submit\<close> as it stands every server answers \<open>ErrWrongLeader\<close> or not at all: the tester's
  increment comes back as the zero reply after all passes.
\<close>

lemma oneInc_unfinished:
  assumes "rsm_test_ok ts" "\<forall>ps\<in>set pss. pass_ok ps \<and> (\<forall>i. ps_answer ps i \<in> {None, Some (SubmitRPC Inc)})"
  shows "oneInc pss ts = Ret (IncRep 0, ts)"
proof -
  have "\<not> takes None ps ts i" if "ps \<in> set pss" for ps i
  proof -
    have "ps_answer ps i = None \<or> ps_answer ps i = Some (SubmitRPC Inc)" using assms(2) that by auto
    then show ?thesis by (auto simp: takes_def proxy_Submit_def SubmitRPC_def RSM_Submit_def)
  qed
  moreover have "try_servers 3 (ts_leader ts) None ps ts = Ret None" if "ps \<in> set pss" for ps
  proof -
    have "List.find (takes None ps ts) xs = None" for xs using calculation [OF that] by (simp add: find_None_iff)
    then show ?thesis
      using try_servers_first [of ts ps "ts_leader ts" 3 None] assms that by (simp add: rsm_test_ok_def NSRV_def)
  qed
  then have "onePartition None pss ts = Ret (None, ts)"
    using assms(1) by (induction pss) (auto simp: rsm_test_ok_def NSRV_def)
  then show ?thesis by (simp add: oneInc_def)
qed

section \<open>Checking the counters\<close>

lemma countValue_count:
  assumes "list_all (\<lambda>s. s) (ts_srvs ts)"
  shows "countValue v answer ts = Ret (length (filter (\<lambda>j. proxy_GetCounter (answer j) = v) [0..<length (ts_srvs ts)]))"
proof -
  have "foldo (\<lambda>(j, s) i. if s then Ret (if proxy_GetCounter (answer j) = v then i + 1 else i) else Inl Panic) (List.enumerate a xs) n
      = Ret (n + length (filter (\<lambda>j. proxy_GetCounter (answer j) = v) [a..<a + length xs]))" if "list_all (\<lambda>s. s) xs" for a n xs
    using that
  proof (induction xs arbitrary: a n)
    case (Cons x xs)
    have "[a..<a + length (x # xs)] = a # [Suc a..<Suc a + length xs]" by (simp add: upt_conv_Cons del: upt_Suc)
    then show ?case using Cons by simp
  qed simp
  from this [OF assms, of 0 0] show ?thesis by (simp add: countValue_def)
qed

text \<open>\<open>checkCounter\<close> passes exactly when in one of its 30 rounds enough servers report the value.\<close>

lemma check_counter_loop_iff:
  "list_all (\<lambda>s. s) (ts_srvs ts) \<Longrightarrow> (\<exists>t. check_counter_loop k to v nsrv answers ts = Ret t) \<longleftrightarrow>
    (\<exists>r\<in>{1..k}. nsrv \<le> length (filter (\<lambda>j. proxy_GetCounter (answers r j) = v) [0..<length (ts_srvs ts)]))"
proof (induction k arbitrary: to)
  case (Suc k)
  have "{1..Suc k} = insert (Suc k) {1..k}" by auto
  then show ?case using Suc by (auto simp: countValue_count bindo_Ret)
qed simp

lemma checkCounter_iff:
  "list_all (\<lambda>s. s) (ts_srvs ts) \<Longrightarrow> (\<exists>t. checkCounter v nsrv answers ts = Ret t) \<longleftrightarrow>
    (\<exists>r\<in>{1..30}. nsrv \<le> length (filter (\<lambda>j. proxy_GetCounter (answers r j) = v) [0..<length (ts_srvs ts)]))"
  unfolding checkCounter_def by (rule check_counter_loop_iff)

text \<open>A server that does not answer counts as one whose counter is 0: no running server is needed for that value.\<close>

lemma checkCounter_zero_silent:
  "list_all (\<lambda>s. s) (ts_srvs ts) \<Longrightarrow> length (ts_srvs ts) = nsrv \<Longrightarrow> checkCounter 0 nsrv (\<lambda>r j. None) ts = Ret 0"
  by (simp add: checkCounter_def numeral_eq_Suc countValue_count proxy_GetCounter_def)


end
