(* ===== verification/MRCoord.thy ===== *)
theory MRCoord
  imports FNV GoStr
begin

text \<open>
  The MapReduce coordinator, \<open>mr/coordinator.go\<close> and \<open>mr/rpc.go\<close>: the task table, its
  RPC handlers, the poll that times tasks out, and the shuffle into partition files. Every
  operation holds the coordinator's mutex from start to end, so each is one function of the state.
  The clock is an argument, in nanoseconds. \<open>sort.Sort\<close> is not stable, so the sorting routine is
  an argument of which only its contract is known (locale \<open>key_sorter\<close>), and so is the order in
  which Go walks a map.
\<close>

section \<open>Data\<close>

record KeyValue =
  kKey :: string
  kValue :: string

record Task =
  t_Id :: string
  t_Type :: string
  t_Status :: string
  t_AssignedWorkerId :: int
  t_ReadLocation :: string
  t_WriteLocation :: string
  t_Retries :: int
  t_LastUpdated :: int

record Coordinator =
  MainDir :: string
  IntermediateResults :: "KeyValue list"
  ReducerCount :: int
  Tasks :: "Task list"
  IsReduceGenerated :: bool

record UpdateTaskStatusArgs =
  u_TaskId :: string
  u_AssignedWorkerId :: int
  u_WriteLocation :: string
  u_Status :: string
  u_Intermediate :: "KeyValue list"
  u_Retries :: int

definition no_task :: Task where
  "no_task = \<lparr>t_Id = '''', t_Type = '''', t_Status = '''', t_AssignedWorkerId = 0,
     t_ReadLocation = '''', t_WriteLocation = '''', t_Retries = 0, t_LastUpdated = 0\<rparr>"

text \<open>
  Files by path, and the directories that exist. \<open>os.Create\<close> fails when its directory is
  missing or the path is a directory; the source ignores that error, and writing to the nil file
  then has no effect.
\<close>

record fsys =
  files :: "string \<rightharpoonup> string"
  dirs :: "string list"

definition write_file :: "string \<Rightarrow> string \<Rightarrow> fsys \<Rightarrow> fsys" where
  "write_file p content fs =
     (if Dir p \<in> set (dirs fs) \<and> p \<notin> set (dirs fs) then fs\<lparr>files := (files fs)(p \<mapsto> content)\<rparr> else fs)"

text \<open>\<open>fmt.Fprintf(f, "%v %v\n", key, value)\<close> for each pair.\<close>

definition kv_line :: "KeyValue \<Rightarrow> string" where
  "kv_line kv = kKey kv @ '' '' @ kValue kv"

definition kv_lines :: "KeyValue list \<Rightarrow> string" where
  "kv_lines kvs = concat (map (\<lambda>kv. kv_line kv @ [newline]) kvs)"

section \<open>Making the coordinator\<close>

definition map_task :: "string \<Rightarrow> int \<Rightarrow> nat \<Rightarrow> string \<Rightarrow> Task" where
  "map_task mainDir now i f = \<lparr>t_Id = itoa (int i), t_Type = ''map'', t_Status = ''not started'',
     t_AssignedWorkerId = -1, t_ReadLocation = f,
     t_WriteLocation = path_Join mainDir (''mr-'' @ itoa (int i)), t_Retries = 0, t_LastUpdated = now\<rparr>"

definition initializeMapTasks :: "int \<Rightarrow> string list \<Rightarrow> Coordinator \<Rightarrow> Coordinator" where
  "initializeMapTasks now fnames c =
     c\<lparr>Tasks := map (\<lambda>(i, f). map_task (MainDir c) now i f) (List.enumerate 0 fnames)\<rparr>"

definition initializeCoordinator :: "int \<Rightarrow> Coordinator \<Rightarrow> Coordinator" where
  "initializeCoordinator reducerCount c =
     c\<lparr>IsReduceGenerated := False, IntermediateResults := [], ReducerCount := reducerCount\<rparr>"

text \<open>
  \<open>cleanUp\<close> removes the files of the main directory whose names match \<open>mr-*\<close> or
  \<open>p-*\<close> (\<open>filepath.Glob\<close> on a directory name without wildcards).
\<close>

definition stale_output :: "string \<Rightarrow> string \<Rightarrow> bool" where
  "stale_output mainDir p \<longleftrightarrow> (let f = drop (length mainDir + 1) p in
     p = mainDir @ ''/'' @ f \<and> CHR ''/'' \<notin> set f \<and> (take 3 f = ''mr-'' \<or> take 2 f = ''p-''))"

definition cleanUp :: "Coordinator \<Rightarrow> fsys \<Rightarrow> fsys" where
  "cleanUp c fs = fs\<lparr>files := (\<lambda>p. if stale_output (MainDir c) p then None else files fs p)\<rparr>"

text \<open>\<open>MakeCoordinator\<close>; the directory that \<open>setMainDir\<close> derives from the source file's path is an argument.\<close>

definition setMainDir :: "string \<Rightarrow> Coordinator \<Rightarrow> Coordinator" where
  "setMainDir sourceFile c = c\<lparr>MainDir := path_Join (Dir sourceFile) ''../main''\<rparr>"

definition MakeCoordinator :: "string \<Rightarrow> int \<Rightarrow> string list \<Rightarrow> int \<Rightarrow> fsys \<Rightarrow> Coordinator \<times> fsys" where
  "MakeCoordinator sourceFile now fnames nReduce fs =
     (let c0 = \<lparr>MainDir = '''', IntermediateResults = [], ReducerCount = 0, Tasks = [], IsReduceGenerated = False\<rparr>;
          c1 = setMainDir sourceFile c0
      in (initializeCoordinator nReduce (initializeMapTasks now fnames c1), cleanUp c1 fs))"

section \<open>The handlers\<close>

fun first_index :: "('a \<Rightarrow> bool) \<Rightarrow> 'a list \<Rightarrow> nat option" where
  "first_index P [] = None"
| "first_index P (x # xs) = (if P x then Some 0 else map_option Suc (first_index P xs))"

definition RequestTask :: "int \<Rightarrow> int \<Rightarrow> Coordinator \<Rightarrow> Task \<times> Coordinator" where
  "RequestTask now workerId c =
     (case first_index (\<lambda>t. t_Status t = ''not started'' \<and> t_AssignedWorkerId t = -1) (Tasks c) of
        None \<Rightarrow> (no_task, c)
      | Some i \<Rightarrow>
          let t = (Tasks c ! i)\<lparr>t_Status := ''in progress'', t_AssignedWorkerId := workerId, t_LastUpdated := now\<rparr>
          in (t, c\<lparr>Tasks := (Tasks c)[i := t]\<rparr>))"

text \<open>\<open>shuffle\<close>. The hash is not negative, so Go's remainder is the one by the absolute value.\<close>

definition partition_of :: "int \<Rightarrow> string \<Rightarrow> int" where
  "partition_of n k = ihash k mod \<bar>n\<bar>"

definition shuffle_add :: "int \<Rightarrow> (int \<times> KeyValue list) list \<Rightarrow> KeyValue \<Rightarrow> (int \<times> KeyValue list) list" where
  "shuffle_add n m kv = (let p = partition_of n (kKey kv) in
     AList.update p ((case map_of m p of None \<Rightarrow> [] | Some l \<Rightarrow> l) @ [kv]) m)"

definition shuffle :: "(KeyValue list \<Rightarrow> KeyValue list) \<Rightarrow> Coordinator \<Rightarrow> ((int \<times> KeyValue list) list \<times> Coordinator) outcome" where
  "shuffle srt c =
     (let c' = c\<lparr>IntermediateResults := srt (IntermediateResults c)\<rparr> in
      if ReducerCount c = 0 \<and> IntermediateResults c' \<noteq> [] then Inl Panic
      else Ret (foldl (shuffle_add (ReducerCount c)) [] (IntermediateResults c'), c'))"

definition store :: "Coordinator \<Rightarrow> int \<Rightarrow> KeyValue list \<Rightarrow> fsys \<Rightarrow> string \<times> fsys" where
  "store c i kvs fs =
     (let writeLocation = path_Join (MainDir c) (''p-'' @ itoa i)
      in (writeLocation, write_file writeLocation (kv_lines kvs) fs))"

definition reduce_task :: "string \<Rightarrow> int \<Rightarrow> int \<Rightarrow> string \<Rightarrow> Task" where
  "reduce_task mainDir now p readLocation = \<lparr>t_Id = ''p-'' @ itoa p, t_Type = ''reduce'', t_Status = ''not started'',
     t_AssignedWorkerId = -1, t_ReadLocation = readLocation,
     t_WriteLocation = path_Join mainDir (''mr-out-'' @ itoa p), t_Retries = 0, t_LastUpdated = now\<rparr>"

fun initializeReduceTasks :: "int \<Rightarrow> (int \<times> KeyValue list) list \<Rightarrow> Coordinator \<times> fsys \<Rightarrow> Coordinator \<times> fsys" where
  "initializeReduceTasks now [] (c, fs) = (c, fs)"
| "initializeReduceTasks now ((p, kvs) # m) (c, fs) =
     (let (loc, fs') = store c p kvs fs
      in initializeReduceTasks now m (c\<lparr>Tasks := Tasks c @ [reduce_task (MainDir c) now p loc]\<rparr>, fs'))"

text \<open>The built-in \<open>clear\<close> zeroes the elements of a slice; its length stays.\<close>

definition clear :: "KeyValue list \<Rightarrow> KeyValue list" where
  "clear l = map (\<lambda>_. \<lparr>kKey = '''', kValue = ''''\<rparr>) l"

definition isAllMappingDone :: "Task list \<Rightarrow> bool" where
  "isAllMappingDone ts \<longleftrightarrow>
     \<not> list_ex (\<lambda>t. t_Type t = ''map'' \<and> t_Status t \<noteq> ''completed'' \<and> t_Status t \<noteq> ''skipped'') ts"

text \<open>\<open>ord\<close> is the order in which the loop walks the map of partitions.\<close>

definition generateReduceTasksIfApplicable ::
    "(KeyValue list \<Rightarrow> KeyValue list) \<Rightarrow> ((int \<times> KeyValue list) list \<Rightarrow> (int \<times> KeyValue list) list) \<Rightarrow> int \<Rightarrow>
     Coordinator \<times> fsys \<Rightarrow> (Coordinator \<times> fsys) outcome" where
  "generateReduceTasksIfApplicable srt ord now = (\<lambda>(c, fs).
     if \<not> IsReduceGenerated c \<and> isAllMappingDone (Tasks c) then
       (case shuffle srt (c\<lparr>IsReduceGenerated := True\<rparr>) of
          Inl e \<Rightarrow> Inl e
        | Inr (partitions, c1) \<Rightarrow>
            let (c2, fs2) = initializeReduceTasks now (ord partitions) (c1, fs)
            in Ret (c2\<lparr>IntermediateResults := clear (IntermediateResults c2)\<rparr>, fs2))
     else Ret (c, fs))"

definition record_status :: "int \<Rightarrow> UpdateTaskStatusArgs \<Rightarrow> Coordinator \<Rightarrow> Coordinator" where
  "record_status now args c =
     (case first_index (\<lambda>t. t_Id t = u_TaskId args \<and> t_AssignedWorkerId t = u_AssignedWorkerId args) (Tasks c) of
        None \<Rightarrow> c
      | Some i \<Rightarrow> c\<lparr>IntermediateResults := IntermediateResults c @ u_Intermediate args,
                    Tasks := (Tasks c)[i := (Tasks c ! i)\<lparr>t_Status := u_Status args,
                       t_WriteLocation := u_WriteLocation args, t_Retries := u_Retries args, t_LastUpdated := now\<rparr>]\<rparr>)"

definition UpdateTaskStatus ::
    "(KeyValue list \<Rightarrow> KeyValue list) \<Rightarrow> ((int \<times> KeyValue list) list \<Rightarrow> (int \<times> KeyValue list) list) \<Rightarrow> int \<Rightarrow>
     UpdateTaskStatusArgs \<Rightarrow> Coordinator \<times> fsys \<Rightarrow> (Coordinator \<times> fsys) outcome" where
  "UpdateTaskStatus srt ord now args = (\<lambda>(c, fs).
     generateReduceTasksIfApplicable srt ord now (record_status now args c, fs))"

section \<open>The poll\<close>

definition setSkippedIfApplicable :: "int \<Rightarrow> Task \<Rightarrow> Task" where
  "setSkippedIfApplicable now t =
     (if t_Status t = ''in progress'' \<and> t_Retries t > 10
      then t\<lparr>t_AssignedWorkerId := -1, t_Status := ''skipped'', t_LastUpdated := now\<rparr> else t)"

definition setNotStartedIfApplicable :: "int \<Rightarrow> Task \<Rightarrow> Task" where
  "setNotStartedIfApplicable now t =
     (if t_Status t = ''in progress'' \<and> now - t_LastUpdated t > 5000000000
      then t\<lparr>t_AssignedWorkerId := -1, t_Status := ''not started'', t_Retries := t_Retries t + 1, t_LastUpdated := now\<rparr>
      else t)"

fun Done_loop :: "int \<Rightarrow> Task list \<Rightarrow> bool \<times> Task list" where
  "Done_loop now [] = (True, [])"
| "Done_loop now (t # ts) =
     (let t' = setNotStartedIfApplicable now (setSkippedIfApplicable now t) in
      if t_Status t' \<noteq> ''completed'' \<and> t_Status t' \<noteq> ''skipped'' then (False, t' # ts)
      else let (b, ts') = Done_loop now ts in (b, t' # ts'))"

definition Done :: "int \<Rightarrow> Coordinator \<Rightarrow> bool \<times> Coordinator" where
  "Done now c = (let (b, ts) = Done_loop now (Tasks c) in (b, c\<lparr>Tasks := ts\<rparr>))"

section \<open>The contract of the sort\<close>

locale key_sorter =
  fixes srt :: "KeyValue list \<Rightarrow> KeyValue list"
  assumes srt_mset: "mset (srt xs) = mset xs"
    and srt_sorted: "sorted (map kKey (srt xs))"
begin

lemma srt_set [simp]: "set (srt xs) = set xs"
  by (metis srt_mset set_mset_mset)

lemma srt_Nil_iff [simp]: "srt xs = [] \<longleftrightarrow> xs = []"
  by (metis srt_mset mset_zero_iff)

text \<open>All sorts agree on what they give each key, up to the order of equal keys.\<close>

lemma srt_key: "mset (filter (\<lambda>kv. kKey kv = k) (srt xs)) = mset (filter (\<lambda>kv. kKey kv = k) xs)"
  by (simp add: mset_filter srt_mset)

end

interpretation stable: key_sorter "sort_key kKey"
  by unfold_locales simp_all

end
