(* ===== verification/MRRun.thy ===== *)
theory MRRun
  imports MRCoord
begin

text \<open>
  Runs of the coordinator with any number of workers, up to the moment the reduce tasks are made:
  a worker asks for a task, reports it, fails, or disappears, in any order, while the poll times
  tasks out. The worker's side of the protocol is the loop \<open>Worker\<close> of \<open>mr/worker.go\<close>.
\<close>

section \<open>The run\<close>

text \<open>
  The report a worker sends after executing a task: \<open>completed\<close> with the pairs it produced, or
  \<open>not started\<close> with worker \<open>-1\<close> when the execution returned an error.
\<close>

definition worker_report :: "Task \<Rightarrow> KeyValue list option \<Rightarrow> UpdateTaskStatusArgs" where
  "worker_report t res = (case res of
      None \<Rightarrow> \<lparr>u_TaskId = t_Id t, u_AssignedWorkerId = -1, u_WriteLocation = t_WriteLocation t,
               u_Status = ''not started'', u_Intermediate = [], u_Retries = t_Retries t + 1\<rparr>
    | Some kvs \<Rightarrow> \<lparr>u_TaskId = t_Id t, u_AssignedWorkerId = t_AssignedWorkerId t, u_WriteLocation = t_WriteLocation t,
               u_Status = ''completed'', u_Intermediate = kvs, u_Retries = t_Retries t\<rparr>)"

text \<open>A worker keeps the task of its last request; a reply without a location means that there is none.\<close>

definition worker_accept :: "Task \<Rightarrow> Task option" where
  "worker_accept t = (if t_ReadLocation t = '''' then None else Some t)"

record mr_state =
  ms_c :: Coordinator
  ms_held :: "int \<Rightarrow> Task option"

text \<open>
  \<open>out f\<close> is what the map function makes of input file \<open>f\<close>. The steps stop at the report
  that completes the map phase: its effect is the subject of the theory \<open>MRSpec\<close>.
\<close>

inductive mr_step :: "(string \<Rightarrow> KeyValue list) \<Rightarrow> mr_state \<Rightarrow> mr_state \<Rightarrow> bool" for out where
  request: "w \<noteq> -1 \<Longrightarrow> ms_held s w = None \<Longrightarrow> RequestTask now w (ms_c s) = (t, c') \<Longrightarrow>
    mr_step out s \<lparr>ms_c = c', ms_held = (ms_held s)(w := worker_accept t)\<rparr>"
| report: "ms_held s w = Some t \<Longrightarrow> \<not> IsReduceGenerated (ms_c s) \<Longrightarrow>
    res = None \<or> res = Some (out (t_ReadLocation t)) \<Longrightarrow>
    mr_step out s \<lparr>ms_c = record_status now (worker_report t res) (ms_c s), ms_held = (ms_held s)(w := None)\<rparr>"
| crash: "mr_step out s (s\<lparr>ms_held := (ms_held s)(w := None)\<rparr>)"
| poll: "mr_step out s (s\<lparr>ms_c := snd (Done now (ms_c s))\<rparr>)"

inductive mr_run :: "(string \<Rightarrow> KeyValue list) \<Rightarrow> string list \<Rightarrow> mr_state \<Rightarrow> bool" for out fnames where
  start: "mr_run out fnames \<lparr>ms_c = fst (MakeCoordinator src now fnames n fs), ms_held = (\<lambda>_. None)\<rparr>"
| step: "mr_run out fnames s \<Longrightarrow> mr_step out s s' \<Longrightarrow> mr_run out fnames s'"

section \<open>The invariant\<close>

text \<open>What the completed map tasks of a table have produced.\<close>

definition task_out :: "(string \<Rightarrow> KeyValue list) \<Rightarrow> Task \<Rightarrow> KeyValue multiset" where
  "task_out out t = (if t_Status t = ''completed'' then mset (out (t_ReadLocation t)) else {#})"

definition table_out :: "(string \<Rightarrow> KeyValue list) \<Rightarrow> Task list \<Rightarrow> KeyValue multiset" where
  "table_out out ts = sum_list (map (task_out out) ts)"

definition task_ok :: "Task \<Rightarrow> bool" where
  "task_ok t \<longleftrightarrow> (t_Status t \<in> {''not started'', ''skipped''} \<and> t_AssignedWorkerId t = -1) \<or>
     (t_Status t \<in> {''in progress'', ''completed''} \<and> t_AssignedWorkerId t \<noteq> -1)"

definition task_key :: "Task \<Rightarrow> string \<times> string \<times> string" where
  "task_key t = (t_Id t, t_Type t, t_ReadLocation t)"

definition map_keys :: "string list \<Rightarrow> (string \<times> string \<times> string) list" where
  "map_keys fnames = map (\<lambda>(i, f). (itoa (int i), ''map'', f)) (List.enumerate 0 fnames)"

definition held_ok :: "Task list \<Rightarrow> int \<Rightarrow> Task \<Rightarrow> bool" where
  "held_ok ts w t \<longleftrightarrow> w \<noteq> -1 \<and> t_AssignedWorkerId t = w \<and> task_key t \<in> set (map task_key ts) \<and>
     (\<forall>t'\<in>set ts. t_Id t' = t_Id t \<and> t_AssignedWorkerId t' = w \<longrightarrow> t_Status t' = ''in progress'')"

definition mr_inv :: "(string \<Rightarrow> KeyValue list) \<Rightarrow> string list \<Rightarrow> mr_state \<Rightarrow> bool" where
  "mr_inv out fnames s \<longleftrightarrow> (let ts = Tasks (ms_c s) in
     \<not> IsReduceGenerated (ms_c s) \<and> map task_key ts = map_keys fnames \<and> (\<forall>t\<in>set ts. task_ok t) \<and>
     (\<forall>w t. ms_held s w = Some t \<longrightarrow> held_ok ts w t) \<and>
     mset (IntermediateResults (ms_c s)) = table_out out ts)"

section \<open>Lemmas\<close>

lemma first_index_Some: "first_index P xs = Some i \<Longrightarrow> i < length xs \<and> P (xs ! i)"
  by (induction xs arbitrary: i) (auto split: if_splits)

lemma first_index_None: "first_index P xs = None \<longleftrightarrow> (\<forall>x\<in>set xs. \<not> P x)"
  by (induction xs) auto

lemma map_keys_distinct: "distinct (map fst (map_keys fnames))"
proof -
  have e: "map fst (map_keys fnames) = map (\<lambda>i. itoa (int i)) [0..<length fnames]"
    by (rule nth_equalityI) (auto simp: map_keys_def nth_enumerate_eq)
  show ?thesis unfolding e by (simp add: distinct_map inj_on_def)
qed

lemma task_ids_distinct:
  assumes "map task_key ts = map_keys fnames"
  shows "distinct (map t_Id ts)"
proof -
  have "map t_Id ts = map fst (map task_key ts)" by (simp add: task_key_def o_def)
  then show ?thesis using map_keys_distinct [of fnames] assms by simp
qed

lemma task_key_unique:
  assumes "map task_key ts = map_keys fnames" "t \<in> set ts" "task_key u \<in> set (map task_key ts)" "t_Id t = t_Id u"
  shows "task_key t = task_key u"
proof -
  obtain v where v: "v \<in> set ts" "task_key v = task_key u" using assms(3) by auto
  have inj: "inj_on t_Id (set ts)" using task_ids_distinct [OF assms(1)] by (simp add: distinct_map)
  have "t_Id v = t_Id t" using v(2) assms(4) by (simp add: task_key_def)
  then show ?thesis using inj v assms(2) by (auto dest: inj_onD)
qed

lemma table_out_update:
  "i < length ts \<Longrightarrow> table_out out (ts[i := t]) + task_out out (ts ! i) = table_out out ts + task_out out t"
  by (induction ts arbitrary: i) (auto simp: table_out_def ac_simps split: nat.splits)

lemma table_out_same: "i < length ts \<Longrightarrow> task_out out t = task_out out (ts ! i) \<Longrightarrow> table_out out (ts[i := t]) = table_out out ts"
  using table_out_update [of i ts out t] by simp

lemma task_key_update: "i < length ts \<Longrightarrow> task_key t = task_key (ts ! i) \<Longrightarrow> map task_key (ts[i := t]) = map task_key ts"
  by (metis map_update list_update_id length_map nth_map)

text \<open>Changing a task keeps what a worker holds, if that task does not become its own.\<close>

lemma held_ok_change:
  assumes "held_ok ts w t" "map task_key ts' = map task_key ts"
    "\<forall>u\<in>set ts'. u \<in> set ts \<or> t_AssignedWorkerId u \<noteq> w"
  shows "held_ok ts' w t"
  using assms(1,3) unfolding held_ok_def assms(2) by blast

lemma held_ok_update:
  assumes "held_ok ts w t" "i < length ts" "task_key u = task_key (ts ! i)" "t_AssignedWorkerId u \<noteq> w"
  shows "held_ok (ts[i := u]) w t"
  using assms(4) set_update_subset_insert [of ts i u]
  by (intro held_ok_change [OF assms(1) task_key_update [OF assms(2,3)]]) blast

lemma held_ok_new:
  assumes "distinct (map t_Id ts)" "t \<in> set ts" "t_AssignedWorkerId t = w" "w \<noteq> -1" "t_Status t = ''in progress''"
  shows "held_ok ts w t"
proof -
  have "u = t" if "u \<in> set ts" "t_Id u = t_Id t" for u
    using assms(1,2) that by (meson distinct_map inj_onD)
  then show ?thesis using assms by (auto simp: held_ok_def)
qed

lemma map_task_key: "task_key (map_task d now i f) = (itoa (int i), ''map'', f)"
  by (simp add: task_key_def map_task_def)

lemma mr_inv_start: "mr_inv out fnames \<lparr>ms_c = fst (MakeCoordinator src now fnames n fs), ms_held = (\<lambda>_. None)\<rparr>"
proof -
  have "task_ok (map_task d now i f)" "task_out out (map_task d now i f) = {#}" for d i f
    by (simp_all add: task_ok_def map_task_def task_out_def)
  then show ?thesis
    by (auto simp: mr_inv_def MakeCoordinator_def initializeCoordinator_def initializeMapTasks_def Let_def
        map_keys_def case_prod_beta' o_def map_task_key table_out_def)
qed

lemma mr_inv_request:
  assumes "mr_inv out fnames s" "w \<noteq> -1" "ms_held s w = None" "RequestTask now w (ms_c s) = (t, c')"
  shows "mr_inv out fnames \<lparr>ms_c = c', ms_held = (ms_held s)(w := worker_accept t)\<rparr>"
proof -
  let ?P = "\<lambda>t. t_Status t = ''not started'' \<and> t_AssignedWorkerId t = -1"
  let ?ts = "Tasks (ms_c s)"
  note inv = assms(1) [unfolded mr_inv_def Let_def]
  show ?thesis
  proof (cases "first_index ?P ?ts")
    case None
    then have "t = no_task" "c' = ms_c s" using assms(4) by (auto simp: RequestTask_def)
    then show ?thesis using inv by (auto simp: mr_inv_def worker_accept_def no_task_def)
  next
    case (Some i)
    let ?t = "(?ts ! i)\<lparr>t_Status := ''in progress'', t_AssignedWorkerId := w, t_LastUpdated := now\<rparr>"
    have i: "i < length ?ts" "?P (?ts ! i)" using first_index_Some [OF Some] by auto
    have t: "t = ?t" and c': "c' = (ms_c s)\<lparr>Tasks := ?ts[i := ?t]\<rparr>"
      using assms(4) Some by (auto simp: RequestTask_def Let_def)
    have key: "task_key ?t = task_key (?ts ! i)" by (simp add: task_key_def)
    have keys: "map task_key (?ts[i := ?t]) = map task_key ?ts" by (rule task_key_update [OF i(1) key])
    have others: "held_ok (?ts[i := ?t]) v u" if "ms_held s v = Some u" for v u
      using that inv assms(3) by (intro held_ok_update [OF _ i(1) key]) auto
    have "distinct (map t_Id (?ts[i := ?t]))" using task_ids_distinct keys inv by metis
    moreover have "?t \<in> set (?ts[i := ?t])" using i(1) by (simp add: set_update_memI)
    ultimately have mine: "held_ok (?ts[i := ?t]) w ?t" by (rule held_ok_new) (simp_all add: assms(2))
    have "\<forall>u\<in>set (?ts[i := ?t]). task_ok u"
      using inv assms(2) set_update_subset_insert [of ?ts i ?t] by (auto simp: task_ok_def)
    moreover have "table_out out (?ts[i := ?t]) = table_out out ?ts"
      using i(2) by (intro table_out_same [OF i(1)]) (simp add: task_out_def)
    ultimately show ?thesis using inv keys others mine
      by (auto simp: mr_inv_def c' t worker_accept_def split: if_splits)
  qed
qed

lemma mr_inv_report:
  assumes "mr_inv out fnames s" "ms_held s w = Some t" "res = None \<or> res = Some (out (t_ReadLocation t))"
  shows "mr_inv out fnames \<lparr>ms_c = record_status now (worker_report t res) (ms_c s), ms_held = (ms_held s)(w := None)\<rparr>"
proof -
  let ?a = "worker_report t res" and ?ts = "Tasks (ms_c s)"
  let ?P = "\<lambda>t. t_Id t = u_TaskId ?a \<and> t_AssignedWorkerId t = u_AssignedWorkerId ?a"
  note inv = assms(1) [unfolded mr_inv_def Let_def]
  have held: "held_ok ?ts w t" using inv assms(2) by blast
  show ?thesis
  proof (cases "first_index ?P ?ts")
    case None
    then have "record_status now ?a (ms_c s) = ms_c s" by (simp add: record_status_def)
    then show ?thesis using inv by (auto simp: mr_inv_def)
  next
    case (Some i)
    let ?t = "(?ts ! i)\<lparr>t_Status := u_Status ?a, t_WriteLocation := u_WriteLocation ?a, t_Retries := u_Retries ?a, t_LastUpdated := now\<rparr>"
    have i: "i < length ?ts" "?P (?ts ! i)" using first_index_Some [OF Some] by auto
    have c': "record_status now ?a (ms_c s) = (ms_c s)\<lparr>IntermediateResults := IntermediateResults (ms_c s) @ u_Intermediate ?a, Tasks := ?ts[i := ?t]\<rparr>"
      using Some by (simp add: record_status_def)
    have key: "task_key ?t = task_key (?ts ! i)" by (simp add: task_key_def)
    have mem: "?ts ! i \<in> set ?ts" using i(1) by simp
    have okay: "task_ok (?ts ! i)" using inv mem by blast
    have id: "t_Id (?ts ! i) = t_Id t" using i(2) by (simp add: worker_report_def split: option.splits)
    have same: "t_ReadLocation (?ts ! i) = t_ReadLocation t"
      using task_key_unique [of ?ts fnames "?ts ! i" t] inv held mem id by (simp add: held_ok_def task_key_def)
    have tok: "task_ok ?t" and asg: "t_AssignedWorkerId ?t \<in> {-1, w}"
      and produced: "mset (u_Intermediate ?a) + task_out out (?ts ! i) = task_out out ?t"
      using okay i(2) held mem id same assms(3)
      by (cases res; auto simp: worker_report_def task_ok_def held_ok_def task_out_def)+
    have others: "held_ok (?ts[i := ?t]) v u" if "ms_held s v = Some u" "v \<noteq> w" for v u
    proof -
      have vu: "held_ok ?ts v u" using inv that(1) by blast
      then have "t_AssignedWorkerId ?t \<noteq> v" using asg that(2) by (auto simp: held_ok_def)
      then show ?thesis by (rule held_ok_update [OF vu i(1) key])
    qed
    have "table_out out (?ts[i := ?t]) = table_out out ?ts + mset (u_Intermediate ?a)"
      using table_out_update [OF i(1), of out ?t] produced by (metis add.assoc add_right_cancel)
    moreover have "\<forall>u\<in>set (?ts[i := ?t]). task_ok u"
      using inv tok set_update_subset_insert [of ?ts i ?t] by blast
    ultimately show ?thesis using inv task_key_update [OF i(1) key] others
      by (auto simp: mr_inv_def c')
  qed
qed

text \<open>The poll: every task it changes loses its worker, and none becomes or stops being completed.\<close>

definition polled :: "Task \<Rightarrow> Task \<Rightarrow> bool" where
  "polled t t' \<longleftrightarrow> t' = t \<or> (task_key t' = task_key t \<and> t_Status t \<noteq> ''completed'' \<and> t_AssignedWorkerId t' = -1 \<and>
     t_Status t' \<in> {''not started'', ''skipped''})"

lemma Done_loop_polled: "list_all2 polled ts (snd (Done_loop now ts))"
proof (induction ts)
  case (Cons t ts)
  have "polled t (setNotStartedIfApplicable now (setSkippedIfApplicable now t))"
    by (auto simp: polled_def task_key_def setNotStartedIfApplicable_def setSkippedIfApplicable_def)
  moreover have "list_all2 polled ts ts" by (simp add: list_all2_same polled_def)
  ultimately show ?case using Cons by (auto simp: Let_def case_prod_beta')
qed simp

lemma polled_facts:
  assumes "list_all2 polled ts ts'"
  shows "map task_key ts' = map task_key ts" "table_out out ts' = table_out out ts"
    "\<forall>u\<in>set ts'. u \<in> set ts \<or> (t_AssignedWorkerId u = -1 \<and> task_ok u)"
  using assms
  by (induction rule: list_all2_induct) (auto simp: polled_def table_out_def task_out_def task_ok_def)

lemma mr_inv_poll:
  assumes "mr_inv out fnames s"
  shows "mr_inv out fnames (s\<lparr>ms_c := snd (Done now (ms_c s))\<rparr>)"
proof -
  let ?ts = "Tasks (ms_c s)" and ?ts' = "snd (Done_loop now (Tasks (ms_c s)))"
  note inv = assms [unfolded mr_inv_def Let_def] and p = polled_facts [OF Done_loop_polled [of ?ts now]]
  have held: "held_ok ?ts' w t" if "ms_held s w = Some t" for w t
  proof -
    have h: "held_ok ?ts w t" using inv that by blast
    then have "w \<noteq> -1" by (simp add: held_ok_def)
    then show ?thesis using p(3) by (intro held_ok_change [OF h p(1)]) auto
  qed
  have ok: "\<forall>u\<in>set ?ts'. task_ok u" using p(3) inv by blast
  have d: "snd (Done now (ms_c s)) = (ms_c s)\<lparr>Tasks := ?ts'\<rparr>" by (simp add: Done_def Let_def case_prod_beta')
  show ?thesis using inv p(1,2) held ok by (simp add: mr_inv_def d)
qed

lemma mr_run_inv: "mr_run out fnames s \<Longrightarrow> mr_inv out fnames s"
proof (induction rule: mr_run.induct)
  case (start src now n fs)
  show ?case by (rule mr_inv_start)
next
  case (step s s')
  from step.hyps(2) show ?case
  proof (cases rule: mr_step.cases)
    case (request w now t c')
    then show ?thesis using mr_inv_request [OF step.IH] by simp
  next
    case (report w t res now)
    then show ?thesis using mr_inv_report [OF step.IH] by simp
  next
    case (crash w)
    then show ?thesis using step.IH by (auto simp: mr_inv_def Let_def)
  next
    case (poll now)
    then show ?thesis using mr_inv_poll [OF step.IH] by simp
  qed
qed

section \<open>Properties\<close>

lemma map_keys_locations: "map (\<lambda>k. snd (snd k)) (map_keys fnames) = fnames"
  by (rule nth_equalityI) (auto simp: map_keys_def nth_enumerate_eq)

lemma table_out_all:
  "\<forall>t\<in>set ts. t_Status t = ''completed'' \<Longrightarrow> table_out out ts = mset (concat (map (out \<circ> t_ReadLocation) ts))"
  by (induction ts) (auto simp: table_out_def task_out_def)

text \<open>
  C10. Every input file counts once. In every run of workers that request, report, fail and crash in
  any order while the poll takes tasks away from slow ones, the intermediate results are exactly
  the map outputs of the tasks that are marked completed, each once however often the task was
  handed out; so when all of them are completed they are the map outputs of all input files.
\<close>

theorem mr_exactly_once:
  assumes "mr_run out fnames s"
  shows "mset (IntermediateResults (ms_c s)) =
      sum_list (map (\<lambda>t. if t_Status t = ''completed'' then mset (out (t_ReadLocation t)) else {#}) (Tasks (ms_c s))) \<and>
    map t_ReadLocation (Tasks (ms_c s)) = fnames \<and>
    ((\<forall>t\<in>set (Tasks (ms_c s)). t_Status t = ''completed'') \<longrightarrow>
      mset (IntermediateResults (ms_c s)) = mset (concat (map out fnames)))"
proof -
  let ?ts = "Tasks (ms_c s)"
  have keys: "map task_key ?ts = map_keys fnames" and ir: "mset (IntermediateResults (ms_c s)) = table_out out ?ts"
    using mr_run_inv [OF assms] by (auto simp: mr_inv_def Let_def)
  have locs: "map t_ReadLocation ?ts = fnames"
    using arg_cong [OF keys, of "map (\<lambda>k. snd (snd k))"] by (simp add: map_keys_locations task_key_def o_def)
  then have "concat (map (out \<circ> t_ReadLocation) ?ts) = concat (map out fnames)" by (metis map_map)
  then show ?thesis using locs ir table_out_all [of ?ts out] by (simp add: table_out_def task_out_def [abs_def])
qed

definition one_file_out :: "string \<Rightarrow> KeyValue list" where
  "one_file_out f = [\<lparr>kKey = f, kValue = ''1''\<rparr>]"

definition no_files :: fsys where
  "no_files = \<lparr>files = Map.empty, dirs = [''/m/main'']\<rparr>"

definition one_file_start :: mr_state where
  "one_file_start = \<lparr>ms_c = fst (MakeCoordinator ''/m/mr/c.go'' 0 [''f''] 10 no_files), ms_held = (\<lambda>_. None)\<rparr>"

text \<open>The worker 7 requests the only task and reports it.\<close>

definition one_file_asked :: mr_state where
  "one_file_asked = (case RequestTask 1 7 (ms_c one_file_start) of (t, c') \<Rightarrow>
     \<lparr>ms_c = c', ms_held = (\<lambda>_. None)(7 := worker_accept t)\<rparr>)"

definition one_file_done :: mr_state where
  "one_file_done = \<lparr>ms_c = record_status 2 (worker_report (the (ms_held one_file_asked 7)) (Some (one_file_out ''f''))) (ms_c one_file_asked),
     ms_held = (ms_held one_file_asked)(7 := None)\<rparr>"

lemmas one_file_defs = one_file_start_def one_file_asked_def one_file_done_def MakeCoordinator_def initializeCoordinator_def
  initializeMapTasks_def map_task_def RequestTask_def worker_accept_def worker_report_def record_status_def one_file_out_def

lemma one_file_run: "mr_run one_file_out [''f''] one_file_asked" "mr_run one_file_out [''f''] one_file_done"
proof -
  have s: "mr_run one_file_out [''f''] one_file_start"
    unfolding one_file_start_def by (rule mr_run.start)
  obtain t c' where t: "RequestTask 1 7 (ms_c one_file_start) = (t, c')" by fastforce
  have "mr_step one_file_out one_file_start one_file_asked"
    using mr_step.request [of 7 one_file_start 1 t c' one_file_out] t by (simp add: one_file_asked_def one_file_start_def)
  then show asked: "mr_run one_file_out [''f''] one_file_asked" by (rule mr_run.step [OF s])
  obtain u where u: "ms_held one_file_asked 7 = Some u" "t_ReadLocation u = ''f''" "\<not> IsReduceGenerated (ms_c one_file_asked)"
    by (simp add: one_file_defs Let_def)
  have "mr_step one_file_out one_file_asked one_file_done"
    using mr_step.report [of one_file_asked 7 u "Some (one_file_out ''f'')" one_file_out 2] u by (simp add: one_file_done_def)
  then show "mr_run one_file_out [''f''] one_file_done" by (rule mr_run.step [OF asked])
qed

theorem mr_exactly_once_witness:
  "mset (IntermediateResults (ms_c one_file_done)) = {#\<lparr>kKey = ''f'', kValue = ''1''\<rparr>#}"
proof -
  have "\<forall>t\<in>set (Tasks (ms_c one_file_done)). t_Status t = ''completed''" by (simp add: one_file_defs Let_def)
  then show ?thesis using mr_exactly_once [OF one_file_run(2)] by (simp add: one_file_out_def)
qed



text \<open>
  The poll can say that the job is done although no reduce task was ever made: when the last
  map task that is left is the one it gives up, no report follows that would generate them.
\<close>

lemma Done_without_reduce:
  "let t = (map_task ''/m/main'' 0 0 ''f'')\<lparr>t_Status := ''in progress'', t_AssignedWorkerId := 7, t_Retries := 11\<rparr>;
       c = (fst (MakeCoordinator ''/m/mr/c.go'' 0 [''f''] 10 no_files))\<lparr>Tasks := [t]\<rparr>
   in fst (Done 1 c) \<and> \<not> IsReduceGenerated (snd (Done 1 c)) \<and>
      filter (\<lambda>t. t_Type t = ''reduce'') (Tasks (snd (Done 1 c))) = []"
  by (simp add: Done_def map_task_def MakeCoordinator_def initializeCoordinator_def Let_def
      setSkippedIfApplicable_def setNotStartedIfApplicable_def)

end
