(* ===== verification/MRWorker.thy ===== *)
theory MRWorker
  imports MRRun
begin

text \<open>
  The MapReduce worker, \<open>mr/worker.go\<close>, the sequential reference program
  \<open>main/mrsequential.go\<close> and the applications of \<open>mrapps\<close>. The map and reduce functions
  a worker loads from a plugin are arguments. Results of a call that returns an error are
  \<^const>\<open>None\<close>.
\<close>

section \<open>Text\<close>

definition getFileNameOnly :: "string \<Rightarrow> string outcome" where
  "getFileNameOnly filename =
     (let fileName = last (split_on CHR ''/'' filename) in
      if length fileName < 4 then Inl Panic else Ret (take (length fileName - 4) fileName))"

definition toKeyValue :: "string \<Rightarrow> KeyValue outcome" where
  "toKeyValue line =
     (let tmp = split_on CHR '' '' line in
      if length tmp < 2 then Inl Panic else Ret \<lparr>kKey = tmp ! 0, kValue = tmp ! 1\<rparr>)"

fun toKeyValues :: "string list \<Rightarrow> KeyValue list outcome" where
  "toKeyValues [] = Ret []"
| "toKeyValues (l # ls) = (case toKeyValue l of Inl e \<Rightarrow> Inl e
     | Inr kv \<Rightarrow> (case toKeyValues ls of Inl e \<Rightarrow> Inl e | Inr kvs \<Rightarrow> Ret (kv # kvs)))"

section \<open>Files\<close>

definition writeToLocation :: "string \<Rightarrow> string \<Rightarrow> KeyValue list \<Rightarrow> fsys \<Rightarrow> fsys" where
  "writeToLocation fileName writeLocation kvs fs = write_file (path_Join writeLocation fileName) (kv_lines kvs) fs"

definition writeToWorkerInitDir :: "string \<Rightarrow> string \<Rightarrow> KeyValue list \<Rightarrow> fsys \<Rightarrow> fsys" where
  "writeToWorkerInitDir workerInitDir writeLocation kvs fs =
     (if workerInitDir = '''' then fs
      else if Clean workerInitDir = Clean (Dir writeLocation) then fs
      else writeToLocation (Base writeLocation) workerInitDir kvs fs)"

definition copyToWorkerInitDir :: "string \<Rightarrow> string \<Rightarrow> fsys \<Rightarrow> fsys" where
  "copyToWorkerInitDir workerInitDir writeLocation fs =
     (if workerInitDir = '''' then fs
      else if Clean workerInitDir = Clean (Dir writeLocation) then fs
      else case files fs writeLocation of
        None \<Rightarrow> fs
      | Some data \<Rightarrow> write_file (path_Join workerInitDir (Base writeLocation)) data fs)"

section \<open>Executing a task\<close>

definition executeMapf :: "string \<Rightarrow> string \<Rightarrow> string \<Rightarrow> (string \<Rightarrow> string \<Rightarrow> KeyValue list) \<Rightarrow> fsys \<Rightarrow>
    (KeyValue list option \<times> fsys) outcome" where
  "executeMapf workerInitDir readLocation writeLocation mapf fs =
     (case files fs (abs_path workerInitDir readLocation) of
        None \<Rightarrow> Ret (None, fs)
      | Some contents \<Rightarrow>
          let kvs = mapf readLocation contents in
          (case getFileNameOnly writeLocation of
             Inl e \<Rightarrow> Inl e
           | Inr fileNameOnly \<Rightarrow>
               Ret (Some kvs, writeToWorkerInitDir workerInitDir writeLocation kvs
                                (writeToLocation fileNameOnly writeLocation kvs fs))))"

text \<open>
  The grouping loop over sorted pairs, which \<open>executeReducef\<close> and the sequential program
  share: a run of equal keys, one call of the reduce function, one line of output.
\<close>

function reduce_loop :: "(string \<Rightarrow> string list \<Rightarrow> string) \<Rightarrow> KeyValue list \<Rightarrow> string list" where
  "reduce_loop reducef [] = []"
| "reduce_loop reducef (kv # rest) =
     (let same = takeWhile (\<lambda>x. kKey kv = kKey x) rest;
          output = reducef (kKey kv) (kValue kv # map kValue same)
      in (kKey kv @ '' '' @ output) # reduce_loop reducef (dropWhile (\<lambda>x. kKey kv = kKey x) rest))"
  by pat_completeness auto
termination
  by (relation "measure (\<lambda>(_, l). length l)") (auto simp: le_imp_less_Suc length_dropWhile_le)

definition unlines :: "string list \<Rightarrow> string" where
  "unlines ls = concat (map (\<lambda>l. l @ [newline]) ls)"

definition executeReducef :: "(KeyValue list \<Rightarrow> KeyValue list) \<Rightarrow> string \<Rightarrow> string \<Rightarrow> string \<Rightarrow>
    (string \<Rightarrow> string list \<Rightarrow> string) \<Rightarrow> fsys \<Rightarrow> (bool \<times> fsys) outcome" where
  "executeReducef srt workerInitDir readLocation writeLocation reducef fs =
     (case files fs readLocation of
        None \<Rightarrow> Ret (False, fs)
      | Some data \<Rightarrow>
          (case toKeyValues (split_on newline (TrimSuffix_nl data)) of
             Inl e \<Rightarrow> Inl e
           | Inr intermediate \<Rightarrow>
               let out = unlines (reduce_loop reducef (srt intermediate))
               in Ret (True, copyToWorkerInitDir workerInitDir writeLocation (write_file writeLocation out fs))))"

text \<open>One turn of the worker's loop: what it executes for the task it got, and the report it sends.\<close>

definition Worker_turn :: "(KeyValue list \<Rightarrow> KeyValue list) \<Rightarrow> string \<Rightarrow> (string \<Rightarrow> string \<Rightarrow> KeyValue list) \<Rightarrow>
    (string \<Rightarrow> string list \<Rightarrow> string) \<Rightarrow> Task \<Rightarrow> fsys \<Rightarrow> (UpdateTaskStatusArgs option \<times> fsys) outcome" where
  "Worker_turn srt workerInitDir mapf reducef t fs =
     (case worker_accept t of
        None \<Rightarrow> Ret (None, fs)
      | Some t \<Rightarrow>
          if t_Type t = ''map'' then
            (case executeMapf workerInitDir (t_ReadLocation t) (t_WriteLocation t) mapf fs of
               Inl e \<Rightarrow> Inl e
             | Inr (res, fs') \<Rightarrow> Ret (Some (worker_report t res), fs'))
          else
            (case executeReducef srt workerInitDir (t_ReadLocation t) (t_WriteLocation t) reducef fs of
               Inl e \<Rightarrow> Inl e
             | Inr (ok, fs') \<Rightarrow> Ret (Some (worker_report t (if ok then Some [] else None)), fs')))"

section \<open>The sequential program\<close>

text \<open>\<open>cwd\<close> is the directory the program runs in; the plugin is loaded, as for the worker.\<close>

fun read_and_map :: "string \<Rightarrow> (string \<Rightarrow> string \<Rightarrow> KeyValue list) \<Rightarrow> string list \<Rightarrow> fsys \<Rightarrow> KeyValue list outcome" where
  "read_and_map cwd mapf [] fs = Ret []"
| "read_and_map cwd mapf (f # fnames) fs = (case files fs (abs_path cwd f) of
      None \<Rightarrow> Inl Fatal
    | Some content \<Rightarrow> (case read_and_map cwd mapf fnames fs of Inl e \<Rightarrow> Inl e
        | Inr kvs \<Rightarrow> Ret (mapf f content @ kvs)))"

definition mrsequential :: "string \<Rightarrow> (KeyValue list \<Rightarrow> KeyValue list) \<Rightarrow> (string \<Rightarrow> string \<Rightarrow> KeyValue list) \<Rightarrow>
    (string \<Rightarrow> string list \<Rightarrow> string) \<Rightarrow> string list \<Rightarrow> fsys \<Rightarrow> fsys outcome" where
  "mrsequential cwd srt mapf reducef fnames fs =
     (if fnames = [] then Inl Fatal else
      case read_and_map cwd mapf fnames fs of Inl e \<Rightarrow> Inl e
      | Inr intermediate \<Rightarrow> Ret (write_file (abs_path cwd ''mr-out-0'') (unlines (reduce_loop reducef (srt intermediate))) fs))"

section \<open>Applications\<close>

text \<open>
  \<open>isLetter\<close> is \<open>unicode.IsLetter\<close> on the contents' characters, which are bytes here: the
  definitions read contents without multi-byte characters.
\<close>

definition wc_Map :: "(char \<Rightarrow> bool) \<Rightarrow> string \<Rightarrow> string \<Rightarrow> KeyValue list" where
  "wc_Map isLetter filename contents =
     map (\<lambda>w. \<lparr>kKey = w, kValue = ''1''\<rparr>) (FieldsFunc (\<lambda>r. \<not> isLetter r) contents)"

definition wc_Reduce :: "string \<Rightarrow> string list \<Rightarrow> string" where
  "wc_Reduce key vals = itoa (int (length vals))"

text \<open>\<open>ord\<close> is the order in which the set of words is walked.\<close>

definition indexer_Map :: "(string list \<Rightarrow> string list) \<Rightarrow> (char \<Rightarrow> bool) \<Rightarrow> string \<Rightarrow> string \<Rightarrow> KeyValue list" where
  "indexer_Map ord isLetter document contents =
     map (\<lambda>w. \<lparr>kKey = w, kValue = document\<rparr>) (ord (remdups (FieldsFunc (\<lambda>x. \<not> isLetter x) contents)))"

definition indexer_Reduce :: "string \<Rightarrow> string list \<Rightarrow> string" where
  "indexer_Reduce key vals = itoa (int (length vals)) @ '' '' @ join_with '','' (sort vals)"

definition nocrash_Map :: "string \<Rightarrow> string \<Rightarrow> KeyValue list" where
  "nocrash_Map filename contents =
     [\<lparr>kKey = ''a'', kValue = filename\<rparr>, \<lparr>kKey = ''b'', kValue = itoa (int (length filename))\<rparr>,
      \<lparr>kKey = ''c'', kValue = itoa (int (length contents))\<rparr>, \<lparr>kKey = ''d'', kValue = ''xyzzy''\<rparr>]"

definition nocrash_Reduce :: "string \<Rightarrow> string list \<Rightarrow> string" where
  "nocrash_Reduce key vals = join_with '' '' (sort vals)"

definition early_exit_Map :: "string \<Rightarrow> string \<Rightarrow> KeyValue list" where
  "early_exit_Map filename contents = [\<lparr>kKey = filename, kValue = ''1''\<rparr>]"

definition early_exit_Reduce :: "string \<Rightarrow> string list \<Rightarrow> string" where
  "early_exit_Reduce key vals = itoa (int (length vals))"

section \<open>What the applications promise\<close>

text \<open>The line of output that a list of pairs gives for a key.\<close>

definition line_of :: "(string \<Rightarrow> string list \<Rightarrow> string) \<Rightarrow> KeyValue list \<Rightarrow> string \<Rightarrow> string" where
  "line_of reducef kvs k = k @ '' '' @ reducef k (map kValue (filter (\<lambda>kv. kKey kv = k) kvs))"

text \<open>
  A reduce function may be called with the values of a key in any order: the distributed and the
  sequential program agree for those whose result does not depend on it.
\<close>

locale reduce_function =
  fixes reducef :: "string \<Rightarrow> string list \<Rightarrow> string"
  assumes reducef_mset: "mset vs = mset vs' \<Longrightarrow> reducef k vs = reducef k vs'"
begin

text \<open>A line depends on the pairs as a multiset only.\<close>

lemma line_of_mset: "mset kvs = mset kvs' \<Longrightarrow> line_of reducef kvs = line_of reducef kvs'"
  unfolding line_of_def fun_eq_iff by (metis reducef_mset mset_filter mset_map)

end

interpretation wc: reduce_function wc_Reduce
  by unfold_locales (metis wc_Reduce_def size_mset)

interpretation early_exit: reduce_function early_exit_Reduce
  by unfold_locales (metis early_exit_Reduce_def size_mset)

interpretation indexer: reduce_function indexer_Reduce
  by unfold_locales (metis indexer_Reduce_def size_mset sorted_list_of_multiset_mset)

interpretation nocrash: reduce_function nocrash_Reduce
  by unfold_locales (metis nocrash_Reduce_def sorted_list_of_multiset_mset)

end
