(* ===== verification/MRSpec.thy ===== *)
theory MRSpec
  imports MRWorker
begin

text \<open>
  What the MapReduce job computes: the shuffle puts every pair into the one partition of its key,
  the partition files are read back as they were written, and the reduce outputs together are the
  output of the sequential program.
\<close>

section \<open>The grouping loop\<close>

lemma sorted_run:
  assumes "sorted (map kKey (kv # rest))"
  shows "\<forall>x\<in>set (dropWhile (\<lambda>x. kKey kv = kKey x) rest). kKey kv < kKey x"
  using assms
proof (induction rest)
  case (Cons y ys)
  show ?case
  proof (cases "kKey kv = kKey y")
    case True
    then show ?thesis using Cons by auto
  next
    case False
    then have "kKey kv < kKey y" using Cons.prems by (simp add: order_less_le)
    then show ?thesis using False Cons.prems by auto
  qed
qed simp

text \<open>On pairs sorted by key, the loop makes one line for each key, from all values of that key.\<close>

lemma reduce_loop_lines:
  "sorted (map kKey xs) \<Longrightarrow>
    mset (reduce_loop reducef xs) = image_mset (line_of reducef xs) (mset_set (kKey ` set xs))"
proof (induction reducef xs rule: reduce_loop.induct)
  case (2 reducef kv rest)
  let ?k = "kKey kv"
  define a b where "a = takeWhile (\<lambda>x. ?k = kKey x) rest" and "b = dropWhile (\<lambda>x. ?k = kKey x) rest"
  have rest: "rest = a @ b" by (simp add: a_def b_def)
  have gt: "\<forall>x\<in>set b. ?k < kKey x" unfolding b_def by (rule sorted_run [OF "2.prems"])
  have same: "\<forall>x\<in>set a. kKey x = ?k" by (auto simp: a_def dest: set_takeWhileD)
  have srt: "sorted (map kKey b)" using "2.prems" by (auto simp: rest sorted_append)
  have keys: "kKey ` set (kv # rest) = insert ?k (kKey ` set b)" using same by (auto simp: rest)
  have fresh: "?k \<notin> kKey ` set b" using gt by auto
  have f1: "filter (\<lambda>x. kKey x = ?k) (kv # rest) = kv # a"
    using gt same by (auto simp: rest filter_id_conv filter_empty_conv)
  have f2: "filter (\<lambda>x. kKey x = k) (kv # rest) = filter (\<lambda>x. kKey x = k) b" if "k \<noteq> ?k" for k
    using same that by (auto simp: rest filter_empty_conv)
  have l1: "line_of reducef (kv # rest) ?k = ?k @ '' '' @ reducef ?k (kValue kv # map kValue a)"
    unfolding line_of_def f1 by simp
  have l2: "image_mset (line_of reducef (kv # rest)) (mset_set (kKey ` set b))
      = image_mset (line_of reducef b) (mset_set (kKey ` set b))"
    using fresh f2 by (intro image_mset_cong) (auto simp: line_of_def)
  have "reduce_loop reducef (kv # rest) = line_of reducef (kv # rest) ?k # reduce_loop reducef b"
    by (simp add: l1 a_def [symmetric] b_def [symmetric] Let_def)
  moreover have "mset (reduce_loop reducef b) = image_mset (line_of reducef b) (mset_set (kKey ` set b))"
    using "2.IH" [OF refl refl] srt by (simp add: b_def)
  ultimately show ?case unfolding keys using fresh l2 by (simp add: mset_set.insert)
qed simp

section \<open>The shuffle\<close>

lemma shuffle_add_group: "shuffle_add n = group_add (\<lambda>kv. partition_of n (kKey kv))"
  by (simp add: shuffle_add_def group_add_def at_def fun_eq_iff Let_def)

lemma shuffle_returns:
  "ReducerCount c \<noteq> 0 \<Longrightarrow> shuffle srt c =
    Ret (foldl (group_add (\<lambda>kv. partition_of (ReducerCount c) (kKey kv))) [] (srt (IntermediateResults c)),
         c\<lparr>IntermediateResults := srt (IntermediateResults c)\<rparr>)"
  by (simp add: shuffle_def Let_def shuffle_add_group)

text \<open>
  The shuffle loses nothing and mixes no keys: with a number of reducers other than zero it
  returns, each partition is not empty and holds exactly the pairs whose key hashes to it, sorted by
  key, a partition exists for every pair, the numbers lie between 0 and the number of reducers, and
  no key occurs in two partitions. With no reducers it panics as soon as there is a pair.
\<close>

lemma shuffle_correct:
  assumes "key_sorter srt"
  shows "(ReducerCount c = 0 \<and> IntermediateResults c \<noteq> [] \<longrightarrow> shuffle srt c = Inl Panic) \<and>
    (ReducerCount c \<noteq> 0 \<longrightarrow> (\<exists>m c'. shuffle srt c = Ret (m, c') \<and> distinct (keys m) \<and>
      set (keys m) = (\<lambda>kv. partition_of (ReducerCount c) (kKey kv)) ` set (IntermediateResults c) \<and>
      (\<forall>(p, l) \<in> set m. 0 \<le> p \<and> p < \<bar>ReducerCount c\<bar> \<and> l \<noteq> [] \<and> sorted (map kKey l) \<and>
        mset l = {#kv \<in># mset (IntermediateResults c). partition_of (ReducerCount c) (kKey kv) = p#})))"
proof -
  let ?n = "ReducerCount c" and ?ir = "IntermediateResults c"
  let ?f = "\<lambda>kv. partition_of ?n (kKey kv)"
  let ?m = "foldl (group_add ?f) [] (srt ?ir)"
  have st: "set (srt ?ir) = set ?ir" "mset (srt ?ir) = mset ?ir" "sorted (map kKey (srt ?ir))" "srt ?ir = [] \<longleftrightarrow> ?ir = []"
    using assms by (simp_all add: key_sorter.srt_set key_sorter.srt_mset key_sorter.srt_sorted key_sorter.srt_Nil_iff)
  have entry: "0 \<le> p \<and> p < \<bar>?n\<bar> \<and> l \<noteq> [] \<and> sorted (map kKey l) \<and> mset l = {#kv \<in># mset ?ir. ?f kv = p#}"
    if "(p, l) \<in> set ?m" "?n \<noteq> 0" for p l
  proof -
    have l: "l = filter (\<lambda>kv. ?f kv = p) (srt ?ir)" and "p \<in> ?f ` set (srt ?ir)"
      using group_fold_entry [OF that(1)] by auto
    then obtain kv where "kv \<in> set (srt ?ir)" "p = ?f kv" by auto
    then have "l \<noteq> []" "0 \<le> p" "p < \<bar>?n\<bar>" using that(2) by (auto simp: l filter_empty_conv partition_of_def)
    moreover have "sorted (map kKey l)" unfolding l using st(3) by (rule sorted_filter)
    moreover have "mset l = {#kv \<in># mset ?ir. ?f kv = p#}" unfolding l by (simp add: st(2))
    ultimately show ?thesis by simp
  qed
  have "distinct (keys ?m)" using group_fold_wf [of "[]" ?f "srt ?ir"] by (simp add: wf_map_def)
  moreover have "set (keys ?m) = ?f ` set ?ir" using st(1) by simp
  moreover have "\<forall>(p, l) \<in> set ?m. 0 \<le> p \<and> p < \<bar>?n\<bar> \<and> l \<noteq> [] \<and> sorted (map kKey l) \<and>
      mset l = {#kv \<in># mset ?ir. ?f kv = p#}" if "?n \<noteq> 0"
    using entry that by blast
  moreover have "?n = 0 \<and> ?ir \<noteq> [] \<longrightarrow> shuffle srt c = Inl Panic" using st(4) by (simp add: shuffle_def Let_def)
  ultimately show ?thesis using shuffle_returns [of c srt] by blast
qed

definition two_pairs :: Coordinator where
  "two_pairs = \<lparr>MainDir = ''/m/main'', IntermediateResults = [\<lparr>kKey = ''b'', kValue = ''1''\<rparr>, \<lparr>kKey = ''a'', kValue = ''1''\<rparr>],
     ReducerCount = 1, Tasks = [], IsReduceGenerated = False\<rparr>"

lemma shuffle_correct_witness:
  "\<exists>m c'. shuffle (sort_key kKey) two_pairs = Ret (m, c') \<and> set (keys m) = {0}"
proof -
  have "partition_of 1 k = 0" for k by (simp add: partition_of_def)
  then show ?thesis using shuffle_correct [OF stable.key_sorter_axioms, of two_pairs]
    by (auto simp: two_pairs_def)
qed

section \<open>Partition files\<close>

text \<open>A pair that survives its line: neither part contains a space or a newline.\<close>

definition clean_kv :: "KeyValue \<Rightarrow> bool" where
  "clean_kv kv \<longleftrightarrow> CHR '' '' \<notin> set (kKey kv @ kValue kv) \<and> newline \<notin> set (kKey kv @ kValue kv)"

lemma toKeyValue_line: "clean_kv kv \<Longrightarrow> toKeyValue (kv_line kv) = Ret kv"
  by (simp add: clean_kv_def toKeyValue_def kv_line_def split_on_append split_on_word)

lemma toKeyValues_lines: "\<forall>kv\<in>set kvs. clean_kv kv \<Longrightarrow> toKeyValues (map kv_line kvs) = Ret kvs"
  by (induction kvs) (simp_all add: toKeyValue_line)

lemma newline_ne_space: "newline \<noteq> CHR '' ''"
  by (simp add: newline_def char_of_eq_iff)

lemma read_kv_lines:
  assumes "kvs \<noteq> []" "\<forall>kv\<in>set kvs. clean_kv kv"
  shows "toKeyValues (split_on newline (TrimSuffix_nl (kv_lines kvs))) = Ret kvs"
proof -
  have "kv_lines kvs = concat (map (\<lambda>l. l @ [newline]) (map kv_line kvs))" by (simp add: kv_lines_def o_def)
  moreover have "\<forall>l\<in>set (map kv_line kvs). newline \<notin> set l"
    using assms(2) newline_ne_space by (auto simp: clean_kv_def kv_line_def)
  ultimately have "split_on newline (TrimSuffix_nl (kv_lines kvs)) = map kv_line kvs"
    using lines_round_trip [of "map kv_line kvs"] assms(1) by simp
  then show ?thesis using toKeyValues_lines [OF assms(2)] by simp
qed

text \<open>
  A partition file is read back as it was written: after \<open>store\<close> has written a partition
  whose keys and values contain no space and no newline, \<open>executeReducef\<close> on that file parses
  the same pairs, does not panic, and writes the reduce output of exactly these pairs. (A value
  with a space comes back cut at the space, and a line without one makes the worker panic.)
\<close>

lemma partition_file_round_trip:
  assumes "store c p kvs fs = (loc, fs')" "Dir loc \<in> set (dirs fs)" "loc \<notin> set (dirs fs)"
    "kvs \<noteq> []" "\<forall>kv\<in>set kvs. clean_kv kv"
  shows "executeReducef srt dir loc out reducef fs' =
    Ret (True, copyToWorkerInitDir dir out (write_file out (unlines (reduce_loop reducef (srt kvs))) fs'))"
proof -
  have "loc = path_Join (MainDir c) (''p-'' @ itoa p)" "fs' = write_file loc (kv_lines kvs) fs"
    using assms(1) by (auto simp: store_def Let_def)
  then have "files fs' loc = Some (kv_lines kvs)" using assms(2,3) by (simp add: write_file_def)
  then show ?thesis using read_kv_lines [OF assms(4,5)] by (simp add: executeReducef_def Let_def)
qed

section \<open>The job\<close>

text \<open>The coordinator's directory exists, and none of its files is a directory.\<close>

definition main_dir_ok :: "string list \<Rightarrow> Coordinator \<Rightarrow> fsys \<Rightarrow> bool" where
  "main_dir_ok ps c fs \<longleftrightarrow> ps \<noteq> [] \<and> (\<forall>p\<in>set ps. plain_name p) \<and> MainDir c = clean_dir ps \<and>
     clean_dir ps \<in> set (dirs fs) \<and> (\<forall>f. clean_dir (ps @ [f]) \<notin> set (dirs fs))"

lemma itoa_no_slash: "CHR ''/'' \<notin> set (itoa i)"
proof -
  have "CHR ''/'' \<notin> set (nat_str n)" for n by (rule not_in_nat_str) simp
  then show ?thesis by (simp add: itoa_def)
qed

lemma plain_names: "plain_name (''p-'' @ itoa p)" "plain_name (''mr-out-'' @ itoa p)"
  using itoa_no_slash by (simp_all add: plain_name_def)

definition p_file :: "string list \<Rightarrow> int \<Rightarrow> string" where
  "p_file ps p = clean_dir (ps @ [''p-'' @ itoa p])"

definition out_file :: "string list \<Rightarrow> int \<Rightarrow> string" where
  "out_file ps p = clean_dir (ps @ [''mr-out-'' @ itoa p])"

lemma main_dir_files:
  assumes "main_dir_ok ps c fs"
  shows "path_Join (MainDir c) (''p-'' @ itoa p) = p_file ps p"
    and "path_Join (MainDir c) (''mr-out-'' @ itoa p) = out_file ps p"
    and "write_file (p_file ps p) s fs = fs\<lparr>files := (files fs)(p_file ps p \<mapsto> s)\<rparr>"
    and "write_file (out_file ps p) s fs = fs\<lparr>files := (files fs)(out_file ps p \<mapsto> s)\<rparr>"
    and "p_file ps p = p_file ps q \<longleftrightarrow> p = q" and "out_file ps p = out_file ps q \<longleftrightarrow> p = q"
    and "p_file ps p \<noteq> out_file ps q"
    and "Dir (out_file ps p) = MainDir c" and "Clean (MainDir c) = MainDir c"
  using assms plain_names
  by (simp_all add: main_dir_ok_def p_file_def out_file_def path_Join_clean write_file_def Dir_clean_dir
      clean_dir_inject Clean_clean_dir)

lemma main_dir_ok_step [simp]: "main_dir_ok ps (c\<lparr>Tasks := ts\<rparr>) (fs\<lparr>files := f\<rparr>) = main_dir_ok ps c fs"
  by (simp add: main_dir_ok_def)

text \<open>The reduce tasks and the partition files that one map of partitions gives.\<close>

lemma initializeReduceTasks_Cons:
  "main_dir_ok ps c fs \<Longrightarrow> initializeReduceTasks now ((q, kvs) # m) (c, fs) =
    initializeReduceTasks now m (c\<lparr>Tasks := Tasks c @ [reduce_task (MainDir c) now q (p_file ps q)]\<rparr>,
      fs\<lparr>files := (files fs)(p_file ps q \<mapsto> kv_lines kvs)\<rparr>)"
  using main_dir_files(1,3) [of ps c fs] by (simp add: store_def Let_def)

lemma initializeReduceTasks_state:
  "main_dir_ok ps c fs \<Longrightarrow>
    fst (initializeReduceTasks now m (c, fs)) =
      c\<lparr>Tasks := Tasks c @ map (\<lambda>(p, l). reduce_task (MainDir c) now p (p_file ps p)) m\<rparr> \<and>
    dirs (snd (initializeReduceTasks now m (c, fs))) = dirs fs"
proof (induction m arbitrary: c fs)
  case (Cons x m)
  obtain q kvs where x: "x = (q, kvs)" by (cases x)
  show ?case unfolding x initializeReduceTasks_Cons [OF Cons.prems] using Cons by simp
qed simp

lemma initializeReduceTasks_other:
  "main_dir_ok ps c fs \<Longrightarrow> p \<notin> set (keys m) \<Longrightarrow>
    files (snd (initializeReduceTasks now m (c, fs))) (p_file ps p) = files fs (p_file ps p)"
proof (induction m arbitrary: c fs)
  case (Cons x m)
  obtain q kvs where x: "x = (q, kvs)" by (cases x)
  then have "p \<noteq> q" using Cons.prems by auto
  then show ?case unfolding x initializeReduceTasks_Cons [OF Cons.prems(1)]
    using Cons main_dir_files(5) [OF Cons.prems(1)] by simp
qed simp

lemma initializeReduceTasks_file:
  "main_dir_ok ps c fs \<Longrightarrow> distinct (keys m) \<Longrightarrow> (p, l) \<in> set m \<Longrightarrow>
    files (snd (initializeReduceTasks now m (c, fs))) (p_file ps p) = Some (kv_lines l)"
proof (induction m arbitrary: c fs)
  case (Cons x m)
  obtain q kvs where x: "x = (q, kvs)" by (cases x)
  have dist: "distinct (keys m)" "q \<notin> set (keys m)" using Cons.prems(2) x by auto
  show ?case unfolding x initializeReduceTasks_Cons [OF Cons.prems(1)]
  proof (cases "(p, l) \<in> set m")
    case True
    then show "files (snd (initializeReduceTasks now m (c\<lparr>Tasks := Tasks c @ [reduce_task (MainDir c) now q (p_file ps q)]\<rparr>,
      fs\<lparr>files := (files fs)(p_file ps q \<mapsto> kv_lines kvs)\<rparr>))) (p_file ps p) = Some (kv_lines l)"
      using Cons.IH dist Cons.prems(1) by simp
  next
    case False
    then have "p = q" "l = kvs" using Cons.prems(3) x by auto
    then show "files (snd (initializeReduceTasks now m (c\<lparr>Tasks := Tasks c @ [reduce_task (MainDir c) now q (p_file ps q)]\<rparr>,
      fs\<lparr>files := (files fs)(p_file ps q \<mapsto> kv_lines kvs)\<rparr>))) (p_file ps p) = Some (kv_lines l)"
      using initializeReduceTasks_other [of ps _ _ q m] dist Cons.prems(1) by simp
  qed
qed simp

lemma initializeReduceTasks_frame:
  "main_dir_ok ps c fs \<Longrightarrow> \<forall>p. x \<noteq> p_file ps p \<Longrightarrow> files (snd (initializeReduceTasks now m (c, fs))) x = files fs x"
proof (induction m arbitrary: c fs)
  case (Cons y m)
  obtain q kvs where y: "y = (q, kvs)" by (cases y)
  show ?case unfolding y initializeReduceTasks_Cons [OF Cons.prems(1)] using Cons by simp
qed simp

lemma initializeReduceTasks_finite:
  "main_dir_ok ps c fs \<Longrightarrow> finite (dom (files fs)) \<Longrightarrow> finite (dom (files (snd (initializeReduceTasks now m (c, fs)))))"
proof (induction m arbitrary: c fs)
  case (Cons y m)
  obtain q kvs where y: "y = (q, kvs)" by (cases y)
  show ?case unfolding y initializeReduceTasks_Cons [OF Cons.prems(1)] by (rule Cons.IH) (use Cons.prems in \<open>simp_all del: fun_upd_apply\<close>)
qed simp

text \<open>The workers execute all reduce tasks, one after another.\<close>

fun run_reduces :: "(KeyValue list \<Rightarrow> KeyValue list) \<Rightarrow> string \<Rightarrow> (string \<Rightarrow> string list \<Rightarrow> string) \<Rightarrow> Task list \<Rightarrow> fsys \<Rightarrow> fsys outcome" where
  "run_reduces srt dir reducef [] fs = Ret fs"
| "run_reduces srt dir reducef (t # ts) fs =
     (case executeReducef srt dir (t_ReadLocation t) (t_WriteLocation t) reducef fs of
        Inl e \<Rightarrow> Inl e | Inr (_, fs') \<Rightarrow> run_reduces srt dir reducef ts fs')"

lemma executeReducef_main:
  assumes "main_dir_ok ps c fs" "Clean dir = MainDir c" "files fs (p_file ps p) = Some (kv_lines l)"
    "l \<noteq> []" "\<forall>kv\<in>set l. clean_kv kv"
  shows "executeReducef srt dir (p_file ps p) (out_file ps p) reducef fs =
    Ret (True, fs\<lparr>files := (files fs)(out_file ps p \<mapsto> unlines (reduce_loop reducef (srt l)))\<rparr>)"
  using assms(2,3) read_kv_lines [OF assms(4,5)] main_dir_files(4,8,9) [OF assms(1)]
  by (simp add: executeReducef_def Let_def copyToWorkerInitDir_def)

lemma run_reduces_effect:
  assumes "main_dir_ok ps c fs" "Clean dir = MainDir c"
    "\<forall>(p, l) \<in> set m. files fs (p_file ps p) = Some (kv_lines l) \<and> l \<noteq> [] \<and> (\<forall>kv\<in>set l. clean_kv kv)"
    "distinct (keys m)"
  shows "\<exists>fs'. run_reduces srt dir reducef (map (\<lambda>(p, l). reduce_task (MainDir c) now p (p_file ps p)) m) fs = Ret fs' \<and>
    (\<forall>(p, l) \<in> set m. files fs' (out_file ps p) = Some (unlines (reduce_loop reducef (srt l)))) \<and>
    (\<forall>p. p \<notin> set (keys m) \<longrightarrow> files fs' (out_file ps p) = files fs (out_file ps p))"
  using assms
proof (induction m arbitrary: fs)
  case (Cons x m)
  obtain q kvs where x: "x = (q, kvs)" by (cases x)
  let ?fs = "fs\<lparr>files := (files fs)(out_file ps q \<mapsto> unlines (reduce_loop reducef (srt kvs)))\<rparr>"
  have ok: "main_dir_ok ps c ?fs" using Cons.prems(1) by (simp add: main_dir_ok_def)
  have ex: "executeReducef srt dir (p_file ps q) (out_file ps q) reducef fs = Ret (True, ?fs)"
    using Cons.prems(3) x by (intro executeReducef_main [OF Cons.prems(1,2)]) auto
  have files: "\<forall>(p, l) \<in> set m. files ?fs (p_file ps p) = Some (kv_lines l) \<and> l \<noteq> [] \<and> (\<forall>kv\<in>set l. clean_kv kv)"
    using Cons.prems(3) main_dir_files(7) [OF Cons.prems(1)] by auto
  have dist: "distinct (keys m)" "q \<notin> set (keys m)" using Cons.prems(4) x by auto
  from Cons.IH [OF ok Cons.prems(2) files dist(1)] obtain fs' where
    fs': "run_reduces srt dir reducef (map (\<lambda>(p, l). reduce_task (MainDir c) now p (p_file ps p)) m) ?fs = Ret fs'"
    "\<forall>(p, l) \<in> set m. files fs' (out_file ps p) = Some (unlines (reduce_loop reducef (srt l)))"
    "\<forall>p. p \<notin> set (keys m) \<longrightarrow> files fs' (out_file ps p) = files ?fs (out_file ps p)" by blast
  have "run_reduces srt dir reducef (map (\<lambda>(p, l). reduce_task (MainDir c) now p (p_file ps p)) (x # m)) fs = Ret fs'"
    using fs'(1) ex x main_dir_files(2) [OF Cons.prems(1)] by (simp add: reduce_task_def)
  moreover have "\<forall>(p, l) \<in> set (x # m). files fs' (out_file ps p) = Some (unlines (reduce_loop reducef (srt l)))"
    using fs'(2,3) dist(2) x by auto
  moreover have "\<forall>p. p \<notin> set (keys (x # m)) \<longrightarrow> files fs' (out_file ps p) = files fs (out_file ps p)"
    using fs'(3) x main_dir_files(6) [OF Cons.prems(1)] by auto
  ultimately show ?case by blast
qed simp

text \<open>The output lines of all partitions are the output lines of the whole.\<close>

lemma mset_set_split:
  assumes "finite K" "distinct ps"
  shows "sum_list (map (\<lambda>p. mset_set {k \<in> K. f k = p}) ps) = mset_set {k \<in> K. f k \<in> set ps}"
  using assms(2)
proof (induction ps)
  case (Cons p ps)
  have "{k \<in> K. f k \<in> set (p # ps)} = {k \<in> K. f k = p} \<union> {k \<in> K. f k \<in> set ps}" by auto
  moreover have "{k \<in> K. f k = p} \<inter> {k \<in> K. f k \<in> set ps} = {}" using Cons.prems by auto
  ultimately show ?case using Cons assms(1) by (simp add: mset_set_Union)
qed simp

lemma partition_lines:
  assumes "reduce_function reducef" "key_sorter srt"
    "l = filter (\<lambda>kv. f (kKey kv) = p) ir"
  shows "mset (reduce_loop reducef (srt l)) = image_mset (line_of reducef ir) (mset_set {k \<in> kKey ` set ir. f k = p})"
proof -
  have keys: "kKey ` set l = {k \<in> kKey ` set ir. f k = p}" using assms(3) by auto
  have "mset (reduce_loop reducef (srt l)) = image_mset (line_of reducef (srt l)) (mset_set (kKey ` set l))"
    using reduce_loop_lines [OF key_sorter.srt_sorted [OF assms(2)]] key_sorter.srt_set [OF assms(2)] by metis
  also have "\<dots> = image_mset (line_of reducef l) (mset_set (kKey ` set l))"
    using reduce_function.line_of_mset [OF assms(1) key_sorter.srt_mset [OF assms(2)]] by simp
  also have "\<dots> = image_mset (line_of reducef ir) (mset_set {k \<in> kKey ` set ir. f k = p})"
    unfolding keys
  proof (rule image_mset_cong)
    fix k assume "k \<in># mset_set {k \<in> kKey ` set ir. f k = p}"
    then have "filter (\<lambda>kv. kKey kv = k) l = filter (\<lambda>kv. kKey kv = k) ir"
      unfolding assms(3) filter_filter by (intro filter_cong) auto
    then show "line_of reducef l k = line_of reducef ir k" by (simp add: line_of_def)
  qed
  finally show ?thesis .
qed

lemma all_lines:
  assumes "reduce_function reducef" "key_sorter srt" "distinct (keys m)"
    "set (keys m) = (\<lambda>kv. f (kKey kv)) ` set ir"
    "\<forall>(p, l) \<in> set m. l = filter (\<lambda>kv. f (kKey kv) = p) ir"
  shows "mset (concat (map (\<lambda>(p, l). reduce_loop reducef (srt l)) m))
    = image_mset (line_of reducef ir) (mset_set (kKey ` set ir))"
proof -
  let ?K = "kKey ` set ir"
  have "mset (concat (map (\<lambda>(p, l). reduce_loop reducef (srt l)) m))
      = sum_list (map (\<lambda>(p, l). mset (reduce_loop reducef (srt l))) m)"
    by (simp add: mset_concat o_def case_prod_beta')
  also have "\<dots> = sum_list (map (\<lambda>(p, l). image_mset (line_of reducef ir) (mset_set {k \<in> ?K. f k = p})) m)"
    using partition_lines [OF assms(1,2), of _ f _ ir] assms(5)
    by (intro arg_cong [where f = sum_list] map_cong) auto
  also have "\<dots> = image_mset (line_of reducef ir) (sum_list (map (\<lambda>p. mset_set {k \<in> ?K. f k = p}) (keys m)))"
    by (induction m) auto
  also have "\<dots> = image_mset (line_of reducef ir) (mset_set {k \<in> ?K. f k \<in> set (keys m)})"
    by (simp only: mset_set_split [OF _ assms(3), of ?K f] finite_imageI finite_set)
  also have "{k \<in> ?K. f k \<in> set (keys m)} = ?K" unfolding assms(4) by auto
  finally show ?thesis .
qed

lemma all_lines_sequential:
  assumes "reduce_function reducef" "key_sorter srt" "distinct (keys m)"
    "set (keys m) = (\<lambda>kv. f (kKey kv)) ` set (srt ir)"
    "\<forall>(p, l) \<in> set m. l = filter (\<lambda>kv. f (kKey kv) = p) (srt ir)" "mset ir = mset pairs"
  shows "mset (concat (map (\<lambda>(p, l). reduce_loop reducef (srt l)) m)) = mset (reduce_loop reducef (srt pairs))"
proof -
  have sets: "set pairs = set ir" by (rule mset_eq_setD [OF assms(6) [symmetric]])
  have lp: "line_of reducef (srt pairs) = line_of reducef (srt ir)"
    by (rule reduce_function.line_of_mset [OF assms(1)]) (simp only: key_sorter.srt_mset [OF assms(2)] assms(6))
  have "mset (reduce_loop reducef (srt pairs)) = image_mset (line_of reducef (srt ir)) (mset_set (kKey ` set (srt ir)))"
    using reduce_loop_lines [OF key_sorter.srt_sorted [OF assms(2)], of reducef pairs]
    unfolding lp key_sorter.srt_set [OF assms(2)] sets .
  then show ?thesis using all_lines [OF assms(1-5)] by simp
qed

text \<open>
  What the coordinator leaves for the workers when the map phase is over: one reduce task for each
  partition in use, with its file written; the partitions together give the sequential output.
\<close>

lemma generate_reduce_tasks:
  assumes "key_sorter srt" "reduce_function reducef" "\<forall>m. mset (ord m) = mset m"
    "\<not> IsReduceGenerated c" "isAllMappingDone (Tasks c)" "ReducerCount c \<noteq> 0"
    "main_dir_ok ps c fs" "mset (IntermediateResults c) = mset pairs" "\<forall>kv\<in>set pairs. clean_kv kv"
  obtains m c' fs1 where "generateReduceTasksIfApplicable srt ord now (c, fs) = Ret (c', fs1)"
    and "drop (length (Tasks c)) (Tasks c') = map (\<lambda>(p, l). reduce_task (MainDir c) now p (p_file ps p)) m"
    and "distinct (keys m)" and "\<forall>p\<in>set (keys m). 0 \<le> p \<and> p < \<bar>ReducerCount c\<bar>" and "m = [] \<longleftrightarrow> pairs = []"
    and "\<forall>(p, l) \<in> set m. files fs1 (p_file ps p) = Some (kv_lines l) \<and> l \<noteq> [] \<and> (\<forall>kv\<in>set l. clean_kv kv)"
    and "mset (concat (map (\<lambda>(p, l). reduce_loop reducef (srt l)) m)) = mset (reduce_loop reducef (srt pairs))"
    and "dirs fs1 = dirs fs" and "\<forall>x. (\<forall>p. x \<noteq> p_file ps p) \<longrightarrow> files fs1 x = files fs x"
    and "finite (dom (files fs)) \<longrightarrow> finite (dom (files fs1))"
proof -
  let ?n = "ReducerCount c" and ?ir = "srt (IntermediateResults c)"
  let ?f = "partition_of ?n"
  define c1 where "c1 = c\<lparr>IsReduceGenerated := True, IntermediateResults := ?ir\<rparr>"
  define parts where "parts = foldl (group_add (\<lambda>kv. ?f (kKey kv))) [] ?ir"
  define m where "m = ord parts"
  have mp: "set m = set parts" "mset m = mset parts" using assms(3) by (metis m_def set_mset_mset) (simp add: m_def assms(3))
  have wf: "wf_map parts" by (simp add: parts_def)
  have dm: "distinct (keys m)" using wf mp(2) by (metis wf_map_def mset_map mset_eq_imp_distinct_iff)
  have km: "set (keys m) = (\<lambda>kv. ?f (kKey kv)) ` set ?ir"
    using mp(1) group_fold_keys [of "\<lambda>kv. ?f (kKey kv)" "[]" ?ir] by (simp add: parts_def)
  have em: "l = filter (\<lambda>kv. ?f (kKey kv) = p) ?ir \<and> l \<noteq> []" if "(p, l) \<in> set m" for p l
  proof -
    have "(p, l) \<in> set (foldl (group_add (\<lambda>kv. ?f (kKey kv))) [] ?ir)" using that mp(1) by (simp add: parts_def)
    from group_fold_entry [OF this] show ?thesis by (auto simp: filter_empty_conv)
  qed
  have sp: "set ?ir = set pairs" using key_sorter.srt_set [OF assms(1)] assms(8) by (metis set_mset_mset)
  have ok: "main_dir_ok ps c1 fs" using assms(7) by (simp add: main_dir_ok_def c1_def)
  obtain c2 fs1 where i: "initializeReduceTasks now m (c1, fs) = (c2, fs1)" by fastforce
  have st: "c2 = c1\<lparr>Tasks := Tasks c1 @ map (\<lambda>(p, l). reduce_task (MainDir c1) now p (p_file ps p)) m\<rparr>" "dirs fs1 = dirs fs"
    using initializeReduceTasks_state [OF ok, of now m] i by auto
  let ?c' = "c2\<lparr>IntermediateResults := clear (IntermediateResults c2)\<rparr>"
  have gen: "generateReduceTasksIfApplicable srt ord now (c, fs) = Ret (?c', fs1)"
    using assms(4-6) i shuffle_returns [of "c\<lparr>IsReduceGenerated := True\<rparr>" srt]
    by (simp add: generateReduceTasksIfApplicable_def c1_def m_def parts_def)
  have new: "drop (length (Tasks c)) (Tasks ?c') = map (\<lambda>(p, l). reduce_task (MainDir c) now p (p_file ps p)) m"
    by (simp add: st(1) c1_def)
  have range: "\<forall>p\<in>set (keys m). 0 \<le> p \<and> p < \<bar>?n\<bar>" using assms(6) unfolding km by (auto simp: partition_of_def)
  have "m = [] \<longleftrightarrow> set (keys m) = {}" by (cases m) auto
  then have empty: "m = [] \<longleftrightarrow> pairs = []" unfolding km sp by simp
  have in_files: "files fs1 (p_file ps p) = Some (kv_lines l) \<and> l \<noteq> [] \<and> (\<forall>kv\<in>set l. clean_kv kv)"
    if "(p, l) \<in> set m" for p l
    using initializeReduceTasks_file [OF ok dm that, of now] i em [OF that] sp assms(9) by auto
  have mc: "mset (concat (map (\<lambda>(p, l). reduce_loop reducef (srt l)) m)) = mset (reduce_loop reducef (srt pairs))"
    by (rule all_lines_sequential [OF assms(2,1) dm km _ assms(8)]) (use em in blast)
  have other: "\<forall>x. (\<forall>p. x \<noteq> p_file ps p) \<longrightarrow> files fs1 x = files fs x"
    using initializeReduceTasks_frame [OF ok, of _ now m] i by auto
  have fin: "finite (dom (files fs)) \<longrightarrow> finite (dom (files fs1))"
    using initializeReduceTasks_finite [OF ok, of now m] i by simp
  from in_files show ?thesis by (intro that [OF gen new dm range empty _ mc st(2) other fin]) blast
qed

text \<open>
  C9. The distributed job computes what the sequential program computes. When the map phase is over
  and the intermediate results are, in any order, the pairs the sequential program collects, the
  coordinator makes the reduce tasks without panic, the workers execute all of them without panic,
  every task's output file is written, and the lines of the output files together are exactly the
  lines of the sequential output: for every reduce function that does not depend on the order of
  its values, any number of reducers but zero, any sorting routine that meets its contract, any
  order in which the partitions are walked, and pairs without spaces and newlines. The worker runs
  in the coordinator's directory.
\<close>

theorem mr_distributed_equals_sequential:
  assumes "key_sorter srt" "reduce_function reducef" "\<forall>m. mset (ord m) = mset m"
    "\<not> IsReduceGenerated c" "isAllMappingDone (Tasks c)" "ReducerCount c \<noteq> 0"
    "main_dir_ok ps c fs" "Clean dir = MainDir c"
    "mset (IntermediateResults c) = mset pairs" "\<forall>kv\<in>set pairs. clean_kv kv"
  shows "\<exists>c' fs1 fs2 outs. generateReduceTasksIfApplicable srt ord now (c, fs) = Ret (c', fs1) \<and>
    run_reduces srt dir reducef (drop (length (Tasks c)) (Tasks c')) fs1 = Ret fs2 \<and>
    list_all2 (\<lambda>t ls. files fs2 (t_WriteLocation t) = Some (unlines ls)) (drop (length (Tasks c)) (Tasks c')) outs \<and>
    mset (concat outs) = mset (reduce_loop reducef (srt pairs))"
proof -
  obtain m c' fs1 where gen: "generateReduceTasksIfApplicable srt ord now (c, fs) = Ret (c', fs1)"
    and new: "drop (length (Tasks c)) (Tasks c') = map (\<lambda>(p, l). reduce_task (MainDir c) now p (p_file ps p)) m"
    and dm: "distinct (keys m)"
    and in_files: "\<forall>(p, l) \<in> set m. files fs1 (p_file ps p) = Some (kv_lines l) \<and> l \<noteq> [] \<and> (\<forall>kv\<in>set l. clean_kv kv)"
    and eq: "mset (concat (map (\<lambda>(p, l). reduce_loop reducef (srt l)) m)) = mset (reduce_loop reducef (srt pairs))"
    and dirs: "dirs fs1 = dirs fs"
    by (rule generate_reduce_tasks [OF assms(1-7,9,10)])
  have ok1: "main_dir_ok ps c fs1" using assms(7) dirs by (simp add: main_dir_ok_def)
  from run_reduces_effect [OF ok1 assms(8) in_files dm, of srt reducef now] obtain fs2 where
    run: "run_reduces srt dir reducef (drop (length (Tasks c)) (Tasks c')) fs1 = Ret fs2"
    and out: "\<forall>(p, l) \<in> set m. files fs2 (out_file ps p) = Some (unlines (reduce_loop reducef (srt l)))"
    unfolding new by blast
  have "list_all2 (\<lambda>t ls. files fs2 (t_WriteLocation t) = Some (unlines ls)) (drop (length (Tasks c)) (Tasks c'))
      (map (\<lambda>(p, l). reduce_loop reducef (srt l)) m)"
    unfolding new using out main_dir_files(2) [OF assms(7)]
    by (auto simp: list_all2_map1 list_all2_map2 list_all2_same reduce_task_def)
  with gen run eq show ?thesis by blast
qed

lemma two_pairs_ok: "main_dir_ok [''m'', ''main''] two_pairs no_files" "Clean ''/m/main'' = MainDir two_pairs"
proof -
  have "clean_dir [''m'', ''main''] = ''/m/main''" by (simp add: clean_dir_def)
  moreover have "clean_dir ([''m'', ''main''] @ [f]) \<noteq> ''/m/main''" for f by (simp add: clean_dir_def)
  moreover have "\<forall>p\<in>set [''m'', ''main'']. plain_name p" by (simp add: plain_name_def)
  ultimately show "main_dir_ok [''m'', ''main''] two_pairs no_files" "Clean ''/m/main'' = MainDir two_pairs"
    using Clean_clean_dir [of "[''m'', ''main'']"]
    by (simp_all add: main_dir_ok_def two_pairs_def no_files_def)
qed

lemma two_pairs_clean: "\<forall>kv\<in>set (IntermediateResults two_pairs). clean_kv kv"
  by (simp add: two_pairs_def clean_kv_def newline_def char_of_eq_iff)

theorem mr_distributed_equals_sequential_witness:
  "\<exists>c' fs1 fs2 outs. generateReduceTasksIfApplicable (sort_key kKey) id 0 (two_pairs, no_files) = Ret (c', fs1) \<and>
    run_reduces (sort_key kKey) ''/m/main'' wc_Reduce (drop (length (Tasks two_pairs)) (Tasks c')) fs1 = Ret fs2 \<and>
    list_all2 (\<lambda>t ls. files fs2 (t_WriteLocation t) = Some (unlines ls)) (drop (length (Tasks two_pairs)) (Tasks c')) outs \<and>
    mset (concat outs) = mset (reduce_loop wc_Reduce (sort_key kKey (IntermediateResults two_pairs)))"
  by (rule mr_distributed_equals_sequential [OF stable.key_sorter_axioms wc.reduce_function_axioms _ _ _ _
        two_pairs_ok refl two_pairs_clean])
    (simp_all add: two_pairs_def isAllMappingDone_def)

lemma partition_file_round_trip_witness:
  "executeReducef (sort_key kKey) '''' (p_file [''m'', ''main''] 0) ''/m/main/o'' wc_Reduce
     (snd (store two_pairs 0 (IntermediateResults two_pairs) no_files))
   = Ret (True, write_file ''/m/main/o'' (unlines (reduce_loop wc_Reduce (sort_key kKey (IntermediateResults two_pairs))))
        (snd (store two_pairs 0 (IntermediateResults two_pairs) no_files)))"
proof -
  let ?loc = "p_file [''m'', ''main''] 0"
  obtain fs' where s: "store two_pairs 0 (IntermediateResults two_pairs) no_files = (?loc, fs')"
    using main_dir_files(1) [OF two_pairs_ok(1), of 0] by (simp add: store_def Let_def)
  have n: "\<forall>p\<in>set [''m'', ''main'']. plain_name p" by (simp add: plain_name_def)
  have d: "Dir ?loc \<in> set (dirs no_files)" "?loc \<notin> set (dirs no_files)"
    using Dir_clean_dir [OF _ n plain_names(1) [of 0]] by (simp_all add: p_file_def no_files_def) (simp_all add: clean_dir_def)
  have "IntermediateResults two_pairs \<noteq> []" by (simp add: two_pairs_def)
  from partition_file_round_trip [OF s d this two_pairs_clean] show ?thesis
    by (simp add: s copyToWorkerInitDir_def)
qed

end
