(* ===== verification/MRTest.thy ===== *)
theory MRTest
  imports MRSpec
begin

text \<open>
  The tests of MapReduce, \<open>mr/util.go\<close>: how they produce the expected output with the sequential
  program, collect the workers' output files and compare. \<open>find\<close>, \<open>sort\<close> and \<open>cmp\<close> are programs of
  the system: \<open>find\<close> is an argument with its documented behaviour as a predicate, \<open>sort\<close> an argument
  with a locale, and \<open>cmp\<close> succeeds on equal contents. \<open>tmp\<close> is the full path of the test's
  directory. The outcome \<^const>\<open>Fatal\<close> is \<open>log.Fatalf\<close>.
\<close>

section \<open>The helpers\<close>

text \<open>\<open>RandString\<close>: \<open>base64.URLEncoding\<close> of \<open>2n\<close> random bytes, cut to \<open>n\<close> characters. The random bytes are an argument; the slice expression panics when there are too few characters.\<close>

definition RandString :: "nat list \<Rightarrow> nat \<Rightarrow> string outcome" where
  "RandString b n = (let s = EncodeToString b in if n \<le> length s then Ret (take n s) else Inl Panic)"

definition coordinatorSock :: "nat list \<Rightarrow> string outcome" where
  "coordinatorSock b = bindo (RandString b 20) (\<lambda>r. Ret (''/tmp/5840-mr-'' @ r))"

definition mkOut :: "string \<Rightarrow> nat list \<Rightarrow> fsys \<Rightarrow> (string \<times> fsys) outcome" where
  "mkOut cwd b fs = bindo (RandString b 8) (\<lambda>r. let tmp = path_Join cwd (''mr-tmp-'' @ r) in
     Ret (tmp, if Dir tmp \<in> set (dirs fs) \<and> tmp \<notin> set (dirs fs) \<and> files fs tmp = None then fs\<lparr>dirs := tmp # dirs fs\<rparr> else fs))"

text \<open>
  \<open>findFiles\<close>: the lines of what \<open>find dir -type f -name s\<close> prints, for a pattern given as a
  predicate on the last component of a path.
\<close>

type_synonym find_program = "string \<Rightarrow> (string \<Rightarrow> bool) \<Rightarrow> fsys \<Rightarrow> string"

definition findFiles :: "find_program \<Rightarrow> string \<Rightarrow> (string \<Rightarrow> bool) \<Rightarrow> fsys \<Rightarrow> string list" where
  "findFiles fnd dir pat fs = (let s1 = TrimSpace (fnd dir pat fs) in if s1 = [] then [] else split_on newline s1)"

definition findFilesPre :: "find_program \<Rightarrow> string \<Rightarrow> (string \<Rightarrow> bool) \<Rightarrow> fsys \<Rightarrow> string list" where
  "findFilesPre fnd dir pat fs = map (path_Join ''..'') (findFiles fnd dir pat fs)"

text \<open>The pattern \<open>mr-out-[0-9]\<close>: exactly one digit.\<close>

definition out_pattern :: "string \<Rightarrow> bool" where
  "out_pattern n \<longleftrightarrow> length n = 8 \<and> take 7 n = ''mr-out-'' \<and> is_digit (last n)"

text \<open>\<open>os.Create\<close>, whose failure ends the test program here.\<close>

definition can_create :: "string \<Rightarrow> fsys \<Rightarrow> bool" where
  "can_create p fs \<longleftrightarrow> Dir p \<in> set (dirs fs) \<and> p \<notin> set (dirs fs)"

definition mkCorrectOutput :: "(string list \<Rightarrow> string) \<Rightarrow> (KeyValue list \<Rightarrow> KeyValue list) \<Rightarrow> (string \<Rightarrow> string \<Rightarrow> KeyValue list) \<Rightarrow>
    (string \<Rightarrow> string list \<Rightarrow> string) \<Rightarrow> string \<Rightarrow> string list \<Rightarrow> string \<Rightarrow> fsys \<Rightarrow> fsys outcome" where
  "mkCorrectOutput sortp srt mapf reducef tmp fnames out fs =
     (case mrsequential tmp srt mapf reducef fnames fs of
        Inl e \<Rightarrow> Inl Fatal
      | Inr fs1 \<Rightarrow>
          let ofile = path_Join tmp out; mr = path_Join tmp ''mr-out-0'' in
          if \<not> can_create ofile fs1 then Inl Fatal else
          let fs2 = write_file ofile [] fs1 in
          (case files fs2 mr of
             None \<Rightarrow> Inl Fatal
           | Some d \<Rightarrow> let fs3 = write_file ofile (sortp [d]) fs2 in Ret (fs3\<lparr>files := (files fs3)(mr := None)\<rparr>)))"

definition mergeOutput :: "find_program \<Rightarrow> (string list \<Rightarrow> string) \<Rightarrow> string \<Rightarrow> string \<Rightarrow> fsys \<Rightarrow> fsys outcome" where
  "mergeOutput fnd sortp tmp out fs =
     (let fls = findFiles fnd tmp out_pattern fs; ofile = path_Join tmp out in
      if length fls < 1 then Inl Fatal
      else if \<not> can_create ofile fs then Inl Fatal
      else let fs1 = write_file ofile [] fs in
        (case those (map (files fs1) fls) of
           None \<Rightarrow> Inl Fatal
         | Some ds \<Rightarrow> Ret (write_file ofile (sortp ds) fs1)))"

text \<open>\<open>runCmp\<close>: whether the test goes on.\<close>

definition runCmp :: "string \<Rightarrow> string \<Rightarrow> string \<Rightarrow> fsys \<Rightarrow> bool" where
  "runCmp tmp f1 f2 fs = (case (files fs (abs_path tmp f1), files fs (abs_path tmp f2)) of
      (Some a, Some b) \<Rightarrow> a = b | _ \<Rightarrow> False)"

text \<open>\<open>re\<close> compiles a pattern to the function that finds its matches.\<close>

definition countPatternFile :: "(string \<Rightarrow> (string \<Rightarrow> string list) option) \<Rightarrow> string \<Rightarrow> string \<Rightarrow> fsys \<Rightarrow> nat outcome" where
  "countPatternFile re f p fs = (case files fs f of
      None \<Rightarrow> Inl Fatal
    | Some data \<Rightarrow> (case re p of None \<Rightarrow> Inl Fatal | Some FindAllString \<Rightarrow> Ret (length (FindAllString data))))"

fun countPattern :: "(string \<Rightarrow> (string \<Rightarrow> string list) option) \<Rightarrow> string list \<Rightarrow> string \<Rightarrow> fsys \<Rightarrow> nat outcome" where
  "countPattern re [] p fs = Ret 0"
| "countPattern re (f # fls) p fs = bindo (countPatternFile re f p fs) (\<lambda>n.
     bindo (countPattern re fls p fs) (\<lambda>k. Ret (n + k)))"

text \<open>\<open>cleanup\<close>: the directory goes only when nothing is left below it.\<close>

definition below :: "string \<Rightarrow> string \<Rightarrow> bool" where
  "below d x \<longleftrightarrow> take (length d + 1) x = d @ ''/''"

definition cleanup :: "find_program \<Rightarrow> string \<Rightarrow> fsys \<Rightarrow> fsys" where
  "cleanup fnd tmp fs =
     (let gone = findFiles fnd tmp (\<lambda>n. take 3 n = ''mr-'') fs;
          fs1 = fs\<lparr>files := (\<lambda>x. if x \<in> set gone then None else files fs x)\<rparr>
      in if (\<exists>x\<in>dom (files fs1). below tmp x) \<or> (\<exists>x\<in>set (dirs fs1). below tmp x) then fs1
         else fs1\<lparr>dirs := filter (\<lambda>d. d \<noteq> tmp) (dirs fs1)\<rparr>)"

text \<open>The coordinator's program \<open>main/mrcoordinator.go\<close> up to its polling loop, and the arguments a test starts it with.\<close>

definition mrcoordinator :: "string \<Rightarrow> int \<Rightarrow> string list \<Rightarrow> fsys \<Rightarrow> (Coordinator \<times> fsys) outcome" where
  "mrcoordinator sourceFile now args fs =
     (if length args < 3 then Inl Fatal else Ret (MakeCoordinator sourceFile now (drop 2 args) 10 fs))"

definition runMRchan_coord :: "string \<Rightarrow> string \<Rightarrow> string list \<Rightarrow> string list" where
  "runMRchan_coord prog sock fnames = prog # sock # fnames"

section \<open>What the system's programs promise\<close>

definition find_ok :: "find_program \<Rightarrow> bool" where
  "find_ok fnd \<longleftrightarrow> (\<forall>d pat fs. finite (dom (files fs)) \<longrightarrow>
     (\<exists>ls. fnd d pat fs = unlines ls \<and> distinct ls \<and> set ls = {x \<in> dom (files fs). below d x \<and> pat (Base x)}))"

text \<open>
  \<open>sort\<close> prints the lines of all its files; lines that compare equal are equal, so the output depends
  on the lines and not on their order or on how they are spread over files.
\<close>

locale line_sort =
  fixes sortp :: "string list \<Rightarrow> string" and srtl :: "string list \<Rightarrow> string list"
  assumes sortp_lines: "\<forall>ls\<in>set lss. \<forall>l\<in>set ls. newline \<notin> set l \<Longrightarrow> sortp (map unlines lss) = unlines (srtl (concat lss))"
    and srtl_mset: "mset xs = mset ys \<Longrightarrow> srtl xs = srtl ys"
begin

lemma sortp_same:
  assumes "mset (concat lss) = mset ls" "\<forall>l\<in>set ls. newline \<notin> set l"
  shows "sortp (map unlines lss) = sortp [unlines ls]"
proof -
  have "set (concat lss) = set ls" using assms(1) by (rule mset_eq_setD)
  then have "\<forall>x\<in>set lss. \<forall>l\<in>set x. newline \<notin> set l" using assms(2) by auto
  then show ?thesis using sortp_lines [of lss] sortp_lines [of "[ls]"] assms srtl_mset [OF assms(1)] by simp
qed

end

text \<open>\<open>sort\<close> in byte order meets the contract.\<close>

definition file_lines :: "string \<Rightarrow> string list" where
  "file_lines s = (if s = [] then [] else split_on newline (TrimSuffix_nl s))"

definition byte_sort :: "string list \<Rightarrow> string" where
  "byte_sort ds = unlines (sort (concat (map file_lines ds)))"

lemma file_lines_unlines: "\<forall>l\<in>set ls. newline \<notin> set l \<Longrightarrow> file_lines (unlines ls) = ls"
  using lines_round_trip [of ls] by (cases ls) (auto simp: file_lines_def unlines_def)

interpretation byte: line_sort byte_sort sort
proof unfold_locales
  fix lss assume "\<forall>ls\<in>set lss. \<forall>l\<in>set ls. newline \<notin> set l"
  then have "map file_lines (map unlines lss) = lss" by (simp add: file_lines_unlines map_idI)
  then show "byte_sort (map unlines lss) = unlines (sort (concat lss))" by (simp only: byte_sort_def)
next
  fix xs ys :: "string list"
  assume "mset xs = mset ys"
  then show "sort xs = sort ys" by (metis sorted_list_of_multiset_mset)
qed
section \<open>The test passes\<close>

text \<open>The directory of a test: a clean path that exists, has no directories in it and is apart from the main directory.\<close>

definition test_dir_ok :: "string list \<Rightarrow> string list \<Rightarrow> fsys \<Rightarrow> bool" where
  "test_dir_ok ps ws fs \<longleftrightarrow> ws \<noteq> [] \<and> (\<forall>w\<in>set ws. plain_name w \<and> newline \<notin> set w) \<and> clean_dir ws \<noteq> clean_dir ps \<and>
     \<not> below (clean_dir ws) (clean_dir ps) \<and> clean_dir ws \<in> set (dirs fs) \<and> (\<forall>f. clean_dir (ws @ [f]) \<notin> set (dirs fs))"

lemma test_dir_files:
  assumes "test_dir_ok ps ws fs" "plain_name f"
  shows "path_Join (clean_dir ws) f = clean_dir (ws @ [f])" "can_create (clean_dir (ws @ [f])) fs"
    "write_file (clean_dir (ws @ [f])) s fs = fs\<lparr>files := (files fs)(clean_dir (ws @ [f]) \<mapsto> s)\<rparr>"
    "abs_path (clean_dir ws) f = clean_dir (ws @ [f])" "Base (clean_dir (ws @ [f])) = f"
proof -
  have ws: "ws \<noteq> []" "\<forall>w\<in>set ws. plain_name w" using assms(1) by (auto simp: test_dir_ok_def)
  have "hd f \<noteq> CHR ''/''" using assms(2) by (cases f) (auto simp: plain_name_def)
  then show "path_Join (clean_dir ws) f = clean_dir (ws @ [f])" "can_create (clean_dir (ws @ [f])) fs"
    "write_file (clean_dir (ws @ [f])) s fs = fs\<lparr>files := (files fs)(clean_dir (ws @ [f]) \<mapsto> s)\<rparr>"
    "abs_path (clean_dir ws) f = clean_dir (ws @ [f])" "Base (clean_dir (ws @ [f])) = f"
    using assms path_Join_clean [OF ws assms(2)] Dir_clean_dir [OF ws assms(2)] Base_clean_dir [OF ws(1) assms(2)]
    by (simp_all add: test_dir_ok_def can_create_def write_file_def abs_path_def)
qed

lemma test_dir_ok_files [simp]: "test_dir_ok ps ws (fs\<lparr>files := f\<rparr>) = test_dir_ok ps ws fs"
  by (simp add: test_dir_ok_def)

lemma out_names [simp]: "plain_name (''mr-out-'' @ itoa p)" "plain_name (CHR ''m'' # CHR ''r'' # CHR ''-'' # CHR ''o'' # CHR ''u'' # CHR ''t'' # CHR ''-'' # itoa p)"
  using plain_names(2) [of p] by simp_all

lemma main_or_test:
  assumes "main_dir_ok ps c fs" "test_dir_ok ps ws fs" "plain_name f"
  shows "clean_dir (ws @ [f]) \<noteq> p_file ps p \<or> f = ''p-'' @ itoa p" "clean_dir (ws @ [f]) \<noteq> out_file ps p"
proof -
  have ps: "ps \<noteq> []" "\<forall>w\<in>set ps. plain_name w" and ws: "ws \<noteq> []" "\<forall>w\<in>set ws. plain_name w" "clean_dir ws \<noteq> clean_dir ps"
    using assms(1,2) by (auto simp: main_dir_ok_def test_dir_ok_def)
  have "clean_dir (ws @ [f]) \<noteq> clean_dir (ps @ [g])" if "plain_name g" for g
    using Dir_clean_dir [OF ps that] Dir_clean_dir [OF ws(1,2) assms(3)] ws(3) by metis
  then show "clean_dir (ws @ [f]) \<noteq> p_file ps p \<or> f = ''p-'' @ itoa p" "clean_dir (ws @ [f]) \<noteq> out_file ps p"
    using plain_names by (auto simp: p_file_def out_file_def)
qed

text \<open>A worker in the test's directory leaves the output there too.\<close>

lemma executeReducef_test:
  assumes "main_dir_ok ps c fs" "test_dir_ok ps ws fs" "files fs (p_file ps p) = Some (kv_lines l)"
    "l \<noteq> []" "\<forall>kv\<in>set l. clean_kv kv"
  shows "executeReducef srt (clean_dir ws) (p_file ps p) (out_file ps p) reducef fs =
    Ret (True, fs\<lparr>files := (files fs)(out_file ps p \<mapsto> unlines (reduce_loop reducef (srt l)),
                                       out_file ws p \<mapsto> unlines (reduce_loop reducef (srt l)))\<rparr>)"
proof -
  have ws: "ws \<noteq> []" "\<forall>w\<in>set ws. plain_name w" "clean_dir ws \<noteq> clean_dir ps" using assms(2) by (auto simp: test_dir_ok_def)
  have ps: "ps \<noteq> []" "MainDir c = clean_dir ps" using assms(1) by (simp_all add: main_dir_ok_def)
  have b: "Base (out_file ps p) = ''mr-out-'' @ itoa p"
    using Base_clean_dir [OF ps(1) plain_names(2)] by (simp add: out_file_def)
  have "clean_dir ws \<noteq> []" by (simp add: clean_dir_def)
  moreover have "Clean (clean_dir ws) \<noteq> Clean (Dir (out_file ps p))"
    using Clean_clean_dir [OF ws(1,2)] main_dir_files(8,9) [OF assms(1)] ws(3) ps(2) by simp
  moreover have "path_Join (clean_dir ws) (''mr-out-'' @ itoa p) = out_file ws p"
    using test_dir_files(1) [OF assms(2) plain_names(2)] by (simp add: out_file_def)
  moreover have "write_file (out_file ws p) s (fs\<lparr>files := f\<rparr>) = fs\<lparr>files := f(out_file ws p \<mapsto> s)\<rparr>" for s f
    using test_dir_files(3) [of ps ws "fs\<lparr>files := f\<rparr>", OF _ plain_names(2)] assms(2) by (simp add: out_file_def)
  ultimately show ?thesis
    using assms(3) read_kv_lines [OF assms(4,5)] main_dir_files(4) [OF assms(1)] b
    by (simp add: executeReducef_def Let_def copyToWorkerInitDir_def)
qed

lemma run_reduces_test:
  assumes "main_dir_ok ps c fs" "test_dir_ok ps ws fs"
    "\<forall>(p, l) \<in> set m. files fs (p_file ps p) = Some (kv_lines l) \<and> l \<noteq> [] \<and> (\<forall>kv\<in>set l. clean_kv kv)"
    "distinct (keys m)"
  shows "\<exists>fs'. run_reduces srt (clean_dir ws) reducef (map (\<lambda>(p, l). reduce_task (MainDir c) now p (p_file ps p)) m) fs = Ret fs' \<and>
    dirs fs' = dirs fs \<and> (finite (dom (files fs)) \<longrightarrow> finite (dom (files fs'))) \<and>
    (\<forall>(p, l) \<in> set m. files fs' (out_file ws p) = Some (unlines (reduce_loop reducef (srt l)))) \<and>
    (\<forall>x. (\<forall>p\<in>set (keys m). x \<noteq> out_file ps p \<and> x \<noteq> out_file ws p) \<longrightarrow> files fs' x = files fs x)"
  using assms
proof (induction m arbitrary: fs)
  case (Cons x m)
  obtain q kvs where x: "x = (q, kvs)" by (cases x)
  let ?o = "unlines (reduce_loop reducef (srt kvs))"
  let ?fs = "fs\<lparr>files := (files fs)(out_file ps q \<mapsto> ?o, out_file ws q \<mapsto> ?o)\<rparr>"
  have ok: "main_dir_ok ps c ?fs" "test_dir_ok ps ws ?fs" using Cons.prems(1,2) by (simp_all add: main_dir_ok_def)
  have ex: "executeReducef srt (clean_dir ws) (p_file ps q) (out_file ps q) reducef fs = Ret (True, ?fs)"
    using Cons.prems(3) x by (intro executeReducef_test [OF Cons.prems(1,2)]) auto
  have pw: "p_file ps p \<noteq> out_file ws q" for p
    using main_or_test(1) [OF Cons.prems(1,2) plain_names(2), of q p] by (auto simp: out_file_def)
  have files: "\<forall>(p, l) \<in> set m. files ?fs (p_file ps p) = Some (kv_lines l) \<and> l \<noteq> [] \<and> (\<forall>kv\<in>set l. clean_kv kv)"
    using Cons.prems(3) main_dir_files(7) [OF Cons.prems(1)] pw by auto
  have dist: "distinct (keys m)" "q \<notin> set (keys m)" using Cons.prems(4) x by auto
  have ws: "ws \<noteq> []" "\<forall>w\<in>set ws. plain_name w" using Cons.prems(2) by (auto simp: test_dir_ok_def)
  have inj: "out_file ws p = out_file ws q \<longleftrightarrow> p = q" "out_file ws p \<noteq> out_file ps r" for p r
    using clean_dir_inject [OF ws plain_names(2) plain_names(2), of p q] main_or_test(2) [OF Cons.prems(1,2) plain_names(2)]
    by (simp_all add: out_file_def)
  from Cons.IH [OF ok files dist(1)] obtain fs' where
    fs': "run_reduces srt (clean_dir ws) reducef (map (\<lambda>(p, l). reduce_task (MainDir c) now p (p_file ps p)) m) ?fs = Ret fs'"
    "dirs fs' = dirs ?fs" "finite (dom (files ?fs)) \<longrightarrow> finite (dom (files fs'))"
    "\<forall>(p, l) \<in> set m. files fs' (out_file ws p) = Some (unlines (reduce_loop reducef (srt l)))"
    "\<forall>x. (\<forall>p\<in>set (keys m). x \<noteq> out_file ps p \<and> x \<noteq> out_file ws p) \<longrightarrow> files fs' x = files ?fs x" by blast
  have "run_reduces srt (clean_dir ws) reducef (map (\<lambda>(p, l). reduce_task (MainDir c) now p (p_file ps p)) (x # m)) fs = Ret fs'"
    using fs'(1) ex x main_dir_files(2) [OF Cons.prems(1)] by (simp add: reduce_task_def)
  moreover have "files fs' (out_file ws q) = Some ?o"
  proof -
    have "\<forall>p\<in>set (keys m). out_file ws q \<noteq> out_file ps p \<and> out_file ws q \<noteq> out_file ws p"
      using inj dist(2) by metis
    then have "files fs' (out_file ws q) = files ?fs (out_file ws q)" using fs'(5) by blast
    then show ?thesis by simp
  qed
  ultimately show ?case using fs'(2-5) x by (intro exI [of _ fs']) auto
qed simp

text \<open>The sorted output of the sequential program, which leaves no output file behind.\<close>

lemma mkCorrectOutput_effect:
  assumes "test_dir_ok ps ws fs" "fnames \<noteq> []" "read_and_map (clean_dir ws) mapf fnames fs = Ret pairs"
    "plain_name out" "out \<noteq> ''mr-out-0''"
  shows "mkCorrectOutput sortp srt mapf reducef (clean_dir ws) fnames out fs =
    Ret (fs\<lparr>files := (files fs)(clean_dir (ws @ [out]) \<mapsto> sortp [unlines (reduce_loop reducef (srt pairs))],
                               clean_dir (ws @ [''mr-out-0'']) := None)\<rparr>)"
proof -
  have mr: "plain_name ''mr-out-0''" by (simp add: plain_name_def)
  have ws: "ws \<noteq> []" "\<forall>w\<in>set ws. plain_name w" using assms(1) by (auto simp: test_dir_ok_def)
  have ne: "clean_dir (ws @ [out]) \<noteq> clean_dir (ws @ [''mr-out-0''])"
    using clean_dir_inject [OF ws assms(4) mr] assms(5) by simp
  have w: "write_file (clean_dir (ws @ [f])) s (fs\<lparr>files := g\<rparr>) = fs\<lparr>files := g(clean_dir (ws @ [f]) \<mapsto> s)\<rparr>"
    "can_create (clean_dir (ws @ [f])) (fs\<lparr>files := g\<rparr>)" if "plain_name f" for f s g
    using test_dir_files(2,3) [of ps ws "fs\<lparr>files := g\<rparr>", OF _ that] assms(1) by simp_all
  have seq: "mrsequential (clean_dir ws) srt mapf reducef fnames fs =
    Ret (fs\<lparr>files := (files fs)(clean_dir (ws @ [''mr-out-0'']) \<mapsto> unlines (reduce_loop reducef (srt pairs)))\<rparr>)"
    using assms(2,3) test_dir_files(3,4) [OF assms(1) mr] by (simp add: mrsequential_def)
  show ?thesis
    using test_dir_files(1) [OF assms(1) mr] test_dir_files(1) [OF assms(1,4)] ne
    by (simp add: mkCorrectOutput_def seq w [OF assms(4)] Let_def fun_upd_twist)
qed

lemma unlines_join: "ls \<noteq> [] \<Longrightarrow> unlines ls = join_with [newline] ls @ [newline]"
  unfolding unlines_def by (induction "[newline]" ls rule: join_with.induct) auto

lemma join_with_ends:
  "ls \<noteq> [] \<Longrightarrow> \<forall>l\<in>set ls. l \<noteq> [] \<Longrightarrow> join_with sep ls \<noteq> [] \<and> hd (join_with sep ls) = hd (hd ls) \<and> last (join_with sep ls) = last (last ls)"
  by (induction sep ls rule: join_with.induct) auto

text \<open>\<open>findFiles\<close> returns the files that \<open>find\<close> lists, when their names neither hold newlines nor end in white space.\<close>

lemma findFiles_listing:
  assumes "fnd d pat fs = unlines ls" "ls \<noteq> []"
    "\<forall>x\<in>set ls. x \<noteq> [] \<and> newline \<notin> set x \<and> \<not> is_space (hd x) \<and> \<not> is_space (last x)"
  shows "findFiles fnd d pat fs = ls"
proof -
  have "join_with [newline] ls \<noteq> [] \<and> hd (join_with [newline] ls) = hd (hd ls) \<and> last (join_with [newline] ls) = last (last ls)"
    using assms(2,3) by (intro join_with_ends) auto
  moreover have "hd ls \<in> set ls" "last ls \<in> set ls" using assms(2) by auto
  ultimately have "TrimSpace (unlines ls) = join_with [newline] ls" "join_with [newline] ls \<noteq> []"
    using assms(2,3) by (auto simp: unlines_join intro!: TrimSpace_trailing)
  then show ?thesis using assms(1) split_on_join [OF assms(2)] assms(3) by (simp add: findFiles_def)
qed

lemma below_file: "below d (e @ CHR ''/'' # n) \<Longrightarrow> CHR ''/'' \<notin> set n \<Longrightarrow> d = e \<or> below d e"
proof -
  assume b: "below d (e @ CHR ''/'' # n)" and n: "CHR ''/'' \<notin> set n"
  consider "length d < length e" | "length d = length e" | "length e < length d" by linarith
  then show ?thesis
  proof cases
    case 3
    then obtain k where k: "length d = Suc (length e + k)" using less_imp_Suc_add by blast
    then have "d @ ''/'' = e @ CHR ''/'' # take (Suc k) n" using b by (simp add: below_def)
    then have "last (d @ ''/'') = last (CHR ''/'' # take (Suc k) n)" by (metis last_appendR list.distinct(1))
    moreover have "length (d @ ''/'') = length (e @ CHR ''/'' # take (Suc k) n)"
      using \<open>d @ ''/'' = e @ CHR ''/'' # take (Suc k) n\<close> by (rule arg_cong)
    then have "take (Suc k) n \<noteq> []" using k by auto
    ultimately have "CHR ''/'' \<in> set (take (Suc k) n)" by (metis last_ConsR last_in_set last_snoc)
    then show ?thesis using n in_set_takeD by fastforce
  qed (use b in \<open>auto simp: below_def\<close>)
qed

lemma one_digit: "0 \<le> p \<Longrightarrow> p < 10 \<Longrightarrow> out_pattern (''mr-out-'' @ itoa p) \<and> \<not> is_space (last (itoa p))"
  by (simp add: itoa_def nat_str.simps [of "nat p"] out_pattern_def is_digit_def is_space_def of_char_digit)

lemma out_file_snoc: "ws \<noteq> [] \<Longrightarrow> out_file ws p = clean_dir ws @ CHR ''/'' # ''mr-out-'' @ itoa p"
  by (simp add: out_file_def clean_dir_snoc)

lemma those_map: "\<forall>x\<in>set xs. f x = Some (g x) \<Longrightarrow> those (map f xs) = Some (map g xs)"
  by (induction xs) auto

text \<open>The output files of a test's directory, as \<open>find\<close> lists them.\<close>

lemma find_outputs:
  assumes "find_ok fnd" "finite (dom (files fs))" "test_dir_ok ps ws fs" "m \<noteq> []" "\<forall>p\<in>set (keys m). 0 \<le> p \<and> p < 10"
    "distinct (keys m)" "\<forall>x. below (clean_dir ws) x \<and> out_pattern (Base x) \<and> files fs x \<noteq> None \<longrightarrow> x \<in> out_file ws ` set (keys m)"
    "\<forall>p\<in>set (keys m). files fs (out_file ws p) \<noteq> None"
  obtains fls where "findFiles fnd (clean_dir ws) out_pattern fs = fls" "mset fls = mset (map (out_file ws) (keys m))"
proof -
  have ws: "ws \<noteq> []" "\<forall>w\<in>set ws. plain_name w" "\<forall>w\<in>set ws. newline \<notin> set w" using assms(3) by (auto simp: test_dir_ok_def)
  obtain ls where ls: "fnd (clean_dir ws) out_pattern fs = unlines ls" "distinct ls"
    "set ls = {x \<in> dom (files fs). below (clean_dir ws) x \<and> out_pattern (Base x)}"
    using assms(1,2) unfolding find_ok_def by blast
  have b: "below (clean_dir ws) (out_file ws p) \<and> out_pattern (Base (out_file ws p))" if "p \<in> set (keys m)" for p
  proof -
    have "Base (out_file ws p) = ''mr-out-'' @ itoa p"
      unfolding out_file_def by (rule test_dir_files(5) [OF assms(3) plain_names(2)])
    moreover have "out_pattern (''mr-out-'' @ itoa p)" using one_digit [of p] assms(5) that by blast
    ultimately show ?thesis by (simp add: out_file_snoc [OF ws(1)] below_def)
  qed
  have set: "set ls = out_file ws ` set (keys m)" unfolding ls(3) dom_def using assms(7,8) b by blast
  have inj: "inj_on (out_file ws) (set (keys m))"
    by (rule inj_onI) (use clean_dir_inject [OF ws(1,2) plain_names(2) plain_names(2)] in \<open>auto simp: out_file_def\<close>)
  have "newline \<notin> set (clean_dir ws)"
  proof -
    have "newline \<notin> set (join_with ''/'' us)" if "\<forall>w\<in>set us. newline \<notin> set w" for us
      using that by (induction "''/''" us rule: join_with.induct) (auto simp: newline_def char_of_eq_iff)
    then show ?thesis using ws(3) by (simp add: clean_dir_def newline_def char_of_eq_iff)
  qed
  then have "\<forall>x\<in>set ls. x \<noteq> [] \<and> newline \<notin> set x \<and> \<not> is_space (hd x) \<and> \<not> is_space (last x)"
    unfolding set using assms(5) one_digit not_in_itoa [of newline]
    by (auto simp: out_file_snoc [OF ws(1)] clean_dir_def newline_def char_of_eq_iff is_space_def)
  moreover have "ls \<noteq> []" using set assms(4) by (cases m) auto
  ultimately have "findFiles fnd (clean_dir ws) out_pattern fs = ls" using findFiles_listing [of fnd "clean_dir ws" out_pattern fs ls] ls(1) by blast
  moreover have "mset ls = mset (map (out_file ws) (keys m))"
    using ls(2) set inj assms(6) by (intro set_eq_iff_mset_eq_distinct [THEN iffD1]) (auto simp: distinct_map comp_inj_on)
  ultimately show ?thesis using that by blast
qed

text \<open>Collecting and sorting them gives what sorting the lines of all partitions gives.\<close>

lemma mergeOutput_lines:
  assumes "line_sort sortp srtl" "findFiles fnd (clean_dir ws) out_pattern fs = fls" "fls \<noteq> []"
    "mset fls = mset (map (out_file ws) (keys m))" "test_dir_ok ps ws fs" "plain_name out" "\<not> out_pattern out"
    "\<forall>(p, l) \<in> set m. files fs (out_file ws p) = Some (unlines (g l))"
    "mset (concat (map (\<lambda>(p, l). g l) m)) = mset seq" "\<forall>l\<in>set seq. newline \<notin> set l" "\<forall>p\<in>set (keys m). 0 \<le> p \<and> p < 10"
  shows "mergeOutput fnd sortp (clean_dir ws) out fs = Ret (fs\<lparr>files := (files fs)(clean_dir (ws @ [out]) \<mapsto> sortp [unlines seq])\<rparr>)"
proof -
  have ws: "ws \<noteq> []" "\<forall>w\<in>set ws. plain_name w" using assms(5) by (auto simp: test_dir_ok_def)
  define L where "L x = file_lines (the (files fs x))" for x
  have "set (concat (map (\<lambda>(p, l). g l) m)) = set seq" using assms(9) by (rule mset_eq_setD)
  then have nn: "\<forall>(p, l) \<in> set m. \<forall>x\<in>set (g l). newline \<notin> set x" using assms(10) by fastforce
  have L: "L (out_file ws p) = g l \<and> files fs (out_file ws p) = Some (unlines (L (out_file ws p)))" if "(p, l) \<in> set m" for p l
  proof -
    have "files fs (out_file ws p) = Some (unlines (g l))" "\<forall>x\<in>set (g l). newline \<notin> set x"
      using assms(8) nn that by blast+
    then show ?thesis by (simp add: L_def file_lines_unlines)
  qed
  have set: "set fls = out_file ws ` set (keys m)" using mset_eq_setD [OF assms(4)] by (simp add: image_image)
  have "mset (concat (map L fls)) = sum_mset (image_mset (mset \<circ> L) (mset (map (out_file ws) (keys m))))"
    unfolding assms(4) [symmetric] by (simp add: mset_concat sum_mset_sum_list flip: mset_map)
  also have "\<dots> = sum_list (map (\<lambda>(p, l). mset (L (out_file ws p))) m)"
    by (simp add: sum_mset_sum_list o_def case_prod_beta' flip: mset_map)
  also have "\<dots> = sum_list (map (\<lambda>(p, l). mset (g l)) m)" using L by (intro arg_cong [where f = sum_list] map_cong) auto
  also have "\<dots> = mset seq" using assms(9) by (simp add: mset_concat o_def case_prod_beta')
  finally have srt: "sortp (map unlines (map L fls)) = sortp [unlines seq]"
    by (intro line_sort.sortp_same [OF assms(1)] assms(10)) auto
  let ?o = "clean_dir (ws @ [out])"
  have ne: "out_file ws p \<noteq> ?o" if "p \<in> set (keys m)" for p
    using clean_dir_inject [OF ws plain_names(2) assms(6), of p] assms(7,11) one_digit [of p] that by (auto simp: out_file_def)
  have rd: "those (map ((files fs)(?o \<mapsto> [])) fls) = Some (map (\<lambda>x. unlines (L x)) fls)"
    by (rule those_map) (use set ne L in fastforce)
  have w: "write_file ?o s (fs\<lparr>files := h\<rparr>) = fs\<lparr>files := h(?o \<mapsto> s)\<rparr>" for s h
    using test_dir_files(3) [of ps ws "fs\<lparr>files := h\<rparr>", OF _ assms(6)] assms(5) by simp
  show ?thesis
    using assms(2,3) test_dir_files(1-3) [OF assms(5,6)] rd srt by (simp add: mergeOutput_def Let_def w o_def Suc_le_eq)
qed

text \<open>
  What a test relies on when the map phase is over: a coordinator with ten reducers, as its program
  makes it, that holds the pairs of the sequential program, and a test directory in which the map
  tasks have touched neither the expected output nor any output of a reduce task.
\<close>

definition map_phase_over :: "string list \<Rightarrow> string list \<Rightarrow> string \<Rightarrow> KeyValue list \<Rightarrow> fsys \<Rightarrow> Coordinator \<Rightarrow> fsys \<Rightarrow> bool" where
  "map_phase_over ps ws correct pairs fs1 c fs \<longleftrightarrow> \<not> IsReduceGenerated c \<and> isAllMappingDone (Tasks c) \<and> ReducerCount c = 10 \<and>
     mset (IntermediateResults c) = mset pairs \<and> main_dir_ok ps c fs \<and> test_dir_ok ps ws fs \<and> finite (dom (files fs)) \<and>
     (\<forall>x. below (clean_dir ws) x \<and> (out_pattern (Base x) \<or> x = clean_dir (ws @ [correct])) \<longrightarrow> files fs x = files fs1 x)"

lemma main_not_below:
  assumes "main_dir_ok ps c fs" "test_dir_ok ps ws fs" "plain_name f"
  shows "\<not> below (clean_dir ws) (clean_dir (ps @ [f]))"
  using assms below_file [of "clean_dir ws" "clean_dir ps" f]
  by (auto simp: main_dir_ok_def test_dir_ok_def clean_dir_snoc plain_name_def)

lemma reduce_phase_test:
  assumes "key_sorter srt" "reduce_function reducef" "\<forall>m. mset (ord m) = mset m"
    "map_phase_over ps ws correct pairs fs1 c fs" "\<forall>kv\<in>set pairs. clean_kv kv" "pairs \<noteq> []"
    "plain_name correct" "\<not> out_pattern correct"
    "\<forall>x. below (clean_dir ws) x \<and> out_pattern (Base x) \<longrightarrow> files fs1 x = None"
  obtains m c' fs2 fs3 where "generateReduceTasksIfApplicable srt ord now (c, fs) = Ret (c', fs2)"
    "run_reduces srt (clean_dir ws) reducef (drop (length (Tasks c)) (Tasks c')) fs2 = Ret fs3"
    "test_dir_ok ps ws fs3" "finite (dom (files fs3))" "m \<noteq> []" "distinct (keys m)" "\<forall>p\<in>set (keys m). 0 \<le> p \<and> p < 10"
    "\<forall>x. below (clean_dir ws) x \<and> out_pattern (Base x) \<and> files fs3 x \<noteq> None \<longrightarrow> x \<in> out_file ws ` set (keys m)"
    "\<forall>(p, l) \<in> set m. files fs3 (out_file ws p) = Some (unlines (reduce_loop reducef (srt l)))"
    "mset (concat (map (\<lambda>(p, l). reduce_loop reducef (srt l)) m)) = mset (reduce_loop reducef (srt pairs))"
    "files fs3 (clean_dir (ws @ [correct])) = files fs1 (clean_dir (ws @ [correct]))"
proof -
  have c: "\<not> IsReduceGenerated c" "isAllMappingDone (Tasks c)" "ReducerCount c \<noteq> 0" "main_dir_ok ps c fs"
    "mset (IntermediateResults c) = mset pairs" "ReducerCount c = 10" and fs: "test_dir_ok ps ws fs" "finite (dom (files fs))"
    "\<forall>x. below (clean_dir ws) x \<and> (out_pattern (Base x) \<or> x = clean_dir (ws @ [correct])) \<longrightarrow> files fs x = files fs1 x"
    using assms(4) by (simp_all add: map_phase_over_def)
  have ws: "ws \<noteq> []" "\<forall>w\<in>set ws. plain_name w" "\<not> below (clean_dir ws) (clean_dir ps)" "clean_dir ws \<noteq> clean_dir ps"
    and ps: "ps \<noteq> []" "\<forall>w\<in>set ps. plain_name w" using fs(1) c(4) by (auto simp: test_dir_ok_def main_dir_ok_def)
  obtain m c' fs2 where gen: "generateReduceTasksIfApplicable srt ord now (c, fs) = Ret (c', fs2)"
    and new: "drop (length (Tasks c)) (Tasks c') = map (\<lambda>(p, l). reduce_task (MainDir c) now p (p_file ps p)) m"
    and m: "distinct (keys m)" "\<forall>p\<in>set (keys m). 0 \<le> p \<and> p < \<bar>ReducerCount c\<bar>" "m = [] \<longleftrightarrow> pairs = []"
    and in_files: "\<forall>(p, l) \<in> set m. files fs2 (p_file ps p) = Some (kv_lines l) \<and> l \<noteq> [] \<and> (\<forall>kv\<in>set l. clean_kv kv)"
    and eq: "mset (concat (map (\<lambda>(p, l). reduce_loop reducef (srt l)) m)) = mset (reduce_loop reducef (srt pairs))"
    and dirs: "dirs fs2 = dirs fs" and other: "\<forall>x. (\<forall>p. x \<noteq> p_file ps p) \<longrightarrow> files fs2 x = files fs x"
    and fin: "finite (dom (files fs)) \<longrightarrow> finite (dom (files fs2))"
    by (rule generate_reduce_tasks [OF assms(1-3) c(1-5) assms(5)])
  have ok2: "main_dir_ok ps c fs2" "test_dir_ok ps ws fs2" using c(4) fs(1) dirs by (simp_all add: main_dir_ok_def test_dir_ok_def)
  from run_reduces_test [OF ok2 in_files m(1), of srt reducef now] obtain fs3 where
    run: "run_reduces srt (clean_dir ws) reducef (drop (length (Tasks c)) (Tasks c')) fs2 = Ret fs3"
    and fs3: "dirs fs3 = dirs fs2" "finite (dom (files fs2)) \<longrightarrow> finite (dom (files fs3))"
    and out: "\<forall>(p, l) \<in> set m. files fs3 (out_file ws p) = Some (unlines (reduce_loop reducef (srt l)))"
    and same: "\<forall>x. (\<forall>p\<in>set (keys m). x \<noteq> out_file ps p \<and> x \<noteq> out_file ws p) \<longrightarrow> files fs3 x = files fs2 x"
    unfolding new by blast
  have m10: "\<forall>p\<in>set (keys m). 0 \<le> p \<and> p < 10" using m(2) c(6) by simp
  have main: "\<not> below (clean_dir ws) (p_file ps p)" "\<not> below (clean_dir ws) (out_file ps p)" for p
    using main_not_below [OF c(4) fs(1)] plain_names by (auto simp: p_file_def out_file_def)
  have untouched: "files fs3 x = files fs x" if "below (clean_dir ws) x" "\<forall>p\<in>set (keys m). x \<noteq> out_file ws p" for x
    using same other main that by metis
  have none: "x \<in> out_file ws ` set (keys m)" if "below (clean_dir ws) x" "out_pattern (Base x)" "files fs3 x \<noteq> None" for x
    using untouched [OF that(1)] fs(3) assms(9) that by (metis image_eqI)
  have "clean_dir (ws @ [correct]) \<noteq> out_file ws p" if "p \<in> set (keys m)" for p
    using clean_dir_inject [OF ws(1,2) assms(7) plain_names(2), of p] one_digit [of p] m10 assms(8) that by (auto simp: out_file_def)
  moreover have "below (clean_dir ws) (clean_dir (ws @ [correct]))" using ws(1) by (simp add: clean_dir_snoc below_def)
  ultimately have corr: "files fs3 (clean_dir (ws @ [correct])) = files fs1 (clean_dir (ws @ [correct]))"
    using untouched fs(3) by metis
  show ?thesis
    by (rule that [OF gen run _ _ _ m(1) m10 _ out eq corr]) (use fs3 fin fs ok2 m(3) assms(6) none in \<open>auto simp: test_dir_ok_def\<close>)
qed

text \<open>
  The MapReduce tests accept the program. A test runs in a directory of its own, apart from the
  main directory, with no output files in it, on readable inputs that give at least one pair. Then
  \<open>mkCorrectOutput\<close> succeeds; and whatever the coordinator with ten reducers and the workers do until
  the map phase is over, once it holds the pairs of the sequential program the reduce tasks are
  generated and executed by workers in the test's directory without panic, \<open>mergeOutput\<close> finds all
  their outputs by the one-digit pattern, and \<open>runCmp\<close> finds the merged and the expected output
  equal. This holds for every map function, every reduce function that does not depend on the order
  of its values, and all programs \<open>find\<close> and \<open>sort\<close> that behave as documented; pairs hold neither
  spaces nor newlines, output lines no newlines.
\<close>

lemma mr_test_passes:
  assumes "line_sort sortp srtl" "find_ok fnd" "key_sorter srt" "reduce_function reducef" "\<forall>m. mset (ord m) = mset m"
    "test_dir_ok ps ws fs0" "fnames \<noteq> []" "read_and_map (clean_dir ws) mapf fnames fs0 = Ret pairs" "pairs \<noteq> []"
    "\<forall>kv\<in>set pairs. clean_kv kv" "\<forall>l\<in>set (reduce_loop reducef (srt pairs)). newline \<notin> set l"
    "\<forall>x. below (clean_dir ws) x \<and> out_pattern (Base x) \<longrightarrow> files fs0 x = None"
    "plain_name correct" "plain_name merged" "correct \<noteq> merged" "\<not> out_pattern correct" "\<not> out_pattern merged"
  shows "\<exists>fs1. mkCorrectOutput sortp srt mapf reducef (clean_dir ws) fnames correct fs0 = Ret fs1 \<and>
    (\<forall>c fs now. map_phase_over ps ws correct pairs fs1 c fs \<longrightarrow>
      (\<exists>c' fs2 fs3 fs4. generateReduceTasksIfApplicable srt ord now (c, fs) = Ret (c', fs2) \<and>
        run_reduces srt (clean_dir ws) reducef (drop (length (Tasks c)) (Tasks c')) fs2 = Ret fs3 \<and>
        mergeOutput fnd sortp (clean_dir ws) merged fs3 = Ret fs4 \<and> runCmp (clean_dir ws) merged correct fs4))"
proof -
  let ?seq = "reduce_loop reducef (srt pairs)"
  have ws: "ws \<noteq> []" "\<forall>w\<in>set ws. plain_name w" using assms(6) by (auto simp: test_dir_ok_def)
  have "out_pattern ''mr-out-0''" by (simp add: out_pattern_def is_digit_def)
  then have c0: "correct \<noteq> ''mr-out-0''" using assms(16) by auto
  note mk = mkCorrectOutput_effect [OF assms(6-8,13) c0, of sortp srt reducef]
  define fs1 where "fs1 = fs0\<lparr>files := (files fs0)(clean_dir (ws @ [correct]) \<mapsto> sortp [unlines ?seq], clean_dir (ws @ [''mr-out-0'']) := None)\<rparr>"
  have mr: "plain_name ''mr-out-0''" by (simp add: plain_name_def)
  have f1: "files fs1 (clean_dir (ws @ [correct])) = Some (sortp [unlines ?seq])"
    using c0 clean_dir_inject [OF ws assms(13) mr] by (simp add: fs1_def)
  have none: "\<forall>x. below (clean_dir ws) x \<and> out_pattern (Base x) \<longrightarrow> files fs1 x = None"
    using assms(12,16) test_dir_files(5) [OF assms(6,13)] by (auto simp: fs1_def)
  have "\<exists>c' fs2 fs3 fs4. generateReduceTasksIfApplicable srt ord now (c, fs) = Ret (c', fs2) \<and>
      run_reduces srt (clean_dir ws) reducef (drop (length (Tasks c)) (Tasks c')) fs2 = Ret fs3 \<and>
      mergeOutput fnd sortp (clean_dir ws) merged fs3 = Ret fs4 \<and> runCmp (clean_dir ws) merged correct fs4"
    if over: "map_phase_over ps ws correct pairs fs1 c fs" for c fs now
  proof -
    obtain m c' fs2 fs3 where gen: "generateReduceTasksIfApplicable srt ord now (c, fs) = Ret (c', fs2)"
      and run: "run_reduces srt (clean_dir ws) reducef (drop (length (Tasks c)) (Tasks c')) fs2 = Ret fs3"
      and t3: "test_dir_ok ps ws fs3" "finite (dom (files fs3))" and m: "m \<noteq> []" "distinct (keys m)" "\<forall>p\<in>set (keys m). 0 \<le> p \<and> p < 10"
      and only: "\<forall>x. below (clean_dir ws) x \<and> out_pattern (Base x) \<and> files fs3 x \<noteq> None \<longrightarrow> x \<in> out_file ws ` set (keys m)"
      and out: "\<forall>(p, l) \<in> set m. files fs3 (out_file ws p) = Some (unlines (reduce_loop reducef (srt l)))"
      and eq: "mset (concat (map (\<lambda>(p, l). reduce_loop reducef (srt l)) m)) = mset ?seq"
      and f3: "files fs3 (clean_dir (ws @ [correct])) = files fs1 (clean_dir (ws @ [correct]))"
      by (rule reduce_phase_test [OF assms(3-5) over assms(10,9,13,16) none])
    have ex: "\<forall>p\<in>set (keys m). files fs3 (out_file ws p) \<noteq> None" using out by fastforce
    obtain fls where fls: "findFiles fnd (clean_dir ws) out_pattern fs3 = fls" "mset fls = mset (map (out_file ws) (keys m))"
      by (rule find_outputs [OF assms(2) t3(2,1) m(1,3,2) only ex])
    have "fls \<noteq> []" using fls(2) m(1) by (cases m) auto
    note mg = mergeOutput_lines [OF assms(1) fls(1) this fls(2) t3(1) assms(14,17) out eq assms(11) m(3)]
    have "runCmp (clean_dir ws) merged correct (fs3\<lparr>files := (files fs3)(clean_dir (ws @ [merged]) \<mapsto> sortp [unlines ?seq])\<rparr>)"
      using f3 f1 test_dir_files(4) [OF t3(1) assms(13)] test_dir_files(4) [OF t3(1) assms(14)]
      by (simp add: runCmp_def)
    with gen run mg show ?thesis by blast
  qed
  then show ?thesis using mk unfolding fs1_def [symmetric] by blast
qed

definition listing_find :: find_program where
  "listing_find d pat fs = unlines (sorted_list_of_set {x \<in> dom (files fs). below d x \<and> pat (Base x)})"

lemma listing_find_ok: "find_ok listing_find"
  unfolding find_ok_def
proof (intro allI impI)
  fix d pat and fs :: fsys
  assume "finite (dom (files fs))"
  then have "finite {x \<in> dom (files fs). below d x \<and> pat (Base x)}" by simp
  then show "\<exists>ls. listing_find d pat fs = unlines ls \<and> distinct ls \<and> set ls = {x \<in> dom (files fs). below d x \<and> pat (Base x)}"
    by (intro exI [of _ "sorted_list_of_set {x \<in> dom (files fs). below d x \<and> pat (Base x)}"]) (simp add: listing_find_def)
qed

definition test_fs :: fsys where
  "test_fs = \<lparr>files = [''/m/f'' \<mapsto> ''x''], dirs = [''/m/main'', ''/t'']\<rparr>"

definition test_pairs :: "KeyValue list" where
  "test_pairs = [\<lparr>kKey = ''/m/f'', kValue = ''1''\<rparr>]"

definition test_coord :: Coordinator where
  "test_coord = two_pairs\<lparr>ReducerCount := 10, IntermediateResults := test_pairs\<rparr>"

lemma test_setup:
  "test_dir_ok [''m'', ''main''] [''t''] test_fs" "main_dir_ok [''m'', ''main''] test_coord test_fs"
  "below ''/t'' x \<Longrightarrow> files test_fs x = None" "clean_dir [''t''] = ''/t''" "plain_name ''c''" "plain_name ''a''"
proof -
  have d: "clean_dir [''m'', ''main''] = ''/m/main''" "clean_dir [''t''] = ''/t''" by (simp_all add: clean_dir_def)
  have n: "clean_dir [''t'', f] = ''/t/'' @ f" "clean_dir [''m'', ''main'', f] = ''/m/main/'' @ f" for f by (simp_all add: clean_dir_def)
  show "test_dir_ok [''m'', ''main''] [''t''] test_fs"
    by (simp add: test_dir_ok_def d n test_fs_def plain_name_def newline_def char_of_eq_iff below_def)
  show "main_dir_ok [''m'', ''main''] test_coord test_fs"
    by (simp add: main_dir_ok_def d n test_fs_def plain_name_def test_coord_def two_pairs_def)
  show "below ''/t'' x \<Longrightarrow> files test_fs x = None" by (auto simp: test_fs_def below_def)
qed (simp_all add: clean_dir_def plain_name_def)

end
