(* ===== verification/MRFile.thy ===== *)
theory MRFile
  imports MRSpec
begin

text \<open>
  How a worker writes the output of a reduce task, \<open>executeReducef\<close> of \<open>mr/worker.go\<close>, in the
  steps that other processes can observe: it opens the file, which empties it, prints one line
  after another at the position of its own file descriptor, and copies the result. Several workers
  may have the same file open. And the worker's calls of the coordinator.
\<close>

section \<open>Calls of the coordinator\<close>

text \<open>
  \<open>call\<close>: the coordinator's socket cannot be dialled, the call fails after the handler has or has
  not run, or it is answered. A failure to dial ends the worker. A panic of the handler ends the
  coordinator.
\<close>

datatype rpc_link = NoDial | CallErr bool | Answered

definition call :: "rpc_link \<Rightarrow> ('s \<Rightarrow> ('r \<times> 's) outcome) \<Rightarrow> 's \<Rightarrow> ('r option \<times> 's) outcome" where
  "call link handler s = (case link of
      NoDial \<Rightarrow> Inl Fatal
    | CallErr executed \<Rightarrow> if executed then bindo (handler s) (\<lambda>(r, s'). Ret (None, s')) else Ret (None, s)
    | Answered \<Rightarrow> bindo (handler s) (\<lambda>(r, s'). Ret (Some r, s')))"

text \<open>The result \<^const>\<open>None\<close> is the error \<open>call failed\<close>.\<close>

definition CallRequestTask :: "rpc_link \<Rightarrow> int \<Rightarrow> int \<Rightarrow> Coordinator \<times> fsys \<Rightarrow> (Task option \<times> Coordinator \<times> fsys) outcome" where
  "CallRequestTask link now workerId = call link (\<lambda>(c, fs). case RequestTask now workerId c of (t, c') \<Rightarrow> Ret (t, c', fs))"

definition CallUpdateTaskStatus ::
    "(KeyValue list \<Rightarrow> KeyValue list) \<Rightarrow> ((int \<times> KeyValue list) list \<Rightarrow> (int \<times> KeyValue list) list) \<Rightarrow> rpc_link \<Rightarrow> int \<Rightarrow>
     string \<Rightarrow> string \<Rightarrow> string \<Rightarrow> int \<Rightarrow> KeyValue list \<Rightarrow> int \<Rightarrow> Coordinator \<times> fsys \<Rightarrow> (unit option \<times> Coordinator \<times> fsys) outcome" where
  "CallUpdateTaskStatus srt ord link now taskID status writeLocation assignedWorkerId intermediate retries =
     call link (\<lambda>s. bindo (UpdateTaskStatus srt ord now \<lparr>u_TaskId = taskID, u_AssignedWorkerId = assignedWorkerId,
        u_WriteLocation = writeLocation, u_Status = status, u_Intermediate = intermediate, u_Retries = retries\<rparr> s) (\<lambda>s'. Ret ((), s')))"

text \<open>The coordinator has no method \<open>UpdateWorkerStatus\<close>, so that call is never answered without an error.\<close>

definition CallUpdateWorkerStatus :: "rpc_link \<Rightarrow> int \<Rightarrow> string \<Rightarrow> Coordinator \<times> fsys \<Rightarrow> (unit option \<times> Coordinator \<times> fsys) outcome" where
  "CallUpdateWorkerStatus link workerId status = call (if link = NoDial then NoDial else CallErr False) (\<lambda>s. Ret ((), s))"

section \<open>Writing at a position\<close>

text \<open>A write beyond the end of the file fills the gap with zero bytes.\<close>

definition write_at :: "nat \<Rightarrow> string \<Rightarrow> string \<Rightarrow> string" where
  "write_at pos s c = take pos c @ replicate (pos - length c) (char_of (0::nat)) @ s @ drop (pos + length s) c"

text \<open>A write through the descriptor of a file that was created; creating it may have failed.\<close>

definition fd_write :: "string \<Rightarrow> nat \<Rightarrow> string \<Rightarrow> fsys \<Rightarrow> fsys" where
  "fd_write p pos s fs = (case files fs p of None \<Rightarrow> fs | Some c \<Rightarrow> fs\<lparr>files := (files fs)(p \<mapsto> write_at pos s c)\<rparr>)"

definition reduce_open :: "(KeyValue list \<Rightarrow> KeyValue list) \<Rightarrow> (string \<Rightarrow> string list \<Rightarrow> string) \<Rightarrow> string \<Rightarrow> string \<Rightarrow> fsys \<Rightarrow>
    (string list option \<times> fsys) outcome" where
  "reduce_open srt reducef readLocation writeLocation fs =
     (case files fs readLocation of
        None \<Rightarrow> Ret (None, fs)
      | Some data \<Rightarrow>
          (case toKeyValues (split_on newline (TrimSuffix_nl data)) of
             Inl e \<Rightarrow> Inl e
           | Inr intermediate \<Rightarrow> Ret (Some (reduce_loop reducef (srt intermediate)), write_file writeLocation [] fs)))"

definition line_pos :: "string list \<Rightarrow> nat \<Rightarrow> nat" where
  "line_pos lines k = length (unlines (take k lines))"

definition reduce_line :: "string \<Rightarrow> string list \<Rightarrow> nat \<Rightarrow> fsys \<Rightarrow> fsys" where
  "reduce_line writeLocation lines k fs = fd_write writeLocation (line_pos lines k) (lines ! k @ [newline]) fs"

section \<open>Lemmas\<close>

lemma unlines_append [simp]: "unlines (xs @ ys) = unlines xs @ unlines ys"
  by (simp add: unlines_def)

lemma unlines_simps [simp]: "unlines [] = []" "unlines (x # xs) = x @ newline # unlines xs"
  by (simp_all add: unlines_def)

lemma line_pos_simps [simp]: "line_pos lines 0 = 0" "line_pos lines (length lines) = length (unlines lines)"
  by (simp_all add: line_pos_def)

lemma line_pos_Suc: "k < length lines \<Longrightarrow> line_pos lines (Suc k) = line_pos lines k + length (lines ! k) + 1"
  by (simp add: line_pos_def take_Suc_conv_app_nth)

text \<open>The text between the positions of two lines is the line.\<close>

lemma line_segment:
  assumes "k < length lines"
  shows "take (length (lines ! k) + 1) (drop (line_pos lines k) (unlines lines)) = lines ! k @ [newline]"
proof -
  have "unlines lines = unlines (take k lines) @ (lines ! k @ [newline]) @ unlines (drop (Suc k) lines)"
    using id_take_nth_drop [OF assms] by (metis append_Cons append_Nil append_assoc unlines_append unlines_simps(2))
  then show ?thesis by (simp add: line_pos_def)
qed

lemma line_pos_le: "line_pos lines k \<le> length (unlines lines)"
proof -
  have "unlines lines = unlines (take k lines) @ unlines (drop k lines)" by (metis append_take_drop_id unlines_append)
  then show ?thesis by (simp add: line_pos_def)
qed

text \<open>
  \<open>prefix_upto T n c\<close>: of the text \<open>T\<close> that is to be written, the first \<open>n\<close> bytes are in
  the file, and the file is not longer than \<open>T\<close>.
\<close>

definition prefix_upto :: "string \<Rightarrow> nat \<Rightarrow> string \<Rightarrow> bool" where
  "prefix_upto T n c \<longleftrightarrow> n \<le> length c \<and> length c \<le> length T \<and> take n c = take n T"

lemma prefix_upto_full: "prefix_upto T (length T) c \<longleftrightarrow> c = T"
  by (auto simp: prefix_upto_def)

lemma prefix_upto_empty: "prefix_upto T 0 []"
  by (simp add: prefix_upto_def)

lemma length_write_at: "length (write_at pos s c) = max (length c) (pos + length s)"
  by (auto simp: write_at_def min_def max_def)

lemma nth_write_at:
  "i < length (write_at pos s c) \<Longrightarrow>
    write_at pos s c ! i = (if pos \<le> i \<and> i < pos + length s then s ! (i - pos) else if i < length c then c ! i else char_of (0::nat))"
  unfolding length_write_at by (auto simp: write_at_def nth_append min_def max_def split: if_splits)

text \<open>
  A process that writes its part of the text, at its place, keeps what is right; the one whose
  part comes next extends it. This is what makes it harmless that several workers write.
\<close>

lemma write_at_keeps:
  assumes "prefix_upto T n c" "s = take (length s) (drop pos T)" "pos + length s \<le> length T"
  shows "prefix_upto T n (write_at pos s c)"
proof -
  have n: "n \<le> length c" "length c \<le> length T" "\<And>i. i < n \<Longrightarrow> c ! i = T ! i"
    using assms(1) by (auto simp: prefix_upto_def) (metis nth_take)
  have s: "s ! j = T ! (pos + j)" if "j < length s" for j
  proof -
    have "s ! j = take (length s) (drop pos T) ! j" using assms(2) by simp
    then show ?thesis using that assms(3) by simp
  qed
  have "take n (write_at pos s c) = take n T"
    using n s by (intro nth_equalityI) (auto simp: length_write_at nth_write_at)
  then show ?thesis using n assms(3) by (simp add: prefix_upto_def length_write_at)
qed

lemma write_at_extends:
  assumes "prefix_upto T n c" "s = take (length s) (drop n T)" "n + length s \<le> length T"
  shows "prefix_upto T (n + length s) (write_at n s c)"
proof -
  have n: "n \<le> length c" "length c \<le> length T" "\<And>i. i < n \<Longrightarrow> c ! i = T ! i"
    using assms(1) by (auto simp: prefix_upto_def) (metis nth_take)
  have s: "s ! j = T ! (n + j)" if "j < length s" for j
  proof -
    have "s ! j = take (length s) (drop n T) ! j" using assms(2) by simp
    then show ?thesis using that assms(3) by simp
  qed
  have "take (n + length s) (write_at n s c) = take (n + length s) T"
    using n s assms(3) by (intro nth_equalityI) (auto simp: length_write_at nth_write_at)
  then show ?thesis using n assms(3) by (simp add: prefix_upto_def length_write_at)
qed

lemma reduce_line_at:
  assumes "k < length lines"
  shows "lines ! k @ [newline] = take (length (lines ! k @ [newline])) (drop (line_pos lines k) (unlines lines))"
    "line_pos lines k + length (lines ! k @ [newline]) = line_pos lines (Suc k)"
    "line_pos lines k + length (lines ! k @ [newline]) \<le> length (unlines lines)"
  using line_segment [OF assms] line_pos_Suc [OF assms] line_pos_le [of lines "Suc k"] by simp_all

lemma reduce_line_file:
  assumes "files fs out = Some c" "k < length lines"
  shows "reduce_line out lines k fs = fs\<lparr>files := (files fs)(out \<mapsto> write_at (line_pos lines k) (lines ! k @ [newline]) c)\<rparr>"
    and "prefix_upto (unlines lines) n c \<Longrightarrow> prefix_upto (unlines lines) n (write_at (line_pos lines k) (lines ! k @ [newline]) c)"
    and "prefix_upto (unlines lines) (line_pos lines k) c \<Longrightarrow>
      prefix_upto (unlines lines) (line_pos lines (Suc k)) (write_at (line_pos lines k) (lines ! k @ [newline]) c)"
proof -
  show "reduce_line out lines k fs = fs\<lparr>files := (files fs)(out \<mapsto> write_at (line_pos lines k) (lines ! k @ [newline]) c)\<rparr>"
    using assms(1) by (simp add: reduce_line_def fd_write_def)
  show "prefix_upto (unlines lines) n (write_at (line_pos lines k) (lines ! k @ [newline]) c)" if "prefix_upto (unlines lines) n c"
    by (rule write_at_keeps [OF that reduce_line_at(1,3) [OF assms(2)]])
  show "prefix_upto (unlines lines) (line_pos lines (Suc k)) (write_at (line_pos lines k) (lines ! k @ [newline]) c)"
    if "prefix_upto (unlines lines) (line_pos lines k) c"
    using write_at_extends [OF that reduce_line_at(1,3) [OF assms(2)]] unfolding reduce_line_at(2) [OF assms(2)] .
qed

text \<open>
  Undisturbed, the steps are \<^const>\<open>executeReducef\<close>: open, print every line, copy.
\<close>

definition reduce_lines :: "string \<Rightarrow> string list \<Rightarrow> nat \<Rightarrow> fsys \<Rightarrow> fsys" where
  "reduce_lines out lines n fs = fold (reduce_line out lines) [0..<n] fs"

lemma reduce_lines_prefix:
  assumes "files fs out = Some []" "n \<le> length lines"
  shows "\<exists>c. reduce_lines out lines n fs = fs\<lparr>files := (files fs)(out \<mapsto> c)\<rparr> \<and> prefix_upto (unlines lines) (line_pos lines n) c"
  using assms(2)
proof (induction n)
  case 0
  have "(files fs)(out \<mapsto> []) = files fs" using assms(1) by auto
  then show ?case by (intro exI [of _ "[]"]) (simp add: reduce_lines_def prefix_upto_empty)
next
  case (Suc n)
  then obtain c where c: "reduce_lines out lines n fs = fs\<lparr>files := (files fs)(out \<mapsto> c)\<rparr>"
    "prefix_upto (unlines lines) (line_pos lines n) c" using Suc_leD by blast
  have n: "n < length lines" using Suc.prems by simp
  have "reduce_lines out lines (Suc n) fs = reduce_line out lines n (fs\<lparr>files := (files fs)(out \<mapsto> c)\<rparr>)"
    using c(1) by (simp add: reduce_lines_def)
  then have "reduce_lines out lines (Suc n) fs =
      fs\<lparr>files := (files fs)(out \<mapsto> write_at (line_pos lines n) (lines ! n @ [newline]) c)\<rparr>"
    using reduce_line_file(1) [of "fs\<lparr>files := (files fs)(out \<mapsto> c)\<rparr>" out c n lines, OF _ n] by simp
  moreover have "prefix_upto (unlines lines) (line_pos lines (Suc n)) (write_at (line_pos lines n) (lines ! n @ [newline]) c)"
    using reduce_line_file(3) [of "fs\<lparr>files := (files fs)(out \<mapsto> c)\<rparr>" out c n lines, OF _ n] c(2) by simp
  ultimately show ?case by blast
qed

lemma executeReducef_steps:
  assumes "Dir out \<in> set (dirs fs)" "out \<notin> set (dirs fs)"
  shows "executeReducef srt dir inp out reducef fs =
    bindo (reduce_open srt reducef inp out fs) (\<lambda>(r, fs'). case r of
        None \<Rightarrow> Ret (False, fs')
      | Some lines \<Rightarrow> Ret (True, copyToWorkerInitDir dir out (reduce_lines out lines (length lines) fs')))"
proof -
  have w: "write_file out s fs = fs\<lparr>files := (files fs)(out \<mapsto> s)\<rparr>" for s using assms by (simp add: write_file_def)
  have "reduce_lines out lines (length lines) (fs\<lparr>files := (files fs)(out \<mapsto> [])\<rparr>) = fs\<lparr>files := (files fs)(out \<mapsto> unlines lines)\<rparr>" for lines
    using reduce_lines_prefix [of "fs\<lparr>files := (files fs)(out \<mapsto> [])\<rparr>" out "length lines" lines] by (auto simp: prefix_upto_full)
  then show ?thesis by (simp add: executeReducef_def reduce_open_def w Let_def split: option.splits sum.splits)
qed

end
