(* ===== verification/MRJob.thy ===== *)
theory MRJob
  imports MRFile MRTest
begin

text \<open>
  Whole MapReduce jobs: the coordinator and any number of worker processes from the start of the
  coordinator to its end, through both phases, with every interleaving of requests, map executions,
  printed lines of reduce outputs, copies, reports and polls, with calls that fail and workers that
  exit at any moment, as the application \<open>crash.go\<close> makes them do. All workers are started in one
  directory, as \<open>startWorker\<close> does.
\<close>

section \<open>Runs\<close>

datatype wstate = Idle | Holds Task | Writing Task "string list" nat | Executed Task "KeyValue list option"

record job =
  j_c :: Coordinator
  j_fs :: fsys
  j_w :: "int \<Rightarrow> wstate"

record mr_env =
  e_srt :: "KeyValue list \<Rightarrow> KeyValue list"
  e_ord :: "(int \<times> KeyValue list) list \<Rightarrow> (int \<times> KeyValue list) list"
  e_dir :: string
  e_map :: "string \<Rightarrow> string \<Rightarrow> KeyValue list"
  e_reduce :: "string \<Rightarrow> string list \<Rightarrow> string"

text \<open>The report at the end of a turn of \<open>Worker\<close>.\<close>

definition report_task :: "mr_env \<Rightarrow> rpc_link \<Rightarrow> int \<Rightarrow> Task \<Rightarrow> KeyValue list option \<Rightarrow> Coordinator \<times> fsys \<Rightarrow>
    (unit option \<times> Coordinator \<times> fsys) outcome" where
  "report_task e link now t res = (case res of
      None \<Rightarrow> CallUpdateTaskStatus (e_srt e) (e_ord e) link now (t_Id t) ''not started'' (t_WriteLocation t) (-1) [] (t_Retries t + 1)
    | Some kvs \<Rightarrow> CallUpdateTaskStatus (e_srt e) (e_ord e) link now (t_Id t) ''completed'' (t_WriteLocation t) (t_AssignedWorkerId t) kvs (t_Retries t))"

definition assigned :: "Task list \<Rightarrow> int \<Rightarrow> Task \<Rightarrow> bool" where
  "assigned ts w t \<longleftrightarrow> list_ex (\<lambda>t'. t_Id t' = t_Id t \<and> t_AssignedWorkerId t' = w) ts"

text \<open>
  One step. In a \<open>calm\<close> run a worker opens its output file while the task is still its own, that
  is within the five seconds after which the poll takes it away, and the poll gives no task up, which
  it does after more than ten time-outs; nothing else is assumed about speeds.
\<close>

inductive job_step :: "mr_env \<Rightarrow> bool \<Rightarrow> job \<Rightarrow> job \<Rightarrow> bool" for e calm where
  request: "w \<noteq> -1 \<Longrightarrow> j_w s w = Idle \<Longrightarrow> CallRequestTask link now w (j_c s, j_fs s) = Ret (r, c', fs') \<Longrightarrow>
    job_step e calm s \<lparr>j_c = c', j_fs = fs', j_w = (j_w s)(w := case Option.bind r worker_accept of None \<Rightarrow> Idle | Some t \<Rightarrow> Holds t)\<rparr>"
| run_map: "j_w s w = Holds t \<Longrightarrow> t_Type t = ''map'' \<Longrightarrow>
    executeMapf (e_dir e) (t_ReadLocation t) (t_WriteLocation t) (e_map e) (j_fs s) = Ret (res, fs') \<Longrightarrow>
    job_step e calm s (s\<lparr>j_fs := fs', j_w := (j_w s)(w := Executed t res)\<rparr>)"
| open_out: "j_w s w = Holds t \<Longrightarrow> t_Type t \<noteq> ''map'' \<Longrightarrow> (calm \<Longrightarrow> assigned (Tasks (j_c s)) w t) \<Longrightarrow>
    reduce_open (e_srt e) (e_reduce e) (t_ReadLocation t) (t_WriteLocation t) (j_fs s) = Ret (r, fs') \<Longrightarrow>
    job_step e calm s (s\<lparr>j_fs := fs', j_w := (j_w s)(w := case r of None \<Rightarrow> Executed t None | Some lines \<Rightarrow> Writing t lines 0)\<rparr>)"
| print: "j_w s w = Writing t lines k \<Longrightarrow> k < length lines \<Longrightarrow>
    job_step e calm s (s\<lparr>j_fs := reduce_line (t_WriteLocation t) lines k (j_fs s), j_w := (j_w s)(w := Writing t lines (Suc k))\<rparr>)"
| copy: "j_w s w = Writing t lines (length lines) \<Longrightarrow>
    job_step e calm s (s\<lparr>j_fs := copyToWorkerInitDir (e_dir e) (t_WriteLocation t) (j_fs s), j_w := (j_w s)(w := Executed t (Some []))\<rparr>)"
| report: "j_w s w = Executed t res \<Longrightarrow> report_task e link now t res (j_c s, j_fs s) = Ret (r, c', fs') \<Longrightarrow>
    job_step e calm s \<lparr>j_c = c', j_fs = fs', j_w = (j_w s)(w := Idle)\<rparr>"
| exit: "job_step e calm s (s\<lparr>j_w := (j_w s)(w := Idle)\<rparr>)"
| poll: "Done now (j_c s) = (b, c') \<Longrightarrow> (calm \<Longrightarrow> \<forall>t\<in>set (Tasks c'). t_Status t \<noteq> ''skipped'') \<Longrightarrow>
    job_step e calm s (s\<lparr>j_c := c'\<rparr>)"

definition job_start :: "string \<Rightarrow> int \<Rightarrow> string list \<Rightarrow> fsys \<Rightarrow> job" where
  "job_start src now fnames fs = (case MakeCoordinator src now fnames 10 fs of (c, fs') \<Rightarrow>
     \<lparr>j_c = c, j_fs = fs', j_w = (\<lambda>_. Idle)\<rparr>)"

abbreviation job_steps :: "mr_env \<Rightarrow> bool \<Rightarrow> job \<Rightarrow> job \<Rightarrow> bool" where
  "job_steps e calm \<equiv> (job_step e calm)\<^sup>*\<^sup>*"

lemma report_task_eq:
  "report_task e link now t res = call link (\<lambda>s. bindo (UpdateTaskStatus (e_srt e) (e_ord e) now (worker_report t res) s) (\<lambda>s'. Ret ((), s')))"
  by (cases res) (simp_all add: report_task_def CallUpdateTaskStatus_def worker_report_def)

text \<open>The state a call leaves: the old one, or the handler's.\<close>

lemma call_state:
  "call link h s = Ret (r, s') \<Longrightarrow> s' = s \<and> r = None \<or> (\<exists>x. h s = Ret (x, s') \<and> (r = None \<or> r = Some x))"
  by (auto simp: call_def bindo_Ret split: rpc_link.splits if_splits)

section \<open>Which files a job touches\<close>

definition touched :: "string list \<Rightarrow> string list \<Rightarrow> string \<Rightarrow> bool" where
  "touched ps ws x \<longleftrightarrow> stale_output (clean_dir ps) x \<or> (\<exists>i. x = clean_dir (ws @ [''mr-'' @ itoa i]) \<or> x = out_file ws i)"

definition fs_ext :: "string list \<Rightarrow> string list \<Rightarrow> fsys \<Rightarrow> fsys \<Rightarrow> bool" where
  "fs_ext ps ws fs fs' \<longleftrightarrow> dirs fs' = dirs fs \<and> (\<forall>x. \<not> touched ps ws x \<longrightarrow> files fs' x = files fs x) \<and>
     (finite (dom (files fs)) \<longrightarrow> finite (dom (files fs')))"

lemma fs_ext_refl [simp]: "fs_ext ps ws fs fs"
  by (simp add: fs_ext_def)

lemma fs_ext_trans: "fs_ext ps ws fs fs' \<Longrightarrow> fs_ext ps ws fs' fs'' \<Longrightarrow> fs_ext ps ws fs fs''"
  by (simp add: fs_ext_def)

lemma fs_ext_update: "touched ps ws x \<Longrightarrow> fs_ext ps ws fs (fs\<lparr>files := (files fs)(x \<mapsto> s)\<rparr>)"
  by (auto simp: fs_ext_def)

lemma fs_ext_dirs:
  "fs_ext ps ws fs fs' \<Longrightarrow> main_dir_ok ps c fs' = main_dir_ok ps c fs"
  "fs_ext ps ws fs fs' \<Longrightarrow> test_dir_ok ps ws fs' = test_dir_ok ps ws fs"
  by (simp_all add: fs_ext_def main_dir_ok_def test_dir_ok_def)

lemma mr_name: "plain_name (''mr-'' @ itoa i)"
  using itoa_no_slash by (simp add: plain_name_def)

text \<open>The locale of the directories of a job.\<close>

definition dirs_ok :: "string list \<Rightarrow> string list \<Rightarrow> fsys \<Rightarrow> bool" where
  "dirs_ok ps ws fs \<longleftrightarrow> ps \<noteq> [] \<and> (\<forall>p\<in>set ps. plain_name p) \<and> clean_dir ps \<in> set (dirs fs) \<and>
     (\<forall>f. clean_dir (ps @ [f]) \<notin> set (dirs fs)) \<and> test_dir_ok ps ws fs"

lemma dirs_ok_main: "dirs_ok ps ws fs \<Longrightarrow> MainDir c = clean_dir ps \<Longrightarrow> main_dir_ok ps c fs"
  by (simp add: dirs_ok_def main_dir_ok_def)

lemma dirs_ok_ext: "fs_ext ps ws fs fs' \<Longrightarrow> dirs_ok ps ws fs' = dirs_ok ps ws fs"
  by (simp add: fs_ext_def dirs_ok_def test_dir_ok_def)

lemma dirs_ok_test: "dirs_ok ps ws fs \<Longrightarrow> test_dir_ok ps ws fs"
  by (simp add: dirs_ok_def)

lemma main_file_stale:
  assumes "dirs_ok ps ws fs" "plain_name f" "take 3 f = ''mr-'' \<or> take 2 f = ''p-''"
  shows "stale_output (clean_dir ps) (clean_dir (ps @ [f]))"
  using assms by (simp add: dirs_ok_def stale_output_def clean_dir_snoc plain_name_def)

lemma touched_files:
  assumes "dirs_ok ps ws fs"
  shows "touched ps ws (clean_dir (ps @ [''mr-'' @ itoa i]))" "touched ps ws (out_file ps i)" "touched ps ws (p_file ps i)"
    "touched ps ws (clean_dir (ws @ [''mr-'' @ itoa i]))" "touched ps ws (out_file ws i)"
proof -
  show "touched ps ws (clean_dir (ps @ [''mr-'' @ itoa i]))"
    unfolding touched_def using main_file_stale [OF assms mr_name [of i]] by simp
  show "touched ps ws (out_file ps i)" "touched ps ws (p_file ps i)"
    unfolding touched_def out_file_def p_file_def
    using main_file_stale [OF assms plain_names(2), of i] main_file_stale [OF assms plain_names(1), of i] by simp_all
qed (auto simp: touched_def)

text \<open>The files of the two directories that matter are different.\<close>

lemma mr_name_ne: "''mr-'' @ itoa i \<noteq> ''mr-out-'' @ itoa p" "''mr-'' @ itoa i \<noteq> ''p-'' @ itoa p"
proof -
  have "CHR ''o'' \<notin> set (itoa i)" by (rule not_in_itoa) simp_all
  then show "''mr-'' @ itoa i \<noteq> ''mr-out-'' @ itoa p" by (cases "itoa i") auto
qed simp

lemma job_files_ne:
  assumes "dirs_ok ps ws fs"
  shows "clean_dir (ps @ [''mr-'' @ itoa i]) \<noteq> out_file ps p" "clean_dir (ps @ [''mr-'' @ itoa i]) \<noteq> out_file ws p"
    "clean_dir (ps @ [''mr-'' @ itoa i]) \<noteq> p_file ps p"
    "clean_dir (ws @ [''mr-'' @ itoa i]) \<noteq> out_file ps p" "clean_dir (ws @ [''mr-'' @ itoa i]) \<noteq> out_file ws p"
    "clean_dir (ws @ [''mr-'' @ itoa i]) \<noteq> p_file ps p"
    "out_file ws q \<noteq> out_file ps p" "out_file ws q \<noteq> p_file ps p" "out_file ps q \<noteq> p_file ps p"
    "out_file ps p = out_file ps q \<longleftrightarrow> p = q" "out_file ws p = out_file ws q \<longleftrightarrow> p = q"
proof -
  have ps: "ps \<noteq> []" "\<forall>w\<in>set ps. plain_name w" and ws: "ws \<noteq> []" "\<forall>w\<in>set ws. plain_name w" "clean_dir ws \<noteq> clean_dir ps"
    using assms by (auto simp: dirs_ok_def test_dir_ok_def)
  have apart: "clean_dir (ws @ [f]) \<noteq> clean_dir (ps @ [g])" if "plain_name f" "plain_name g" for f g
    using Dir_clean_dir [OF ps that(2)] Dir_clean_dir [OF ws(1,2) that(1)] ws(3) by metis
  note a = apart [OF mr_name plain_names(2)] apart [OF mr_name plain_names(1)] apart [OF plain_names(2) plain_names(2)]
    apart [OF plain_names(2) plain_names(1)] apart [OF plain_names(2) mr_name]
  note i = clean_dir_inject [OF ps] clean_dir_inject [OF ws(1,2)]
  show "clean_dir (ps @ [''mr-'' @ itoa i]) \<noteq> out_file ps p" "clean_dir (ps @ [''mr-'' @ itoa i]) \<noteq> p_file ps p"
    "clean_dir (ws @ [''mr-'' @ itoa i]) \<noteq> out_file ws p"
    "out_file ps q \<noteq> p_file ps p" "out_file ps p = out_file ps q \<longleftrightarrow> p = q" "out_file ws p = out_file ws q \<longleftrightarrow> p = q"
    unfolding out_file_def p_file_def i(1) [OF mr_name plain_names(2)] i(1) [OF mr_name plain_names(1)]
      i(2) [OF mr_name plain_names(2)] i(1) [OF plain_names(2) plain_names(1)] i(1) [OF plain_names(2) plain_names(2)]
      i(2) [OF plain_names(2) plain_names(2)]
    using mr_name_ne by (simp_all)
  show "clean_dir (ps @ [''mr-'' @ itoa i]) \<noteq> out_file ws p" "clean_dir (ws @ [''mr-'' @ itoa i]) \<noteq> out_file ps p"
    "clean_dir (ws @ [''mr-'' @ itoa i]) \<noteq> p_file ps p" "out_file ws q \<noteq> out_file ps p" "out_file ws q \<noteq> p_file ps p"
    unfolding out_file_def p_file_def using a by (metis, metis, metis, metis, metis)
qed

section \<open>What each operation does to the files\<close>

text \<open>\<open>fs_only X fs fs'\<close>: of the files, at most those of \<open>X\<close> have new contents.\<close>

definition fs_only :: "string set \<Rightarrow> fsys \<Rightarrow> fsys \<Rightarrow> bool" where
  "fs_only X fs fs' \<longleftrightarrow> dirs fs' = dirs fs \<and> (\<forall>x. x \<notin> X \<longrightarrow> files fs' x = files fs x) \<and>
     (finite (dom (files fs)) \<longrightarrow> finite (dom (files fs')))"

lemma fs_only_ext: "fs_only X fs fs' \<Longrightarrow> \<forall>x\<in>X. touched ps ws x \<Longrightarrow> fs_ext ps ws fs fs'"
  unfolding fs_only_def fs_ext_def by blast

lemma fs_only_refl [simp]: "fs_only X fs fs"
  by (simp add: fs_only_def)

lemma fs_only_write: "p \<in> X \<Longrightarrow> fs_only X fs (write_file p s fs)"
  by (auto simp: fs_only_def write_file_def)

lemma fs_only_trans: "fs_only X fs fs' \<Longrightarrow> fs_only X fs' fs'' \<Longrightarrow> fs_only X fs fs''"
  by (simp add: fs_only_def)

lemma getFileNameOnly_mr:
  assumes "ps \<noteq> []" "\<forall>p\<in>set ps. plain_name p"
  shows "getFileNameOnly (clean_dir (ps @ [''mr-'' @ itoa i])) = Ret (take (length (itoa i) - 1) (''mr-'' @ itoa i))"
proof -
  have "split_on CHR ''/'' (clean_dir (ps @ [''mr-'' @ itoa i])) = [] # ps @ [''mr-'' @ itoa i]"
    by (rule split_on_clean_dir) (use assms mr_name [of i] in auto)
  moreover have "0 < length (itoa i)" by simp
  ultimately show ?thesis by (simp add: getFileNameOnly_def Let_def del: length_greater_0_conv)
qed

lemma executeMapf_effect:
  assumes "dirs_ok ps ws fs"
    "executeMapf (clean_dir ws) r (clean_dir (ps @ [''mr-'' @ itoa i])) mapf fs = Ret (res, fs')"
  shows "res = map_option (mapf r) (files fs (abs_path (clean_dir ws) r))"
    "fs_only {clean_dir (ps @ [''mr-'' @ itoa i]), clean_dir (ws @ [''mr-'' @ itoa i])} fs fs'"
proof -
  let ?n = "''mr-'' @ itoa i" and ?f = "take (length (itoa i) - 1) (''mr-'' @ itoa i)"
  let ?W = "clean_dir (ps @ [?n])" and ?X = "{clean_dir (ps @ [?n]), clean_dir (ws @ [?n])}"
  have ps: "ps \<noteq> []" "\<forall>w\<in>set ps. plain_name w" and t: "test_dir_ok ps ws fs" and nod: "?W \<notin> set (dirs fs)"
    using assms(1) by (auto simp: dirs_ok_def)
  have psn: "ps @ [?n] \<noteq> []" "\<forall>w\<in>set (ps @ [?n]). plain_name w" using ps mr_name [of i] by auto
  have there: "fs_only ?X fs (writeToLocation ?f ?W kvs fs)" for kvs
  proof (cases "?f = []")
    case True
    then have "path_Join ?W ?f = ?W" using Clean_clean_dir [OF psn] by (simp add: path_Join_def clean_dir_def)
    then show ?thesis unfolding writeToLocation_def by (auto intro: fs_only_write)
  next
    case False
    then have "length (itoa i) - 1 \<noteq> 0" by (metis take_0)
    then have "hd ?f = CHR ''m''" by (cases "length (itoa i) - 1") auto
    moreover have "CHR ''/'' \<notin> set ?f" using mr_name [of i] by (metis plain_name_def in_set_takeD)
    ultimately have "plain_name ?f" using False by (cases ?f) (auto simp: plain_name_def)
    then have "path_Join ?W ?f = clean_dir ((ps @ [?n]) @ [?f])" "Dir (clean_dir ((ps @ [?n]) @ [?f])) = ?W"
      using path_Join_clean [OF psn] Dir_clean_dir [OF psn] by auto
    then show ?thesis using nod by (simp add: writeToLocation_def write_file_def)
  qed
  have here: "fs_only ?X g (writeToWorkerInitDir (clean_dir ws) ?W kvs g)" if "dirs g = dirs fs" for kvs g
  proof -
    have "Base ?W = ?n" by (rule Base_clean_dir [OF ps(1) mr_name])
    moreover have "path_Join (clean_dir ws) ?n = clean_dir (ws @ [?n])" by (rule test_dir_files(1) [OF t mr_name])
    ultimately show ?thesis unfolding writeToWorkerInitDir_def writeToLocation_def by (auto intro: fs_only_write)
  qed
  have g: "getFileNameOnly ?W = Ret ?f" by (rule getFileNameOnly_mr [OF ps])
  show "res = map_option (mapf r) (files fs (abs_path (clean_dir ws) r))"
    using assms(2) by (auto simp: executeMapf_def g Let_def simp del: append.simps split: option.splits)
  show "fs_only ?X fs fs'"
  proof (cases "files fs (abs_path (clean_dir ws) r)")
    case None
    then show ?thesis using assms(2) by (simp add: executeMapf_def)
  next
    case (Some contents)
    then have "fs' = writeToWorkerInitDir (clean_dir ws) ?W (mapf r contents) (writeToLocation ?f ?W (mapf r contents) fs)"
      using assms(2) g by (simp add: executeMapf_def Let_def del: append.simps)
    moreover have "dirs (writeToLocation ?f ?W (mapf r contents) fs) = dirs fs"
      using there [of "mapf r contents"] by (simp add: fs_only_def)
    ultimately show ?thesis using fs_only_trans [OF there here] by simp
  qed
qed

lemma reduce_open_effect:
  assumes "dirs_ok ps ws fs" "files fs (p_file ps p) = Some (kv_lines l)" "l \<noteq> []" "\<forall>kv\<in>set l. clean_kv kv"
  shows "reduce_open srt reducef (p_file ps p) (out_file ps p) fs =
    Ret (Some (reduce_loop reducef (srt l)), fs\<lparr>files := (files fs)(out_file ps p \<mapsto> [])\<rparr>)"
  using assms(2) read_kv_lines [OF assms(3,4)] main_dir_files(4) [OF dirs_ok_main [OF assms(1)], of "two_pairs\<lparr>MainDir := clean_dir ps\<rparr>"]
  by (simp add: reduce_open_def)

lemma copy_effect:
  assumes "dirs_ok ps ws fs" "files fs (out_file ps p) = Some d"
  shows "copyToWorkerInitDir (clean_dir ws) (out_file ps p) fs = fs\<lparr>files := (files fs)(out_file ws p \<mapsto> d)\<rparr>"
proof -
  have ws: "ws \<noteq> []" "\<forall>w\<in>set ws. plain_name w" "clean_dir ws \<noteq> clean_dir ps" and ps: "ps \<noteq> []" "\<forall>w\<in>set ps. plain_name w"
    and t: "test_dir_ok ps ws fs" using assms(1) by (auto simp: dirs_ok_def test_dir_ok_def)
  have "Dir (out_file ps p) = clean_dir ps" "Base (out_file ps p) = ''mr-out-'' @ itoa p"
    unfolding out_file_def by (rule Dir_clean_dir [OF ps plain_names(2)], rule Base_clean_dir [OF ps(1) plain_names(2)])
  moreover have "path_Join (clean_dir ws) (''mr-out-'' @ itoa p) = out_file ws p"
    unfolding out_file_def by (rule test_dir_files(1) [OF t plain_names(2)])
  moreover have "write_file (out_file ws p) d fs = fs\<lparr>files := (files fs)(out_file ws p \<mapsto> d)\<rparr>"
    unfolding out_file_def by (rule test_dir_files(3) [OF t plain_names(2)])
  moreover have "clean_dir ws \<noteq> []" by (simp add: clean_dir_def)
  ultimately show ?thesis
    using assms(2) ws(3) Clean_clean_dir [OF ws(1,2)] Clean_clean_dir [OF ps] by (simp add: copyToWorkerInitDir_def)
qed

end
