(* ===== verification/MRJobInv.thy ===== *)
theory MRJobInv
  imports MRJob
begin

text \<open>
  The invariant of a calm job. Until the reduce tasks are made it is the invariant of the map
  phase of \<open>MRRun\<close>. From then on the table holds the reduce tasks of the partitions; the worker a
  task is assigned to has written its part of the output correctly, however many other workers write
  to the same file, and a completed task has its whole output in both directories.
\<close>

section \<open>The invariant\<close>

fun held :: "wstate \<Rightarrow> Task option" where
  "held Idle = None"
| "held (Holds t) = Some t"
| "held (Writing t lines k) = Some t"
| "held (Executed t res) = Some t"

definition pid :: "int \<Rightarrow> string" where
  "pid p = ''p-'' @ itoa p"

definition shape :: "string list \<Rightarrow> Task \<Rightarrow> bool" where
  "shape ps t \<longleftrightarrow> (t_Type t = ''map'' \<and> (\<exists>i. t_WriteLocation t = clean_dir (ps @ [''mr-'' @ itoa i]))) \<or>
     (\<exists>p. t_Type t = ''reduce'' \<and> t_Id t = pid p \<and> t_ReadLocation t = p_file ps p \<and> t_WriteLocation t = out_file ps p)"

definition job_common :: "string list \<Rightarrow> string list \<Rightarrow> fsys \<Rightarrow> job \<Rightarrow> bool" where
  "job_common ps ws fs1 s \<longleftrightarrow> MainDir (j_c s) = clean_dir ps \<and> ReducerCount (j_c s) = 10 \<and> dirs_ok ps ws (j_fs s) \<and>
     fs_ext ps ws fs1 (j_fs s) \<and> (\<forall>t\<in>set (Tasks (j_c s)). shape ps t \<and> t_Status t \<noteq> ''skipped'') \<and>
     (\<forall>w t. held (j_w s w) = Some t \<longrightarrow> shape ps t)"

definition map_view :: "job \<Rightarrow> mr_state" where
  "map_view s = \<lparr>ms_c = j_c s, ms_held = held \<circ> j_w s\<rparr>"

definition map_worker :: "(string \<Rightarrow> KeyValue list) \<Rightarrow> wstate \<Rightarrow> bool" where
  "map_worker out st = (case st of Writing t lines k \<Rightarrow> False
     | Executed t res \<Rightarrow> res = None \<or> res = Some (out (t_ReadLocation t)) | _ \<Rightarrow> True)"

definition job_map :: "(string \<Rightarrow> KeyValue list) \<Rightarrow> string list \<Rightarrow> string list \<Rightarrow> job \<Rightarrow> bool" where
  "job_map out fnames ws s \<longleftrightarrow> mr_inv out fnames (map_view s) \<and> \<not> isAllMappingDone (Tasks (j_c s)) \<and>
     (\<forall>w. map_worker out (j_w s w)) \<and> (\<forall>p. files (j_fs s) (out_file ws p) = None)"

text \<open>The lines of a partition's output.\<close>

definition lines_of :: "mr_env \<Rightarrow> KeyValue list \<Rightarrow> string list" where
  "lines_of e l = reduce_loop (e_reduce e) (e_srt e l)"

definition final :: "string list \<Rightarrow> string list \<Rightarrow> fsys \<Rightarrow> int \<Rightarrow> string \<Rightarrow> bool" where
  "final ps ws fs p T \<longleftrightarrow> files fs (out_file ps p) = Some T \<and> files fs (out_file ws p) = Some T"

definition file_upto :: "string list \<Rightarrow> fsys \<Rightarrow> int \<Rightarrow> string list \<Rightarrow> nat \<Rightarrow> bool" where
  "file_upto ps fs p lines k \<longleftrightarrow>
     (\<exists>c. files fs (out_file ps p) = Some c \<and> prefix_upto (unlines lines) (line_pos lines k) c)"

definition worker_ok :: "mr_env \<Rightarrow> string list \<Rightarrow> (int \<times> KeyValue list) list \<Rightarrow> fsys \<Rightarrow> wstate \<Rightarrow> bool" where
  "worker_ok e ps m fs st = (case st of
      Writing t lines k \<Rightarrow> (\<exists>(p, l)\<in>set m. t_Id t = pid p \<and> t_WriteLocation t = out_file ps p \<and> t_Type t = ''reduce'' \<and>
        lines = lines_of e l \<and> k \<le> length lines \<and> file_upto ps fs p lines 0)
    | Executed t res \<Rightarrow> t_Type t = ''map'' \<or> res = None \<or> res = Some []
    | _ \<Rightarrow> True)"

definition progress :: "string list \<Rightarrow> string list \<Rightarrow> fsys \<Rightarrow> int \<Rightarrow> string list \<Rightarrow> wstate \<Rightarrow> bool" where
  "progress ps ws fs p lines st = (case st of
      Writing t lines' k \<Rightarrow> t_Id t = pid p \<longrightarrow> file_upto ps fs p lines k
    | Executed t res \<Rightarrow> t_Id t = pid p \<and> res \<noteq> None \<longrightarrow> final ps ws fs p (unlines lines)
    | _ \<Rightarrow> True)"

definition outs_ok :: "mr_env \<Rightarrow> string list \<Rightarrow> string list \<Rightarrow> (int \<times> KeyValue list) list \<Rightarrow> Task list \<Rightarrow> fsys \<Rightarrow> (int \<Rightarrow> wstate) \<Rightarrow> bool" where
  "outs_ok e ps ws m ts fs wst \<longleftrightarrow> (\<forall>(p, l)\<in>set m. \<forall>t\<in>set ts. t_Id t = pid p \<longrightarrow>
     (t_Status t = ''completed'' \<longrightarrow> final ps ws fs p (unlines (lines_of e l))) \<and>
     (t_Status t = ''in progress'' \<longrightarrow> progress ps ws fs p (lines_of e l) (wst (t_AssignedWorkerId t))))"

definition job_keys :: "string list \<Rightarrow> string list \<Rightarrow> (int \<times> KeyValue list) list \<Rightarrow> (string \<times> string \<times> string) list" where
  "job_keys ps fnames m = map_keys fnames @ map (\<lambda>(p, l). (pid p, ''reduce'', p_file ps p)) m"

definition tab_ok :: "(string \<times> string \<times> string) list \<Rightarrow> Task list \<Rightarrow> bool" where
  "tab_ok K ts \<longleftrightarrow> map task_key ts = K \<and> distinct (map fst K) \<and> (\<forall>t\<in>set ts. task_ok t \<and> (t_Type t = ''map'' \<longrightarrow> t_Status t = ''completed''))"

definition parts_ok :: "string list \<Rightarrow> (int \<times> KeyValue list) list \<Rightarrow> fsys \<Rightarrow> bool" where
  "parts_ok ps m fs \<longleftrightarrow> (\<forall>(p, l)\<in>set m. files fs (p_file ps p) = Some (kv_lines l) \<and> l \<noteq> [] \<and> (\<forall>kv\<in>set l. clean_kv kv))"

definition job_reduce :: "mr_env \<Rightarrow> string list \<Rightarrow> string list \<Rightarrow> string list \<Rightarrow> (int \<times> KeyValue list) list \<Rightarrow> job \<Rightarrow> bool" where
  "job_reduce e ps ws fnames m s \<longleftrightarrow> (let ts = Tasks (j_c s); fs = j_fs s in
     IsReduceGenerated (j_c s) \<and> tab_ok (job_keys ps fnames m) ts \<and> distinct (keys m) \<and>
     (\<forall>w t. held (j_w s w) = Some t \<longrightarrow> held_ok ts w t) \<and> parts_ok ps m fs \<and>
     (\<forall>w. worker_ok e ps m fs (j_w s w)) \<and> outs_ok e ps ws m ts fs (j_w s) \<and>
     (\<forall>p. files fs (out_file ws p) \<noteq> None \<longrightarrow> p \<in> set (keys m)))"

section \<open>Tables\<close>

lemma pid_inject [simp]: "pid p = pid q \<longleftrightarrow> p = q"
  by (simp add: pid_def)

lemma tab_ok_ids: "tab_ok K ts \<Longrightarrow> distinct (map t_Id ts)"
proof -
  assume a: "tab_ok K ts"
  have "map t_Id ts = map fst (map task_key ts)" by (simp add: task_key_def o_def)
  then show ?thesis using a unfolding tab_ok_def by metis
qed

lemma tab_ok_unique: "tab_ok K ts \<Longrightarrow> t \<in> set ts \<Longrightarrow> u \<in> set ts \<Longrightarrow> t_Id t = t_Id u \<Longrightarrow> t = u"
  using tab_ok_ids by (metis distinct_map inj_onD)

lemma tab_ok_update:
  assumes "tab_ok K ts" "i < length ts" "task_key t = task_key (ts ! i)" "task_ok t" "t_Type t = ''map'' \<longrightarrow> t_Status t = ''completed''"
  shows "tab_ok K (ts[i := t])"
  using assms set_update_subset_insert [of ts i t] task_key_update [OF assms(2,3)] by (auto simp: tab_ok_def)

lemma RequestTask_cases:
  assumes "RequestTask now w c = (t, c')"
  obtains "t = no_task" "c' = c"
  | i where "i < length (Tasks c)" "t_Status (Tasks c ! i) = ''not started''" "t_AssignedWorkerId (Tasks c ! i) = -1"
      "t = (Tasks c ! i)\<lparr>t_Status := ''in progress'', t_AssignedWorkerId := w, t_LastUpdated := now\<rparr>"
      "c' = c\<lparr>Tasks := (Tasks c)[i := t]\<rparr>"
proof (cases "first_index (\<lambda>t. t_Status t = ''not started'' \<and> t_AssignedWorkerId t = -1) (Tasks c)")
  case None
  then show ?thesis using assms that(1) by (simp add: RequestTask_def)
next
  case (Some i)
  then show ?thesis using assms that(2) [of i] first_index_Some [OF Some] by (auto simp: RequestTask_def Let_def)
qed

definition reported :: "int \<Rightarrow> UpdateTaskStatusArgs \<Rightarrow> Task \<Rightarrow> Task" where
  "reported now a t = t\<lparr>t_Status := u_Status a, t_WriteLocation := u_WriteLocation a, t_Retries := u_Retries a, t_LastUpdated := now\<rparr>"

lemma record_status_cases:
  obtains "record_status now a c = c"
  | i where "i < length (Tasks c)" "t_Id (Tasks c ! i) = u_TaskId a" "t_AssignedWorkerId (Tasks c ! i) = u_AssignedWorkerId a"
      "record_status now a c = c\<lparr>IntermediateResults := IntermediateResults c @ u_Intermediate a,
         Tasks := (Tasks c)[i := reported now a (Tasks c ! i)]\<rparr>"
  using first_index_Some [of "\<lambda>t. t_Id t = u_TaskId a \<and> t_AssignedWorkerId t = u_AssignedWorkerId a" "Tasks c"]
  by (cases "first_index (\<lambda>t. t_Id t = u_TaskId a \<and> t_AssignedWorkerId t = u_AssignedWorkerId a) (Tasks c)")
    (auto simp: record_status_def reported_def)

text \<open>The worker's report names the task and the places it was given.\<close>

lemma worker_report_simps [simp]:
  "u_TaskId (worker_report t res) = t_Id t" "u_WriteLocation (worker_report t res) = t_WriteLocation t"
  "u_AssignedWorkerId (worker_report t res) = (if res = None then -1 else t_AssignedWorkerId t)"
  "u_Status (worker_report t res) = (if res = None then ''not started'' else ''completed'')"
  by (auto simp: worker_report_def split: option.splits)

lemma shape_upd [simp]:
  "shape ps (t\<lparr>t_Status := a\<rparr>) = shape ps t" "shape ps (t\<lparr>t_AssignedWorkerId := w\<rparr>) = shape ps t"
  "shape ps (t\<lparr>t_LastUpdated := n\<rparr>) = shape ps t" "shape ps (t\<lparr>t_Retries := r\<rparr>) = shape ps t"
  by (simp_all add: shape_def)

lemma task_key_upd [simp]:
  "task_key (t\<lparr>t_Status := a\<rparr>) = task_key t" "task_key (t\<lparr>t_AssignedWorkerId := w\<rparr>) = task_key t"
  "task_key (t\<lparr>t_LastUpdated := n\<rparr>) = task_key t" "task_key (t\<lparr>t_Retries := r\<rparr>) = task_key t"
  "task_key (t\<lparr>t_WriteLocation := l\<rparr>) = task_key t" "task_key (reported now rep t) = task_key t"
  by (simp_all add: task_key_def reported_def)

lemma reported_fields [simp]:
  "t_Id (reported now a t) = t_Id t" "t_Type (reported now a t) = t_Type t" "t_Status (reported now a t) = u_Status a"
  "t_AssignedWorkerId (reported now a t) = t_AssignedWorkerId t" "t_ReadLocation (reported now a t) = t_ReadLocation t"
  "t_WriteLocation (reported now a t) = u_WriteLocation a"
  by (simp_all add: reported_def)

section \<open>What all phases keep\<close>

lemma job_commonI:
  assumes "job_common ps ws fs1 s" "MainDir (j_c s') = MainDir (j_c s)" "ReducerCount (j_c s') = ReducerCount (j_c s)"
    "fs_ext ps ws (j_fs s) (j_fs s')" "\<forall>t\<in>set (Tasks (j_c s')). shape ps t \<and> t_Status t \<noteq> ''skipped''"
    "\<forall>w t. held (j_w s' w) = Some t \<longrightarrow> shape ps t"
  shows "job_common ps ws fs1 s'"
  using assms dirs_ok_ext [OF assms(4)] fs_ext_trans [of ps ws fs1 "j_fs s" "j_fs s'"] by (simp add: job_common_def)

lemma job_common_w:
  assumes "job_common ps ws fs1 s" "fs_ext ps ws (j_fs s) fs'" "\<forall>t. held st = Some t \<longrightarrow> shape ps t"
  shows "job_common ps ws fs1 (s\<lparr>j_fs := fs', j_w := (j_w s)(w := st)\<rparr>)"
  by (rule job_commonI [OF assms(1)]) (use assms in \<open>auto simp: job_common_def\<close>)

lemma CallRequestTask_cases:
  assumes "CallRequestTask link now w (c, fs) = Ret (r, c', fs')"
  obtains "c' = c" "fs' = fs" "r = None" | t where "RequestTask now w c = (t, c')" "fs' = fs" "r = None \<or> r = Some t"
  using call_state [OF assms [unfolded CallRequestTask_def]] by (auto split: prod.splits)

lemma report_task_cases:
  assumes "report_task e link now t res (c, fs) = Ret (r, c', fs')"
  obtains "c' = c" "fs' = fs"
  | "generateReduceTasksIfApplicable (e_srt e) (e_ord e) now (record_status now (worker_report t res) c, fs) = Ret (c', fs')"
  using call_state [OF assms [unfolded report_task_eq]] by (auto simp: UpdateTaskStatus_def bindo_Ret)

lemma request_shape:
  assumes "RequestTask now w c = (t, c')" "\<forall>t\<in>set (Tasks c). shape ps t \<and> t_Status t \<noteq> ''skipped''"
  shows "\<forall>t\<in>set (Tasks c'). shape ps t \<and> t_Status t \<noteq> ''skipped''" "t_ReadLocation t \<noteq> '''' \<Longrightarrow> shape ps t"
    "MainDir c' = MainDir c" "ReducerCount c' = ReducerCount c" "IsReduceGenerated c' = IsReduceGenerated c"
proof -
  consider "t = no_task" "c' = c"
    | i where "i < length (Tasks c)" "t = (Tasks c ! i)\<lparr>t_Status := ''in progress'', t_AssignedWorkerId := w, t_LastUpdated := now\<rparr>"
      "c' = c\<lparr>Tasks := (Tasks c)[i := t]\<rparr>"
    using RequestTask_cases [OF assms(1)] by metis
  then have "(\<forall>t\<in>set (Tasks c'). shape ps t \<and> t_Status t \<noteq> ''skipped'') \<and> (t_ReadLocation t \<noteq> '''' \<longrightarrow> shape ps t) \<and>
    MainDir c' = MainDir c \<and> ReducerCount c' = ReducerCount c \<and> IsReduceGenerated c' = IsReduceGenerated c"
  proof cases
    case (2 i)
    have "shape ps t" unfolding 2(2) using assms(2) nth_mem [OF 2(1)] by simp
    moreover have "t_Status t \<noteq> ''skipped''" using 2(2) by simp
    ultimately show ?thesis using assms(2) set_update_subset_insert [of "Tasks c" i t] by (auto simp: 2(3))
  qed (use assms(2) in \<open>simp add: no_task_def\<close>)
  then show "\<forall>t\<in>set (Tasks c'). shape ps t \<and> t_Status t \<noteq> ''skipped''" "t_ReadLocation t \<noteq> '''' \<Longrightarrow> shape ps t"
    "MainDir c' = MainDir c" "ReducerCount c' = ReducerCount c" "IsReduceGenerated c' = IsReduceGenerated c" by blast+
qed

lemma record_shape:
  assumes "\<forall>t\<in>set (Tasks c). shape ps t \<and> t_Status t \<noteq> ''skipped''" "shape ps t"
    "\<forall>t'\<in>set (Tasks c). t_Id t' = t_Id t \<longrightarrow> task_key t' = task_key t"
  shows "\<forall>t'\<in>set (Tasks (record_status now (worker_report t res) c)). shape ps t' \<and> t_Status t' \<noteq> ''skipped''"
proof (cases now "worker_report t res" c rule: record_status_cases)
  case 1
  then show ?thesis using assms by simp
next
  case (2 i)
  let ?u = "reported now (worker_report t res) (Tasks c ! i)"
  have "task_key (Tasks c ! i) = task_key t" using 2(1,2) assms(3) by simp
  then have "shape ps ?u" using assms(2) by (auto simp: shape_def task_key_def)
  moreover have "t_Status ?u \<noteq> ''skipped''" by simp
  ultimately show ?thesis using assms(1) set_update_subset_insert [of "Tasks c" i ?u] unfolding 2(4) by auto
qed

lemma record_fields [simp]:
  "MainDir (record_status now a c) = MainDir c" "ReducerCount (record_status now a c) = ReducerCount c"
  "IsReduceGenerated (record_status now a c) = IsReduceGenerated c"
  by (simp_all add: record_status_def split: option.splits)

lemma Done_fields:
  "Done now c = (b, c') \<Longrightarrow> c' = c\<lparr>Tasks := Tasks c'\<rparr> \<and> list_all2 polled (Tasks c) (Tasks c')"
  using Done_loop_polled [of "Tasks c" now] by (auto simp: Done_def Let_def split: prod.splits)

lemma list_all2_in: "list_all2 P xs ys \<Longrightarrow> x \<in> set xs \<Longrightarrow> \<exists>y\<in>set ys. P x y"
  by (induction rule: list_all2_induct) auto

lemma list_all2_in2: "list_all2 P xs ys \<Longrightarrow> y \<in> set ys \<Longrightarrow> \<exists>x\<in>set xs. P x y"
  by (induction rule: list_all2_induct) auto

lemma polled_shape: "polled t t' \<Longrightarrow> task_key t' = task_key t"
  by (auto simp: polled_def)

section \<open>The map phase\<close>

lemma mr_inv_drop: "mr_inv out fnames s \<Longrightarrow> mr_inv out fnames (s\<lparr>ms_held := (ms_held s)(w := None)\<rparr>)"
  by (auto simp: mr_inv_def Let_def)

lemma map_keys_file: "(i, ty, f) \<in> set (map_keys fnames) \<Longrightarrow> f \<in> set fnames"
  by (auto simp: map_keys_def in_set_enumerate_eq)

lemma mr_inv_key:
  assumes "mr_inv out fnames s" "t \<in> set (Tasks (ms_c s)) \<or> ms_held s w = Some t"
  shows "t_Type t = ''map''" "t_ReadLocation t \<in> set fnames"
proof -
  have "task_key t \<in> set (map_keys fnames)"
    using assms unfolding mr_inv_def Let_def held_ok_def by (metis image_eqI set_map)
  then show "t_Type t = ''map''" "t_ReadLocation t \<in> set fnames"
    by (auto simp: map_keys_def task_key_def in_set_enumerate_eq) (metis nth_mem)
qed

lemma map_view_drop: "mr_inv out fnames (map_view s) \<Longrightarrow> mr_inv out fnames (map_view (s\<lparr>j_w := (j_w s)(w := Idle)\<rparr>))"
  using mr_inv_drop [of out fnames "map_view s" w] by (simp add: map_view_def fun_upd_comp)

lemma job_map_idle: "job_map out fnames ws s \<Longrightarrow> job_map out fnames ws (s\<lparr>j_w := (j_w s)(w := Idle)\<rparr>)"
  using map_view_drop [of out fnames s w] by (auto simp: job_map_def map_worker_def)

lemma job_map_request:
  assumes "job_map out fnames ws s" "w \<noteq> -1" "j_w s w = Idle" "RequestTask now w (j_c s) = (t, c')"
  shows "job_map out fnames ws (s\<lparr>j_c := c', j_w := (j_w s)(w := case worker_accept t of None \<Rightarrow> Idle | Some t \<Rightarrow> Holds t)\<rparr>)"
proof -
  let ?st = "case worker_accept t of None \<Rightarrow> Idle | Some t \<Rightarrow> Holds t"
  note j = assms(1) [unfolded job_map_def]
  have "held ?st = worker_accept t" by (simp split: option.splits)
  then have inv: "mr_inv out fnames (map_view (s\<lparr>j_c := c', j_w := (j_w s)(w := ?st)\<rparr>))"
    using mr_inv_request [of out fnames "map_view s" w now t c'] j assms(2-4) by (simp add: map_view_def fun_upd_comp)
  have "\<not> isAllMappingDone (Tasks c')" using assms(4)
  proof (cases rule: RequestTask_cases)
    case 1
    then show ?thesis using j by simp
  next
    case (2 i)
    then have "Tasks c ! i \<in> set (Tasks c)" if "c = j_c s" for c using that by simp
    then have "t_Type t = ''map''" using mr_inv_key(1) [of out fnames "map_view s"] j 2 by (auto simp: map_view_def)
    moreover have "t \<in> set (Tasks c')" using 2 by (simp add: set_update_memI)
    ultimately show ?thesis using 2(4) by (auto simp: isAllMappingDone_def list_ex_iff intro!: bexI [of _ t])
  qed
  then show ?thesis using inv j by (auto simp: job_map_def map_worker_def split: option.splits)
qed

lemma job_map_poll:
  assumes "job_map out fnames ws s" "Done now (j_c s) = (b, c')" "\<forall>t\<in>set (Tasks c'). t_Status t \<noteq> ''skipped''"
  shows "job_map out fnames ws (s\<lparr>j_c := c'\<rparr>)"
proof -
  note j = assms(1) [unfolded job_map_def]
  have inv: "mr_inv out fnames (map_view (s\<lparr>j_c := c'\<rparr>))"
    using mr_inv_poll [of out fnames "map_view s" now] j assms(2) by (simp add: map_view_def)
  obtain t where t: "t \<in> set (Tasks (j_c s))" "t_Type t = ''map''" "t_Status t \<noteq> ''completed''" "t_Status t \<noteq> ''skipped''"
    using j by (auto simp: isAllMappingDone_def list_ex_iff)
  then obtain t' where t': "t' \<in> set (Tasks c')" "polled t t'"
    using list_all2_in [of polled "Tasks (j_c s)" "Tasks c'"] Done_fields [OF assms(2)] by blast
  have "t_Type t' = ''map''" using polled_shape [OF t'(2)] t(2) by (simp add: task_key_def)
  moreover have "t_Status t' \<noteq> ''completed''" using t'(2) t(3) by (auto simp: polled_def)
  ultimately have "\<not> isAllMappingDone (Tasks c')" using t'(1) assms(3) by (auto simp: isAllMappingDone_def list_ex_iff)
  then show ?thesis using inv j by (simp add: job_map_def)
qed

text \<open>The inputs are readable and no file that the job writes; \<open>out\<close> is what the map function makes of them.\<close>

definition job_inputs :: "mr_env \<Rightarrow> string list \<Rightarrow> string list \<Rightarrow> string list \<Rightarrow> fsys \<Rightarrow> (string \<Rightarrow> KeyValue list) \<Rightarrow> bool" where
  "job_inputs e ps ws fnames fs1 out \<longleftrightarrow> e_dir e = clean_dir ws \<and> fnames \<noteq> [] \<and>
     (\<forall>f\<in>set fnames. \<not> touched ps ws (abs_path (clean_dir ws) f) \<and>
       (\<exists>content. files fs1 (abs_path (clean_dir ws) f) = Some content \<and> out f = e_map e f content))"

lemma run_map_files:
  assumes "job_common ps ws fs1 s" "e_dir e = clean_dir ws" "held (j_w s w) = Some t" "t_Type t = ''map''"
    "executeMapf (e_dir e) (t_ReadLocation t) (t_WriteLocation t) (e_map e) (j_fs s) = Ret (res, fs')"
  shows "fs_ext ps ws (j_fs s) fs'" "files fs' (out_file ps p) = files (j_fs s) (out_file ps p)"
    "files fs' (out_file ws p) = files (j_fs s) (out_file ws p)" "files fs' (p_file ps p) = files (j_fs s) (p_file ps p)"
    "res = map_option (e_map e (t_ReadLocation t)) (files (j_fs s) (abs_path (clean_dir ws) (t_ReadLocation t)))"
proof -
  have d: "dirs_ok ps ws (j_fs s)" and sh: "shape ps t" using assms(1,3) by (auto simp: job_common_def)
  then obtain i where i: "t_WriteLocation t = clean_dir (ps @ [''mr-'' @ itoa i])" using assms(4) by (auto simp: shape_def)
  note eff = executeMapf_effect [OF d, of "t_ReadLocation t" i "e_map e" res fs']
  have ex: "executeMapf (clean_dir ws) (t_ReadLocation t) (clean_dir (ps @ [''mr-'' @ itoa i])) (e_map e) (j_fs s) = Ret (res, fs')"
    using assms(2,5) i by simp
  show "fs_ext ps ws (j_fs s) fs'"
    using touched_files(1,4) [OF d, of i] by (intro fs_only_ext [OF eff(2) [OF ex]]) simp
  show "files fs' (out_file ps p) = files (j_fs s) (out_file ps p)" "files fs' (out_file ws p) = files (j_fs s) (out_file ws p)"
    "files fs' (p_file ps p) = files (j_fs s) (p_file ps p)"
    using eff(2) [OF ex] job_files_ne(1-6) [OF d, of i p] unfolding fs_only_def by (metis insertE singletonD)+
  show "res = map_option (e_map e (t_ReadLocation t)) (files (j_fs s) (abs_path (clean_dir ws) (t_ReadLocation t)))"
    by (rule eff(1) [OF ex])
qed

lemma job_map_run:
  assumes "job_map out fnames ws s" "job_common ps ws fs1 s" "job_inputs e ps ws fnames fs1 out" "j_w s w = Holds t"
    "executeMapf (e_dir e) (t_ReadLocation t) (t_WriteLocation t) (e_map e) (j_fs s) = Ret (res, fs')"
  shows "job_map out fnames ws (s\<lparr>j_fs := fs', j_w := (j_w s)(w := Executed t res)\<rparr>)"
proof -
  note j = assms(1) [unfolded job_map_def]
  have h: "held (j_w s w) = Some t" using assms(4) by simp
  then have "ms_held (map_view s) w = Some t" by (simp add: map_view_def)
  then have t: "t_Type t = ''map''" "t_ReadLocation t \<in> set fnames" using mr_inv_key [of out fnames "map_view s" t w] j by auto
  have "files (j_fs s) (abs_path (clean_dir ws) (t_ReadLocation t)) = files fs1 (abs_path (clean_dir ws) (t_ReadLocation t))"
    using assms(2,3) t(2) by (simp add: job_common_def job_inputs_def fs_ext_def)
  moreover have dir: "e_dir e = clean_dir ws" using assms(3) by (simp add: job_inputs_def)
  ultimately have "res = Some (out (t_ReadLocation t))"
    using run_map_files(5) [OF assms(2) dir h t(1) assms(5)] assms(3) t(2) by (auto simp: job_inputs_def)
  moreover have "(held \<circ> j_w s)(w := Some t) = held \<circ> j_w s" using h by auto
  ultimately show ?thesis
    using j run_map_files(3) [OF assms(2) dir h t(1) assms(5)] by (simp add: job_map_def map_view_def fun_upd_comp map_worker_def)
qed

section \<open>From the map phase to the reduce phase\<close>

definition partitions_ok :: "mr_env \<Rightarrow> KeyValue list \<Rightarrow> (int \<times> KeyValue list) list \<Rightarrow> bool" where
  "partitions_ok e pairs m \<longleftrightarrow> distinct (keys m) \<and> (\<forall>p\<in>set (keys m). 0 \<le> p \<and> p < 10) \<and> (m = [] \<longleftrightarrow> pairs = []) \<and>
     mset (concat (map (\<lambda>(p, l). lines_of e l) m)) = mset (reduce_loop (e_reduce e) (e_srt e pairs))"

definition job_env :: "mr_env \<Rightarrow> KeyValue list \<Rightarrow> bool" where
  "job_env e pairs \<longleftrightarrow> key_sorter (e_srt e) \<and> reduce_function (e_reduce e) \<and> (\<forall>m. mset (e_ord e m) = mset m) \<and> (\<forall>kv\<in>set pairs. clean_kv kv)"

lemma generate_state:
  assumes "main_dir_ok ps c fs" "generateReduceTasksIfApplicable srt ord now (c, fs) = Ret (c', fs')"
  shows "\<exists>ts. Tasks c' = Tasks c @ ts \<and> (\<forall>t\<in>set ts. t_Status t = ''not started'')" "MainDir c' = MainDir c" "ReducerCount c' = ReducerCount c"
    "IsReduceGenerated c' = (IsReduceGenerated c \<or> isAllMappingDone (Tasks c))"
proof -
  have "(\<exists>ts. Tasks c' = Tasks c @ ts \<and> (\<forall>t\<in>set ts. t_Status t = ''not started'')) \<and> MainDir c' = MainDir c \<and> ReducerCount c' = ReducerCount c \<and>
    IsReduceGenerated c' = (IsReduceGenerated c \<or> isAllMappingDone (Tasks c))"
  proof (cases "\<not> IsReduceGenerated c \<and> isAllMappingDone (Tasks c)")
    case True
    then obtain parts c1 where sh: "shuffle srt (c\<lparr>IsReduceGenerated := True\<rparr>) = Ret (parts, c1)"
      using assms(2) by (auto simp: generateReduceTasksIfApplicable_def split: sum.splits)
    then have c1: "c1 = c\<lparr>IsReduceGenerated := True, IntermediateResults := srt (IntermediateResults c)\<rparr>"
      by (auto simp: shuffle_def Let_def split: if_splits)
    then have "main_dir_ok ps c1 fs" using assms(1) by (simp add: main_dir_ok_def)
    from initializeReduceTasks_state [OF this, of now "ord parts"] show ?thesis
      using assms(2) True sh c1 by (auto simp: generateReduceTasksIfApplicable_def Let_def reduce_task_def split: prod.splits)
  next
    case False
    then show ?thesis using assms(2) by (auto simp: generateReduceTasksIfApplicable_def)
  qed
  then show "\<exists>ts. Tasks c' = Tasks c @ ts \<and> (\<forall>t\<in>set ts. t_Status t = ''not started'')" "MainDir c' = MainDir c" "ReducerCount c' = ReducerCount c"
    "IsReduceGenerated c' = (IsReduceGenerated c \<or> isAllMappingDone (Tasks c))" by blast+
qed

lemma pid_not_number: "pid p \<noteq> itoa i"
proof
  assume "pid p = itoa i"
  moreover have "CHR ''p'' \<in> set (pid p)" by (simp add: pid_def)
  moreover have "CHR ''p'' \<notin> set (itoa i)" by (rule not_in_itoa) simp_all
  ultimately show False by simp
qed

lemma job_keys_distinct: "distinct (keys m) \<Longrightarrow> distinct (map fst (job_keys ps fnames m))"
proof -
  assume "distinct (keys m)"
  moreover have "map fst (map (\<lambda>(p, l). (pid p, ''reduce'', p_file ps p)) m) = map pid (keys m)"
    by (simp add: case_prod_beta' o_def)
  moreover have "pid p \<notin> set (map fst (map_keys fnames))" for p
    using pid_not_number by (auto simp: map_keys_def)
  moreover have "distinct (map pid xs) = distinct xs" for xs by (simp add: distinct_map inj_on_def)
  moreover have "set (map fst (map_keys fnames)) \<inter> set (map pid (keys m)) = {}"
    unfolding set_map [of pid] using calculation(3) by blast
  ultimately show ?thesis using map_keys_distinct [of fnames] unfolding job_keys_def map_append distinct_append by metis
qed

lemma job_reduce_start:
  assumes "mr_inv out fnames (map_view s)" "\<forall>w. map_worker out (j_w s w)" "\<forall>p. files (j_fs s) (out_file ws p) = None"
    "isAllMappingDone (Tasks (j_c s))" "job_common ps ws fs1 s" "job_env e (concat (map out fnames))"
    "generateReduceTasksIfApplicable (e_srt e) (e_ord e) now (j_c s, j_fs s) = Ret (c', fs')"
  shows "\<exists>m. partitions_ok e (concat (map out fnames)) m \<and> job_reduce e ps ws fnames m (s\<lparr>j_c := c', j_fs := fs'\<rparr>)"
    "job_common ps ws fs1 (s\<lparr>j_c := c', j_fs := fs'\<rparr>)"
proof -
  let ?pairs = "concat (map out fnames)" and ?c = "j_c s"
  have co: "MainDir ?c = clean_dir ps" "ReducerCount ?c = 10" "dirs_ok ps ws (j_fs s)"
    "\<forall>t\<in>set (Tasks ?c). shape ps t \<and> t_Status t \<noteq> ''skipped''" "\<forall>w t. held (j_w s w) = Some t \<longrightarrow> shape ps t"
    using assms(5) by (auto simp: job_common_def)
  have inv: "\<not> IsReduceGenerated ?c" "map task_key (Tasks ?c) = map_keys fnames" "\<forall>t\<in>set (Tasks ?c). task_ok t"
    "\<forall>w t. held (j_w s w) = Some t \<longrightarrow> held_ok (Tasks ?c) w t" "mset (IntermediateResults ?c) = table_out out (Tasks ?c)"
    using assms(1) by (auto simp: mr_inv_def Let_def map_view_def)
  have type: "\<forall>t\<in>set (Tasks ?c). t_Type t = ''map''" using mr_inv_key(1) [OF assms(1)] by (simp add: map_view_def)
  then have all: "\<forall>t\<in>set (Tasks ?c). t_Status t = ''completed''"
    using assms(4) co(4) by (auto simp: isAllMappingDone_def list_ex_iff)
  have locs: "map t_ReadLocation (Tasks ?c) = fnames"
    using arg_cong [OF inv(2), of "map (\<lambda>k. snd (snd k))"] by (simp add: map_keys_locations task_key_def o_def)
  then have ir: "mset (IntermediateResults ?c) = mset ?pairs" using inv(5) table_out_all [OF all, of out] by (metis map_map)
  have main: "main_dir_ok ps ?c (j_fs s)" by (rule dirs_ok_main [OF co(3,1)])
  have env: "key_sorter (e_srt e)" "reduce_function (e_reduce e)" "\<forall>m. mset (e_ord e m) = mset m" "\<forall>kv\<in>set ?pairs. clean_kv kv"
    using assms(6) by (simp_all add: job_env_def)
  have rc: "ReducerCount ?c \<noteq> 0" using co(2) by simp
  obtain m c2 fs2 where g: "generateReduceTasksIfApplicable (e_srt e) (e_ord e) now (?c, j_fs s) = Ret (c2, fs2)"
    and new: "drop (length (Tasks ?c)) (Tasks c2) = map (\<lambda>(p, l). reduce_task (MainDir ?c) now p (p_file ps p)) m"
    and m: "distinct (keys m)" "\<forall>p\<in>set (keys m). 0 \<le> p \<and> p < \<bar>ReducerCount ?c\<bar>" "m = [] \<longleftrightarrow> ?pairs = []"
    and pf: "\<forall>(p, l) \<in> set m. files fs2 (p_file ps p) = Some (kv_lines l) \<and> l \<noteq> [] \<and> (\<forall>kv\<in>set l. clean_kv kv)"
    and seq: "mset (concat (map (\<lambda>(p, l). reduce_loop (e_reduce e) (e_srt e l)) m)) = mset (reduce_loop (e_reduce e) (e_srt e ?pairs))"
    and fr: "dirs fs2 = dirs (j_fs s)" "\<forall>x. (\<forall>p. x \<noteq> p_file ps p) \<longrightarrow> files fs2 x = files (j_fs s) x"
      "finite (dom (files (j_fs s))) \<longrightarrow> finite (dom (files fs2))"
    by (rule generate_reduce_tasks [OF env(1-3) inv(1) assms(4) rc main ir env(4)])
  have eq: "c2 = c'" "fs2 = fs'" using g assms(7) by auto
  note gs = generate_state [OF main assms(7)]
  have ts: "Tasks c' = Tasks ?c @ map (\<lambda>(p, l). reduce_task (MainDir ?c) now p (p_file ps p)) m"
    using gs(1) new eq(1) by auto
  have rt: "task_key (reduce_task (MainDir ?c) now p (p_file ps p)) = (pid p, ''reduce'', p_file ps p)"
    "task_ok (reduce_task (MainDir ?c) now p (p_file ps p))" "shape ps (reduce_task (MainDir ?c) now p (p_file ps p))" for p
    using main_dir_files(2) [OF main, of p] by (simp_all add: task_key_def reduce_task_def pid_def task_ok_def shape_def)
  have tab: "tab_ok (job_keys ps fnames m) (Tasks c')"
    using job_keys_distinct [OF m(1), of ps fnames] inv(2,3) all rt
    by (auto simp: tab_ok_def ts job_keys_def case_prod_beta' o_def reduce_task_def)
  have heldok: "held_ok (Tasks c') w t" if "held (j_w s w) = Some t" for w t
  proof -
    have h: "held_ok (Tasks ?c) w t" using inv(4) that by blast
    then have "w \<noteq> -1" by (simp add: held_ok_def)
    then show ?thesis using h by (auto simp: ts held_ok_def reduce_task_def)
  qed
  have outs: "files fs' (out_file ws p) = None" for p
    using fr(2) job_files_ne(8) [OF co(3)] assms(3) eq(2) by metis
  have wok: "worker_ok e ps m fs' (j_w s w)" for w
  proof -
    have "t_Type t = ''map''" if "held (j_w s w) = Some t" for t
      using mr_inv_key(1) [OF assms(1), of t w] that by (simp add: map_view_def)
    then show ?thesis using assms(2) by (cases "j_w s w") (auto simp: worker_ok_def map_worker_def split: wstate.splits)
  qed
  have ids: "\<forall>t\<in>set (Tasks ?c). t_Id t \<noteq> pid p" for p
  proof -
    have "pid p \<notin> set (map fst (map task_key (Tasks ?c)))"
      unfolding inv(2) using pid_not_number by (auto simp: map_keys_def)
    then show ?thesis by (auto simp: task_key_def image_iff)
  qed
  have "outs_ok e ps ws m (Tasks c') fs' (j_w s)" using ids by (auto simp: outs_ok_def ts reduce_task_def)
  then have "job_reduce e ps ws fnames m (s\<lparr>j_c := c', j_fs := fs'\<rparr>)"
    using gs(4) assms(4) tab m(1) heldok pf eq wok outs by (simp add: job_reduce_def parts_ok_def)
  moreover have "partitions_ok e ?pairs m" using m seq co(2) by (simp add: partitions_ok_def lines_of_def)
  ultimately show "\<exists>m. partitions_ok e ?pairs m \<and> job_reduce e ps ws fnames m (s\<lparr>j_c := c', j_fs := fs'\<rparr>)" by blast
  have "fs_ext ps ws (j_fs s) fs'" using fr eq(2) touched_files(3) [OF co(3)] unfolding fs_ext_def by metis
  then show "job_common ps ws fs1 (s\<lparr>j_c := c', j_fs := fs'\<rparr>)"
    using gs(2,3) co(4,5) rt(3) by (intro job_commonI [OF assms(5)]) (auto simp: ts reduce_task_def)
qed

end
