(* ===== verification/MRJobRun.thy ===== *)
theory MRJobRun
  imports MRJobInv
begin

text \<open>
  Every step of a calm job keeps the invariant, and what follows for the tests: when the
  coordinator says that the job is done, the output in the test's directory is the sequential one, and
  it does not change any more.
\<close>

section \<open>The reduce phase\<close>

lemma job_reduceD:
  assumes "job_reduce e ps ws fnames m s"
  shows "IsReduceGenerated (j_c s)" "tab_ok (job_keys ps fnames m) (Tasks (j_c s))" "distinct (keys m)"
    "held (j_w s w) = Some t \<Longrightarrow> held_ok (Tasks (j_c s)) w t" "parts_ok ps m (j_fs s)" "worker_ok e ps m (j_fs s) (j_w s w)"
    "outs_ok e ps ws m (Tasks (j_c s)) (j_fs s) (j_w s)" "files (j_fs s) (out_file ws p) \<noteq> None \<Longrightarrow> p \<in> set (keys m)"
  using assms by (auto simp: job_reduce_def Let_def)

lemma outs_okD:
  assumes "outs_ok e ps ws m ts fs wst" "(p, l) \<in> set m" "t \<in> set ts" "t_Id t = pid p"
  shows "t_Status t = ''completed'' \<Longrightarrow> final ps ws fs p (unlines (lines_of e l))"
    "t_Status t = ''in progress'' \<Longrightarrow> progress ps ws fs p (lines_of e l) (wst (t_AssignedWorkerId t))"
  using assms unfolding outs_ok_def by blast+

lemma keys_unique: "distinct (keys m) \<Longrightarrow> (p, l) \<in> set m \<Longrightarrow> (p, l') \<in> set m \<Longrightarrow> l = l'"
  by (metis map_of_is_SomeI option.inject)

text \<open>A worker goes to another state: the new state has to be right where the table names it.\<close>

lemma job_reduce_w:
  assumes "job_reduce e ps ws fnames m s" "\<And>t. held st = Some t \<Longrightarrow> held_ok (Tasks (j_c s)) w t" "worker_ok e ps m (j_fs s) st"
    "\<And>p l t. (p, l) \<in> set m \<Longrightarrow> t \<in> set (Tasks (j_c s)) \<Longrightarrow> t_Id t = pid p \<Longrightarrow> t_Status t = ''in progress'' \<Longrightarrow>
       t_AssignedWorkerId t = w \<Longrightarrow> progress ps ws (j_fs s) p (lines_of e l) st"
  shows "job_reduce e ps ws fnames m (s\<lparr>j_w := (j_w s)(w := st)\<rparr>)"
proof -
  have "outs_ok e ps ws m (Tasks (j_c s)) (j_fs s) ((j_w s)(w := st))"
    using assms(4) job_reduceD(7) [OF assms(1)] unfolding outs_ok_def by fastforce
  then show ?thesis using assms(1-3) by (auto simp: job_reduce_def Let_def)
qed

lemma quiet_progress [simp]: "progress ps ws fs p lines Idle" "progress ps ws fs p lines (Holds t)"
  "progress ps ws fs p lines (Executed t None)" "worker_ok e ps m fs Idle" "worker_ok e ps m fs (Holds t)"
  by (simp_all add: progress_def worker_ok_def)

lemma job_reduce_exit: "job_reduce e ps ws fnames m s \<Longrightarrow> job_reduce e ps ws fnames m (s\<lparr>j_w := (j_w s)(w := Idle)\<rparr>)"
  by (rule job_reduce_w) simp_all

lemma job_reduce_files:
  assumes "job_reduce e ps ws fnames m s" "\<And>p. files fs' (out_file ps p) = files (j_fs s) (out_file ps p)"
    "\<And>p. files fs' (out_file ws p) = files (j_fs s) (out_file ws p)" "\<And>p. files fs' (p_file ps p) = files (j_fs s) (p_file ps p)"
  shows "job_reduce e ps ws fnames m (s\<lparr>j_fs := fs'\<rparr>)"
proof -
  have f: "final ps ws fs' = final ps ws (j_fs s)" "file_upto ps fs' = file_upto ps (j_fs s)"
    using assms(2,3) by (simp_all add: final_def [abs_def] file_upto_def [abs_def])
  have "worker_ok e ps m fs' st = worker_ok e ps m (j_fs s) st" "outs_ok e ps ws m ts fs' wst = outs_ok e ps ws m ts (j_fs s) wst" for st ts wst
    unfolding worker_ok_def progress_def outs_ok_def f by simp_all
  then show ?thesis using assms by (simp add: job_reduce_def parts_ok_def Let_def)
qed

lemma job_key_cases:
  assumes "task_key t \<in> set (job_keys ps fnames m)"
  shows "t_Type t = ''map'' \<Longrightarrow> t_Id t \<noteq> pid p" "t_Type t \<noteq> ''map'' \<Longrightarrow> \<exists>(p, l)\<in>set m. t_Id t = pid p \<and> t_ReadLocation t = p_file ps p"
  using assms pid_not_number [symmetric] by (auto simp: job_keys_def map_keys_def task_key_def)

lemma held_key:
  assumes "job_reduce e ps ws fnames m s" "held (j_w s w) = Some t"
  shows "task_key t \<in> set (job_keys ps fnames m)" "t_AssignedWorkerId t = w" "w \<noteq> -1"
  using job_reduceD(2,4) [OF assms(1)] assms(2) unfolding held_ok_def tab_ok_def by metis+

lemma job_reduce_map:
  assumes "job_reduce e ps ws fnames m s" "job_common ps ws fs1 s" "e_dir e = clean_dir ws" "j_w s w = Holds t" "t_Type t = ''map''"
    "executeMapf (e_dir e) (t_ReadLocation t) (t_WriteLocation t) (e_map e) (j_fs s) = Ret (res, fs')"
  shows "job_reduce e ps ws fnames m (s\<lparr>j_fs := fs', j_w := (j_w s)(w := Executed t res)\<rparr>)"
proof -
  have h: "held (j_w s w) = Some t" using assms(4) by simp
  have "t_Id t \<noteq> pid p" for p by (rule job_key_cases(1) [OF held_key(1) [OF assms(1) h] assms(5)])
  moreover have r: "job_reduce e ps ws fnames m (s\<lparr>j_fs := fs'\<rparr>)"
    by (rule job_reduce_files [OF assms(1)]) (simp_all add: run_map_files [OF assms(2,3) h assms(5,6)])
  ultimately have "job_reduce e ps ws fnames m (s\<lparr>j_fs := fs'\<rparr>\<lparr>j_w := (j_w (s\<lparr>j_fs := fs'\<rparr>))(w := Executed t res)\<rparr>)"
    using job_reduceD(4) [OF assms(1) h] assms(5) by (intro job_reduce_w [OF r]) (auto simp: worker_ok_def progress_def)
  then show ?thesis by simp
qed

lemma job_reduce_request:
  assumes "job_reduce e ps ws fnames m s" "w \<noteq> -1" "j_w s w = Idle" "RequestTask now w (j_c s) = (t, c')" "st = Idle \<or> st = Holds t"
    "t = no_task \<Longrightarrow> st = Idle"
  shows "job_reduce e ps ws fnames m (s\<lparr>j_c := c', j_w := (j_w s)(w := st)\<rparr>)"
  using assms(4)
proof (cases rule: RequestTask_cases)
  case 1
  then show ?thesis using job_reduce_exit [OF assms(1), of w] assms(6) by simp
next
  case (2 i)
  let ?ts = "Tasks (j_c s)" and ?ts' = "(Tasks (j_c s))[i := t]"
  note j = job_reduceD [OF assms(1)]
  have key: "task_key t = task_key (?ts ! i)" using 2(4) by simp
  have "t_Type (?ts ! i) \<noteq> ''map''" using j(2) 2(1,2) nth_mem [OF 2(1)] by (auto simp: tab_ok_def)
  then have tab: "tab_ok (job_keys ps fnames m) ?ts'"
    using 2(4) assms(2) by (intro tab_ok_update [OF j(2) 2(1) key]) (auto simp: task_ok_def)
  have "held_ok ?ts' v u" if "held (((j_w s)(w := st)) v) = Some u" for v u
  proof (cases "v = w")
    case True
    then have "u = t" using that assms(5) by auto
    moreover have "t \<in> set ?ts'" using 2(1) by (simp add: set_update_memI)
    ultimately show ?thesis using held_ok_new [OF tab_ok_ids [OF tab], of t w] 2(4) assms(2) True by simp
  next
    case False
    then show ?thesis using that j(4) [of v u] 2(4) by (intro held_ok_update [OF _ 2(1) key]) auto
  qed
  moreover have "outs_ok e ps ws m ?ts' (j_fs s) ((j_w s)(w := st))"
    unfolding outs_ok_def
  proof (intro ballI impI, clarify)
    fix p l u assume u: "(p, l) \<in> set m" "u \<in> set ?ts'" "t_Id u = pid p"
    have q: "progress ps ws (j_fs s) p (lines_of e l) st" using assms(5) by auto
    show "(t_Status u = ''completed'' \<longrightarrow> final ps ws (j_fs s) p (unlines (lines_of e l))) \<and>
      (t_Status u = ''in progress'' \<longrightarrow> progress ps ws (j_fs s) p (lines_of e l) (((j_w s)(w := st)) (t_AssignedWorkerId u)))"
    proof (cases "u = t")
      case False
      then have "u \<in> set ?ts" using u(2) set_update_subset_insert [of ?ts i t] by blast
      then show ?thesis using outs_okD [OF j(7) u(1) _ u(3)] q by simp
    qed (use q 2(4) in simp)
  qed
  ultimately show ?thesis using assms(1,5) tab 2(5) by (auto simp: job_reduce_def Let_def)
qed

text \<open>
  A change of the output file of one partition: whatever held of the file still holds, for the
  writers and for the table, and the other partitions do not notice.
\<close>

lemma job_reduce_out:
  assumes "job_reduce e ps ws fnames m s" "dirs_ok ps ws (j_fs s)" "(p, l) \<in> set m"
    "\<And>x. x \<noteq> out_file ps p \<Longrightarrow> x \<noteq> out_file ws p \<Longrightarrow> files fs' x = files (j_fs s) x"
    "\<And>k. file_upto ps (j_fs s) p (lines_of e l) k \<Longrightarrow> file_upto ps fs' p (lines_of e l) k"
    "final ps ws (j_fs s) p (unlines (lines_of e l)) \<Longrightarrow> final ps ws fs' p (unlines (lines_of e l))"
  shows "job_reduce e ps ws fnames m (s\<lparr>j_fs := fs'\<rparr>)"
proof -
  note j = job_reduceD [OF assms(1)] and ne = job_files_ne [OF assms(2)]
  have same: "files fs' (out_file ps q) = files (j_fs s) (out_file ps q)" "files fs' (out_file ws q) = files (j_fs s) (out_file ws q)" if "q \<noteq> p" for q
    using assms(4) ne(7,10,11) that by (metis, metis)
  have upto: "file_upto ps fs' q (lines_of e l') k" if "(q, l') \<in> set m" "file_upto ps (j_fs s) q (lines_of e l') k" for q l' k
    using that assms(5) same(1) keys_unique [OF j(3) assms(3), of l'] by (cases "q = p") (auto simp: file_upto_def)
  have fin: "final ps ws fs' q (unlines (lines_of e l'))" if "(q, l') \<in> set m" "final ps ws (j_fs s) q (unlines (lines_of e l'))" for q l'
    using that assms(6) same keys_unique [OF j(3) assms(3), of l'] by (cases "q = p") (auto simp: final_def)
  have "worker_ok e ps m fs' (j_w s w)" for w
    using j(6) [of w] upto by (cases "j_w s w") (fastforce simp: worker_ok_def)+
  moreover have "outs_ok e ps ws m (Tasks (j_c s)) fs' (j_w s)"
  proof -
    have "progress ps ws fs' q (lines_of e l') st" if "(q, l') \<in> set m" "progress ps ws (j_fs s) q (lines_of e l') st" for q l' st
      using that upto fin by (cases st) (auto simp: progress_def)
    then show ?thesis using j(7) fin unfolding outs_ok_def by blast
  qed
  moreover have "files fs' (p_file ps q) = files (j_fs s) (p_file ps q)" for q using assms(4) ne(8,9) by metis
  moreover have "q \<in> set (keys m)" if "files fs' (out_file ws q) \<noteq> None" for q
    using that same(2) j(8) assms(3) by (cases "q = p") force+
  ultimately show ?thesis using assms(1) by (simp add: job_reduce_def parts_ok_def Let_def)
qed

lemma held_reduce:
  assumes "job_reduce e ps ws fnames m s" "job_common ps ws fs1 s" "held (j_w s w) = Some t" "t_Type t \<noteq> ''map''"
  obtains p l where "(p, l) \<in> set m" "t_Id t = pid p" "t_ReadLocation t = p_file ps p" "t_WriteLocation t = out_file ps p" "t_Type t = ''reduce''"
proof -
  obtain p l where p: "(p, l) \<in> set m" "t_Id t = pid p" "t_ReadLocation t = p_file ps p"
    using job_key_cases(2) [OF held_key(1) [OF assms(1,3)] assms(4)] by auto
  have "shape ps t" using assms(2,3) by (auto simp: job_common_def)
  then show ?thesis using that p assms(4) by (auto simp: shape_def)
qed

lemma job_reduce_open:
  assumes "job_reduce e ps ws fnames m s" "job_common ps ws fs1 s" "j_w s w = Holds t" "t_Type t \<noteq> ''map''"
    "assigned (Tasks (j_c s)) w t" "reduce_open (e_srt e) (e_reduce e) (t_ReadLocation t) (t_WriteLocation t) (j_fs s) = Ret (r, fs')"
    "st = (case r of None \<Rightarrow> Executed t None | Some lines \<Rightarrow> Writing t lines 0)"
  shows "job_reduce e ps ws fnames m (s\<lparr>j_fs := fs', j_w := (j_w s)(w := st)\<rparr>)" "fs_ext ps ws (j_fs s) fs'" "held st = Some t"
proof -
  note j = job_reduceD [OF assms(1)]
  have h: "held (j_w s w) = Some t" using assms(3) by simp
  obtain p l where p: "(p, l) \<in> set m" "t_Id t = pid p" "t_ReadLocation t = p_file ps p" "t_WriteLocation t = out_file ps p" "t_Type t = ''reduce''"
    by (rule held_reduce [OF assms(1,2) h assms(4)])
  have d: "dirs_ok ps ws (j_fs s)" using assms(2) by (simp add: job_common_def)
  have pf: "files (j_fs s) (p_file ps p) = Some (kv_lines l)" "l \<noteq> []" "\<forall>kv\<in>set l. clean_kv kv"
    using j(5) p(1) by (auto simp: parts_ok_def)
  have r: "r = Some (lines_of e l)" "fs' = (j_fs s)\<lparr>files := (files (j_fs s))(out_file ps p \<mapsto> [])\<rparr>"
    using assms(6) p(3,4) reduce_open_effect [OF d pf, of "e_srt e" "e_reduce e"] by (simp_all add: lines_of_def)
  then have st: "st = Writing t (lines_of e l) 0" using assms(7) by simp
  obtain t' where t': "t' \<in> set (Tasks (j_c s))" "t_Id t' = t_Id t" "t_AssignedWorkerId t' = w"
    using assms(5) by (auto simp: assigned_def list_ex_iff)
  have only: "u = t'" if "u \<in> set (Tasks (j_c s))" "t_Id u = pid p" for u
    using tab_ok_unique [OF j(2) that(1) t'(1)] that(2) t'(2) p(2) by simp
  have ip: "t_Status t' = ''in progress''" using j(4) [OF h] t' by (auto simp: held_ok_def)
  have zero: "file_upto ps fs' p (lines_of e l) 0" using r(2) by (simp add: file_upto_def prefix_upto_empty)
  have same: "files fs' (out_file ps q) = files (j_fs s) (out_file ps q)" "files fs' (out_file ws q) = files (j_fs s) (out_file ws q)"
    if "q \<noteq> p" for q using r(2) job_files_ne(7,10) [OF d] that by auto
  have wsame: "files fs' (out_file ws q) = files (j_fs s) (out_file ws q)" "files fs' (p_file ps q) = files (j_fs s) (p_file ps q)" for q
    using r(2) job_files_ne(7,9) [OF d] by (auto simp: eq_commute)
  have wok: "worker_ok e ps m fs' st'" if a: "worker_ok e ps m (j_fs s) st'" for st'
  proof (cases st')
    case (Writing u lines k)
    then obtain q l' where q: "(q, l') \<in> set m" "t_Id u = pid q" "t_WriteLocation u = out_file ps q" "t_Type u = ''reduce''"
      "lines = lines_of e l'" "k \<le> length lines" "file_upto ps (j_fs s) q lines 0"
      using a by (auto simp: worker_ok_def)
    then have "file_upto ps fs' q lines 0"
      using zero same(1) keys_unique [OF j(3) p(1), of l'] by (cases "q = p") (auto simp: file_upto_def)
    then show ?thesis using q Writing by (auto simp: worker_ok_def)
  qed (use a in \<open>auto simp: worker_ok_def\<close>)
  have "outs_ok e ps ws m (Tasks (j_c s)) fs' ((j_w s)(w := st))"
    unfolding outs_ok_def
  proof (intro ballI impI, clarify)
    fix q l' u assume u: "(q, l') \<in> set m" "u \<in> set (Tasks (j_c s))" "t_Id u = pid q"
    note o = outs_okD [OF j(7) u]
    show "(t_Status u = ''completed'' \<longrightarrow> final ps ws fs' q (unlines (lines_of e l'))) \<and>
      (t_Status u = ''in progress'' \<longrightarrow> progress ps ws fs' q (lines_of e l') (((j_w s)(w := st)) (t_AssignedWorkerId u)))"
    proof (cases "q = p")
      case True
      then have "u = t'" "l' = l" using only u keys_unique [OF j(3) p(1), of l'] by auto
      then show ?thesis using True ip t'(3) zero by (simp add: progress_def st)
    next
      case False
      have "progress ps ws fs' q (lines_of e l') st" using False p(2) by (simp add: st progress_def)
      moreover have "progress ps ws fs' q (lines_of e l') v = progress ps ws (j_fs s) q (lines_of e l') v" for v
        using same [OF False] by (cases v) (simp_all add: progress_def final_def file_upto_def)
      ultimately show ?thesis using o same [OF False] by (auto simp: final_def)
    qed
  qed
  moreover have "worker_ok e ps m fs' st" using p zero by (auto simp: st worker_ok_def)
  moreover have "held_ok (Tasks (j_c s)) w t" by (rule j(4) [OF h])
  ultimately show "job_reduce e ps ws fnames m (s\<lparr>j_fs := fs', j_w := (j_w s)(w := st)\<rparr>)"
    using assms(1) wok wsame by (auto simp: job_reduce_def Let_def st parts_ok_def)
  show "fs_ext ps ws (j_fs s) fs'" unfolding r(2) by (rule fs_ext_update [OF touched_files(2) [OF d]])
  show "held st = Some t" by (simp add: st)
qed

lemma job_reduce_print:
  assumes "job_reduce e ps ws fnames m s" "job_common ps ws fs1 s" "j_w s w = Writing t lines k" "k < length lines"
    "fs' = reduce_line (t_WriteLocation t) lines k (j_fs s)"
  shows "job_reduce e ps ws fnames m (s\<lparr>j_fs := fs', j_w := (j_w s)(w := Writing t lines (Suc k))\<rparr>)" "fs_ext ps ws (j_fs s) fs'"
proof -
  note j = job_reduceD [OF assms(1)]
  have d: "dirs_ok ps ws (j_fs s)" using assms(2) by (simp add: job_common_def)
  obtain p l c where p: "(p, l) \<in> set m" "t_Id t = pid p" "t_WriteLocation t = out_file ps p" "t_Type t = ''reduce''" "lines = lines_of e l"
    and c: "files (j_fs s) (out_file ps p) = Some c"
    using j(6) [of w] assms(3) by (auto simp: worker_ok_def file_upto_def)
  let ?c = "write_at (line_pos lines k) (lines ! k @ [newline]) c"
  have fs': "fs' = (j_fs s)\<lparr>files := (files (j_fs s))(out_file ps p \<mapsto> ?c)\<rparr>"
    using assms(5) p(3) reduce_line_file(1) [OF c assms(4)] by simp
  show ext: "fs_ext ps ws (j_fs s) fs'" unfolding fs' by (rule fs_ext_update [OF touched_files(2) [OF d]])
  have keep: "file_upto ps fs' p lines n" if "file_upto ps (j_fs s) p lines n" for n
    using that c reduce_line_file(2) [OF c assms(4)] by (auto simp: file_upto_def fs')
  have more: "file_upto ps fs' p lines (Suc k)" if "file_upto ps (j_fs s) p lines k"
    using that c reduce_line_file(3) [OF c assms(4)] by (auto simp: file_upto_def fs')
  have fin: "final ps ws fs' p (unlines lines)" if "final ps ws (j_fs s) p (unlines lines)"
  proof -
    have "c = unlines lines" using that c by (simp add: final_def)
    then have "?c = unlines lines" using reduce_line_file(2) [OF c assms(4), of "length (unlines lines)"] by (simp add: prefix_upto_full)
    then show ?thesis using that job_files_ne(7) [OF d, of p p] by (simp add: final_def fs')
  qed
  have r: "job_reduce e ps ws fnames m (s\<lparr>j_fs := fs'\<rparr>)"
    by (rule job_reduce_out [OF assms(1) d p(1)]) (use keep fin p(5) fs' in auto)
  have "worker_ok e ps m fs' (Writing t lines (Suc k))"
  proof -
    have "file_upto ps (j_fs s) p lines 0"
      using j(6) [of w] assms(3) p(2) keys_unique [OF j(3) p(1)] by (auto simp: worker_ok_def)
    then show ?thesis using p assms(4) keep by (auto simp: worker_ok_def)
  qed
  moreover have "progress ps ws fs' q (lines_of e l') (Writing t lines (Suc k))"
    if "(q, l') \<in> set m" "u \<in> set (Tasks (j_c s))" "t_Id u = pid q" "t_Status u = ''in progress''" "t_AssignedWorkerId u = w" for q l' u
  proof (cases "q = p")
    case True
    then have "l' = l" using keys_unique [OF j(3) p(1), of l'] that(1) by simp
    then have "file_upto ps (j_fs s) p lines k"
      using outs_okD(2) [OF j(7) that(1-4)] that(5) assms(3) True p(2,5) by (simp add: progress_def)
    then show ?thesis using more True \<open>l' = l\<close> p(5) by (simp add: progress_def)
  qed (use p(2) in \<open>simp add: progress_def\<close>)
  moreover have "held_ok (Tasks (j_c s)) w t" using j(4) [of w t] assms(3) by simp
  ultimately have "job_reduce e ps ws fnames m (s\<lparr>j_fs := fs'\<rparr>\<lparr>j_w := (j_w (s\<lparr>j_fs := fs'\<rparr>))(w := Writing t lines (Suc k))\<rparr>)"
    by (intro job_reduce_w [OF r]) auto
  then show "job_reduce e ps ws fnames m (s\<lparr>j_fs := fs', j_w := (j_w s)(w := Writing t lines (Suc k))\<rparr>)" by simp
qed

lemma job_reduce_copy:
  assumes "job_reduce e ps ws fnames m s" "job_common ps ws fs1 s" "e_dir e = clean_dir ws" "j_w s w = Writing t lines (length lines)"
    "fs' = copyToWorkerInitDir (e_dir e) (t_WriteLocation t) (j_fs s)"
  shows "job_reduce e ps ws fnames m (s\<lparr>j_fs := fs', j_w := (j_w s)(w := Executed t (Some []))\<rparr>)" "fs_ext ps ws (j_fs s) fs'"
proof -
  note j = job_reduceD [OF assms(1)]
  have d: "dirs_ok ps ws (j_fs s)" using assms(2) by (simp add: job_common_def)
  obtain p l c where p: "(p, l) \<in> set m" "t_Id t = pid p" "t_WriteLocation t = out_file ps p" "lines = lines_of e l"
    and c: "files (j_fs s) (out_file ps p) = Some c"
    using j(6) [of w] assms(4) by (auto simp: worker_ok_def file_upto_def)
  have fs': "fs' = (j_fs s)\<lparr>files := (files (j_fs s))(out_file ws p \<mapsto> c)\<rparr>"
    using assms(3,5) p(3) copy_effect [OF d c] by simp
  show "fs_ext ps ws (j_fs s) fs'" unfolding fs' by (rule fs_ext_update [OF touched_files(5) [OF d]])
  have main: "files fs' (out_file ps q) = files (j_fs s) (out_file ps q)" for q
    using job_files_ne(7) [OF d, of p q] by (simp add: fs' eq_commute)
  have fin: "final ps ws fs' p (unlines lines)" if "c = unlines lines"
    using that c main by (simp add: final_def fs')
  have r: "job_reduce e ps ws fnames m (s\<lparr>j_fs := fs'\<rparr>)"
  proof (rule job_reduce_out [OF assms(1) d p(1)])
    show "final ps ws fs' p (unlines (lines_of e l))" if "final ps ws (j_fs s) p (unlines (lines_of e l))"
      using fin that c p(4) by (simp add: final_def)
  qed (use main in \<open>auto simp: fs' file_upto_def\<close>)
  have "progress ps ws fs' q (lines_of e l') (Executed t (Some []))"
    if "(q, l') \<in> set m" "u \<in> set (Tasks (j_c s))" "t_Id u = pid q" "t_Status u = ''in progress''" "t_AssignedWorkerId u = w" for q l' u
  proof (cases "q = p")
    case True
    then have l': "l' = l" using keys_unique [OF j(3) p(1), of l'] that(1) by simp
    then have "file_upto ps (j_fs s) p lines (length lines)"
      using outs_okD(2) [OF j(7) that(1-4)] that(5) assms(4) True p(2,4) by (simp add: progress_def)
    then have "c = unlines lines" using c by (simp add: file_upto_def prefix_upto_full)
    then show ?thesis using fin True l' p(4) by (simp add: progress_def)
  qed (use p(2) in \<open>simp add: progress_def\<close>)
  moreover have "held_ok (Tasks (j_c s)) w t" using j(4) [of w t] assms(4) by simp
  ultimately have "job_reduce e ps ws fnames m (s\<lparr>j_fs := fs'\<rparr>\<lparr>j_w := (j_w (s\<lparr>j_fs := fs'\<rparr>))(w := Executed t (Some []))\<rparr>)"
    by (intro job_reduce_w [OF r]) (auto simp: worker_ok_def)
  then show "job_reduce e ps ws fnames m (s\<lparr>j_fs := fs', j_w := (j_w s)(w := Executed t (Some []))\<rparr>)" by simp
qed

lemma job_reduce_report:
  assumes "job_reduce e ps ws fnames m s" "job_common ps ws fs1 s" "j_w s w = Executed t res"
    "c1 = record_status now (worker_report t res) (j_c s)"
  shows "job_reduce e ps ws fnames m (s\<lparr>j_c := c1, j_w := (j_w s)(w := Idle)\<rparr>)"
proof (cases now "worker_report t res" "j_c s" rule: record_status_cases)
  case 1
  then show ?thesis using job_reduce_exit [OF assms(1), of w] assms(4) by simp
next
  case (2 i)
  let ?ts = "Tasks (j_c s)" and ?u = "reported now (worker_report t res) (Tasks (j_c s) ! i)"
  note j = job_reduceD [OF assms(1)]
  have h: "held (j_w s w) = Some t" using assms(3) by simp
  have hk: "t_AssignedWorkerId t = w" "w \<noteq> -1" "held_ok ?ts w t" using held_key(2,3) [OF assms(1) h] j(4) [OF h] by auto
  have mem: "?ts ! i \<in> set ?ts" using 2(1) by simp
  then have ok: "task_ok (?ts ! i)" "t_Type (?ts ! i) = ''map'' \<longrightarrow> t_Status (?ts ! i) = ''completed''" "t_Status (?ts ! i) \<noteq> ''skipped''"
    using j(2) assms(2) by (auto simp: tab_ok_def job_common_def)
  have key: "task_key ?u = task_key (?ts ! i)" by simp
  have cases: "res = None \<and> t_AssignedWorkerId (?ts ! i) = -1 \<or> res \<noteq> None \<and> t_AssignedWorkerId (?ts ! i) = w \<and> t_Status (?ts ! i) = ''in progress''"
    using 2(2,3) hk mem by (auto simp: held_ok_def)
  have tab: "tab_ok (job_keys ps fnames m) (?ts[i := ?u])"
    using cases ok hk by (intro tab_ok_update [OF j(2) 2(1) key]) (auto simp: task_ok_def)
  have others: "held_ok (?ts[i := ?u]) v x" if "held (((j_w s)(w := Idle)) v) = Some x" for v x
  proof -
    have "v \<noteq> w" "held (j_w s v) = Some x" using that by (auto split: if_splits)
    then show ?thesis using j(4) held_key(3) [OF assms(1), of v x] cases by (intro held_ok_update [OF _ 2(1) key]) auto
  qed
  have "outs_ok e ps ws m (?ts[i := ?u]) (j_fs s) ((j_w s)(w := Idle))"
    unfolding outs_ok_def
  proof (intro ballI impI, clarify)
    fix p l u assume u: "(p, l) \<in> set m" "u \<in> set (?ts[i := ?u])" "t_Id u = pid p"
    show "(t_Status u = ''completed'' \<longrightarrow> final ps ws (j_fs s) p (unlines (lines_of e l))) \<and>
      (t_Status u = ''in progress'' \<longrightarrow> progress ps ws (j_fs s) p (lines_of e l) (((j_w s)(w := Idle)) (t_AssignedWorkerId u)))"
    proof (cases "u = ?u")
      case True
      then have "t_Id (?ts ! i) = pid p" using u(3) by simp
      moreover from this have "t_Id t = pid p" using 2(2) by simp
      ultimately have "final ps ws (j_fs s) p (unlines (lines_of e l))" if "res \<noteq> None"
        using outs_okD(2) [OF j(7) u(1) mem] cases that assms(3) by (auto simp: progress_def)
      then show ?thesis using True by auto
    next
      case False
      then have "u \<in> set ?ts" using u(2) set_update_subset_insert [of ?ts i ?u] by blast
      then show ?thesis using outs_okD [OF j(7) u(1) _ u(3)] by simp
    qed
  qed
  then show ?thesis using assms(1,4) tab others 2(4) by (auto simp: job_reduce_def Let_def)
qed

lemma job_reduce_poll:
  assumes "job_reduce e ps ws fnames m s" "Done now (j_c s) = (b, c')"
  shows "job_reduce e ps ws fnames m (s\<lparr>j_c := c'\<rparr>)"
proof -
  note j = job_reduceD [OF assms(1)] and d = Done_fields [OF assms(2)]
  have pf: "map task_key (Tasks c') = map task_key (Tasks (j_c s))"
    "\<forall>u\<in>set (Tasks c'). u \<in> set (Tasks (j_c s)) \<or> (t_AssignedWorkerId u = -1 \<and> task_ok u)"
    using polled_facts(1,3) [OF conjunct2 [OF d]] by auto
  have old: "u \<in> set (Tasks (j_c s))" if u: "u \<in> set (Tasks c')" "t_Status u = ''completed'' \<or> t_Status u = ''in progress'' \<or> t_Type u = ''map''" for u
  proof -
    obtain t where t: "t \<in> set (Tasks (j_c s))" "polled t u" using list_all2_in2 [OF conjunct2 [OF d] u(1)] by blast
    have "t_Type t = ''map'' \<longrightarrow> t_Status t = ''completed''" using t(1) j(2) by (simp add: tab_ok_def)
    then show ?thesis using t u(2) by (auto simp: polled_def task_key_def)
  qed
  have "tab_ok (job_keys ps fnames m) (Tasks c')" using j(2) pf old unfolding tab_ok_def by metis
  moreover have "held_ok (Tasks c') w t" if "held (j_w s w) = Some t" for w t
    using pf(2) held_key(3) [OF assms(1) that] by (intro held_ok_change [OF j(4) [OF that] pf(1)]) auto
  moreover have "outs_ok e ps ws m (Tasks c') (j_fs s) (j_w s)" using j(7) old unfolding outs_ok_def by blast
  moreover have "IsReduceGenerated c'" using j(1) conjunct1 [OF d] by (metis Coordinator.select_convs(5) Coordinator.update_convs(4) Coordinator.surjective)
  ultimately show ?thesis using assms(1) by (auto simp: job_reduce_def Let_def)
qed

section \<open>The invariant of a job\<close>

definition job_inv :: "mr_env \<Rightarrow> string list \<Rightarrow> string list \<Rightarrow> string list \<Rightarrow> fsys \<Rightarrow> (string \<Rightarrow> KeyValue list) \<Rightarrow> job \<Rightarrow> bool" where
  "job_inv e ps ws fnames fs1 out s \<longleftrightarrow> job_common ps ws fs1 s \<and>
     (job_map out fnames ws s \<or> (\<exists>m. partitions_ok e (concat (map out fnames)) m \<and> job_reduce e ps ws fnames m s))"

lemma Done_common:
  assumes "job_common ps ws fs1 s" "Done now (j_c s) = (b, c')" "\<forall>t\<in>set (Tasks c'). t_Status t \<noteq> ''skipped''"
  shows "job_common ps ws fs1 (s\<lparr>j_c := c'\<rparr>)"
proof -
  have f: "MainDir c' = MainDir (j_c s)" "ReducerCount c' = ReducerCount (j_c s)"
    using Done_fields [OF assms(2)] by (cases c'; cases "j_c s"; simp)+
  have "shape ps u" if "u \<in> set (Tasks c')" for u
  proof -
    obtain t where t: "t \<in> set (Tasks (j_c s))" "u = setNotStartedIfApplicable now (setSkippedIfApplicable now t) \<or> u = t"
    proof -
      have "\<exists>t\<in>set ts. u = setNotStartedIfApplicable now (setSkippedIfApplicable now t) \<or> u = t" if "u \<in> set (snd (Done_loop now ts))" for ts
        using that by (induction ts) (auto simp: Let_def case_prod_beta' split: if_splits)
      moreover have "Tasks c' = snd (Done_loop now (Tasks (j_c s)))" using assms(2) by (auto simp: Done_def Let_def split: prod.splits)
      ultimately show ?thesis using that \<open>u \<in> set (Tasks c')\<close> by metis
    qed
    then show ?thesis using assms(1)
      by (auto simp: job_common_def setNotStartedIfApplicable_def setSkippedIfApplicable_def)
  qed
  then show ?thesis using f assms(3) by (intro job_commonI [OF assms(1)]) (use assms(1) in \<open>auto simp: job_common_def\<close>)
qed

lemma job_eq: "\<lparr>j_c = c, j_fs = f, j_w = wst\<rparr> = s\<lparr>j_c := c, j_fs := f, j_w := wst\<rparr>"
  by (cases s) simp

lemma job_common_idle: "job_common ps ws fs1 s \<Longrightarrow> job_common ps ws fs1 (s\<lparr>j_w := (j_w s)(w := Idle)\<rparr>)"
  by (auto simp: job_common_def split: if_splits)

lemma job_inv_idle: "job_inv e ps ws fnames fs1 out s \<Longrightarrow> job_inv e ps ws fnames fs1 out (s\<lparr>j_w := (j_w s)(w := Idle)\<rparr>)"
  using job_common_idle job_map_idle job_reduce_exit unfolding job_inv_def by blast

lemma job_inv_request:
  assumes "job_inv e ps ws fnames fs1 out s" "w \<noteq> -1" "j_w s w = Idle" "RequestTask now w (j_c s) = (t, c')"
    "st = (case worker_accept t of None \<Rightarrow> Idle | Some t \<Rightarrow> Holds t)"
  shows "job_inv e ps ws fnames fs1 out (s\<lparr>j_c := c', j_w := (j_w s)(w := st)\<rparr>)"
proof -
  have com: "job_common ps ws fs1 s" using assms(1) by (simp add: job_inv_def)
  have sh: "\<forall>t\<in>set (Tasks (j_c s)). shape ps t \<and> t_Status t \<noteq> ''skipped''" "\<forall>w t. held (j_w s w) = Some t \<longrightarrow> shape ps t"
    using com by (auto simp: job_common_def)
  note rs = request_shape [OF assms(4) sh(1)]
  have st: "st = Idle \<or> st = Holds t \<and> t_ReadLocation t \<noteq> ''''" using assms(5) by (auto simp: worker_accept_def)
  have "job_common ps ws fs1 (s\<lparr>j_c := c', j_w := (j_w s)(w := st)\<rparr>)"
    using rs st sh(2) by (intro job_commonI [OF com]) auto
  moreover have "job_map out fnames ws (s\<lparr>j_c := c', j_w := (j_w s)(w := st)\<rparr>)" if "job_map out fnames ws s"
    unfolding assms(5) by (rule job_map_request [OF that assms(2-4)])
  moreover have "job_reduce e ps ws fnames m (s\<lparr>j_c := c', j_w := (j_w s)(w := st)\<rparr>)" if "job_reduce e ps ws fnames m s" for m
    using st by (intro job_reduce_request [OF that assms(2-4)]) (auto simp: no_task_def)
  ultimately show ?thesis using assms(1) unfolding job_inv_def by blast
qed

lemma job_inv_report:
  assumes "job_inv e ps ws fnames fs1 out s" "job_env e (concat (map out fnames))" "j_w s w = Executed t res"
    "generateReduceTasksIfApplicable (e_srt e) (e_ord e) now (record_status now (worker_report t res) (j_c s), j_fs s) = Ret (c', fs')"
  shows "job_inv e ps ws fnames fs1 out (s\<lparr>j_c := c', j_fs := fs', j_w := (j_w s)(w := Idle)\<rparr>)"
proof -
  let ?c1 = "record_status now (worker_report t res) (j_c s)"
  let ?s1 = "s\<lparr>j_c := ?c1, j_w := (j_w s)(w := Idle)\<rparr>"
  have com: "job_common ps ws fs1 s" using assms(1) by (simp add: job_inv_def)
  have sh: "\<forall>t\<in>set (Tasks (j_c s)). shape ps t \<and> t_Status t \<noteq> ''skipped''" "\<forall>w t. held (j_w s w) = Some t \<longrightarrow> shape ps t"
    using com by (auto simp: job_common_def)
  have h: "held (j_w s w) = Some t" using assms(3) by simp
  have eq: "s\<lparr>j_c := c', j_fs := fs', j_w := (j_w s)(w := Idle)\<rparr> = ?s1\<lparr>j_c := c', j_fs := fs'\<rparr>" by (cases s) simp
  have com1: "job_common ps ws fs1 ?s1" if "\<forall>t'\<in>set (Tasks (j_c s)). t_Id t' = t_Id t \<longrightarrow> task_key t' = task_key t"
    using record_shape [OF sh(1) _ that, of now res] sh(2) h by (intro job_commonI [OF com]) auto
  consider "job_map out fnames ws s" | m where "partitions_ok e (concat (map out fnames)) m" "job_reduce e ps ws fnames m s"
    using assms(1) by (auto simp: job_inv_def)
  then show ?thesis
  proof cases
    case 1
    note j = 1 [unfolded job_map_def]
    have mv: "mr_inv out fnames (map_view s)" "ms_held (map_view s) w = Some t" using j h by (auto simp: map_view_def)
    have k1: "map task_key (Tasks (j_c s)) = map_keys fnames" and "held_ok (Tasks (j_c s)) w t"
      using mv by (simp_all add: mr_inv_def Let_def map_view_def)
    then have k2: "task_key t \<in> set (map task_key (Tasks (j_c s)))" by (simp add: held_ok_def)
    have com1': "job_common ps ws fs1 ?s1" by (rule com1) (use task_key_unique [OF k1 _ k2] in blast)
    have "map_worker out (j_w s w)" using j by blast
    then have "res = None \<or> res = Some (out (t_ReadLocation t))" using assms(3) by (simp add: map_worker_def)
    from mr_inv_report [OF mv this, of now] have inv1: "mr_inv out fnames (map_view ?s1)" by (simp add: map_view_def fun_upd_comp)
    have mw: "\<forall>v. map_worker out (j_w ?s1 v)" "\<forall>p. files (j_fs ?s1) (out_file ws p) = None" using j by (auto simp: map_worker_def)
    show ?thesis
    proof (cases "isAllMappingDone (Tasks ?c1)")
      case True
      have g: "generateReduceTasksIfApplicable (e_srt e) (e_ord e) now (j_c ?s1, j_fs ?s1) = Ret (c', fs')" using assms(4) by simp
      from True have "isAllMappingDone (Tasks (j_c ?s1))" by simp
      from job_reduce_start [OF inv1 mw this com1' assms(2) g] show ?thesis unfolding eq job_inv_def by blast
    next
      case False
      have "\<not> IsReduceGenerated (j_c s)" using mv by (simp add: mr_inv_def Let_def map_view_def)
      then have "c' = ?c1" "fs' = j_fs s" using assms(4) False by (auto simp: generateReduceTasksIfApplicable_def)
      then have same: "s\<lparr>j_c := c', j_fs := fs', j_w := (j_w s)(w := Idle)\<rparr> = ?s1" by (cases s) simp
      have "job_map out fnames ws ?s1" using inv1 mw False by (simp add: job_map_def)
      then show ?thesis unfolding same job_inv_def using com1' by blast
    qed
  next
    case (2 m)
    note jd = job_reduceD [OF 2(2)]
    have "task_key t' = task_key t" if t': "t' \<in> set (Tasks (j_c s))" "t_Id t' = t_Id t" for t'
    proof -
      obtain u where u: "u \<in> set (Tasks (j_c s))" "task_key u = task_key t"
        using jd(4) [OF h] unfolding held_ok_def by auto
      then have "t_Id u = t_Id t" by (simp add: task_key_def)
      then have "t' = u" using tab_ok_unique [OF jd(2) t'(1) u(1)] t'(2) by simp
      then show ?thesis using u(2) by simp
    qed
    then have com1': "job_common ps ws fs1 ?s1" using com1 by blast
    have "c' = ?c1" "fs' = j_fs s" using assms(4) jd(1) by (auto simp: generateReduceTasksIfApplicable_def)
    then have same: "s\<lparr>j_c := c', j_fs := fs', j_w := (j_w s)(w := Idle)\<rparr> = ?s1" by (cases s) simp
    have "job_reduce e ps ws fnames m ?s1" by (rule job_reduce_report [OF 2(2) com assms(3) refl])
    then show ?thesis unfolding same job_inv_def using com1' 2(1) by blast
  qed
qed

lemma job_inv_step:
  assumes "job_inv e ps ws fnames fs1 out s" "job_step e True s s'" "job_inputs e ps ws fnames fs1 out"
    "job_env e (concat (map out fnames))"
  shows "job_inv e ps ws fnames fs1 out s'"
proof -
  have dir: "e_dir e = clean_dir ws" using assms(3) by (simp add: job_inputs_def)
  have com: "job_common ps ws fs1 s" using assms(1) by (simp add: job_inv_def)
  have hold: "\<forall>t. held (j_w s w) = Some t \<longrightarrow> shape ps t" for w using com by (auto simp: job_common_def)
  have mapt: "t_Type t = ''map''" if "job_map out fnames ws s" "held (j_w s w) = Some t" for w t
    using mr_inv_key(1) [of out fnames "map_view s" t w] that by (simp add: job_map_def map_view_def)
  have nowriting: "\<not> job_map out fnames ws s" if "j_w s w = Writing t lines k" for w t lines k
  proof
    assume "job_map out fnames ws s"
    then have "map_worker out (j_w s w)" by (simp add: job_map_def)
    then show False using that by (simp add: map_worker_def)
  qed
  consider (m) "job_map out fnames ws s" | (r) m where "partitions_ok e (concat (map out fnames)) m" "job_reduce e ps ws fnames m s"
    using assms(1) by (auto simp: job_inv_def)
  note phase = this
  from assms(2) show ?thesis
  proof cases
    case (request w link now r c' fs')
    from request(4) show ?thesis
    proof (cases rule: CallRequestTask_cases)
      case 1
      then have "s' = s\<lparr>j_w := (j_w s)(w := Idle)\<rparr>" using request(1) by (cases s) simp
      then show ?thesis using job_inv_idle [OF assms(1)] by simp
    next
      case (2 t)
      note q = job_inv_request [OF assms(1) request(2,3) 2(1) refl]
      show ?thesis
      proof (cases r)
        case None
        then have "s' = s\<lparr>j_c := c', j_w := (j_w s)(w := case worker_accept t of None \<Rightarrow> Idle | Some t \<Rightarrow> Holds t)\<rparr>
            \<lparr>j_w := (j_w (s\<lparr>j_c := c', j_w := (j_w s)(w := case worker_accept t of None \<Rightarrow> Idle | Some t \<Rightarrow> Holds t)\<rparr>))(w := Idle)\<rparr>"
          using request(1) 2(2) by (cases s) simp
        then show ?thesis using job_inv_idle [OF q, of w] by simp
      next
        case (Some t')
        then have "s' = s\<lparr>j_c := c', j_w := (j_w s)(w := case worker_accept t of None \<Rightarrow> Idle | Some t \<Rightarrow> Holds t)\<rparr>"
          using request(1) 2(2,3) by (cases s) simp
        then show ?thesis using q by simp
      qed
    qed
  next
    case (run_map w t res fs')
    then have h: "held (j_w s w) = Some t" by simp
    have "job_common ps ws fs1 s'"
      unfolding run_map(1) using hold [of w] h by (intro job_common_w [OF com run_map_files(1) [OF com dir h run_map(3,4)]]) simp
    moreover from phase have "job_map out fnames ws s' \<or> (\<exists>m. partitions_ok e (concat (map out fnames)) m \<and> job_reduce e ps ws fnames m s')"
      unfolding run_map(1) using job_map_run [OF _ com assms(3) run_map(2,4)] job_reduce_map [OF _ com dir run_map(2-4)] by cases blast+
    ultimately show ?thesis by (simp add: job_inv_def)
  next
    case (open_out w t r fs')
    have h: "held (j_w s w) = Some t" using open_out(2) by simp
    have "\<not> job_map out fnames ws s" using mapt [OF _ h] open_out(3) by blast
    then obtain m where m: "partitions_ok e (concat (map out fnames)) m" "job_reduce e ps ws fnames m s" using phase by cases blast+
    note o = job_reduce_open [OF m(2) com open_out(2,3) open_out(4) [OF TrueI] open_out(5) refl]
    have "job_common ps ws fs1 s'" unfolding open_out(1) using hold [of w] h o(3) by (intro job_common_w [OF com o(2)]) simp
    then show ?thesis using m(1) o(1) unfolding job_inv_def open_out(1) by blast
  next
    case (print w t lines k)
    then obtain m where m: "partitions_ok e (concat (map out fnames)) m" "job_reduce e ps ws fnames m s"
      using phase nowriting [OF print(2)] by cases blast+
    note o = job_reduce_print [OF m(2) com print(2,3) refl]
    have "job_common ps ws fs1 s'" unfolding print(1) using hold [of w] print(2) by (intro job_common_w [OF com o(2)]) simp
    then show ?thesis using m(1) o(1) unfolding job_inv_def print(1) by blast
  next
    case (copy w t lines)
    then obtain m where m: "partitions_ok e (concat (map out fnames)) m" "job_reduce e ps ws fnames m s"
      using phase nowriting [OF copy(2)] by cases blast+
    note o = job_reduce_copy [OF m(2) com dir copy(2) refl]
    have "job_common ps ws fs1 s'" unfolding copy(1) using hold [of w] copy(2) by (intro job_common_w [OF com o(2)]) simp
    then show ?thesis using m(1) o(1) unfolding job_inv_def copy(1) by blast
  next
    case (report w t res link now r c' fs')
    from report(3) show ?thesis
    proof (cases rule: report_task_cases)
      case 1
      then have "s' = s\<lparr>j_w := (j_w s)(w := Idle)\<rparr>" using report(1) by (cases s) simp
      then show ?thesis using job_inv_idle [OF assms(1)] by simp
    next
      case 2
      show ?thesis unfolding report(1) job_eq [of c' fs' _ s] by (rule job_inv_report [OF assms(1,4) report(2) 2])
    qed
  next
    case (exit w)
    then show ?thesis using job_inv_idle [OF assms(1)] by simp
  next
    case (poll now b c')
    then have ns: "\<forall>t\<in>set (Tasks c'). t_Status t \<noteq> ''skipped''" by blast
    have "job_common ps ws fs1 s'" unfolding poll(1) by (rule Done_common [OF com poll(2) ns])
    moreover from phase have "job_map out fnames ws s' \<or> (\<exists>m. partitions_ok e (concat (map out fnames)) m \<and> job_reduce e ps ws fnames m s')"
      unfolding poll(1) using job_map_poll [OF _ poll(2) ns] job_reduce_poll [OF _ poll(2)] by cases blast+
    ultimately show ?thesis by (simp add: job_inv_def)
  qed
qed

section \<open>The start and the end of a job\<close>

lemma job_inv_start:
  assumes "dirs_ok ps ws fs1" "path_Join (Dir src) ''../main'' = clean_dir ps" "fnames \<noteq> []" "\<forall>p. files fs1 (out_file ws p) = None"
  shows "job_inv e ps ws fnames fs1 out (job_start src now fnames fs1)"
proof -
  obtain c fs where mk: "MakeCoordinator src now fnames 10 fs1 = (c, fs)" by fastforce
  then have s: "job_start src now fnames fs1 = \<lparr>j_c = c, j_fs = fs, j_w = (\<lambda>_. Idle)\<rparr>" by (simp add: job_start_def)
  have c: "MainDir c = clean_dir ps" "ReducerCount c = 10"
    "Tasks c = map (\<lambda>(i, f). map_task (clean_dir ps) now i f) (List.enumerate 0 fnames)"
    and fs: "fs = fs1\<lparr>files := (\<lambda>p. if stale_output (clean_dir ps) p then None else files fs1 p)\<rparr>"
    using mk assms(2) by (auto simp: MakeCoordinator_def initializeCoordinator_def initializeMapTasks_def setMainDir_def cleanUp_def Let_def)
  have "dom (files fs) \<subseteq> dom (files fs1)" by (auto simp: fs dom_def)
  then have ext: "fs_ext ps ws fs1 fs" by (auto simp: fs_ext_def fs touched_def finite_subset)
  have ps: "ps \<noteq> []" "\<forall>p\<in>set ps. plain_name p" using assms(1) by (auto simp: dirs_ok_def)
  have "shape ps (map_task (clean_dir ps) now i f)" for i f
    using path_Join_clean [OF ps mr_name [of "int i"]] by (auto simp: shape_def map_task_def)
  then have "job_common ps ws fs1 (job_start src now fnames fs1)"
    using dirs_ok_ext [OF ext] assms(1) ext c by (auto simp: s job_common_def map_task_def)
  moreover have "mr_inv out fnames (map_view (job_start src now fnames fs1))"
    using mr_inv_start [of out fnames src now 10 fs1] by (simp add: s mk map_view_def o_def)
  moreover have "\<not> isAllMappingDone (Tasks c)"
    using assms(3) c(3) by (cases fnames) (auto simp: isAllMappingDone_def map_task_def)
  ultimately show ?thesis using assms(4) by (simp add: job_inv_def job_map_def s map_worker_def fs)
qed

lemma job_inv_steps:
  assumes "job_steps e True s s'" "job_inv e ps ws fnames fs1 out s" "job_inputs e ps ws fnames fs1 out" "job_env e (concat (map out fnames))"
  shows "job_inv e ps ws fnames fs1 out s'"
  using assms by (induction rule: rtranclp_induct) (auto intro: job_inv_step)

definition all_done :: "job \<Rightarrow> bool" where
  "all_done s \<longleftrightarrow> (\<forall>t\<in>set (Tasks (j_c s)). t_Status t = ''completed'')"

lemma Done_loop_true:
  "Done_loop now ts = (True, ts') \<Longrightarrow> \<forall>t\<in>set ts'. t_Status t = ''completed'' \<or> t_Status t = ''skipped''"
  by (induction ts arbitrary: ts') (auto simp: Let_def split: if_splits prod.splits)

lemma Done_all:
  assumes "Done now (j_c s) = (True, c')" "\<forall>t\<in>set (Tasks c'). t_Status t \<noteq> ''skipped''"
  shows "all_done s"
proof -
  have "\<forall>t\<in>set (Tasks c'). t_Status t = ''completed''"
    using assms Done_loop_true [of now "Tasks (j_c s)"] by (auto simp: Done_def Let_def split: prod.splits)
  then show ?thesis using list_all2_in [OF conjunct2 [OF Done_fields [OF assms(1)]]]
    by (fastforce simp: all_done_def polled_def)
qed

lemma all_done_reduce:
  assumes "job_inv e ps ws fnames fs1 out s" "all_done s"
  obtains m where "partitions_ok e (concat (map out fnames)) m" "job_reduce e ps ws fnames m s"
    "\<forall>(p, l)\<in>set m. final ps ws (j_fs s) p (unlines (lines_of e l))"
proof -
  have "\<not> job_map out fnames ws s"
    using assms(2) by (auto simp: job_map_def all_done_def isAllMappingDone_def list_ex_iff)
  then obtain m where m: "partitions_ok e (concat (map out fnames)) m" "job_reduce e ps ws fnames m s"
    using assms(1) by (auto simp: job_inv_def)
  have "final ps ws (j_fs s) p (unlines (lines_of e l))" if "(p, l) \<in> set m" for p l
  proof -
    have "(pid p, ''reduce'', p_file ps p) \<in> set (map task_key (Tasks (j_c s)))"
      using job_reduceD(2) [OF m(2)] that by (force simp: tab_ok_def job_keys_def)
    then obtain t where "t \<in> set (Tasks (j_c s))" "t_Id t = pid p" by (auto simp: task_key_def)
    then show ?thesis using outs_okD(1) [OF job_reduceD(7) [OF m(2)] that] assms(2) by (simp add: all_done_def)
  qed
  then show ?thesis using that m by blast
qed

text \<open>Once all tasks are completed the table does not change any more.\<close>

lemma all_done_step:
  assumes "job_inv e ps ws fnames fs1 out s" "all_done s" "job_step e True s s'"
  shows "all_done s'"
proof -
  obtain m where m: "job_reduce e ps ws fnames m s" by (rule all_done_reduce [OF assms(1,2)])
  note j = job_reduceD [OF m]
  have nw: "t_Status t = ''completed''" "t_AssignedWorkerId t \<noteq> -1" if "t \<in> set (Tasks (j_c s))" for t
    using assms(2) j(2) that by (auto simp: all_done_def tab_ok_def task_ok_def)
  from assms(3) show ?thesis
  proof cases
    case (request w link now r c' fs')
    have "c' = j_c s" using request(4)
    proof (cases rule: CallRequestTask_cases)
      case (2 t)
      from 2(1) show ?thesis by (cases rule: RequestTask_cases) (use nw nth_mem in fastforce)+
    qed simp
    then show ?thesis using assms(2) request(1) by (simp add: all_done_def)
  next
    case (report w t res link now r c' fs')
    have h: "held_ok (Tasks (j_c s)) w t" "t_AssignedWorkerId t = w" using j(4) [of w t] held_key(2) [OF m, of w t] report(2) by auto
    have "record_status now (worker_report t res) (j_c s) = j_c s"
    proof (cases now "worker_report t res" "j_c s" rule: record_status_cases)
      case (2 i)
      then show ?thesis using nw [OF nth_mem [OF 2(1)]] h nth_mem [OF 2(1)] by (auto simp: held_ok_def split: if_splits)
    qed
    with report(3) j(1) have "c' = j_c s"
      by (elim report_task_cases) (auto simp: generateReduceTasksIfApplicable_def)
    then show ?thesis using assms(2) report(1) by (simp add: all_done_def)
  next
    case (poll now b c')
    have "t_Status u = ''completed''" if "u \<in> set (Tasks c')" for u
      using list_all2_in2 [OF conjunct2 [OF Done_fields [OF poll(2)]] that] nw by (auto simp: polled_def)
    then show ?thesis using poll(1) by (simp add: all_done_def)
  qed (use assms(2) in \<open>auto simp: all_done_def\<close>)
qed

lemma all_done_steps:
  assumes "job_steps e True s s'" "job_inv e ps ws fnames fs1 out s" "all_done s" "job_inputs e ps ws fnames fs1 out"
    "job_env e (concat (map out fnames))"
  shows "all_done s'"
  using assms(1)
proof (induction rule: rtranclp_induct)
  case (step y z)
  have "job_inv e ps ws fnames fs1 out y" by (rule job_inv_steps [OF step.hyps(1) assms(2,4,5)])
  then show ?case using step all_done_step by blast
qed (rule assms(3))

end
