(* ===== verification/MRJobTest.thy ===== *)
theory MRJobTest
  imports MRJobRun
begin

text \<open>
  The tests of \<open>mr/mr_test.go\<close> on whole jobs: what they compare is right whatever the workers do,
  a job can be finished, and what a worker can do that is not calm. The application \<open>crash.go\<close> is
  the map and reduce function of \<open>nocrash.go\<close> in worker processes that may exit or sleep in every call.
\<close>

section \<open>Reading the inputs\<close>

definition map_out :: "(string \<Rightarrow> string \<Rightarrow> KeyValue list) \<Rightarrow> string \<Rightarrow> fsys \<Rightarrow> string \<Rightarrow> KeyValue list" where
  "map_out mapf cwd fs f = mapf f (the (files fs (abs_path cwd f)))"

lemma read_and_map_Ret:
  "read_and_map cwd mapf fnames fs = Ret pairs \<Longrightarrow>
    (\<forall>f\<in>set fnames. files fs (abs_path cwd f) \<noteq> None) \<and> pairs = concat (map (map_out mapf cwd fs) fnames)"
  by (induction fnames arbitrary: pairs) (auto simp: map_out_def split: option.splits sum.splits)

text \<open>What a test has to provide: its directory, its inputs and the names it uses.\<close>

definition test_setup_ok :: "mr_env \<Rightarrow> string list \<Rightarrow> string list \<Rightarrow> string \<Rightarrow> string list \<Rightarrow> string \<Rightarrow> string \<Rightarrow> fsys \<Rightarrow> KeyValue list \<Rightarrow> bool" where
  "test_setup_ok e ps ws src fnames correct merged fs0 pairs \<longleftrightarrow>
     dirs_ok ps ws fs0 \<and> finite (dom (files fs0)) \<and> path_Join (Dir src) ''../main'' = clean_dir ps \<and> e_dir e = clean_dir ws \<and>
     fnames \<noteq> [] \<and> read_and_map (clean_dir ws) (e_map e) fnames fs0 = Ret pairs \<and> pairs \<noteq> [] \<and>
     (\<forall>f\<in>set fnames. \<not> touched ps ws (abs_path (clean_dir ws) f) \<and> abs_path (clean_dir ws) f \<noteq> clean_dir (ws @ [correct])) \<and>
     (\<forall>x. below (clean_dir ws) x \<and> take 7 (Base x) = ''mr-out-'' \<longrightarrow> files fs0 x = None) \<and>
     plain_name correct \<and> plain_name merged \<and> correct \<noteq> merged \<and> \<not> out_pattern correct \<and> \<not> out_pattern merged \<and>
     \<not> touched ps ws (clean_dir (ws @ [correct])) \<and>
     (\<forall>l\<in>set (reduce_loop (e_reduce e) (e_srt e pairs)). newline \<notin> set l)"

lemma out_file_below:
  assumes "dirs_ok ps ws fs"
  shows "below (clean_dir ws) (out_file ws p)" "Base (out_file ws p) = ''mr-out-'' @ itoa p"
proof -
  have ws: "ws \<noteq> []" and t: "test_dir_ok ps ws fs" using assms by (auto simp: dirs_ok_def test_dir_ok_def)
  show "below (clean_dir ws) (out_file ws p)" by (simp add: out_file_snoc [OF ws] below_def)
  show "Base (out_file ws p) = ''mr-out-'' @ itoa p" unfolding out_file_def by (rule test_dir_files(5) [OF t plain_names(2)])
qed

lemma test_start:
  assumes "test_setup_ok e ps ws src fnames correct merged fs0 pairs" "job_env e pairs"
  obtains fs1 where "mkCorrectOutput sortp (e_srt e) (e_map e) (e_reduce e) (clean_dir ws) fnames correct fs0 = Ret fs1"
    "files fs1 (clean_dir (ws @ [correct])) = Some (sortp [unlines (reduce_loop (e_reduce e) (e_srt e pairs))])"
    "\<And>now. job_inv e ps ws fnames fs1 (map_out (e_map e) (clean_dir ws) fs0) (job_start src now fnames fs1)"
    "job_inputs e ps ws fnames fs1 (map_out (e_map e) (clean_dir ws) fs0)"
    "job_env e (concat (map (map_out (e_map e) (clean_dir ws) fs0) fnames))" "pairs = concat (map (map_out (e_map e) (clean_dir ws) fs0) fnames)"
    "finite (dom (files fs1))" "\<forall>x. below (clean_dir ws) x \<and> out_pattern (Base x) \<longrightarrow> files fs1 x = None"
proof -
  note a = assms(1) [unfolded test_setup_ok_def]
  have d: "dirs_ok ps ws fs0" and t: "test_dir_ok ps ws fs0" using a by (auto simp: dirs_ok_def)
  have ws: "ws \<noteq> []" "\<forall>w\<in>set ws. plain_name w" using t by (auto simp: test_dir_ok_def)
  have names: "plain_name correct" "\<not> out_pattern correct" "fnames \<noteq> []" "read_and_map (clean_dir ws) (e_map e) fnames fs0 = Ret pairs"
    using a by auto
  have "itoa 0 = ''0''" by (simp add: itoa_def nat_str.simps digit_def char_of_eq_iff)
  then have zero: "out_file ws 0 = clean_dir (ws @ [''mr-out-0''])" by (simp add: out_file_def)
  have c0: "correct \<noteq> ''mr-out-0''" using names(2) by (auto simp: out_pattern_def is_digit_def)
  have ne: "clean_dir (ws @ [correct]) \<noteq> clean_dir (ws @ [''mr-out-0''])"
    using clean_dir_inject [OF ws names(1), of "''mr-out-0''"] c0 by (simp add: plain_name_def)
  let ?seq = "reduce_loop (e_reduce e) (e_srt e pairs)"
  define fs1 where "fs1 = fs0\<lparr>files := (files fs0)(clean_dir (ws @ [correct]) \<mapsto> sortp [unlines ?seq], clean_dir (ws @ [''mr-out-0'']) := None)\<rparr>"
  have mk: "mkCorrectOutput sortp (e_srt e) (e_map e) (e_reduce e) (clean_dir ws) fnames correct fs0 = Ret fs1"
    unfolding fs1_def by (rule mkCorrectOutput_effect [OF t names(3,4,1) c0])
  have f1: "files fs1 (clean_dir (ws @ [correct])) = Some (sortp [unlines ?seq])" using ne by (simp add: fs1_def)
  have d1: "dirs_ok ps ws fs1" using d by (simp add: fs1_def dirs_ok_def)
  have none: "files fs1 (out_file ws p) = None" for p
  proof (cases "out_file ws p = clean_dir (ws @ [correct])")
    case True
    then show ?thesis using a touched_files(5) [OF d, of p] by simp
  next
    case False
    have "files fs0 (out_file ws p) = None" using a out_file_below [OF d, of p] by simp
    then show ?thesis using False by (simp add: fs1_def)
  qed
  have inp: "job_inputs e ps ws fnames fs1 (map_out (e_map e) (clean_dir ws) fs0)"
  proof -
    have "files fs1 (abs_path (clean_dir ws) f) = files fs0 (abs_path (clean_dir ws) f)" if "f \<in> set fnames" for f
      using a that touched_files(5) [OF d, of 0] zero by (auto simp: fs1_def)
    then have "\<exists>content. files fs1 (abs_path (clean_dir ws) f) = Some content \<and> map_out (e_map e) (clean_dir ws) fs0 f = e_map e f content"
      if "f \<in> set fnames" for f
      using read_and_map_Ret [OF names(4)] that by (cases "files fs0 (abs_path (clean_dir ws) f)") (auto simp: map_out_def)
    then show ?thesis using a unfolding job_inputs_def by blast
  qed
  have pairs: "pairs = concat (map (map_out (e_map e) (clean_dir ws) fs0) fnames)" using read_and_map_Ret [OF names(4)] by blast
  have out: "\<forall>x. below (clean_dir ws) x \<and> out_pattern (Base x) \<longrightarrow> files fs1 x = None"
  proof (intro allI impI, elim conjE)
    fix x assume x: "below (clean_dir ws) x" "out_pattern (Base x)"
    have "Base (clean_dir (ws @ [correct])) = correct" by (rule test_dir_files(5) [OF t names(1)])
    then have "x \<noteq> clean_dir (ws @ [correct])" using x(2) names(2) by metis
    moreover have "files fs0 x = None" using a x by (simp add: out_pattern_def)
    ultimately show "files fs1 x = None" by (simp add: fs1_def)
  qed
  have src: "path_Join (Dir src) ''../main'' = clean_dir ps" using a by blast
  show ?thesis
  proof (rule that [OF mk f1 _ inp _ pairs _ out])
    show "job_inv e ps ws fnames fs1 (map_out (e_map e) (clean_dir ws) fs0) (job_start src now fnames fs1)" for now
      by (rule job_inv_start [OF d1 src names(3)]) (simp add: none)
    show "job_env e (concat (map (map_out (e_map e) (clean_dir ws) fs0) fnames))" using assms(2) pairs by simp
    show "finite (dom (files fs1))" using a by (simp add: fs1_def)
  qed
qed

text \<open>When all tasks are completed, the test's comparison succeeds.\<close>

lemma all_done_compares:
  assumes "line_sort sortp srtl" "find_ok fnd" "job_inv e ps ws fnames fs1 out s" "all_done s" "concat (map out fnames) \<noteq> []"
    "finite (dom (files fs1))" "\<forall>x. below (clean_dir ws) x \<and> out_pattern (Base x) \<longrightarrow> files fs1 x = None"
    "files fs1 (clean_dir (ws @ [correct])) = Some (sortp [unlines seq])" "seq = reduce_loop (e_reduce e) (e_srt e (concat (map out fnames)))"
    "\<not> touched ps ws (clean_dir (ws @ [correct]))" "plain_name correct" "plain_name merged" "correct \<noteq> merged" "\<not> out_pattern merged"
    "\<forall>l\<in>set seq. newline \<notin> set l"
  shows "\<exists>fs4. mergeOutput fnd sortp (clean_dir ws) merged (j_fs s) = Ret fs4 \<and>
    files fs4 (clean_dir (ws @ [merged])) = Some (sortp [unlines seq]) \<and> runCmp (clean_dir ws) merged correct fs4"
proof -
  obtain m where m: "partitions_ok e (concat (map out fnames)) m" "job_reduce e ps ws fnames m s"
    and fin: "\<forall>(p, l)\<in>set m. final ps ws (j_fs s) p (unlines (lines_of e l))"
    by (rule all_done_reduce [OF assms(3,4)])
  have com: "job_common ps ws fs1 s" using assms(3) by (simp add: job_inv_def)
  then have d: "dirs_ok ps ws (j_fs s)" and ext: "fs_ext ps ws fs1 (j_fs s)" by (auto simp: job_common_def)
  have t: "test_dir_ok ps ws (j_fs s)" by (rule dirs_ok_test [OF d])
  have ws: "ws \<noteq> []" "\<forall>w\<in>set ws. plain_name w" "clean_dir ws \<noteq> clean_dir ps" "\<not> below (clean_dir ws) (clean_dir ps)"
    using t by (auto simp: test_dir_ok_def)
  have mk: "m \<noteq> []" "\<forall>p\<in>set (keys m). 0 \<le> p \<and> p < 10" "distinct (keys m)"
    "mset (concat (map (\<lambda>(p, l). lines_of e l) m)) = mset seq" using m(1) assms(5,9) by (auto simp: partitions_ok_def)
  have outs: "\<forall>(p, l)\<in>set m. files (j_fs s) (out_file ws p) = Some (unlines (lines_of e l))" using fin by (auto simp: final_def)
  have only: "\<forall>x. below (clean_dir ws) x \<and> out_pattern (Base x) \<and> files (j_fs s) x \<noteq> None \<longrightarrow> x \<in> out_file ws ` set (keys m)"
  proof (intro allI impI, elim conjE)
    fix x assume x: "below (clean_dir ws) x" "out_pattern (Base x)" "files (j_fs s) x \<noteq> None"
    have "touched ps ws x" using ext x assms(7) by (auto simp: fs_ext_def)
    then consider "stale_output (clean_dir ps) x" | i where "x = clean_dir (ws @ [''mr-'' @ itoa i])" | i where "x = out_file ws i"
      unfolding touched_def by blast
    then show "x \<in> out_file ws ` set (keys m)"
    proof cases
      case 1
      then obtain f where f: "x = clean_dir ps @ CHR ''/'' # f" "CHR ''/'' \<notin> set f" by (auto simp: stale_output_def Let_def)
      then show ?thesis using below_file [of "clean_dir ws" "clean_dir ps" f] x(1) ws(3,4) by auto
    next
      case (2 i)
      have "Base x = ''mr-'' @ itoa i" unfolding 2 by (rule test_dir_files(5) [OF t mr_name])
      moreover have "CHR ''o'' \<notin> set (itoa i)" by (rule not_in_itoa) simp_all
      ultimately show ?thesis using x(2) by (cases "itoa i") (auto simp: out_pattern_def)
    next
      case (3 i)
      then show ?thesis using job_reduceD(8) [OF m(2), of i] x(3) by blast
    qed
  qed
  have fd: "finite (dom (files (j_fs s)))" using ext assms(6) by (simp add: fs_ext_def)
  have ex: "\<forall>p\<in>set (keys m). files (j_fs s) (out_file ws p) \<noteq> None" using outs by fastforce
  obtain fls where fls: "findFiles fnd (clean_dir ws) out_pattern (j_fs s) = fls" "mset fls = mset (map (out_file ws) (keys m))"
    by (rule find_outputs [OF assms(2) fd t mk(1,2,3) only ex])
  have "fls \<noteq> []" using fls(2) mk(1) by (cases m) auto
  note mg = mergeOutput_lines [OF assms(1) fls(1) this fls(2) t assms(12,14) outs mk(4) assms(15) mk(2)]
  have "clean_dir (ws @ [correct]) \<noteq> clean_dir (ws @ [merged])" using clean_dir_inject [OF ws(1,2) assms(11,12)] assms(13) by simp
  moreover have "files (j_fs s) (clean_dir (ws @ [correct])) = Some (sortp [unlines seq])"
    using ext assms(8,10) by (simp add: fs_ext_def)
  ultimately show ?thesis using mg test_dir_files(4) [OF t assms(11)] test_dir_files(4) [OF t assms(12)]
    by (simp add: runCmp_def)
qed


section \<open>A job can be finished\<close>

definition resting :: "job \<Rightarrow> bool" where
  "resting s \<longleftrightarrow> (\<forall>w. j_w s w = Idle) \<and> (\<forall>t\<in>set (Tasks (j_c s)). t_Status t = ''not started'' \<or> t_Status t = ''completed'')"

definition to_do :: "job \<Rightarrow> nat" where
  "to_do s = length (filter (\<lambda>t. t_Status t = ''not started'') (Tasks (j_c s)))"

lemma filter_update_less:
  "i < length xs \<Longrightarrow> P (xs ! i) \<Longrightarrow> \<not> P x \<Longrightarrow> length (filter P (xs[i := x])) < length (filter P xs)"
proof (induction xs arbitrary: i)
  case (Cons y ys)
  then show ?case by (cases i) auto
qed simp

lemma first_index_at: "i < length xs \<Longrightarrow> P (xs ! i) \<Longrightarrow> \<forall>j<length xs. P (xs ! j) \<longrightarrow> j = i \<Longrightarrow> first_index P xs = Some i"
proof -
  assume i: "i < length xs" "P (xs ! i)" "\<forall>j<length xs. P (xs ! j) \<longrightarrow> j = i"
  then have "first_index P xs \<noteq> None" using first_index_None [of P xs] nth_mem by blast
  then obtain k where k: "first_index P xs = Some k" by blast
  then have "k = i" using first_index_Some [OF k] i(3) by blast
  then show ?thesis using k by simp
qed

lemma job_inv_table:
  assumes "job_inv e ps ws fnames fs1 out s"
  shows "distinct (map t_Id (Tasks (j_c s)))" "\<forall>t\<in>set (Tasks (j_c s)). task_ok t"
    "\<forall>t\<in>set (Tasks (j_c s)). t_ReadLocation t \<in> set fnames \<or> t_ReadLocation t \<noteq> ''''"
proof -
  consider "job_map out fnames ws s" | m where "job_reduce e ps ws fnames m s" using assms by (auto simp: job_inv_def)
  then have "distinct (map t_Id (Tasks (j_c s))) \<and> (\<forall>t\<in>set (Tasks (j_c s)). task_ok t) \<and>
    (\<forall>t\<in>set (Tasks (j_c s)). t_ReadLocation t \<in> set fnames \<or> t_ReadLocation t \<noteq> '''')"
  proof cases
    case 1
    then have mv: "mr_inv out fnames (map_view s)" by (simp add: job_map_def)
    then have "map task_key (Tasks (j_c s)) = map_keys fnames" "\<forall>t\<in>set (Tasks (j_c s)). task_ok t"
      by (simp_all add: mr_inv_def Let_def map_view_def)
    moreover have "\<forall>t\<in>set (Tasks (j_c s)). t_ReadLocation t \<in> set fnames" using mr_inv_key(2) [OF mv] by (simp add: map_view_def)
    ultimately show ?thesis using task_ids_distinct by blast
  next
    case (2 m)
    note tab = job_reduceD(2) [OF 2]
    have "t_ReadLocation t \<in> set fnames \<or> t_ReadLocation t \<noteq> ''''" if "t \<in> set (Tasks (j_c s))" for t
    proof -
      have "task_key t \<in> set (job_keys ps fnames m)" using tab that unfolding tab_ok_def by (metis image_eqI set_map)
      then show ?thesis by (auto simp: job_keys_def task_key_def p_file_def clean_dir_def dest: map_keys_file)
    qed
    then show ?thesis using tab_ok_ids [OF tab] tab by (auto simp: tab_ok_def)
  qed
  then show "distinct (map t_Id (Tasks (j_c s)))" "\<forall>t\<in>set (Tasks (j_c s)). task_ok t"
    "\<forall>t\<in>set (Tasks (j_c s)). t_ReadLocation t \<in> set fnames \<or> t_ReadLocation t \<noteq> ''''" by blast+
qed

text \<open>A worker that has a task can execute it.\<close>

lemma print_all:
  "j_w s w = Writing t lines k \<Longrightarrow> k \<le> length lines \<Longrightarrow>
    \<exists>fs'. job_steps e calm s (s\<lparr>j_fs := fs', j_w := (j_w s)(w := Writing t lines (length lines))\<rparr>)"
proof (induction "length lines - k" arbitrary: k s)
  case 0
  then have "s\<lparr>j_fs := j_fs s, j_w := (j_w s)(w := Writing t lines (length lines))\<rparr> = s" by (cases s) auto
  then show ?case by (metis rtranclp.rtrancl_refl)
next
  case (Suc n)
  let ?s = "s\<lparr>j_fs := reduce_line (t_WriteLocation t) lines k (j_fs s), j_w := (j_w s)(w := Writing t lines (Suc k))\<rparr>"
  have n: "n = length lines - Suc k" "Suc k \<le> length lines" using Suc.hyps(2) by linarith+
  have "job_step e calm s ?s" using Suc by (intro job_step.print) auto
  moreover obtain fs' where "job_steps e calm ?s (?s\<lparr>j_fs := fs', j_w := (j_w ?s)(w := Writing t lines (length lines))\<rparr>)"
    using Suc.hyps(1) [OF n(1) _ n(2), of ?s] by auto
  moreover have "?s\<lparr>j_fs := fs', j_w := (j_w ?s)(w := Writing t lines (length lines))\<rparr> =
      s\<lparr>j_fs := fs', j_w := (j_w s)(w := Writing t lines (length lines))\<rparr>" by (cases s) simp
  ultimately show ?case by (metis converse_rtranclp_into_rtranclp)
qed

lemma execute_task:
  assumes "job_inv e ps ws fnames fs1 out s" "job_inputs e ps ws fnames fs1 out" "j_w s w = Holds t" "assigned (Tasks (j_c s)) w t"
  shows "\<exists>fs' kvs. job_steps e True s (s\<lparr>j_fs := fs', j_w := (j_w s)(w := Executed t (Some kvs))\<rparr>)"
proof -
  have com: "job_common ps ws fs1 s" using assms(1) by (simp add: job_inv_def)
  have dir: "e_dir e = clean_dir ws" using assms(2) by (simp add: job_inputs_def)
  have d: "dirs_ok ps ws (j_fs s)" "fs_ext ps ws fs1 (j_fs s)" using com by (auto simp: job_common_def)
  have h: "held (j_w s w) = Some t" using assms(3) by simp
  show ?thesis
  proof (cases "t_Type t = ''map''")
    case True
    have "shape ps t" using com h by (auto simp: job_common_def)
    then obtain i where i: "t_WriteLocation t = clean_dir (ps @ [''mr-'' @ itoa i])" using True by (auto simp: shape_def)
    have ps: "ps \<noteq> []" "\<forall>p\<in>set ps. plain_name p" using d(1) by (auto simp: dirs_ok_def)
    have "t_ReadLocation t \<in> set fnames"
    proof -
      consider "job_map out fnames ws s" | m where "job_reduce e ps ws fnames m s" using assms(1) by (auto simp: job_inv_def)
      then show ?thesis
      proof cases
        case 1
        then show ?thesis using mr_inv_key(2) [of out fnames "map_view s" t w] h by (simp add: job_map_def map_view_def)
      next
        case (2 m)
        have "task_key t \<in> set (job_keys ps fnames m)" by (rule held_key(1) [OF 2 h])
        then show ?thesis using True by (auto simp: job_keys_def task_key_def dest: map_keys_file)
      qed
    qed
    then have "\<not> touched ps ws (abs_path (clean_dir ws) (t_ReadLocation t))" "\<exists>c. files fs1 (abs_path (clean_dir ws) (t_ReadLocation t)) = Some c"
      using assms(2) unfolding job_inputs_def by blast+
    then obtain content where "files (j_fs s) (abs_path (clean_dir ws) (t_ReadLocation t)) = Some content"
      using d(2) by (auto simp: fs_ext_def)
    then obtain kvs fs' where "executeMapf (e_dir e) (t_ReadLocation t) (t_WriteLocation t) (e_map e) (j_fs s) = Ret (Some kvs, fs')"
      using getFileNameOnly_mr [OF ps, of i] by (simp add: executeMapf_def dir i Let_def del: append.simps)
    then show ?thesis using job_step.run_map [OF assms(3) True] by blast
  next
    case False
    have "\<not> job_map out fnames ws s"
      using mr_inv_key(1) [of out fnames "map_view s" t w] h False by (auto simp: job_map_def map_view_def)
    then obtain m where m: "job_reduce e ps ws fnames m s" using assms(1) by (auto simp: job_inv_def)
    obtain p l where p: "(p, l) \<in> set m" "t_Id t = pid p" "t_ReadLocation t = p_file ps p" "t_WriteLocation t = out_file ps p" "t_Type t = ''reduce''"
      by (rule held_reduce [OF m com h False])
    have pf: "files (j_fs s) (p_file ps p) = Some (kv_lines l)" "l \<noteq> []" "\<forall>kv\<in>set l. clean_kv kv"
      using job_reduceD(5) [OF m] p(1) by (auto simp: parts_ok_def)
    let ?L = "lines_of e l"
    obtain fs1' where o: "reduce_open (e_srt e) (e_reduce e) (t_ReadLocation t) (t_WriteLocation t) (j_fs s) = Ret (Some ?L, fs1')"
      using reduce_open_effect [OF d(1) pf, of "e_srt e" "e_reduce e"] p(3,4) by (simp add: lines_of_def)
    let ?s1 = "s\<lparr>j_fs := fs1', j_w := (j_w s)(w := Writing t ?L 0)\<rparr>"
    have "job_step e True s ?s1" using job_step.open_out [OF assms(3) False _ o] assms(4) by simp
    moreover obtain fs2 where "job_steps e True ?s1 (?s1\<lparr>j_fs := fs2, j_w := (j_w ?s1)(w := Writing t ?L (length ?L))\<rparr>)"
      using print_all [of ?s1 w t ?L 0] by auto
    moreover have "?s1\<lparr>j_fs := fs2, j_w := (j_w ?s1)(w := Writing t ?L (length ?L))\<rparr> = s\<lparr>j_fs := fs2, j_w := (j_w s)(w := Writing t ?L (length ?L))\<rparr>"
      by (cases s) simp
    moreover define s2 where "s2 = s\<lparr>j_fs := fs2, j_w := (j_w s)(w := Writing t ?L (length ?L))\<rparr>"
    ultimately have "job_steps e True s s2" by (metis converse_rtranclp_into_rtranclp)
    moreover have "job_step e True s2 (s2\<lparr>j_fs := copyToWorkerInitDir (e_dir e) (t_WriteLocation t) (j_fs s2), j_w := (j_w s2)(w := Executed t (Some []))\<rparr>)"
      by (rule job_step.copy) (simp add: s2_def)
    moreover have "s2\<lparr>j_fs := copyToWorkerInitDir (e_dir e) (t_WriteLocation t) (j_fs s2), j_w := (j_w s2)(w := Executed t (Some []))\<rparr> =
        s\<lparr>j_fs := copyToWorkerInitDir (e_dir e) (t_WriteLocation t) fs2, j_w := (j_w s)(w := Executed t (Some []))\<rparr>"
      by (cases s) (simp add: s2_def)
    ultimately show ?thesis by (metis rtranclp.rtrancl_into_rtrancl)
  qed
qed

lemma generate_returns:
  "ReducerCount c \<noteq> 0 \<Longrightarrow> \<exists>c' fs'. generateReduceTasksIfApplicable srt ord now (c, fs) = Ret (c', fs')"
  using shuffle_returns [of "c\<lparr>IsReduceGenerated := True\<rparr>" srt]
  by (auto simp: generateReduceTasksIfApplicable_def Let_def split: prod.splits)

lemma request_first:
  assumes "job_inv e ps ws fnames fs1 out s" "'''' \<notin> set fnames" "0 < to_do s" "j_w s w = Idle" "w \<noteq> -1"
  obtains i t c1 where "i < length (Tasks (j_c s))" "t_Status (Tasks (j_c s) ! i) = ''not started''"
    "t = (Tasks (j_c s) ! i)\<lparr>t_Status := ''in progress'', t_AssignedWorkerId := w, t_LastUpdated := now\<rparr>"
    "c1 = (j_c s)\<lparr>Tasks := (Tasks (j_c s))[i := t]\<rparr>" "job_step e calm s (s\<lparr>j_c := c1, j_w := (j_w s)(w := Holds t)\<rparr>)"
proof -
  note tb = job_inv_table [OF assms(1)]
  let ?P = "\<lambda>t. t_Status t = ''not started'' \<and> t_AssignedWorkerId t = -1"
  have "filter (\<lambda>t. t_Status t = ''not started'') (Tasks (j_c s)) \<noteq> []" using assms(3) by (simp add: to_do_def)
  then obtain u where "u \<in> set (Tasks (j_c s))" "t_Status u = ''not started''" by (auto simp: filter_empty_conv)
  then have "first_index ?P (Tasks (j_c s)) \<noteq> None" using first_index_None [of ?P] tb(2) by (fastforce simp: task_ok_def)
  then obtain i where i: "first_index ?P (Tasks (j_c s)) = Some i" by blast
  note fi = first_index_Some [OF i]
  define t where "t = (Tasks (j_c s) ! i)\<lparr>t_Status := ''in progress'', t_AssignedWorkerId := w, t_LastUpdated := now\<rparr>"
  define c1 where "c1 = (j_c s)\<lparr>Tasks := (Tasks (j_c s))[i := t]\<rparr>"
  have "RequestTask now w (j_c s) = (t, c1)" by (simp add: RequestTask_def i Let_def t_def c1_def)
  then have cr: "CallRequestTask Answered now w (j_c s, j_fs s) = Ret (Some t, c1, j_fs s)" by (simp add: CallRequestTask_def call_def)
  have "t_ReadLocation t \<noteq> ''''" using tb(3) fi assms(2) by (auto simp: t_def) (metis nth_mem)
  then have acc: "worker_accept t = Some t" by (simp add: worker_accept_def)
  have "\<lparr>j_c = c1, j_fs = j_fs s, j_w = (j_w s)(w := Holds t)\<rparr> = s\<lparr>j_c := c1, j_w := (j_w s)(w := Holds t)\<rparr>" by (cases s) simp
  then have "job_step e calm s (s\<lparr>j_c := c1, j_w := (j_w s)(w := Holds t)\<rparr>)"
    using job_step.request [OF assms(5,4) cr, of e calm] acc by (metis Option.bind.simps(2) option.simps(5))
  then show ?thesis using that fi t_def c1_def by blast
qed

lemma rest_round:
  assumes "job_inv e ps ws fnames fs1 out s" "job_inputs e ps ws fnames fs1 out" "job_env e (concat (map out fnames))"
    "'''' \<notin> set fnames" "resting s" "0 < to_do s"
  shows "\<exists>s'. job_steps e True s s' \<and> resting s' \<and>
    (\<not> IsReduceGenerated (j_c s) \<and> IsReduceGenerated (j_c s') \<or> IsReduceGenerated (j_c s') = IsReduceGenerated (j_c s) \<and> to_do s' < to_do s)"
proof -
  have idle: "j_w s w = Idle" for w using assms(5) by (simp add: resting_def)
  obtain i t c1 where i: "i < length (Tasks (j_c s))" "t_Status (Tasks (j_c s) ! i) = ''not started''"
    and t: "t = (Tasks (j_c s) ! i)\<lparr>t_Status := ''in progress'', t_AssignedWorkerId := 1, t_LastUpdated := 0\<rparr>"
    and c1: "c1 = (j_c s)\<lparr>Tasks := (Tasks (j_c s))[i := t]\<rparr>" and st1: "job_step e True s (s\<lparr>j_c := c1, j_w := (j_w s)(1 := Holds t)\<rparr>)"
    by (rule request_first [OF assms(1,4,6) idle [of 1], of 0 True]) auto
  define s1 where "s1 = s\<lparr>j_c := c1, j_w := (j_w s)(1 := Holds t)\<rparr>"
  have inv1: "job_inv e ps ws fnames fs1 out s1" unfolding s1_def by (rule job_inv_step [OF assms(1) st1 assms(2,3)])
  have ts1: "Tasks (j_c s1) = (Tasks (j_c s))[i := t]" by (simp add: s1_def c1)
  then have ti: "Tasks (j_c s1) ! i = t" "i < length (Tasks (j_c s1))" using i(1) by simp_all
  then have "t \<in> set (Tasks (j_c s1))" "t_AssignedWorkerId t = 1" using nth_mem [OF ti(2)] t by simp_all
  then have "assigned (Tasks (j_c s1)) 1 t" unfolding assigned_def list_ex_iff by blast
  then obtain fs2 kvs where ex: "job_steps e True s1 (s1\<lparr>j_fs := fs2, j_w := (j_w s1)(1 := Executed t (Some kvs))\<rparr>)"
    using execute_task [OF inv1 assms(2), of 1 t] by (auto simp: s1_def)
  define s2 where "s2 = s1\<lparr>j_fs := fs2, j_w := (j_w s1)(1 := Executed t (Some kvs))\<rparr>"
  have inv2: "job_inv e ps ws fnames fs1 out s2" unfolding s2_def by (rule job_inv_steps [OF ex inv1 assms(2,3)])
  have c2s: "j_c s2 = c1" "j_w s2 1 = Executed t (Some kvs)" by (simp_all add: s2_def s1_def)
  let ?a = "worker_report t (Some kvs)"
  define c2 where "c2 = record_status 0 ?a c1"
  have rec: "first_index (\<lambda>u. t_Id u = u_TaskId ?a \<and> t_AssignedWorkerId u = u_AssignedWorkerId ?a) (Tasks c1) = Some i"
  proof (rule first_index_at)
    have ids: "distinct (map t_Id (Tasks c1))" using job_inv_table(1) [OF inv2] c2s(1) by simp
    show "\<forall>j<length (Tasks c1). t_Id (Tasks c1 ! j) = u_TaskId ?a \<and> t_AssignedWorkerId (Tasks c1 ! j) = u_AssignedWorkerId ?a \<longrightarrow> j = i"
    proof (intro allI impI)
      fix j assume j: "j < length (Tasks c1)" "t_Id (Tasks c1 ! j) = u_TaskId ?a \<and> t_AssignedWorkerId (Tasks c1 ! j) = u_AssignedWorkerId ?a"
      have c: "Tasks c1 ! i = t" "i < length (Tasks c1)" using ti by (simp_all add: s1_def)
      then have "map t_Id (Tasks c1) ! j = map t_Id (Tasks c1) ! i" using j by simp
      then show "j = i" using nth_eq_iff_index_eq [OF ids, of j i] j(1) c(2) by simp
    qed
  qed (use ti in \<open>simp_all add: s1_def\<close>)
  have tc2: "Tasks c2 = (Tasks (j_c s))[i := reported 0 ?a t]" "IsReduceGenerated c2 = IsReduceGenerated (j_c s)"
    using rec ti i(1) by (simp_all add: c2_def record_status_def reported_def c1)
  have com2: "job_common ps ws fs1 s2" using inv2 by (simp add: job_inv_def)
  then have rc: "ReducerCount c2 \<noteq> 0" "MainDir c2 = clean_dir ps" "dirs_ok ps ws (j_fs s2)" using c2s(1) by (auto simp: job_common_def c2_def)
  obtain c3 fs3 where g: "generateReduceTasksIfApplicable (e_srt e) (e_ord e) 0 (c2, j_fs s2) = Ret (c3, fs3)"
    using generate_returns [OF rc(1)] by blast
  have "report_task e Answered 0 t (Some kvs) (j_c s2, j_fs s2) = Ret (Some (), c3, fs3)"
    using g c2s(1) by (simp add: report_task_eq call_def UpdateTaskStatus_def c2_def)
  from job_step.report [OF c2s(2) this] have st3: "job_step e True s2 \<lparr>j_c = c3, j_fs = fs3, j_w = (j_w s2)(1 := Idle)\<rparr>" .
  let ?s3 = "\<lparr>j_c = c3, j_fs = fs3, j_w = (j_w s2)(1 := Idle)\<rparr>"
  have steps: "job_steps e True s ?s3"
    using st1 ex st3 unfolding s1_def [symmetric] s2_def [symmetric] by (meson converse_rtranclp_into_rtranclp rtranclp.rtrancl_into_rtrancl)
  have idle3: "j_w ?s3 w = Idle" for w using idle by (simp add: s2_def s1_def)
  note gs = generate_state [OF dirs_ok_main [OF rc(3,2)] g]
  have "t_Status u = ''not started'' \<or> t_Status u = ''completed''" if "u \<in> set (Tasks c2)" for u
    using that assms(5) set_update_subset_insert [of "Tasks (j_c s)" i "reported 0 ?a t"] unfolding tc2(1) resting_def by fastforce
  then have "\<forall>u\<in>set (Tasks c3). t_Status u = ''not started'' \<or> t_Status u = ''completed''" using gs(1) by fastforce
  then have rest: "resting ?s3" using idle3 by (simp add: resting_def)
  have "to_do ?s3 < to_do s" if "IsReduceGenerated c3 = IsReduceGenerated (j_c s)"
  proof -
    have "c3 = c2" using g gs(4) that tc2(2) by (auto simp: generateReduceTasksIfApplicable_def split: if_splits)
    moreover have "\<not> (t_Status (reported 0 ?a t) = ''not started'')" by simp
    ultimately show ?thesis using filter_update_less [OF i(1), of "\<lambda>t. t_Status t = ''not started''"] i(2) by (simp add: to_do_def tc2(1))
  qed
  moreover have "IsReduceGenerated (j_c s) \<Longrightarrow> IsReduceGenerated c3" using gs(4) tc2(2) by simp
  ultimately show ?thesis using steps rest by (intro exI [of _ ?s3]) auto
qed

lemma rest_finishes:
  assumes "job_inv e ps ws fnames fs1 out s" "job_inputs e ps ws fnames fs1 out" "job_env e (concat (map out fnames))"
    "'''' \<notin> set fnames" "resting s"
  shows "\<exists>s'. job_steps e True s s' \<and> resting s' \<and> to_do s' = 0"
  using assms
proof (induction "(if IsReduceGenerated (j_c s) then 0 else 1 :: nat, to_do s)" arbitrary: s rule: wf_induct_rule [OF wf_lex_prod [OF wf_less_than wf_less_than]])
  case (1 s)
  show ?case
  proof (cases "to_do s = 0")
    case False
    then obtain s' where s': "job_steps e True s s'" "resting s'"
      "\<not> IsReduceGenerated (j_c s) \<and> IsReduceGenerated (j_c s') \<or> IsReduceGenerated (j_c s') = IsReduceGenerated (j_c s) \<and> to_do s' < to_do s"
      using rest_round [OF "1.prems"(1-5)] by auto
    have "job_inv e ps ws fnames fs1 out s'" by (rule job_inv_steps [OF s'(1) "1.prems"(1-3)])
    then have "\<exists>s''. job_steps e True s' s'' \<and> resting s'' \<and> to_do s'' = 0"
      using s'(2,3) "1.prems"(2-4) by (intro "1.hyps") auto
    then show ?thesis using s'(1) rtranclp_trans by metis
  qed (use "1.prems" in blast)
qed

lemma Done_loop_completed: "\<forall>t\<in>set ts. t_Status t = ''completed'' \<Longrightarrow> Done_loop now ts = (True, ts)"
  by (induction ts) (auto simp: setNotStartedIfApplicable_def setSkippedIfApplicable_def)

lemma job_finishes:
  assumes "job_inv e ps ws fnames fs1 out (job_start src now fnames fs1)" "job_inputs e ps ws fnames fs1 out"
    "job_env e (concat (map out fnames))" "'''' \<notin> set fnames"
  shows "\<exists>s. job_steps e True (job_start src now fnames fs1) s \<and> Done now' (j_c s) = (True, j_c s) \<and> all_done s \<and> (\<forall>w. j_w s w = Idle)"
proof -
  have "resting (job_start src now fnames fs1)"
    by (auto simp: resting_def job_start_def MakeCoordinator_def initializeCoordinator_def initializeMapTasks_def Let_def map_task_def)
  from rest_finishes [OF assms this] obtain s where s: "job_steps e True (job_start src now fnames fs1) s" "resting s" "to_do s = 0" by blast
  have all: "\<forall>t\<in>set (Tasks (j_c s)). t_Status t = ''completed''" using s(2,3) by (auto simp: resting_def to_do_def filter_empty_conv)
  then have "Done now' (j_c s) = (True, j_c s)" using Done_loop_completed [OF all, of now'] by (simp add: Done_def)
  then show ?thesis using s all by (auto simp: resting_def all_done_def)
qed

text \<open>
  C11. A job can be finished: from the start of the coordinator one worker that is not disturbed can
  execute all map tasks and then all reduce tasks, after which the coordinator's poll says that the job is
  done; so the runs that the previous theorem speaks of exist for every test.
\<close>

theorem mr_job_can_finish:
  assumes "job_env e pairs" "test_setup_ok e ps ws src fnames correct merged fs0 pairs" "'''' \<notin> set fnames"
    "mkCorrectOutput sortp (e_srt e) (e_map e) (e_reduce e) (clean_dir ws) fnames correct fs0 = Ret fs1"
  shows "\<exists>s. job_steps e True (job_start src now fnames fs1) s \<and> Done now' (j_c s) = (True, j_c s) \<and>
    (\<forall>t\<in>set (Tasks (j_c s)). t_Status t = ''completed'') \<and> (\<forall>w. j_w s w = Idle)"
proof -
  let ?out = "map_out (e_map e) (clean_dir ws) fs0"
  have start: "job_inv e ps ws fnames fs1 ?out (job_start src now fnames fs1)"
    and inp: "job_inputs e ps ws fnames fs1 ?out" and env: "job_env e (concat (map ?out fnames))"
    using test_start [OF assms(2,1), of sortp] assms(4) by (metis Inr_inject)+
  show ?thesis using job_finishes [OF start inp env assms(3), of now'] by (simp add: all_done_def)
qed

section \<open>A concrete job\<close>

definition job1 :: mr_env where
  "job1 = \<lparr>e_srt = sort_key kKey, e_ord = id, e_dir = ''/t'', e_map = early_exit_Map, e_reduce = early_exit_Reduce\<rparr>"

lemma job1_env: "job_env job1 test_pairs"
proof -
  have "\<forall>kv\<in>set test_pairs. clean_kv kv" by (simp add: test_pairs_def clean_kv_def newline_def char_of_eq_iff)
  then show ?thesis
    using stable.key_sorter_axioms early_exit.reduce_function_axioms by (simp add: job_env_def job1_def)
qed

lemma test_fs_none: "below ''/t'' x \<Longrightarrow> files test_fs x = None"
  by (rule test_setup(3))

lemma job1_setup: "test_setup_ok job1 [''m'', ''main''] [''t''] ''/m/mr/c.go'' [''/m/f''] ''c'' ''a'' test_fs test_pairs"
proof -
  have d: "clean_dir [''t''] = ''/t''" "clean_dir [''m'', ''main''] = ''/m/main''" "clean_dir [''t'', f] = ''/t/'' @ f"
    "clean_dir [''m'', ''main'', f] = ''/m/main/'' @ f" for f
    by (simp_all add: clean_dir_def)
  have "dirs_ok [''m'', ''main''] [''t''] test_fs"
    using test_setup(1) by (simp add: dirs_ok_def d plain_name_def) (simp add: test_fs_def)
  moreover have "path_Join (Dir ''/m/mr/c.go'') ''../main'' = ''/m/main''" by (simp add: path_Join_def Dir_def Clean_def Let_def)
  moreover have "read_and_map ''/t'' early_exit_Map [''/m/f''] test_fs = Ret test_pairs"
    by (simp add: test_fs_def abs_path_def early_exit_Map_def test_pairs_def)
  moreover have "\<not> touched [''m'', ''main''] [''t''] ''/m/f''" "\<not> touched [''m'', ''main''] [''t''] ''/t/c''" "''/m/f'' \<noteq> ''/t/c''"
    by (simp_all add: touched_def stale_output_def d out_file_def Let_def)
  moreover have "\<forall>l\<in>set (reduce_loop early_exit_Reduce (sort_key kKey test_pairs)). newline \<notin> set l"
    by (simp add: test_pairs_def newline_def char_of_eq_iff early_exit_Reduce_def itoa_def nat_str.simps digit_def)
  ultimately show ?thesis
    using test_setup(5,6) test_fs_none
    by (simp add: test_setup_ok_def d job1_def abs_path_def out_pattern_def test_pairs_def) (simp add: test_fs_def)
qed

lemma job1_finishes:
  assumes "mkCorrectOutput byte_sort (e_srt job1) (e_map job1) (e_reduce job1) (clean_dir [''t'']) [''/m/f''] ''c'' test_fs = Ret fs1"
  shows "\<exists>s. job_steps job1 True (job_start ''/m/mr/c.go'' 0 [''/m/f''] fs1) s \<and> Done 0 (j_c s) = (True, j_c s) \<and> all_done s"
proof -
  let ?out = "map_out (e_map job1) (clean_dir [''t'']) test_fs"
  obtain fs2 where f: "mkCorrectOutput byte_sort (e_srt job1) (e_map job1) (e_reduce job1) (clean_dir [''t'']) [''/m/f''] ''c'' test_fs = Ret fs2"
    and s: "job_inv job1 [''m'', ''main''] [''t''] [''/m/f''] fs2 ?out (job_start ''/m/mr/c.go'' 0 [''/m/f''] fs2)"
      "job_inputs job1 [''m'', ''main''] [''t''] [''/m/f''] fs2 ?out" "job_env job1 (concat (map ?out [''/m/f'']))"
    by (rule test_start [OF job1_setup job1_env, of byte_sort]) blast
  have "fs2 = fs1" using f assms by simp
  then show ?thesis using job_finishes [OF s, of 0] by auto
qed


theorem mr_job_can_finish_witness:
  "\<exists>fs1 s. mkCorrectOutput byte_sort (sort_key kKey) early_exit_Map early_exit_Reduce ''/t'' [''/m/f''] ''c'' test_fs = Ret fs1 \<and>
    job_steps job1 True (job_start ''/m/mr/c.go'' 0 [''/m/f''] fs1) s \<and> Done 0 (j_c s) = (True, j_c s)"
proof -
  obtain fs1 where mk: "mkCorrectOutput byte_sort (e_srt job1) (e_map job1) (e_reduce job1) (clean_dir [''t'']) [''/m/f''] ''c'' test_fs = Ret fs1"
    using test_start [OF job1_setup job1_env, of byte_sort] by blast
  have "'''' \<notin> set [''/m/f'']" by simp
  from mr_job_can_finish [OF job1_env job1_setup this mk, of 0 0] show ?thesis using mk test_setup(4) by (auto simp: job1_def)
qed

section \<open>What is not calm\<close>

text \<open>
  A worker that got a reduce task and is then stopped for longer than the time-out opens the output
  file in place when it goes on: the output of the worker that completed the task meanwhile is gone,
  and if the late worker exits before it has printed all lines it stays incomplete.
\<close>

lemma late_open_empties:
  assumes "job_reduce e ps ws fnames m s" "job_common ps ws fs1 s" "j_w s w = Holds t" "t_Type t \<noteq> ''map''"
  shows "\<exists>s'. job_step e False s s' \<and> files (j_fs s') (t_WriteLocation t) = Some [] \<and>
    job_step e False s' (s'\<lparr>j_w := (j_w s')(w := Idle)\<rparr>)"
proof -
  have h: "held (j_w s w) = Some t" using assms(3) by simp
  obtain p l where p: "(p, l) \<in> set m" "t_ReadLocation t = p_file ps p" "t_WriteLocation t = out_file ps p"
    by (rule held_reduce [OF assms(1,2) h assms(4)])
  have d: "dirs_ok ps ws (j_fs s)" using assms(2) by (simp add: job_common_def)
  have pf: "files (j_fs s) (p_file ps p) = Some (kv_lines l)" "l \<noteq> []" "\<forall>kv\<in>set l. clean_kv kv"
    using job_reduceD(5) [OF assms(1)] p(1) by (auto simp: parts_ok_def)
  let ?fs = "(j_fs s)\<lparr>files := (files (j_fs s))(out_file ps p \<mapsto> [])\<rparr>"
  have "job_step e False s (s\<lparr>j_fs := ?fs, j_w := (j_w s)(w := Writing t (lines_of e l) 0)\<rparr>)"
    using job_step.open_out [OF assms(3,4), of False e "Some (lines_of e l)" ?fs] reduce_open_effect [OF d pf, of "e_srt e" "e_reduce e"] p
    by (simp add: lines_of_def)
  moreover have "files (j_fs (s\<lparr>j_fs := ?fs, j_w := (j_w s)(w := Writing t (lines_of e l) 0)\<rparr>)) (t_WriteLocation t) = Some []" by (simp add: p(3))
  ultimately show ?thesis using job_step.exit by blast
qed

end
