(* ===== verification/MRApps.thy ===== *)
theory MRApps
  imports MRTest
begin

text \<open>
  The applications of \<open>mrapps\<close> that look at processes, files and chance: \<open>crash.go\<close>, \<open>jobcount.go\<close>,
  \<open>mtiming.go\<close> and \<open>rtiming.go\<close>; the program \<open>main/mrworker.go\<close> and the plugins it loads; and how
  \<open>mr/util.go\<close> starts a job. Random numbers, the process identifier, the clock's text, the list of names
  in a directory and which processes are alive are arguments.
\<close>

section \<open>Applications that may crash\<close>

datatype crash_fate = Exits | Delayed int | Runs

definition crash_maybeCrash :: "int \<Rightarrow> int \<Rightarrow> crash_fate" where
  "crash_maybeCrash rr ms = (if rr < 330 then Exits else if rr < 660 then Delayed ms else Runs)"

definition nocrash_maybeCrash :: "int \<Rightarrow> crash_fate" where
  "nocrash_maybeCrash rr = (if False \<and> rr < 500 then Exits else Runs)"

text \<open>\<^const>\<open>None\<close>: the process exits in the call.\<close>

definition crash_Map :: "int \<Rightarrow> int \<Rightarrow> string \<Rightarrow> string \<Rightarrow> KeyValue list option" where
  "crash_Map rr ms filename contents = (if crash_maybeCrash rr ms = Exits then None else
     Some [\<lparr>kKey = ''a'', kValue = filename\<rparr>, \<lparr>kKey = ''b'', kValue = itoa (int (length filename))\<rparr>,
           \<lparr>kKey = ''c'', kValue = itoa (int (length contents))\<rparr>, \<lparr>kKey = ''d'', kValue = ''xyzzy''\<rparr>])"

definition crash_Reduce :: "int \<Rightarrow> int \<Rightarrow> string \<Rightarrow> string list \<Rightarrow> string option" where
  "crash_Reduce rr ms key vals = (if crash_maybeCrash rr ms = Exits then None else Some (join_with '' '' (sort vals)))"

text \<open>
  A call either ends the process or computes what \<open>nocrash.go\<close> computes: in a job, the application
  \<open>crash.go\<close> is \<open>nocrash.go\<close> in workers that exit at any moment.
\<close>

lemma crash_is_nocrash:
  "crash_Map rr ms f c = (if rr < 330 then None else Some (nocrash_Map f c))"
  "crash_Reduce rr ms k vs = (if rr < 330 then None else Some (nocrash_Reduce k vs))"
  by (simp_all add: crash_Map_def crash_Reduce_def crash_maybeCrash_def nocrash_Map_def nocrash_Reduce_def)

section \<open>Counting map calls\<close>

definition jobcount_file :: "nat \<Rightarrow> nat \<Rightarrow> string" where
  "jobcount_file me cnt = ''mr-worker-jobcount-'' @ itoa (int me) @ ''-'' @ itoa (int cnt)"

text \<open>The result, the new value of the process's counter, and the files.\<close>

definition jobcount_Map :: "string \<Rightarrow> nat \<Rightarrow> nat \<Rightarrow> fsys \<Rightarrow> (KeyValue list \<times> nat \<times> fsys) outcome" where
  "jobcount_Map cwd me cnt fs =
     (let f = abs_path cwd (jobcount_file me cnt) in
      if can_create f fs then Ret ([\<lparr>kKey = ''a'', kValue = ''x''\<rparr>], cnt + 1, write_file f ''x'' fs) else Inl Panic)"

definition jobcount_Reduce :: "string list option \<Rightarrow> string outcome" where
  "jobcount_Reduce names = (case names of None \<Rightarrow> Inl Panic
     | Some ns \<Rightarrow> Ret (itoa (int (length (filter (\<lambda>n. take 18 n = ''mr-worker-jobcount'') ns)))))"

text \<open>Map calls of any processes, in any order; each process has its own counter.\<close>

fun jobcount_calls :: "string \<Rightarrow> nat list \<Rightarrow> (nat \<Rightarrow> nat) \<Rightarrow> fsys \<Rightarrow> ((nat \<Rightarrow> nat) \<times> fsys) outcome" where
  "jobcount_calls cwd [] cnt fs = Ret (cnt, fs)"
| "jobcount_calls cwd (p # pids) cnt fs = bindo (jobcount_Map cwd p (cnt p) fs) (\<lambda>(kvs, c, fs').
     jobcount_calls cwd pids (cnt(p := c)) fs')"

text \<open>What \<open>ioutil.ReadDir\<close> and \<open>Readdirnames\<close> return for a directory without subdirectories.\<close>

definition readdir_ok :: "string list \<Rightarrow> fsys \<Rightarrow> string list \<Rightarrow> bool" where
  "readdir_ok ws fs ns \<longleftrightarrow> distinct ns \<and> set ns = {n. plain_name n \<and> files fs (clean_dir (ws @ [n])) \<noteq> None}"

section \<open>Counting parallel workers\<close>

definition worker_file :: "string \<Rightarrow> nat \<Rightarrow> string" where
  "worker_file phase pid = ''mr-worker-'' @ phase @ ''-'' @ itoa (int pid)"

text \<open>\<open>fmt.Sscanf(name, "mr-worker-" + phase + "-%d", &xpid)\<close>: the text that follows the number is not looked at.\<close>

definition scan_int :: "string \<Rightarrow> int option" where
  "scan_int s =
     (let s1 = dropWhile (\<lambda>c. c = CHR '' '') s;
          neg = (s1 \<noteq> [] \<and> hd s1 = CHR ''-'');
          s2 = (if s1 \<noteq> [] \<and> (hd s1 = CHR ''-'' \<or> hd s1 = CHR ''+'') then tl s1 else s1);
          ds = takeWhile is_digit s2;
          v = (if neg then - int (str_nat ds) else int (str_nat ds))
      in if ds = [] \<or> v < - (2 ^ 63) \<or> v \<ge> 2 ^ 63 then None else Some v)"

definition scan_pid :: "string \<Rightarrow> string \<Rightarrow> int option" where
  "scan_pid phase name =
     (let p = ''mr-worker-'' @ phase @ ''-'' in
      if take (length p) name = p then scan_int (drop (length p) name) else None)"

definition nparallel_enter :: "string \<Rightarrow> string \<Rightarrow> nat \<Rightarrow> fsys \<Rightarrow> fsys outcome" where
  "nparallel_enter cwd phase pid fs =
     (let f = abs_path cwd (worker_file phase pid) in if can_create f fs then Ret (write_file f ''x'' fs) else Inl Panic)"

definition nparallel_count :: "string \<Rightarrow> (int \<Rightarrow> bool) \<Rightarrow> string list option \<Rightarrow> nat outcome" where
  "nparallel_count phase alive names = (case names of None \<Rightarrow> Inl Panic
     | Some ns \<Rightarrow> Ret (length (filter (\<lambda>n. case scan_pid phase n of None \<Rightarrow> False | Some xpid \<Rightarrow> alive xpid) ns)))"

definition nparallel_leave :: "string \<Rightarrow> string \<Rightarrow> nat \<Rightarrow> fsys \<Rightarrow> fsys outcome" where
  "nparallel_leave cwd phase pid fs =
     (let f = abs_path cwd (worker_file phase pid) in
      if files fs f = None then Inl Panic else Ret (fs\<lparr>files := (files fs)(f := None)\<rparr>))"

text \<open>A call that is not disturbed; \<open>ls\<close> lists the names in the directory.\<close>

definition nparallel :: "(fsys \<Rightarrow> string list option) \<Rightarrow> string \<Rightarrow> string \<Rightarrow> nat \<Rightarrow> (int \<Rightarrow> bool) \<Rightarrow> fsys \<Rightarrow> (nat \<times> fsys) outcome" where
  "nparallel ls cwd phase pid alive fs =
     bindo (nparallel_enter cwd phase pid fs) (\<lambda>fs1. bindo (nparallel_count phase alive (ls fs1)) (\<lambda>n.
     bindo (nparallel_leave cwd phase pid fs1) (\<lambda>fs2. Ret (n, fs2))))"

definition mtiming_Map :: "(fsys \<Rightarrow> string list option) \<Rightarrow> string \<Rightarrow> nat \<Rightarrow> string \<Rightarrow> (int \<Rightarrow> bool) \<Rightarrow> fsys \<Rightarrow> (KeyValue list \<times> fsys) outcome" where
  "mtiming_Map ls cwd pid ts alive fs = bindo (nparallel ls cwd ''map'' pid alive fs) (\<lambda>(n, fs'). Ret
     ([\<lparr>kKey = ''times-'' @ itoa (int pid), kValue = ts\<rparr>, \<lparr>kKey = ''parallel-'' @ itoa (int pid), kValue = itoa (int n)\<rparr>], fs'))"

definition mtiming_Reduce :: "string \<Rightarrow> string list \<Rightarrow> string" where
  "mtiming_Reduce key vals = join_with '' '' (sort vals)"

definition rtiming_Map :: "string \<Rightarrow> string \<Rightarrow> KeyValue list" where
  "rtiming_Map filename contents = map (\<lambda>k. \<lparr>kKey = [k], kValue = ''1''\<rparr>) ''abcdefghij''"

definition rtiming_Reduce :: "(fsys \<Rightarrow> string list option) \<Rightarrow> string \<Rightarrow> nat \<Rightarrow> (int \<Rightarrow> bool) \<Rightarrow> fsys \<Rightarrow> (string \<times> fsys) outcome" where
  "rtiming_Reduce ls cwd pid alive fs = bindo (nparallel ls cwd ''reduce'' pid alive fs) (\<lambda>(n, fs'). Ret (itoa (int n), fs'))"

interpretation mtiming: reduce_function mtiming_Reduce
  by unfold_locales (metis mtiming_Reduce_def sorted_list_of_multiset_mset)

section \<open>Programs and plugins\<close>

datatype plugin_symbol = MapSym "string \<Rightarrow> string \<Rightarrow> KeyValue list" | ReduceSym "string \<Rightarrow> string list \<Rightarrow> string" | OtherSym

text \<open>\<open>loadPlugin\<close>: \<open>plugin.Open\<close> is an argument; a symbol of another type fails the type assertion.\<close>

definition loadPlugin :: "(string \<Rightarrow> (string \<Rightarrow> plugin_symbol option) option) \<Rightarrow> string \<Rightarrow>
    ((string \<Rightarrow> string \<Rightarrow> KeyValue list) \<times> (string \<Rightarrow> string list \<Rightarrow> string)) outcome" where
  "loadPlugin Open filename = (case Open filename of None \<Rightarrow> Inl Fatal
     | Some Lookup \<Rightarrow> (case Lookup ''Map'' of None \<Rightarrow> Inl Fatal
         | Some (MapSym mapf) \<Rightarrow> (case Lookup ''Reduce'' of None \<Rightarrow> Inl Fatal
             | Some (ReduceSym reducef) \<Rightarrow> Ret (mapf, reducef) | Some _ \<Rightarrow> Inl Panic)
         | Some _ \<Rightarrow> Inl Panic))"

text \<open>The globals that \<open>Worker\<close> sets before its loop; \<open>wd\<close> is what \<open>os.Getwd\<close> returns.\<close>

record worker_globals =
  coordSockName :: string
  workerId :: int
  workerInitDir :: string

definition Worker_start :: "string \<Rightarrow> int \<Rightarrow> string option \<Rightarrow> worker_globals" where
  "Worker_start sockname pid wd =
     \<lparr>coordSockName = sockname, workerId = pid, workerInitDir = (case wd of None \<Rightarrow> '''' | Some d \<Rightarrow> d)\<rparr>"

text \<open>\<open>main/mrworker.go\<close> up to the loop of \<open>Worker\<close>.\<close>

definition mrworker :: "(string \<Rightarrow> (string \<Rightarrow> plugin_symbol option) option) \<Rightarrow> int \<Rightarrow> string option \<Rightarrow> string list \<Rightarrow>
    (worker_globals \<times> (string \<Rightarrow> string \<Rightarrow> KeyValue list) \<times> (string \<Rightarrow> string list \<Rightarrow> string)) outcome" where
  "mrworker Open pid wd args = (if length args \<noteq> 3 then Inl Fatal else
     bindo (loadPlugin Open (args ! 1)) (\<lambda>fs. Ret (Worker_start (args ! 2) pid wd, fs)))"

text \<open>What a test does to run a job, as the actions it performs; \<open>started\<close> says whether a process can be started.\<close>

datatype proc_act = Start string "string list" "string option" | WaitFor string | Notify int | Remove string

definition startWorker :: "string \<Rightarrow> bool \<Rightarrow> string \<Rightarrow> string \<Rightarrow> proc_act list outcome" where
  "startWorker tmp started app sock =
     (if started then Ret [Start ''../../main/mrworker'' [app, sock] (Some tmp)] else Inl Fatal)"

text \<open>The goroutine that waits for the worker.\<close>

definition worker_ended :: "bool \<Rightarrow> int \<Rightarrow> proc_act list" where
  "worker_ended c i = (if c then [Notify i] else [])"

fun startWorkers :: "string \<Rightarrow> (nat \<Rightarrow> bool) \<Rightarrow> string \<Rightarrow> string \<Rightarrow> nat list \<Rightarrow> proc_act list outcome" where
  "startWorkers tmp started app sock [] = Ret []"
| "startWorkers tmp started app sock (i # is) = bindo (startWorker tmp (started i) app sock) (\<lambda>a.
     bindo (startWorkers tmp started app sock is) (\<lambda>as. Ret (a @ as)))"

definition runMRchan :: "string \<Rightarrow> bool \<Rightarrow> (nat \<Rightarrow> bool) \<Rightarrow> bool \<Rightarrow> string list \<Rightarrow> string \<Rightarrow> nat \<Rightarrow> bool \<Rightarrow> string \<Rightarrow> proc_act list outcome" where
  "runMRchan tmp cstarted started waited fnames app n c sock =
     (if \<not> cstarted then Inl Fatal else
      bindo (startWorkers tmp started app sock [0..<n]) (\<lambda>as.
      if \<not> waited then Inl Fatal else
      Ret (Start ''../main/mrcoordinator'' (sock # fnames) None # as @ WaitFor ''../main/mrcoordinator'' #
           (if c then [Notify (int n)] else []) @ [Remove sock])))"

definition runMR :: "string \<Rightarrow> bool \<Rightarrow> (nat \<Rightarrow> bool) \<Rightarrow> bool \<Rightarrow> nat list \<Rightarrow> string list \<Rightarrow> string \<Rightarrow> nat \<Rightarrow> proc_act list outcome" where
  "runMR tmp cstarted started waited b fnames app n =
     bindo (coordinatorSock b) (\<lambda>sock. runMRchan tmp cstarted started waited fnames app n False sock)"

section \<open>The counts are exact\<close>

definition jobcount_names :: "string list \<Rightarrow> fsys \<Rightarrow> string set" where
  "jobcount_names ws fs = {n. plain_name n \<and> take 18 n = ''mr-worker-jobcount'' \<and> files fs (clean_dir (ws @ [n])) \<noteq> None}"

lemma jobcount_file_name: "plain_name (jobcount_file p k)" "take 18 (jobcount_file p k) = ''mr-worker-jobcount''"
  using itoa_no_slash by (simp_all add: plain_name_def jobcount_file_def)

lemma clean_dir_snoc_inject:
  assumes "ws \<noteq> []" shows "clean_dir (ws @ [a]) = clean_dir (ws @ [b]) \<longleftrightarrow> a = b"
  using clean_dir_snoc [OF assms] by simp

lemma jobcount_Map_step:
  assumes "test_dir_ok ps ws fs" "jobcount_file p c \<notin> jobcount_names ws fs"
  obtains fs' where "jobcount_Map (clean_dir ws) p c fs = Ret ([\<lparr>kKey = ''a'', kValue = ''x''\<rparr>], c + 1, fs')"
    "test_dir_ok ps ws fs'" "jobcount_names ws fs' = insert (jobcount_file p c) (jobcount_names ws fs)"
proof -
  let ?f = "clean_dir (ws @ [jobcount_file p c])" and ?fs = "fs\<lparr>files := (files fs)(clean_dir (ws @ [jobcount_file p c]) \<mapsto> ''x'')\<rparr>"
  have ws: "ws \<noteq> []" using assms(1) by (simp add: test_dir_ok_def)
  have "jobcount_Map (clean_dir ws) p c fs = Ret ([\<lparr>kKey = ''a'', kValue = ''x''\<rparr>], c + 1, ?fs)"
    using test_dir_files [OF assms(1) jobcount_file_name(1)] by (simp add: jobcount_Map_def Let_def)
  moreover have "test_dir_ok ps ws ?fs" using assms(1) by simp
  moreover have "jobcount_names ws ?fs = insert (jobcount_file p c) (jobcount_names ws fs)"
    using jobcount_file_name clean_dir_snoc_inject [OF ws] by (auto simp: jobcount_names_def)
  ultimately show thesis using that by blast
qed

text \<open>Every call makes a file of its own, whichever process makes it.\<close>

lemma jobcount_file_inject: "jobcount_file p k = jobcount_file q l \<longleftrightarrow> p = q \<and> k = l"
proof -
  have d: "CHR ''-'' \<notin> set (itoa (int n))" for n
    using not_in_nat_str [of "CHR ''-''" n] by (simp add: itoa_def)
  have "x @ CHR ''-'' # y = x' @ CHR ''-'' # y' \<longleftrightarrow> x = x' \<and> y = y'" if "CHR ''-'' \<notin> set x" "CHR ''-'' \<notin> set x'" for x y x' y' :: string
    using that
  proof (induction x arbitrary: x')
    case Nil then show ?case by (cases x') auto
  next
    case (Cons a x) then show ?case by (cases x') auto
  qed
  from this [OF d d] show ?thesis by (simp add: jobcount_file_def)
qed

lemma jobcount_calls_names:
  assumes "test_dir_ok ps ws fs" "finite (jobcount_names ws fs)"
    "\<And>p k. jobcount_file p k \<in> jobcount_names ws fs \<Longrightarrow> k < cnt p"
  shows "\<exists>cnt' fs'. jobcount_calls (clean_dir ws) pids cnt fs = Ret (cnt', fs') \<and> finite (jobcount_names ws fs') \<and>
    card (jobcount_names ws fs') = card (jobcount_names ws fs) + length pids"
  using assms
proof (induction pids arbitrary: cnt fs)
  case (Cons p pids)
  have new: "jobcount_file p (cnt p) \<notin> jobcount_names ws fs" using Cons.prems(3) by blast
  obtain fs1 where s: "jobcount_Map (clean_dir ws) p (cnt p) fs = Ret ([\<lparr>kKey = ''a'', kValue = ''x''\<rparr>], cnt p + 1, fs1)"
    "test_dir_ok ps ws fs1" "jobcount_names ws fs1 = insert (jobcount_file p (cnt p)) (jobcount_names ws fs)"
    by (rule jobcount_Map_step [OF Cons.prems(1) new])
  have low: "k < (cnt(p := cnt p + 1)) q" if "jobcount_file q k \<in> jobcount_names ws fs1" for q k
    using that Cons.prems(3) [of q k] unfolding s(3) by (auto simp: jobcount_file_inject)
  have "finite (jobcount_names ws fs1)" using Cons.prems(2) s(3) by simp
  from Cons.IH [where cnt = "cnt(p := cnt p + 1)", OF s(2) this low] obtain cnt' fs' where
    "jobcount_calls (clean_dir ws) pids (cnt(p := cnt p + 1)) fs1 = Ret (cnt', fs')" "finite (jobcount_names ws fs')"
    "card (jobcount_names ws fs') = card (jobcount_names ws fs1) + length pids" by blast
  then show ?case using s(1,3) new Cons.prems(2) by simp
qed simp

text \<open>
  The application that counts: when no such file was there before, the number that \<open>Reduce\<close>
  returns is the number of map calls.
\<close>

lemma jobcount_counts:
  assumes "test_dir_ok ps ws fs" "jobcount_names ws fs = {}"
  obtains cnt' fs' where "jobcount_calls (clean_dir ws) pids (\<lambda>_. 0) fs = Ret (cnt', fs')"
    "\<And>ns. readdir_ok ws fs' ns \<Longrightarrow> jobcount_Reduce (Some ns) = Ret (itoa (int (length pids)))"
proof -
  obtain cnt' fs' where r: "jobcount_calls (clean_dir ws) pids (\<lambda>_. 0) fs = Ret (cnt', fs')"
    and c: "card (jobcount_names ws fs') = length pids"
    using jobcount_calls_names [OF assms(1), of "\<lambda>_. 0" pids] assms(2) by auto
  have "jobcount_Reduce (Some ns) = Ret (itoa (int (length pids)))" if "readdir_ok ws fs' ns" for ns
  proof -
    have "distinct (filter (\<lambda>n. take 18 n = ''mr-worker-jobcount'') ns)"
      "set (filter (\<lambda>n. take 18 n = ''mr-worker-jobcount'') ns) = jobcount_names ws fs'"
      using that by (auto simp: readdir_ok_def jobcount_names_def)
    then show ?thesis using c distinct_card by (fastforce simp: jobcount_Reduce_def)
  qed
  with r show thesis using that by blast
qed

text \<open>
  The number of processes a worker sees in a phase is the number of live ones whose file is in
  the directory: the files have the names of processes, each is scanned to the process it names,
  and files of other phases are not counted.
\<close>

lemma scan_worker_file: "int pid < 2 ^ 63 \<Longrightarrow> scan_pid phase (worker_file phase pid) = Some (int pid)"
proof -
  assume b: "int pid < 2 ^ 63"
  have d: "\<forall>c\<in>set (nat_str pid). is_digit c" "nat_str pid \<noteq> []" "str_nat (nat_str pid) = pid"
    using is_digit_nat_str [of pid] by (simp_all add: list_all_iff str_nat_nat_str)
  then obtain c cs where e: "nat_str pid = c # cs" by (cases "nat_str pid") auto
  have "c \<noteq> CHR '' ''" "c \<noteq> CHR ''-''" "c \<noteq> CHR ''+''" using d(1) e by (auto simp: is_digit_def)
  then have "scan_int (nat_str pid) = Some (int pid)"
    using d b e by (simp add: scan_int_def Let_def takeWhile_eq_all_conv [THEN iffD2])
  then show ?thesis by (simp add: scan_pid_def worker_file_def itoa_def Let_def)
qed

lemma nparallel_exact:
  assumes "distinct pids" "set ns = worker_file phase ` set pids \<union> others" "distinct ns"
    "\<And>n. n \<in> others \<Longrightarrow> scan_pid phase n = None" "\<And>p. p \<in> set pids \<Longrightarrow> int p < 2 ^ 63"
  shows "nparallel_count phase alive (Some ns) = Ret (length (filter (\<lambda>p. alive (int p)) pids))"
proof -
  let ?P = "\<lambda>n. case scan_pid phase n of None \<Rightarrow> False | Some xpid \<Rightarrow> alive xpid"
  have "inj_on (worker_file phase) (set (filter (\<lambda>p. alive (int p)) pids))" by (auto simp: inj_on_def worker_file_def)
  moreover have "set (filter ?P ns) = worker_file phase ` set (filter (\<lambda>p. alive (int p)) pids)"
    using assms(2,4,5) scan_worker_file by (fastforce split: option.splits)
  ultimately have "card (set (filter ?P ns)) = card (set (filter (\<lambda>p. alive (int p)) pids))" by (metis card_image)
  then have "length (filter ?P ns) = length (filter (\<lambda>p. alive (int p)) pids)"
    using assms(1,3) by (metis distinct_card distinct_filter)
  then show ?thesis by (simp add: nparallel_count_def)
qed

text \<open>Undisturbed, a call leaves no trace in the directory, and counts at least itself.\<close>

lemma nparallel_alone:
  assumes "test_dir_ok ps ws fs" "files fs (clean_dir (ws @ [worker_file phase pid])) = None"
    "plain_name (worker_file phase pid)" "int pid < 2 ^ 63" "alive (int pid)" "\<And>g. readdir_ok ws g (ls g)"
  obtains n where "nparallel (\<lambda>g. Some (ls g)) (clean_dir ws) phase pid alive fs = Ret (n, fs)" "0 < n"
proof -
  let ?f = "clean_dir (ws @ [worker_file phase pid])"
  let ?fs = "fs\<lparr>files := (files fs)(?f \<mapsto> ''x'')\<rparr>"
  let ?P = "\<lambda>n. case scan_pid phase n of None \<Rightarrow> False | Some xpid \<Rightarrow> alive xpid"
  note f = test_dir_files [OF assms(1,3)]
  have "worker_file phase pid \<in> set (filter ?P (ls ?fs))"
    using assms(6) [of ?fs] assms(3,5) scan_worker_file [OF assms(4)] by (simp add: readdir_ok_def)
  then have "0 < length (filter ?P (ls ?fs))" by (metis length_pos_if_in_set)
  moreover have "fs\<lparr>files := (files ?fs)(?f := None)\<rparr> = fs" using assms(2) by (cases fs) (auto simp: fun_upd_idem)
  then have "nparallel (\<lambda>g. Some (ls g)) (clean_dir ws) phase pid alive fs = Ret (length (filter ?P (ls ?fs)), fs)"
    using f by (simp add: nparallel_def nparallel_enter_def nparallel_count_def nparallel_leave_def Let_def)
  ultimately show thesis using that by blast
qed

end
