(* ===== verification/Labgob.thy ===== *)
theory Labgob
  imports Prelude
begin

text \<open>
  The checks of \<open>labgob/labgob.go\<close>, the wrapper around Go's encoder: before a value is encoded or
  decoded its type is walked for fields that would not be sent, each type once; before a decode the
  target is searched for values that are already set. A type is a number with an entry in a table of
  the program's types, which may be recursive. Names are ASCII; the encoder itself is an argument
  wherever it is used.
\<close>

section \<open>Types\<close>

type_synonym typeid = nat

datatype go_kind = KStruct "(string \<times> typeid) list" | KSlice typeid | KArray typeid | KPtr typeid | KMap typeid typeid | KOther

record go_type =
  t_Name :: string
  t_Kind :: go_kind

type_synonym type_table = "(typeid \<times> go_type) list"

text \<open>The package's variables: the types that were checked, the number of errors, and what was printed.\<close>

record labgob =
  checked :: "typeid list"
  errorCount :: int
  printed :: "(string \<times> string) list"

definition labgob_init :: labgob where
  "labgob_init = \<lparr>checked = [], errorCount = 0, printed = []\<rparr>"

definition IsUpper :: "string \<Rightarrow> bool" where
  "IsUpper name \<longleftrightarrow> name \<noteq> [] \<and> 65 \<le> (of_char (hd name) :: nat) \<and> of_char (hd name) \<le> (90 :: nat)"

text \<open>What the walk has to look at next: a type, and the field it was found in, if any.\<close>

type_synonym check_item = "(string \<times> string) option \<times> typeid"

definition parts :: "type_table \<Rightarrow> typeid \<Rightarrow> check_item list" where
  "parts tt t = (case map_of tt t of
      None \<Rightarrow> []
    | Some ty \<Rightarrow> (case t_Kind ty of
        KStruct fs \<Rightarrow> map (\<lambda>(name, u). (Some (name, t_Name ty), u)) fs
      | KSlice u \<Rightarrow> [(None, u)]
      | KArray u \<Rightarrow> [(None, u)]
      | KPtr u \<Rightarrow> [(None, u)]
      | KMap e k \<Rightarrow> [(None, e), (None, k)]
      | KOther \<Rightarrow> []))"

text \<open>The complaint about a field that starts with a lower-case letter.\<close>

definition complain :: "(string \<times> string) option \<Rightarrow> labgob \<Rightarrow> labgob" where
  "complain fld g = (case fld of
      Some (name, tname) \<Rightarrow> if \<not> IsUpper name
        then g\<lparr>errorCount := errorCount g + 1, printed := printed g @ [(name, tname)]\<rparr> else g
    | None \<Rightarrow> g)"

text \<open>
  The recursion of \<open>checkType\<close> over the parts of a type, in their order. A type is marked before
  its parts are walked.
\<close>

function check_parts :: "type_table \<Rightarrow> check_item list \<Rightarrow> labgob \<Rightarrow> labgob" where
  "check_parts tt [] g = g"
| "check_parts tt ((fld, t) # rest) g =
     (let g1 = complain fld g in
      check_parts tt rest
        (if t \<in> set (checked g1) then g1 else check_parts tt (parts tt t) (g1\<lparr>checked := t # checked g1\<rparr>)))"
  by pat_completeness auto

lemma complain_checked [simp]: "checked (complain fld g) = checked g"
  by (auto simp: complain_def split: option.splits)

lemma check_parts_checked: "check_parts_dom (tt, is, g) \<Longrightarrow> set (checked g) \<subseteq> set (checked (check_parts tt is g))"
proof (induction rule: check_parts.pinduct)
  case (2 tt fld t rest g)
  let ?x = "complain fld g"
  let ?g = "if t \<in> set (checked ?x) then ?x else check_parts tt (parts tt t) (?x\<lparr>checked := t # checked ?x\<rparr>)"
  have "set (checked g) \<subseteq> set (checked ?g)" using "2.IH"(1) [OF refl] by auto
  also have "\<dots> \<subseteq> set (checked (check_parts tt rest ?g))" by (rule "2.IH"(2) [OF refl])
  also have "check_parts tt rest ?g = check_parts tt ((fld, t) # rest) g" 
    using check_parts.psimps(2) [OF "2.hyps"] by (simp only: Let_def)
  finally show ?case .
qed (simp only: check_parts.psimps(1))

lemma parts_unknown: "t \<notin> fst ` set tt \<Longrightarrow> parts tt t = []"
proof -
  assume "t \<notin> fst ` set tt"
  then have "map_of tt t = None" by (simp add: map_of_eq_None_iff)
  then show "parts tt t = []" unfolding parts_def by (simp only: option.case)
qed

termination check_parts
proof (relation "inv_image (finite_psubset <*lex*> less_than) (\<lambda>(tt, is, g). (fst ` set tt - set (checked g), length is))")
  fix tt fld t rest g x
  assume x: "x = complain fld g" "t \<notin> set (checked x)"
  show "((tt, parts tt t, x\<lparr>checked := t # checked x\<rparr>), tt, (fld, t) # rest, g)
    \<in> inv_image (finite_psubset <*lex*> less_than) (\<lambda>(tt, is, g). (fst ` set tt - set (checked g), length is))"
    using x by (cases "t \<in> fst ` set tt") (auto simp: parts_unknown)
next
  fix tt fld t rest g x
  assume x: "x = complain fld g" "t \<notin> set (checked x) \<Longrightarrow> check_parts_dom (tt, parts tt t, x\<lparr>checked := t # checked x\<rparr>)"
  let ?g = "if t \<in> set (checked x) then x else check_parts tt (parts tt t) (x\<lparr>checked := t # checked x\<rparr>)"
  have "set (checked g) \<subseteq> set (checked ?g)"
    using x check_parts_checked [of tt "parts tt t" "x\<lparr>checked := t # checked x\<rparr>"] by auto
  then show "((tt, rest, ?g), tt, (fld, t) # rest, g)
    \<in> inv_image (finite_psubset <*lex*> less_than) (\<lambda>(tt, is, g). (fst ` set tt - set (checked g), length is))"
    by auto
qed auto

definition checkType :: "type_table \<Rightarrow> typeid \<Rightarrow> labgob \<Rightarrow> labgob" where
  "checkType tt t g = (if t \<in> set (checked g) then g else check_parts tt (parts tt t) (g\<lparr>checked := t # checked g\<rparr>))"

definition checkValue :: "type_table \<Rightarrow> typeid \<Rightarrow> labgob \<Rightarrow> labgob" where
  "checkValue tt t g = checkType tt t g"

section \<open>What the walk finds\<close>

definition bad_items :: "check_item list \<Rightarrow> (string \<times> string) list" where
  "bad_items is = concat (map (\<lambda>(fld, _). case fld of Some f \<Rightarrow> if IsUpper (fst f) then [] else [f] | None \<Rightarrow> []) is)"

text \<open>The fields of a type that will not be sent.\<close>

definition bad_fields :: "type_table \<Rightarrow> typeid \<Rightarrow> (string \<times> string) list" where
  "bad_fields tt t = bad_items (parts tt t)"

definition part_of :: "type_table \<Rightarrow> (typeid \<times> typeid) set" where
  "part_of tt = {(t, u). u \<in> snd ` set (parts tt t)}"

definition reach :: "type_table \<Rightarrow> typeid set \<Rightarrow> typeid set" where
  "reach tt ts = (part_of tt)\<^sup>* `` ts"

definition closed :: "type_table \<Rightarrow> labgob \<Rightarrow> bool" where
  "closed tt g \<longleftrightarrow> (\<forall>t\<in>set (checked g). snd ` set (parts tt t) \<subseteq> set (checked g))"

lemma bad_items_Cons: "bad_items ((fld, t) # is) = (case fld of Some f \<Rightarrow> if IsUpper (fst f) then [] else [f] | None \<Rightarrow> []) @ bad_items is"
  by (simp add: bad_items_def)

lemma complain_printed:
  "printed (complain fld g) = printed g @ bad_items [(fld, t)]"
  "errorCount (complain fld g) = errorCount g + int (length (bad_items [(fld, t)]))"
  by (auto simp: complain_def bad_items_def split: option.splits)

text \<open>A walk as a relation between the states before and after it.\<close>

definition walked :: "type_table \<Rightarrow> check_item list \<Rightarrow> labgob \<Rightarrow> labgob \<Rightarrow> bool" where
  "walked tt is g g' \<longleftrightarrow> (let C = set (checked g); C' = set (checked g') in
     C \<subseteq> C' \<and> snd ` set is \<subseteq> C' \<and> C' \<subseteq> C \<union> reach tt (snd ` set is) \<and>
     (\<forall>t\<in>C' - C. snd ` set (parts tt t) \<subseteq> C') \<and>
     mset (printed g') = mset (printed g) + mset (bad_items is) + (\<Sum>t\<in>C' - C. mset (bad_fields tt t)) \<and>
     errorCount g' - int (length (printed g')) = errorCount g - int (length (printed g)) \<and>
     (distinct (checked g) \<longrightarrow> distinct (checked g')))"

lemma reach_step: "t \<in> ts \<Longrightarrow> reach tt (snd ` set (parts tt t)) \<subseteq> reach tt ts"
  by (auto simp: reach_def part_of_def intro: converse_rtrancl_into_rtrancl)

lemma reach_mono: "ts \<subseteq> us \<Longrightarrow> reach tt ts \<subseteq> reach tt us"
  by (auto simp: reach_def)

lemma reach_self: "ts \<subseteq> reach tt ts"
  by (auto simp: reach_def)

text \<open>A walk of the parts of a type that has just been marked, and then of the rest.\<close>

lemma walked_visit:
  assumes "t \<notin> set (checked g)" "walked tt (parts tt t) (g\<lparr>checked := t # checked g\<rparr>) g'"
  shows "walked tt [(None, t)] g g'"
proof -
  let ?C = "set (checked g)" and ?C' = "set (checked g')"
  have w: "insert t ?C \<subseteq> ?C'" "snd ` set (parts tt t) \<subseteq> ?C'" "?C' \<subseteq> insert t ?C \<union> reach tt (snd ` set (parts tt t))"
    "\<forall>u\<in>?C' - insert t ?C. snd ` set (parts tt u) \<subseteq> ?C'"
    "mset (printed g') = mset (printed g) + mset (bad_fields tt t) + (\<Sum>u\<in>?C' - insert t ?C. mset (bad_fields tt u))"
    "errorCount g' - int (length (printed g')) = errorCount g - int (length (printed g))"
    "distinct (checked g) \<longrightarrow> distinct (checked g')"
    using assms by (simp_all add: walked_def Let_def bad_fields_def)
  have split: "?C' - ?C = insert t (?C' - insert t ?C)" using w(1) assms(1) by blast
  have "(\<Sum>u\<in>?C' - ?C. mset (bad_fields tt u)) = mset (bad_fields tt t) + (\<Sum>u\<in>?C' - insert t ?C. mset (bad_fields tt u))"
    unfolding split by (subst sum.insert) auto
  moreover have "?C' \<subseteq> ?C \<union> reach tt {t}" using w(3) reach_step [of t "{t}" tt] reach_self [of "{t}" tt] by blast
  moreover have "\<forall>u\<in>?C' - ?C. snd ` set (parts tt u) \<subseteq> ?C'" using w(2,4) split by blast
  ultimately show ?thesis using w(1,5-) by (simp add: walked_def Let_def bad_items_def)
qed

lemma walked_seq:
  assumes "walked tt [(fld, t)] g g1" "walked tt rest g1 g'"
  shows "walked tt ((fld, t) # rest) g g'"
proof -
  let ?C = "set (checked g)" and ?C1 = "set (checked g1)" and ?C' = "set (checked g')"
  have 1: "?C \<subseteq> ?C1" "t \<in> ?C1" "?C1 \<subseteq> ?C \<union> reach tt {t}" "\<forall>u\<in>?C1 - ?C. snd ` set (parts tt u) \<subseteq> ?C1"
    "mset (printed g1) = mset (printed g) + mset (bad_items [(fld, t)]) + (\<Sum>u\<in>?C1 - ?C. mset (bad_fields tt u))"
    "errorCount g1 - int (length (printed g1)) = errorCount g - int (length (printed g))"
    "distinct (checked g) \<longrightarrow> distinct (checked g1)"
    using assms(1) by (simp_all add: walked_def Let_def)
  have 2: "?C1 \<subseteq> ?C'" "snd ` set rest \<subseteq> ?C'" "?C' \<subseteq> ?C1 \<union> reach tt (snd ` set rest)"
    "\<forall>u\<in>?C' - ?C1. snd ` set (parts tt u) \<subseteq> ?C'"
    "mset (printed g') = mset (printed g1) + mset (bad_items rest) + (\<Sum>u\<in>?C' - ?C1. mset (bad_fields tt u))"
    "errorCount g' - int (length (printed g')) = errorCount g1 - int (length (printed g1))"
    "distinct (checked g1) \<longrightarrow> distinct (checked g')"
    using assms(2) by (simp_all add: walked_def Let_def)
  have "?C' - ?C = (?C1 - ?C) \<union> (?C' - ?C1)" "(?C1 - ?C) \<inter> (?C' - ?C1) = {}" using 1(1) 2(1) by blast+
  then have "(\<Sum>u\<in>?C' - ?C. mset (bad_fields tt u)) = (\<Sum>u\<in>?C1 - ?C. mset (bad_fields tt u)) + (\<Sum>u\<in>?C' - ?C1. mset (bad_fields tt u))"
    using sum.union_disjoint [of "?C1 - ?C" "?C' - ?C1"] by simp
  moreover have "mset (bad_items ((fld, t) # rest)) = mset (bad_items [(fld, t)]) + mset (bad_items rest)"
    by (simp add: bad_items_def)
  moreover have "?C' \<subseteq> ?C \<union> reach tt (insert t (snd ` set rest))"
    using 1(3) 2(3) reach_mono [of "{t}" "insert t (snd ` set rest)" tt] reach_mono [of "snd ` set rest" "insert t (snd ` set rest)" tt] by blast
  moreover have "\<forall>u\<in>?C' - ?C. snd ` set (parts tt u) \<subseteq> ?C'" "?C \<subseteq> ?C'" "t \<in> ?C'" using 1(1,2,4) 2(1,4) by blast+
  ultimately show ?thesis using 1(5-7) 2(2,5-7) by (simp add: walked_def Let_def)
qed

lemma walked_complain:
  assumes "walked tt [(None, t)] (complain fld g) g'"
  shows "walked tt [(fld, t)] g g'"
  using assms complain_printed [of fld g t] by (simp add: walked_def Let_def bad_items_Cons [of None]) (simp add: bad_items_def)

lemma check_parts_walked: "walked tt is g (check_parts tt is g)"
proof (induction tt "is" g rule: check_parts.induct)
  case (1 tt g)
  show ?case by (simp add: walked_def bad_items_def)
next
  case (2 tt fld t rest g)
  let ?x = "complain fld g"
  let ?g = "if t \<in> set (checked ?x) then ?x else check_parts tt (parts tt t) (?x\<lparr>checked := t # checked ?x\<rparr>)"
  have "walked tt [(None, t)] ?x ?g"
  proof (cases "t \<in> set (checked ?x)")
    case False
    then show ?thesis using walked_visit [OF False "2.IH"(1) [OF refl False]] by simp
  qed (simp add: walked_def bad_items_def)
  then have "walked tt [(fld, t)] g ?g" by (rule walked_complain)
  moreover have "walked tt rest ?g (check_parts tt rest ?g)" by (rule "2.IH"(2) [OF refl])
  ultimately have "walked tt ((fld, t) # rest) g (check_parts tt rest ?g)" by (rule walked_seq)
  then show ?case by (simp only: check_parts.simps(2) Let_def)
qed

lemma checkType_eq: "checkType tt t g = check_parts tt [(None, t)] g"
  by (simp add: checkType_def complain_def Let_def)

lemma closed_reach:
  assumes "closed tt g" "ts \<subseteq> set (checked g)"
  shows "reach tt ts \<subseteq> set (checked g)"
proof
  fix u assume "u \<in> reach tt ts"
  then obtain t where "t \<in> ts" "(t, u) \<in> (part_of tt)\<^sup>*" by (auto simp: reach_def)
  from this(2,1) show "u \<in> set (checked g)"
    by induction (use assms in \<open>auto simp: closed_def part_of_def\<close>)
qed

text \<open>
  C27. The type check ends on every type, recursive ones included, and finds exactly what it should:
  it checks every type that can be reached from the value's type, each once, and complains exactly
  once about each lower-case field of each type that was not checked before; the error count grows
  by the number of complaints. What has been checked stays closed under parts.
\<close>

theorem checkValue_exact:
  assumes "closed tt g" and g'_def: "g' = checkValue tt t g"
  shows "closed tt g' \<and> set (checked g') = set (checked g) \<union> reach tt {t} \<and> (distinct (checked g) \<longrightarrow> distinct (checked g')) \<and>
    mset (printed g') = mset (printed g) + (\<Sum>u\<in>reach tt {t} - set (checked g). mset (bad_fields tt u)) \<and>
    errorCount g' = errorCount g + (\<Sum>u\<in>reach tt {t} - set (checked g). int (length (bad_fields tt u)))"
proof -
  let ?C = "set (checked g)" and ?C' = "set (checked g')" and ?new = "reach tt {t} - set (checked g)"
  have w: "walked tt [(None, t)] g g'" unfolding g'_def checkValue_def checkType_eq by (rule check_parts_walked)
  then have "?C \<subseteq> ?C'" "t \<in> ?C'" "?C' \<subseteq> ?C \<union> reach tt {t}" "\<forall>u\<in>?C' - ?C. snd ` set (parts tt u) \<subseteq> ?C'"
    by (simp_all add: walked_def Let_def)
  moreover from this have cl: "closed tt g'" using assms(1) unfolding closed_def by blast
  then have "reach tt {t} \<subseteq> ?C'" using closed_reach [OF cl, of "{t}"] \<open>t \<in> ?C'\<close> by simp
  ultimately have C': "?C' = ?C \<union> reach tt {t}" by blast
  then have new: "?C' - ?C = ?new" by blast
  have p: "mset (printed g') = mset (printed g) + (\<Sum>u\<in>?new. mset (bad_fields tt u))"
    and e: "errorCount g' - int (length (printed g')) = errorCount g - int (length (printed g))"
    and d: "distinct (checked g) \<longrightarrow> distinct (checked g')"
    using w by (simp_all add: walked_def Let_def new bad_items_def)
  have "finite ?new" using finite_set [of "checked g'"] C' by (metis finite_Diff finite_Un)
  then have "size (\<Sum>u\<in>?new. mset (bad_fields tt u)) = (\<Sum>u\<in>?new. length (bad_fields tt u))" by (simp add: size_multiset_sum)
  then have "length (printed g') = length (printed g) + (\<Sum>u\<in>?new. length (bad_fields tt u))"
    using arg_cong [OF p, of size] by simp
  then show ?thesis using cl C' d p e by simp
qed

text \<open>A recursive type: \<open>type Node struct { val int; Next *Node }\<close>.\<close>

definition node_table :: type_table where
  "node_table = [(0, \<lparr>t_Name = ''Node'', t_Kind = KStruct [(''val'', 2), (''Next'', 1)]\<rparr>),
     (1, \<lparr>t_Name = '''', t_Kind = KPtr 0\<rparr>), (2, \<lparr>t_Name = ''int'', t_Kind = KOther\<rparr>)]"

lemma node_walk: "checkValue node_table 1 labgob_init = \<lparr>checked = [2, 0, 1], errorCount = 1, printed = [(''val'', ''Node'')]\<rparr>"
  by code_simp

theorem checkValue_exact_witness:
  "reach node_table {1} = {0, 1, 2} \<and> (\<Sum>u\<in>reach node_table {1}. int (length (bad_fields node_table u))) = 1"
proof -
  have "closed node_table labgob_init" by (simp add: closed_def labgob_init_def)
  note r = checkValue_exact [OF this node_walk [symmetric]]
  have "{2, 0, 1} = reach node_table {1}" using conjunct1 [OF conjunct2 [OF r]] by (simp add: labgob_init_def)
  then have "reach node_table {1} = {0, 1, 2}" by (metis insert_commute)
  moreover have "(\<Sum>u\<in>reach node_table {1}. int (length (bad_fields node_table u))) = 1"
    using conjunct2 [OF conjunct2 [OF conjunct2 [OF conjunct2 [OF r]]]] by (simp add: labgob_init_def)
  ultimately show ?thesis by blast
qed

section \<open>Values that are already set\<close>

text \<open>
  What \<open>checkDefault1\<close> distinguishes of a value: a struct, a pointer, a value of a basic type with
  the name of the type and whether it is zero, or anything else.
\<close>

datatype go_value = VStruct "(string \<times> go_value) list" | VPtr "go_value option" | VBasic string bool | VOther

text \<open>The warning is printed only if there has been no error.\<close>

definition warn :: "string \<Rightarrow> string \<Rightarrow> labgob \<Rightarrow> labgob" where
  "warn name tname g = g\<lparr>printed := (if errorCount g < 1 then printed g @ [(if name = '''' then tname else name, '''')] else printed g),
     errorCount := errorCount g + 1\<rparr>"

definition field_name :: "string \<Rightarrow> string \<Rightarrow> string" where
  "field_name name name1 = (if name \<noteq> '''' then name @ ''.'' @ name1 else name1)"

function checkDefault1 :: "go_value \<Rightarrow> nat \<Rightarrow> string \<Rightarrow> labgob \<Rightarrow> labgob" where
  "checkDefault1 v depth name g = (if depth > 3 then g else case v of
      VStruct fs \<Rightarrow> fold (\<lambda>(name1, vv) g. checkDefault1 vv (depth + 1) (field_name name name1) g) fs g
    | VPtr None \<Rightarrow> g
    | VPtr (Some vv) \<Rightarrow> checkDefault1 vv (depth + 1) name g
    | VBasic tname zero \<Rightarrow> if \<not> zero then warn name tname g else g
    | VOther \<Rightarrow> g)"
  by pat_completeness auto

termination checkDefault1
  by (relation "measure (\<lambda>(v, depth, name, g). 4 - depth)") auto

declare checkDefault1.simps [simp del]

definition checkDefault :: "go_value option \<Rightarrow> labgob \<Rightarrow> labgob" where
  "checkDefault v g = (case v of None \<Rightarrow> g | Some v \<Rightarrow> checkDefault1 v 1 '''' g)"

text \<open>The values a decode may fail to overwrite, up to the depth that is searched.\<close>

fun set_leaves :: "nat \<Rightarrow> go_value \<Rightarrow> nat" where
  "set_leaves 0 v = 0"
| "set_leaves (Suc d) (VStruct fs) = sum_list (map (\<lambda>(_, v). set_leaves d v) fs)"
| "set_leaves (Suc d) (VPtr None) = 0"
| "set_leaves (Suc d) (VPtr (Some v)) = set_leaves d v"
| "set_leaves (Suc d) (VBasic tname zero) = (if zero then 0 else 1)"
| "set_leaves (Suc d) VOther = 0"

lemma checkDefault1_count:
  "depth + d = 4 \<Longrightarrow> errorCount (checkDefault1 v depth name g) = errorCount g + int (set_leaves d v)"
proof (induction d arbitrary: v depth name g)
  case 0
  then show ?case by (simp add: checkDefault1.simps)
next
  case (Suc d)
  have "errorCount (fold (\<lambda>(name1, vv) g. checkDefault1 vv (depth + 1) (field_name name name1) g) fs g) =
    errorCount g + int (sum_list (map (\<lambda>(_, v). set_leaves d v) fs))" for fs g
    using Suc.IH [of "depth + 1"] Suc.prems by (induction fs arbitrary: g) (auto split: prod.splits)
  then show ?case using Suc.IH [of "depth + 1"] Suc.prems
    by (cases v; subst checkDefault1.simps) (auto simp: warn_def split: option.splits)
qed

lemma checkDefault_count: "errorCount (checkDefault (Some v) g) = errorCount g + int (set_leaves 3 v)"
  using checkDefault1_count [of 1 3 v "[]" g] by (simp add: checkDefault_def)

section \<open>Encoding and decoding\<close>

definition LabEncoder_Encode :: "type_table \<Rightarrow> (go_value \<Rightarrow> 'r) \<Rightarrow> typeid \<Rightarrow> go_value \<Rightarrow> labgob \<Rightarrow> 'r \<times> labgob" where
  "LabEncoder_Encode tt gob t e g = (gob e, checkValue tt t g)"

definition LabEncoder_EncodeValue :: "type_table \<Rightarrow> (go_value \<Rightarrow> 'r) \<Rightarrow> typeid \<Rightarrow> go_value \<Rightarrow> labgob \<Rightarrow> 'r \<times> labgob" where
  "LabEncoder_EncodeValue tt gob_EncodeValue t e lg = (gob_EncodeValue e, checkValue tt t lg)"

definition LabDecoder_Decode :: "type_table \<Rightarrow> (go_value \<Rightarrow> 'r) \<Rightarrow> typeid \<Rightarrow> go_value \<Rightarrow> labgob \<Rightarrow> 'r \<times> labgob" where
  "LabDecoder_Decode tt gob t e g = (gob e, checkDefault (Some e) (checkValue tt t g))"

definition Register :: "type_table \<Rightarrow> typeid \<Rightarrow> labgob \<Rightarrow> labgob" where
  "Register tt t g = checkValue tt t g"

text \<open>A run of encodes and decodes keeps the table of checked types closed, so that the check stays exact.\<close>

lemma checkDefault1_checked [simp]: "checked (checkDefault1 v depth name g) = checked g"
proof (induction v depth name g rule: checkDefault1.induct)
  case (1 v depth name g)
  have f: "checked (fold (\<lambda>(name1, vv) g. checkDefault1 vv (depth + 1) (field_name name name1) g) fs g') = checked g'"
    if "\<And>x g'. x \<in> set fs \<Longrightarrow> checked (checkDefault1 (snd x) (depth + 1) (field_name name (fst x)) g') = checked g'" for fs g'
    using that by (induction fs arbitrary: g') (auto split: prod.splits)
  show ?case using "1.IH" f by (subst checkDefault1.simps) (auto simp: warn_def split: go_value.splits option.splits)
qed


end
