(* ===== verification/Services.thy ===== *)
theory Services
  imports KVNet Labgob
begin

text \<open>
  How an object becomes a service of the simulated network: \<open>MakeService\<close> of \<open>labrpc/labrpc.go\<close> walks the
  methods of the object's type and takes those that look like handlers. A method is what reflection tells about it, with types
  in the table of types that the encoder checks use.
\<close>

record 's gmethod =
  gm_Name :: string
  gm_PkgPath :: string
  gm_In :: "typeid list"
  gm_NumOut :: nat
  gm_Func :: "bytes \<Rightarrow> 's \<Rightarrow> bytes \<times> 's"

definition is_ptr :: "type_table \<Rightarrow> typeid \<Rightarrow> bool" where
  "is_ptr tt t = (case map_of tt t of None \<Rightarrow> False | Some ty \<Rightarrow> (case t_Kind ty of KPtr u \<Rightarrow> True | _ \<Rightarrow> False))"

definition not_handler :: "type_table \<Rightarrow> 's gmethod \<Rightarrow> bool" where
  "not_handler tt m \<longleftrightarrow> gm_PkgPath m \<noteq> [] \<or> length (gm_In m) \<noteq> 3 \<or> \<not> is_ptr tt (gm_In m ! 2) \<or> gm_NumOut m \<noteq> 0"

definition MakeService :: "type_table \<Rightarrow> string \<Rightarrow> 's gmethod list \<Rightarrow> 's Service" where
  "MakeService tt nam methods = \<lparr>svc_name = nam, svc_methods =
     fold (\<lambda>m ms. if not_handler tt m then ms else ms(gm_Name m \<mapsto> gm_Func m)) methods Map.empty\<rparr>"

lemma svc_methods_fold:
  assumes "distinct (map gm_Name methods)"
  shows "fold (\<lambda>m ms. if not_handler tt m then ms else ms(gm_Name m \<mapsto> gm_Func m)) methods ms n =
    (case find (\<lambda>m. gm_Name m = n \<and> \<not> not_handler tt m) methods of None \<Rightarrow> ms n | Some m \<Rightarrow> Some (gm_Func m))"
  using assms
proof (induction methods arbitrary: ms)
  case (Cons m methods)
  have "find (\<lambda>m'. gm_Name m' = gm_Name m \<and> \<not> not_handler tt m') methods = None"
    using Cons.prems by (auto simp: find_None_iff image_iff)
  then show ?case using Cons by (auto simp: split: option.splits)
qed simp

text \<open>
  A type has no two methods of one name. The calls of its service reach just the handlers among its methods; a call of
  any other name ends the process.
\<close>

lemma MakeService_dispatch:
  assumes "distinct (map gm_Name methods)"
  shows "m \<in> set methods \<Longrightarrow> \<not> not_handler tt m \<Longrightarrow> svc_methods (MakeService tt nam methods) (gm_Name m) = Some (gm_Func m)"
    and "\<forall>m\<in>set methods. gm_Name m = n \<longrightarrow> not_handler tt m \<Longrightarrow> Service_dispatch (MakeService tt nam methods) n req st = Inl Fatal"
proof -
  note f = svc_methods_fold [OF assms, of tt Map.empty]
  show "svc_methods (MakeService tt nam methods) (gm_Name m) = Some (gm_Func m)" if m: "m \<in> set methods" "\<not> not_handler tt m"
  proof -
    obtain m' where "find (\<lambda>m'. gm_Name m' = gm_Name m \<and> \<not> not_handler tt m') methods = Some m'"
      using m by (cases "find (\<lambda>m'. gm_Name m' = gm_Name m \<and> \<not> not_handler tt m') methods") (auto simp: find_None_iff)
    moreover from this have "m' \<in> set methods" "gm_Name m' = gm_Name m" by (auto simp: find_Some_iff)
    then have "m' = m" using assms m(1) by (simp add: distinct_map inj_on_def)
    ultimately show ?thesis by (simp add: MakeService_def f)
  qed
  show "Service_dispatch (MakeService tt nam methods) n req st = Inl Fatal" if "\<forall>m\<in>set methods. gm_Name m = n \<longrightarrow> not_handler tt m"
  proof -
    have "find (\<lambda>m. gm_Name m = n \<and> \<not> not_handler tt m) methods = None" using that by (auto simp: find_None_iff)
    then show ?thesis by (simp add: MakeService_def Service_dispatch_def f)
  qed
qed

text \<open>
  The methods of \<open>*KVServer\<close> that reflection lists: \<open>Get\<close> and \<open>Put\<close>, which take their arguments and their
  reply by pointer; \<open>handlePut\<close> is not exported.
\<close>

definition kv_types :: type_table where
  "kv_types = [(0, \<lparr>t_Name = [], t_Kind = KPtr 5\<rparr>), (1, \<lparr>t_Name = [], t_Kind = KPtr 6\<rparr>), (2, \<lparr>t_Name = [], t_Kind = KPtr 7\<rparr>),
     (3, \<lparr>t_Name = [], t_Kind = KPtr 8\<rparr>), (4, \<lparr>t_Name = [], t_Kind = KPtr 9\<rparr>)]"

definition kv_methods :: "(bytes \<Rightarrow> KVServer \<Rightarrow> bytes \<times> KVServer) \<Rightarrow> kv_codec \<Rightarrow> KVServer gmethod list" where
  "kv_methods get c = [\<lparr>gm_Name = ''Get'', gm_PkgPath = [], gm_In = [0, 1, 2], gm_NumOut = 0, gm_Func = get\<rparr>,
     \<lparr>gm_Name = ''Put'', gm_PkgPath = [], gm_In = [0, 3, 4], gm_NumOut = 0, gm_Func = put_method c\<rparr>]"

text \<open>The service made of it has the \<open>Put\<close> that the clerk calls over the network, and \<open>handlePut\<close> cannot be called from there.\<close>

lemma kv_service_made:
  "svc_name (MakeService kv_types ''KVServer'' (kv_methods get c)) = svc_name (kv_service c)"
  "svc_methods (MakeService kv_types ''KVServer'' (kv_methods get c)) ''Put'' = svc_methods (kv_service c) ''Put''"
  "Service_dispatch (MakeService kv_types ''KVServer'' (kv_methods get c)) ''handlePut'' req st = Inl Fatal"
proof -
  let ?ms = "kv_methods get c"
  have d: "distinct (map gm_Name ?ms)" by (simp add: kv_methods_def)
  show "svc_name (MakeService kv_types ''KVServer'' ?ms) = svc_name (kv_service c)" by (simp add: MakeService_def kv_service_def)
  show "svc_methods (MakeService kv_types ''KVServer'' ?ms) ''Put'' = svc_methods (kv_service c) ''Put''"
    using MakeService_dispatch(1) [OF d, of "?ms ! 1" kv_types] by (simp add: kv_methods_def kv_service_def not_handler_def is_ptr_def kv_types_def)
  show "Service_dispatch (MakeService kv_types ''KVServer'' ?ms) ''handlePut'' req st = Inl Fatal"
    using MakeService_dispatch(2) [OF d, of "''handlePut''" kv_types] by (simp add: kv_methods_def not_handler_def)
qed

end
