(* ===== verification/GroupLife.thy ===== *)
theory GroupLife
  imports GroupProps
begin

text \<open>
  The life of a server group: \<open>MakeGroupStart\<close>, \<open>Shutdown\<close>, \<open>StartServers\<close> and \<open>ExitGroup\<close> of
  \<open>tester1/group.go\<close> and \<open>tester1/config.go\<close> as whole operations. A group that starts is fully connected and its
  ends lead to its servers; a group that is shut down is unreachable; and a group that is started again
  is connected over new ends and its servers run on the state they had saved.
\<close>

section \<open>New ends\<close>

text \<open>The ends \<open>es\<close> have been added to a network, and no other end has been touched.\<close>

definition grown :: "name list \<Rightarrow> Network \<Rightarrow> Network \<Rightarrow> bool" where
  "grown es net net' \<longleftrightarrow> set (ends net') = set es \<union> set (ends net) \<and> (\<forall>e. e \<notin> set es \<longrightarrow> connections net' e = connections net e)"

lemma grown_refl [simp]: "grown [] net net"
  by (simp add: grown_def)

lemma grown_trans: "grown es net net1 \<Longrightarrow> grown es' net1 net2 \<Longrightarrow> grown (es @ es') net net2"
  by (auto simp: grown_def)

lemma grown_connections: "grown es net net' \<Longrightarrow> e \<notin> set es \<Longrightarrow> connections net' e = connections net e"
  by (simp add: grown_def)

lemma make_ends_effect:
  assumes "distinct names" "set names \<inter> set (ends net) = {}"
  shows "\<exists>net'. foldo (make_one_end g) (map (\<lambda>(j, nm). (int j, nm)) (List.enumerate k names)) net = Ret net' \<and> grown names net net' \<and>
    servers net' = servers net \<and> (\<forall>j<length names. connections net' (names ! j) = Some (Some (ServerName g (int (k + j)))))"
  using assms
proof (induction names arbitrary: k net)
  case (Cons x names)
  let ?n = "Connect x (ServerName g (int k)) (net\<lparr>ends := x # ends net, enabled := (enabled net)(x \<mapsto> False), connections := (connections net)(x \<mapsto> None)\<rparr>)"
  have x: "make_one_end g (int k, x) net = Ret ?n" using Cons.prems(2) by (simp add: make_one_end_def MakeEnd_def)
  have n: "grown [x] net ?n" "servers ?n = servers net" "connections ?n x = Some (Some (ServerName g (int k)))"
    by (auto simp: grown_def Connect_def)
  obtain net' where 1: "foldo (make_one_end g) (map (\<lambda>(j, nm). (int j, nm)) (List.enumerate (Suc k) names)) ?n = Ret net'" "grown names ?n net'"
    "servers net' = servers ?n" "\<forall>j<length names. connections net' (names ! j) = Some (Some (ServerName g (int (Suc k + j))))"
    using Cons.IH [of ?n "Suc k"] Cons.prems by (auto simp: Connect_def)
  have "connections net' x = Some (Some (ServerName g (int k)))" using grown_connections [OF 1(2), of x] n(3) Cons.prems(1) by simp
  then have "\<forall>j<length (x # names). connections net' ((x # names) ! j) = Some (Some (ServerName g (int (k + j))))"
    using 1(4) by (auto simp: nth_Cons algebra_simps split: nat.splits)
  moreover have "grown (x # names) net net'" using grown_trans [OF n(1) 1(2)] by simp
  ultimately show ?case using x 1(1,3) n(2) by (intro exI [of _ net']) simp
qed simp

lemma makeServer_effect:
  assumes "distinct names" "set names \<inter> set (ends net) = {}"
  obtains net' where "makeServer g names net = Ret (\<lparr>saved = None, endNames = names, dc = None\<rparr>, net')" "grown names net net'"
    "servers net' = servers net" "\<forall>j<length names. connections net' (names ! j) = Some (Some (ServerName g (int j)))"
  using make_ends_effect [OF assms, of g 0] by (auto simp: makeServer_def)

section \<open>Starting processes\<close>

text \<open>The server that \<open>StartServer\<close> puts in the place of another: it has new ends and runs on what was saved.\<close>

definition revived :: "tserver \<Rightarrow> name list \<times> addr \<times> bool \<Rightarrow> tserver" where
  "revived s x = (let p = (case saved s of None \<Rightarrow> MakePersister | Some p \<Rightarrow> p) in \<lparr>saved = Some p, endNames = fst x, dc = Some p\<rparr>)"

lemma StartServer_effect:
  assumes "i < length (srvs sg)" "distinct names" "set names \<inter> set (ends net) = {}"
  obtains net' where "StartServer (int i) names a True (sg, net) = Ret (True, sg\<lparr>srvs := (srvs sg)[i := revived (srvs sg ! i) (names, a, True)]\<rparr>, net')"
    "grown names net net'" "servers net' = (servers net)(ServerName (gid sg) (int i) \<mapsto> Some a)"
    "\<forall>j<length names. connections net' (names ! j) = Some (Some (ServerName (gid sg) (int j)))"
proof -
  obtain net1 where 1: "makeServer (gid sg) names net = Ret (\<lparr>saved = None, endNames = names, dc = None\<rparr>, net1)" "grown names net net1"
    "servers net1 = servers net" "\<forall>j<length names. connections net1 (names ! j) = Some (Some (ServerName (gid sg) (int j)))"
    using makeServer_effect [OF assms(2,3)] by blast
  let ?net' = "AddServer (ServerName (gid sg) (int i)) a net1"
  have "StartServer (int i) names a True (sg, net) = Ret (True, sg\<lparr>srvs := (srvs sg)[i := revived (srvs sg ! i) (names, a, True)]\<rparr>, ?net')"
    using assms(1) 1(1) by (simp add: StartServer_def startServer_def idx_def in_range_def revived_def Let_def)
  then show thesis using that [of ?net'] 1 by (simp add: AddServer_def grown_def)
qed

text \<open>What a group of running servers looks like in the network: its ends lead to its servers, which are there.\<close>

definition routed :: "ServerGrp \<Rightarrow> (name list \<times> addr \<times> bool) list \<Rightarrow> nat \<Rightarrow> Network \<Rightarrow> bool" where
  "routed sg l k net \<longleftrightarrow> (\<forall>i<k. servers net (ServerName (gid sg) (int i)) = Some (Some (fst (snd (l ! i)))) \<and>
     (\<forall>j<length (fst (l ! i)). connections net (fst (l ! i) ! j) = Some (Some (ServerName (gid sg) (int j)))))"

lemma ServerName_inj [simp]: "ServerName g i = ServerName g j \<longleftrightarrow> i = j"
  by (simp add: ServerName_def)

lemma StartSrvs_effect:
  assumes "length l = length (srvs sg)" "\<forall>(names, a, started)\<in>set l. started" "distinct (concat (map fst l))"
    "set (concat (map fst l)) \<inter> set (ends net) = {}"
  shows "k \<le> length l \<Longrightarrow> \<exists>net'. StartSrvs (zip (map int [0..<k]) (take k l)) (sg, net) =
      Ret (sg\<lparr>srvs := map2 revived (take k (srvs sg)) (take k l) @ drop k (srvs sg)\<rparr>, net') \<and>
    grown (concat (map fst (take k l))) net net' \<and> routed sg l k net'"
proof (induction k)
  case (Suc k)
  let ?sg = "sg\<lparr>srvs := map2 revived (take k (srvs sg)) (take k l) @ drop k (srvs sg)\<rparr>"
  let ?done = "map2 revived (take k (srvs sg)) (take k l)"
  have k: "k < length l" "k < length (srvs sg)" using Suc.prems assms(1) by simp_all
  obtain names a where lk: "l ! k = (names, a, True)" using assms(2) nth_mem [OF k(1)] by (cases "l ! k") auto
  obtain net1 where 1: "StartSrvs (zip (map int [0..<k]) (take k l)) (sg, net) = Ret (?sg, net1)" "grown (concat (map fst (take k l))) net net1"
    "routed sg l k net1" using Suc.IH Suc.prems by auto
  have split: "concat (map fst l) = concat (map fst (take k l)) @ names @ concat (map fst (drop (Suc k) l))"
    using arg_cong [OF id_take_nth_drop [OF k(1)], of "\<lambda>l. concat (map fst l)"] lk by simp
  have names: "distinct names" "set names \<inter> set (concat (map fst (take k l))) = {}" "set names \<inter> set (ends net) = {}"
    using assms(3,4) unfolding split by auto
  then have "set names \<inter> set (ends net1) = {}" using 1(2) by (auto simp: grown_def)
  moreover have "k < length (srvs ?sg)" using k by simp
  ultimately obtain net2 where 2: "StartServer (int k) names a True (?sg, net1) =
      Ret (True, ?sg\<lparr>srvs := (srvs ?sg)[k := revived (srvs ?sg ! k) (names, a, True)]\<rparr>, net2)"
    "grown names net1 net2" "servers net2 = (servers net1)(ServerName (gid ?sg) (int k) \<mapsto> Some a)"
    "\<forall>j<length names. connections net2 (names ! j) = Some (Some (ServerName (gid ?sg) (int j)))"
    using StartServer_effect [of k ?sg names net1 a] names(1) by blast
  have len: "length ?done = k" using k by simp
  have d: "drop k (srvs sg) = srvs sg ! k # drop (Suc k) (srvs sg)" using Cons_nth_drop_Suc [OF k(2)] by simp
  have srv: "(srvs ?sg)[k := revived (srvs ?sg ! k) (names, a, True)] = map2 revived (take (Suc k) (srvs sg)) (take (Suc k) l) @ drop (Suc k) (srvs sg)"
    using k lk len d by (simp add: take_Suc_conv_app_nth nth_append list_update_append)
  have "zip (map int [0..<Suc k]) (take (Suc k) l) = zip (map int [0..<k]) (take k l) @ [(int k, names, a, True)]"
    using k lk by (simp add: take_Suc_conv_app_nth)
  then have "StartSrvs (zip (map int [0..<Suc k]) (take (Suc k) l)) (sg, net) =
      Ret (sg\<lparr>srvs := map2 revived (take (Suc k) (srvs sg)) (take (Suc k) l) @ drop (Suc k) (srvs sg)\<rparr>, net2)"
    using 1(1) 2(1) unfolding srv by (simp add: StartSrvs_def foldo_append)
  moreover have "grown (concat (map fst (take (Suc k) l))) net net2"
    using grown_trans [OF 1(2) 2(2)] k lk by (simp add: take_Suc_conv_app_nth)
  moreover have "routed sg l (Suc k) net2"
  proof -
    have "connections net2 (fst (l ! i) ! j) = Some (Some (ServerName (gid sg) (int j)))" if "i < k" "j < length (fst (l ! i))" for i j
    proof -
      have "l ! i \<in> set (take k l)" using that(1) k(1) by (metis in_set_conv_nth length_take min.absorb4 nth_take)
      then have "fst (l ! i) ! j \<notin> set names" using names(2) that(2) by (auto dest!: nth_mem)
      then show ?thesis using grown_connections [OF 2(2)] 1(3) that by (simp add: routed_def)
    qed
    then show ?thesis using 1(3) 2(3,4) lk by (auto simp: routed_def less_Suc_eq)
  qed
  ultimately show ?case by blast
qed (simp add: StartSrvs_def routed_def)

section \<open>Connecting and shutting down\<close>

text \<open>Connecting and disconnecting change nothing in the network but which ends are enabled.\<close>

definition same_net :: "Network \<Rightarrow> Network \<Rightarrow> bool" where
  "same_net net net' \<longleftrightarrow> ends net' = ends net \<and> connections net' = connections net \<and> servers net' = servers net"

lemma same_net_refl [simp]: "same_net net net"
  by (simp add: same_net_def)

lemma same_net_trans: "same_net net net1 \<Longrightarrow> same_net net1 net2 \<Longrightarrow> same_net net net2"
  by (simp add: same_net_def)

lemma foldo_same_net:
  "(\<And>x net net'. f x net = Ret net' \<Longrightarrow> same_net net net') \<Longrightarrow> foldo f xs net = Ret net' \<Longrightarrow> same_net net net'"
  by (induction xs arbitrary: net) (auto simp: bindo_Ret, metis same_net_trans)

lemma enable_same_net:
  "enable_out s sg j net = Ret net' \<Longrightarrow> same_net net net'" "enable_in i sg j net = Ret net' \<Longrightarrow> same_net net net'"
  "disable_out s j net = Ret net' \<Longrightarrow> same_net net net'" "disable_in i sg j net = Ret net' \<Longrightarrow> same_net net net'"
  by (auto simp: enable_out_def enable_in_def disable_out_def disable_in_def bindo_Ret same_net_def Enable_def split: if_splits)

lemma connect_same_net:
  "grp_connect i to (sg, net) = Ret (sg', net') \<Longrightarrow> same_net net net'"
  "grp_disconnect i to (sg, net) = Ret (sg', net') \<Longrightarrow> same_net net net'"
  by (auto simp: grp_connect_def grp_disconnect_def bindo_Ret Let_def dest!: foldo_same_net [rotated] intro: enable_same_net same_net_trans)

lemma all_srvs_set: "wf_grp n sg \<Longrightarrow> set (all_srvs sg) = {0..<n}"
  by (simp add: all_srvs_def wf_grp_def image_int_atLeastLessThan)

text \<open>\<open>ConnectAll\<close> connects every server with every server, whatever was connected before.\<close>

lemma ConnectOnes_effect:
  assumes "wf_grp n sg" "set xs \<subseteq> {0..<n}"
  shows "\<exists>sg' net'. foldo ConnectOne xs (sg, net) = Ret (sg', net') \<and> wf_grp n sg' \<and> sg' = sg\<lparr>connected := connected sg'\<rparr> \<and> same_net net net' \<and>
    (\<forall>a\<in>{0..<n}. is_up sg' a \<longleftrightarrow> a \<in> set xs \<or> is_up sg a) \<and> (\<forall>a\<in>{0..<n}. \<forall>b\<in>{0..<n}. conn sg net a b \<longrightarrow> conn sg' net' a b) \<and>
    (\<forall>a\<in>set xs. \<forall>b\<in>set xs. conn sg' net' a b)"
  using assms
proof (induction xs arbitrary: sg net rule: rev_induct)
  case (snoc i xs)
  obtain sg1 net1 where 1: "foldo ConnectOne xs (sg, net) = Ret (sg1, net1)" "wf_grp n sg1" "sg1 = sg\<lparr>connected := connected sg1\<rparr>"
    "same_net net net1" "\<forall>a\<in>{0..<n}. is_up sg1 a \<longleftrightarrow> a \<in> set xs \<or> is_up sg a"
    "\<forall>a\<in>{0..<n}. \<forall>b\<in>{0..<n}. conn sg net a b \<longrightarrow> conn sg1 net1 a b" "\<forall>a\<in>set xs. \<forall>b\<in>set xs. conn sg1 net1 a b"
    using snoc.IH [OF snoc.prems(1), of net] snoc.prems(2) by auto
  have i: "i \<in> {0..<n}" and xs: "set xs \<subseteq> {0..<n}" using snoc.prems(2) by auto
  note all = all_srvs_set [OF 1(2)]
  obtain net2 where 2: "grp_connect i (all_srvs sg1) (sg1, net1) = Ret (set_up i True sg1, net2)"
    "\<forall>a\<in>{0..<n}. \<forall>b\<in>{0..<n}. conn sg1 net2 a b \<longleftrightarrow> conn sg1 net1 a b \<or>
      (a = i \<and> b \<in> {0..<n} \<and> is_up (set_up i True sg1) b) \<or> (b = i \<and> a \<in> {0..<n} \<and> is_up (set_up i True sg1) a)"
    using grp_connect_effect [OF 1(2) i, of "all_srvs sg1" net1] all by auto
  note up = set_up_up [OF 1(2) i, of _ True]
  have "foldo ConnectOne (xs @ [i]) (sg, net) = Ret (set_up i True sg1, net2)"
    using 1(1) 2(1) by (simp add: foldo_append ConnectOne_def)
  moreover have "set_up i True sg1 = sg\<lparr>connected := connected (set_up i True sg1)\<rparr>" by (subst 1(3)) (simp add: set_up_def)
  moreover have "\<forall>a\<in>{0..<n}. is_up (set_up i True sg1) a \<longleftrightarrow> a \<in> set (xs @ [i]) \<or> is_up sg a" using up 1(5) by auto
  moreover have "\<forall>a\<in>{0..<n}. \<forall>b\<in>{0..<n}. conn sg net a b \<longrightarrow> conn (set_up i True sg1) net2 a b" using 1(6) 2(2) by simp
  moreover have "conn (set_up i True sg1) net2 a b" if "a \<in> set (xs @ [i])" "b \<in> set (xs @ [i])" for a b
  proof -
    have ab: "a \<in> {0..<n}" "b \<in> {0..<n}" using that snoc.prems(2) by auto
    then have "is_up (set_up i True sg1) a" "is_up (set_up i True sg1) b" using up 1(5) that by auto
    then show ?thesis using 2(2) ab 1(7) that by auto
  qed
  ultimately show ?case using same_net_trans [OF 1(4) connect_same_net(1) [OF 2(1)]] 1(2) by (intro exI [of _ "set_up i True sg1"] exI [of _ net2]) simp
qed simp

lemma concat_nth_inj:
  "distinct (concat xss) \<Longrightarrow> i < length xss \<Longrightarrow> j < length (xss ! i) \<Longrightarrow> i' < length xss \<Longrightarrow> j' < length (xss ! i') \<Longrightarrow>
    xss ! i ! j = xss ! i' ! j' \<Longrightarrow> i = i' \<and> j = j'"
proof (induction xss arbitrary: i i')
  case (Cons xs xss)
  have dis: "x \<notin> set (xss ! m)" if "x \<in> set xs" "m < length xss" for x m using Cons.prems(1) that by (auto dest: nth_mem)
  show ?case
  proof (cases i; cases i')
    fix m m' assume "i = Suc m" "i' = Suc m'"
    then show ?thesis using Cons.IH [of m m'] Cons.prems by simp
  next
    fix m' assume "i = 0" "i' = Suc m'"
    then show ?thesis using Cons.prems dis [of "xs ! j" m'] nth_mem [of j' "xss ! m'"] nth_mem [of j xs] by auto
  next
    fix m assume "i = Suc m" "i' = 0"
    then show ?thesis using Cons.prems dis [of "xs ! j'" m] nth_mem [of j "xss ! m"] by auto
  next
    assume "i = 0" "i' = 0"
    then show ?thesis using Cons.prems by (simp add: nth_eq_iff_index_eq)
  qed
qed simp

text \<open>\<open>new_names\<close>: as many lists of names as servers, as long as that, of names that are all new.\<close>

definition new_names :: "nat \<Rightarrow> name list list \<Rightarrow> Network \<Rightarrow> bool" where
  "new_names n nss net \<longleftrightarrow> length nss = n \<and> (\<forall>ns\<in>set nss. length ns = n) \<and> distinct (concat nss) \<and> set (concat nss) \<inter> set (ends net) = {}"

lemma wf_grp_names:
  assumes "map endNames (srvs sg) = nss" "length (connected sg) = n" "length nss = n" "\<forall>ns\<in>set nss. length ns = n" "distinct (concat nss)"
  shows "wf_grp (int n) sg"
proof -
  have len: "length (srvs sg) = n" using assms(1,3) by auto
  have "nss ! m = endNames (srvs sg ! m)" "length (nss ! m) = n" if "m < n" for m
    using that assms(3,4) len nth_mem [of m nss] nth_map [of m "srvs sg" endNames] unfolding assms(1) by simp_all
  then have name: "nm sg a b = nss ! nat a ! nat b" "length (nss ! nat a) = n" if "a \<in> {0..<int n}" for a b
    using that by (simp_all add: nm_def nat_less_iff)
  have "a = c \<and> b = d" if "a \<in> {0..<int n}" "b \<in> {0..<int n}" "c \<in> {0..<int n}" "d \<in> {0..<int n}" "nm sg a b = nm sg c d" for a b c d
    using concat_nth_inj [OF assms(5), of "nat a" "nat b" "nat c" "nat d"] that name assms(3) by (auto simp: eq_nat_nat_iff)
  then show ?thesis using len assms(1,2,4) unfolding wf_grp_def by auto
qed

text \<open>\<open>StartServers\<close> of a group, also of one that was shut down.\<close>

definition running :: "nat \<Rightarrow> (name list \<times> addr \<times> bool) list \<Rightarrow> ServerGrp \<Rightarrow> Network \<Rightarrow> bool" where
  "running n l sg net \<longleftrightarrow> wf_grp (int n) sg \<and> map endNames (srvs sg) = map fst l \<and> routed sg l n net \<and>
     (\<forall>i\<in>{0..<int n}. is_up sg i) \<and> (\<forall>i\<in>{0..<int n}. \<forall>j\<in>{0..<int n}. conn sg net i j)"

lemma StartServers_effect:
  assumes "length (srvs sg) = n" "length (connected sg) = n" "new_names n (map fst l) net" "\<forall>(names, a, started)\<in>set l. started"
  obtains sg' net' where "StartServers l (sg, net) = Ret (sg', net')" "running n l sg' net'"
    "sg' = sg\<lparr>srvs := map2 revived (srvs sg) l, connected := connected sg'\<rparr>" "grown (concat (map fst l)) net net'"
proof -
  let ?sg = "sg\<lparr>srvs := map2 revived (srvs sg) l\<rparr>"
  have l: "length l = n" "distinct (concat (map fst l))" "set (concat (map fst l)) \<inter> set (ends net) = {}" "\<forall>ns\<in>set (map fst l). length ns = n"
    using assms(3) by (auto simp: new_names_def)
  obtain net1 where 1: "StartSrvs (zip (all_srvs sg) l) (sg, net) = Ret (?sg, net1)" "grown (concat (map fst l)) net net1" "routed sg l n net1"
    using StartSrvs_effect [of l sg net n] assms(1,4) l by (auto simp: all_srvs_def)
  have names: "map endNames (map2 revived (srvs sg) l) = map fst l"
    using assms(1) l(1) by (auto simp: revived_def Let_def intro!: nth_equalityI)
  have wf: "wf_grp (int n) ?sg" using wf_grp_names [of ?sg "map fst l" n] names assms(2) l by simp
  have all: "set (all_srvs ?sg) = {0..<int n}" by (rule all_srvs_set [OF wf])
  obtain sg' net' where 2: "foldo ConnectOne (all_srvs ?sg) (?sg, net1) = Ret (sg', net')" "wf_grp (int n) sg'" "sg' = ?sg\<lparr>connected := connected sg'\<rparr>"
    "same_net net1 net'" "\<forall>a\<in>{0..<int n}. is_up sg' a" "\<forall>a\<in>{0..<int n}. \<forall>b\<in>{0..<int n}. conn sg' net' a b"
    using ConnectOnes_effect [OF wf, of "all_srvs ?sg" net1] all by auto
  have "srvs sg' = map2 revived (srvs sg) l" "gid sg' = gid sg" by (subst 2(3), simp)+
  then have "routed sg' l n net'" "map endNames (srvs sg') = map fst l" using 1(3) 2(4) names by (simp_all add: routed_def same_net_def)
  then have "running n l sg' net'" using 2 by (simp add: running_def)
  moreover have "StartServers l (sg, net) = Ret (sg', net')" using 1(1) 2(1) by (simp add: StartServers_def ConnectAll_def)
  moreover have "grown (concat (map fst l)) net net'" using 1(2) 2(4) by (simp add: grown_def same_net_def)
  ultimately show thesis using that 2(3) by simp
qed

lemma shutdownServer_endNames [simp]: "endNames (shutdownServer s) = endNames s"
  by (simp add: shutdownServer_def split: option.splits)

lemma same_endNames:
  assumes "wf_grp n sg" "map endNames (srvs sg') = map endNames (srvs sg)" "length (connected sg') = length (connected sg)"
  shows "wf_grp n sg'" "a \<in> {0..<n} \<Longrightarrow> nm sg' a b = nm sg a b"
proof -
  have len: "length (srvs sg') = length (srvs sg)" using arg_cong [OF assms(2), of length] by simp
  have nm: "nm sg' a b = nm sg a b" if "a \<in> {0..<n}" for a b
    using that assms(1,2) len nth_map [of "nat a" "srvs sg'" endNames] nth_map [of "nat a" "srvs sg" endNames] by (auto simp: nm_def wf_grp_def)
  have "endNames ` set (srvs sg') = endNames ` set (srvs sg)" using arg_cong [OF assms(2), of set] by simp
  then have "\<forall>ns\<in>endNames ` set (srvs sg'). int (length ns) = n" using assms(1) unfolding wf_grp_def by simp
  then show "wf_grp n sg'" using assms(1,3) len nm unfolding wf_grp_def by auto
  show "a \<in> {0..<n} \<Longrightarrow> nm sg' a b = nm sg a b" by (rule nm)
qed

text \<open>\<open>Shutdown\<close>: no server of the group is connected or there any more, and every process has left its state.\<close>

lemma Kills_effect:
  assumes "wf_grp (int n) sg"
  shows "k \<le> n \<Longrightarrow> \<exists>sg' net'. foldo ShutdownServer (map int [0..<k]) (sg, net) = Ret (sg', net') \<and> wf_grp (int n) sg' \<and>
    sg' = sg\<lparr>srvs := map shutdownServer (take k (srvs sg)) @ drop k (srvs sg), connected := connected sg'\<rparr> \<and>
    ends net' = ends net \<and> connections net' = connections net \<and> (\<forall>i<k. servers net' (ServerName (gid sg) (int i)) = Some None) \<and>
    (\<forall>s. (\<forall>i<k. s \<noteq> ServerName (gid sg) (int i)) \<longrightarrow> servers net' s = servers net s) \<and>
    (\<forall>a\<in>{0..<int n}. \<forall>b\<in>{0..<int n}. a < int k \<or> b < int k \<longrightarrow> \<not> conn sg' net' a b)"
proof (induction k)
  case (Suc k)
  obtain sg1 net1 where 1: "foldo ShutdownServer (map int [0..<k]) (sg, net) = Ret (sg1, net1)" "wf_grp (int n) sg1"
    "sg1 = sg\<lparr>srvs := map shutdownServer (take k (srvs sg)) @ drop k (srvs sg), connected := connected sg1\<rparr>"
    "ends net1 = ends net" "connections net1 = connections net" "\<forall>i<k. servers net1 (ServerName (gid sg) (int i)) = Some None"
    "\<forall>s. (\<forall>i<k. s \<noteq> ServerName (gid sg) (int i)) \<longrightarrow> servers net1 s = servers net s"
    "\<forall>a\<in>{0..<int n}. \<forall>b\<in>{0..<int n}. a < int k \<or> b < int k \<longrightarrow> \<not> conn sg1 net1 a b" using Suc by auto
  have k: "int k \<in> {0..<int n}" "k < length (srvs sg)" using Suc.prems assms by (auto simp: wf_grp_def)
  obtain net2 where 2: "grp_disconnect (int k) (all_srvs sg1) (sg1, net1) = Ret (set_up (int k) False sg1, net2)"
    "\<forall>a\<in>{0..<int n}. \<forall>b\<in>{0..<int n}. conn sg1 net2 a b \<longleftrightarrow> conn sg1 net1 a b \<and> a \<noteq> int k \<and> b \<noteq> int k"
    using grp_disconnect_effect [OF 1(2) k(1), of "all_srvs sg1" net1] all_srvs_set [OF 1(2)] by auto
  let ?up = "set_up (int k) False sg1" let ?net = "DeleteServer (ServerName (gid sg) (int k)) net2"
  define sg2 where "sg2 = ?up\<lparr>srvs := (srvs ?up)[k := shutdownServer (srvs ?up ! k)]\<rparr>"
  have srv1: "srvs sg1 = map shutdownServer (take k (srvs sg)) @ drop k (srvs sg)" and g1: "gid sg1 = gid sg" by (subst 1(3), simp)+
  have d: "drop k (srvs sg) = srvs sg ! k # drop (Suc k) (srvs sg)" using Cons_nth_drop_Suc [OF k(2)] by simp
  have srv2: "srvs sg2 = map shutdownServer (take (Suc k) (srvs sg)) @ drop (Suc k) (srvs sg)"
    using k(2) d by (simp add: sg2_def srv1 take_Suc_conv_app_nth nth_append list_update_append)
  have "servernames sg1 = servernames sg" by (subst 1(3)) simp
  then have sg2: "sg2 = sg\<lparr>srvs := map shutdownServer (take (Suc k) (srvs sg)) @ drop (Suc k) (srvs sg), connected := connected sg2\<rparr>"
    using srv2 g1 by (intro ServerGrp.equality) (simp_all add: sg2_def set_up_def)
  have "ShutdownServer (int k) (sg1, net1) = Ret (sg2, ?net)"
    using 2(1) grp_idx(1) [of "int n" ?up "int k" "int k"] 1(2) k(1) g1
    by (simp add: ShutdownServer_def sg2_def) (simp add: set_up_def)
  then have run: "foldo ShutdownServer (map int [0..<Suc k]) (sg, net) = Ret (sg2, ?net)" using 1(1) by (simp add: foldo_append)
  have same: "map endNames (srvs sg2) = map endNames (srvs sg1)"
    using srv2 srv1 k(2) d by (simp add: take_Suc_conv_app_nth comp_def)
  have wf2: "wf_grp (int n) sg2" and nm2: "\<And>a b. a \<in> {0..<int n} \<Longrightarrow> nm sg2 a b = nm sg1 a b"
    using same_endNames [OF 1(2) same] by (simp_all add: sg2_def set_up_def)
  have "\<not> conn sg2 ?net a b" if "a \<in> {0..<int n}" "b \<in> {0..<int n}" "a < int (Suc k) \<or> b < int (Suc k)" for a b
  proof -
    have "\<not> conn sg1 net2 a b" using 1(8) 2(2) that by force
    then show ?thesis using nm2 that(1) by (simp add: conn_def is_enabled_def DeleteServer_def)
  qed
  moreover have "ends ?net = ends net" "connections ?net = connections net" "servers ?net = (servers net1)(ServerName (gid sg) (int k) \<mapsto> None)"
    using connect_same_net(2) [OF 2(1)] 1(4,5) by (simp_all add: DeleteServer_def same_net_def)
  ultimately show ?case using run wf2 sg2 1(6,7) by (intro exI [of _ sg2] exI [of _ ?net]) (auto simp: less_Suc_eq)
qed (use assms in \<open>simp_all\<close>)

lemma Shutdown_effect:
  assumes "wf_grp (int n) sg"
  obtains sg' net' where "Shutdown (sg, net) = Ret (sg', net')" "wf_grp (int n) sg'"
    "sg' = sg\<lparr>srvs := map shutdownServer (srvs sg), connected := connected sg'\<rparr>" "ends net' = ends net" "connections net' = connections net"
    "\<forall>i<n. servers net' (ServerName (gid sg) (int i)) = Some None" "\<forall>a\<in>{0..<int n}. \<forall>b\<in>{0..<int n}. \<not> conn sg' net' a b"
proof -
  have len: "length (srvs sg) = n" using assms by (auto simp: wf_grp_def)
  show thesis using Kills_effect [OF assms, of n net] that len by (auto simp: Shutdown_def Kill_def all_srvs_def)
qed

section \<open>Starting, restarting and ending a group\<close>

lemma makeServers_effect:
  assumes "distinct (concat nss)" "set (concat nss) \<inter> set (ends net) = {}"
  shows "\<exists>net'. foldo (\<lambda>ns (ss, net). bindo (makeServer g ns net) (\<lambda>(s, net'). Ret (ss @ [s], net'))) nss (ss, net) =
      Ret (ss @ map (\<lambda>ns. \<lparr>saved = None, endNames = ns, dc = None\<rparr>) nss, net') \<and> grown (concat nss) net net'"
  using assms
proof (induction nss arbitrary: ss net)
  case (Cons ns nss)
  obtain net1 where 1: "makeServer g ns net = Ret (\<lparr>saved = None, endNames = ns, dc = None\<rparr>, net1)" "grown ns net net1"
    using makeServer_effect [of ns net g] Cons.prems by (metis concat.simps(2) disjoint_iff distinct_append in_set_conv_decomp set_append UnCI)
  have "set (concat nss) \<inter> set (ends net1) = {}" using 1(2) Cons.prems by (auto simp: grown_def)
  then obtain net2 where 2: "foldo (\<lambda>ns (ss, net). bindo (makeServer g ns net) (\<lambda>(s, net'). Ret (ss @ [s], net'))) nss
      (ss @ [\<lparr>saved = None, endNames = ns, dc = None\<rparr>], net1) =
      Ret ((ss @ [\<lparr>saved = None, endNames = ns, dc = None\<rparr>]) @ map (\<lambda>ns. \<lparr>saved = None, endNames = ns, dc = None\<rparr>) nss, net2)" "grown (concat nss) net1 net2"
    using Cons.IH [of net1] Cons.prems(1) by (metis concat.simps(2) distinct_append)
  then show ?case using 1(1) grown_trans [OF 1(2) 2(2)] by (intro exI [of _ net2]) simp
qed simp

lemma update_update: "AList.update k v (AList.update k w m) = AList.update k v m"
  by (induction m) auto

text \<open>A group that is made and started runs, with empty state, and nothing else changes in the table of groups.\<close>

lemma MakeGroupStart_effect:
  assumes "new_names n names net" "new_names n (map fst l) net" "set (concat names) \<inter> set (concat (map fst l)) = {}"
    "\<forall>(names, a, started)\<in>set l. started"
  obtains sg net' where "MakeGroupStart g names l (gs, net) = Ret (AList.update g sg gs, net')" "running n l sg net'" "gid sg = g"
    "servernames sg = map (\<lambda>i. ServerName g (int i)) [0..<n]" "\<forall>s\<in>set (srvs sg). dc s = Some MakePersister"
    "grown (concat names @ concat (map fst l)) net net'"
proof -
  have ns: "length names = n" "distinct (concat names)" "set (concat names) \<inter> set (ends net) = {}" using assms(1) by (auto simp: new_names_def)
  define sg0 where "sg0 = \<lparr>srvs = map (\<lambda>ns. \<lparr>saved = None, endNames = ns, dc = None\<rparr>) names,
    servernames = map (\<lambda>i. ServerName g (int i)) [0..<length names], gid = g, connected = replicate (length names) False\<rparr>"
  obtain net1 where 1: "makeSrvGrp g names net = Ret (sg0, net1)" "grown (concat names) net net1"
    using makeServers_effect [OF ns(2,3), of g "[]"] by (auto simp: makeSrvGrp_def sg0_def)
  have "new_names n (map fst l) net1" using assms(2,3) 1(2) by (auto simp: new_names_def grown_def)
  then obtain sg net' where 2: "StartServers l (sg0, net1) = Ret (sg, net')" "running n l sg net'"
    "sg = sg0\<lparr>srvs := map2 revived (srvs sg0) l, connected := connected sg\<rparr>" "grown (concat (map fst l)) net1 net'"
    using StartServers_effect [of sg0 n l net1] ns(1) assms(4) by (auto simp: sg0_def)
  have "MakeGroupStart g names l (gs, net) = Ret (AList.update g sg gs, net')"
    using 1(1) 2(1) by (simp add: MakeGroupStart_def MakeGroup_def lookupGroup_def update_conv' update_update)
  moreover have "gid sg = g" "servernames sg = map (\<lambda>i. ServerName g (int i)) [0..<n]" by (subst 2(3), simp add: sg0_def ns(1))+
  moreover have "srvs sg = map2 revived (srvs sg0) l" by (subst 2(3)) simp
  then have "\<forall>s\<in>set (srvs sg). dc s = Some MakePersister" by (auto simp: sg0_def revived_def Let_def dest!: set_zip_leftD)
  ultimately show thesis using that 2(2) grown_trans [OF 1(2) 2(4)] by blast
qed

text \<open>The state that a server keeps over a restart: the copy of what its process had saved.\<close>

definition kept_state :: "tserver \<Rightarrow> Persister" where
  "kept_state s = (case dc s of Some p \<Rightarrow> Checkpoint p | None \<Rightarrow> (case saved s of Some p \<Rightarrow> p | None \<Rightarrow> MakePersister))"

lemma revived_shutdown: "dc (revived (shutdownServer s) x) = Some (kept_state s)"
  by (simp add: revived_def shutdownServer_def kept_state_def Let_def split: option.splits)

text \<open>\<open>ExitGroup\<close> shuts the group down and takes it out of the table.\<close>

lemma ExitGroup_effect:
  assumes "lookupGroup g gs = Some sg" "wf_grp (int n) sg"
  obtains net' where "ExitGroup g (gs, net) = Ret (delete_group g gs, net')" "ends net' = ends net"
    "\<forall>i<n. server_at net' (ServerName (gid sg) (int i)) = None"
proof -
  obtain sg' net' where "Shutdown (sg, net) = Ret (sg', net')" "ends net' = ends net" "\<forall>i<n. servers net' (ServerName (gid sg) (int i)) = Some None"
    by (rule Shutdown_effect [OF assms(2), of net])
  then show thesis using that assms(1) by (simp add: ExitGroup_def server_at_def)
qed

text \<open>
  C19. A group survives that all its servers are shut down and started again, as the tests with crashes do.
  In a group of any size, connected and partitioned in any way, \<open>Shutdown\<close> returns and leaves no end between its
  servers enabled and no server in the network. \<open>StartServers\<close> of the group it leaves then returns, for new names of
  ends and processes that start: every server is connected with every server, over ends
  that lead to the server of that name and to its new process, and every process runs on a copy of
  what the process before it had saved.
\<close>

theorem group_restart_keeps_state:
  assumes "wf_grp (int n) sg" "new_names n (map fst l) net" "\<forall>(names, a, started)\<in>set l. started"
  shows "\<exists>sg1 net1 sg2 net2. Shutdown (sg, net) = Ret (sg1, net1) \<and> (\<forall>a\<in>{0..<int n}. \<forall>b\<in>{0..<int n}. \<not> conn sg1 net1 a b) \<and>
    (\<forall>i<n. server_at net1 (ServerName (gid sg) (int i)) = None) \<and>
    StartServers l (sg1, net1) = Ret (sg2, net2) \<and> gid sg2 = gid sg \<and> wf_grp (int n) sg2 \<and>
    (\<forall>i<n. server_at net2 (ServerName (gid sg) (int i)) = Some (fst (snd (l ! i))) \<and> dc (srvs sg2 ! i) = Some (kept_state (srvs sg ! i)) \<and>
      (\<forall>j<n. conn sg2 net2 (int i) (int j) \<and> connections net2 (nm sg2 (int i) (int j)) = Some (Some (ServerName (gid sg) (int j)))))"
proof -
  obtain sg1 net1 where 1: "Shutdown (sg, net) = Ret (sg1, net1)" "wf_grp (int n) sg1"
    "sg1 = sg\<lparr>srvs := map shutdownServer (srvs sg), connected := connected sg1\<rparr>" "ends net1 = ends net" "connections net1 = connections net"
    "\<forall>i<n. servers net1 (ServerName (gid sg) (int i)) = Some None" "\<forall>a\<in>{0..<int n}. \<forall>b\<in>{0..<int n}. \<not> conn sg1 net1 a b"
    by (rule Shutdown_effect [OF assms(1)])
  have s1: "srvs sg1 = map shutdownServer (srvs sg)" "gid sg1 = gid sg" by (subst 1(3), simp)+
  have len: "length (srvs sg1) = n" "length (connected sg1) = n" "length (srvs sg) = n" using 1(2) assms(1) by (auto simp: wf_grp_def)
  have new: "new_names n (map fst l) net1" using assms(2) 1(4) by (simp add: new_names_def)
  obtain sg2 net2 where 2: "StartServers l (sg1, net1) = Ret (sg2, net2)" "running n l sg2 net2"
    "sg2 = sg1\<lparr>srvs := map2 revived (srvs sg1) l, connected := connected sg2\<rparr>" "grown (concat (map fst l)) net1 net2"
    by (rule StartServers_effect [OF len(1,2) new assms(3)])
  have s2: "srvs sg2 = map2 revived (srvs sg1) l" "gid sg2 = gid sg" by (subst 2(3), simp add: s1(2))+
  have l: "length l = n" "\<forall>ns\<in>set (map fst l). length ns = n" using assms(2) by (auto simp: new_names_def)
  have state: "dc (srvs sg2 ! i) = Some (kept_state (srvs sg ! i))" if "i < n" for i
    using that len l(1) by (simp add: s2(1) s1(1) revived_shutdown)
  have name: "nm sg2 (int i) (int j) = fst (l ! i) ! j" "length (fst (l ! i)) = n" if "i < n" for i j
    using that len l by (simp_all add: nm_def s2(1) s1(1) revived_def Let_def)
  have "server_at net2 (ServerName (gid sg) (int i)) = Some (fst (snd (l ! i)))"
    "connections net2 (nm sg2 (int i) (int j)) = Some (Some (ServerName (gid sg) (int j)))" if "i < n" "j < n" for i j
    using that 2(2) name s2(2) by (simp_all add: running_def routed_def server_at_def)
  moreover have "conn sg2 net2 (int i) (int j)" if "i < n" "j < n" for i j using that 2(2) by (simp add: running_def)
  ultimately show ?thesis using 1(1,6,7) 2(1,2) s2(2) state
    by (intro exI [of _ sg1] exI [of _ net1] exI [of _ sg2] exI [of _ net2]) (simp add: running_def server_at_def)
qed

definition grp2 :: ServerGrp where
  "grp2 = \<lparr>srvs = [\<lparr>saved = None, endNames = [''00'', ''01''], dc = Some \<lparr>raftstate = ''r'', snapshot = ''s''\<rparr>\<rparr>,
      \<lparr>saved = Some \<lparr>raftstate = ''t'', snapshot = []\<rparr>, endNames = [''10'', ''11''], dc = None\<rparr>],
    servernames = [], gid = 0, connected = [True, False]\<rparr>"

theorem group_restart_keeps_state_witness:
  "\<exists>sg1 net1 sg2 net2. Shutdown (grp2, MakeNetwork) = Ret (sg1, net1) \<and>
     StartServers [([''a'', ''b''], 5, True), ([''c'', ''d''], 6, True)] (sg1, net1) = Ret (sg2, net2) \<and> conn sg2 net2 0 1 \<and> conn sg2 net2 1 0 \<and>
     dc (srvs sg2 ! 0) = Some \<lparr>raftstate = ''r'', snapshot = ''s''\<rparr> \<and> dc (srvs sg2 ! 1) = Some \<lparr>raftstate = ''t'', snapshot = []\<rparr>"
proof -
  let ?l = "[([''a'', ''b''], 5, True), ([''c'', ''d''], 6, True)] :: (name list \<times> addr \<times> bool) list"
  have "wf_grp (int 2) grp2" by code_simp
  moreover have "new_names 2 (map fst ?l) MakeNetwork" by code_simp
  ultimately obtain sg1 net1 sg2 net2 where r: "Shutdown (grp2, MakeNetwork) = Ret (sg1, net1)" "StartServers ?l (sg1, net1) = Ret (sg2, net2)"
    "\<forall>i<2. dc (srvs sg2 ! i) = Some (kept_state (srvs grp2 ! i)) \<and> (\<forall>j<2. conn sg2 net2 (int i) (int j))"
    using group_restart_keeps_state [of 2 grp2 ?l MakeNetwork] by auto
  have k: "kept_state (srvs grp2 ! 0) = \<lparr>raftstate = ''r'', snapshot = ''s''\<rparr>" "kept_state (srvs grp2 ! 1) = \<lparr>raftstate = ''t'', snapshot = []\<rparr>"
    by code_simp+
  have c: "conn sg2 net2 (int i) (int j)" if "i < 2" "j < 2" for i j using r(3) that by blast
  show ?thesis using r k c [of 0 1] c [of 1 0] by (intro exI [of _ sg1] exI [of _ net1] exI [of _ sg2] exI [of _ net2]) simp
qed

end
