(* ===== verification/ShardGroups.thy ===== *)
theory ShardGroups
  imports ShardTest GroupLife KVHarness
begin

text \<open>
  The rest of \<open>shardkv1/test.go\<close>: the test object, its clerks, the service with its first group, and the loops that make
  groups join and leave. The controller of the repository, \<open>shardctrler.go\<close>, is a stub that stores nothing, so
  its operations \<open>Query\<close> and \<open>ChangeConfigTo\<close> are arguments here: \<open>query\<close> gives the configuration or nil,
  \<^const>\<open>None\<close>, and \<open>change\<close> the state of the controller after a change. Both the stub and a
  controller that stores its configuration are instances.
\<close>

section \<open>The controller and the clerks\<close>

text \<open>A controller talks to the key/value server; it is kept as its client and the name of that server.\<close>

record ShardCtrler =
  sc_clnt :: addr
  sc_server :: string

definition MakeShardCtrler :: "addr \<Rightarrow> ShardCtrler" where
  "MakeShardCtrler a = \<lparr>sc_clnt = a, sc_server = ServerName GRP0 0\<rparr>"

definition ctrler_InitController :: "ShardCtrler \<Rightarrow> ShardCtrler" where
  "ctrler_InitController sck = sck"

definition ctrler_InitConfig :: "ShardConfig \<Rightarrow> ShardCtrler \<Rightarrow> ShardCtrler" where
  "ctrler_InitConfig cfg sck = sck"

definition ctrler_ChangeConfigTo :: "ShardConfig \<Rightarrow> ShardCtrler \<Rightarrow> ShardCtrler" where
  "ctrler_ChangeConfigTo new sck = sck"

definition ctrler_Query :: "ShardCtrler \<Rightarrow> ShardConfig option" where
  "ctrler_Query sck = None"

text \<open>The clerk of \<open>shardkv1/client.go\<close>; the clerks it has for groups, \<open>sk_rcks\<close>, by their leader.\<close>

record shard_Clerk =
  sk_clnt :: addr
  sk_sck :: ShardCtrler
  sk_rcks :: "(Tgid \<times> int) list"

definition shard_NewClerk :: "addr \<Rightarrow> ShardCtrler \<Rightarrow> shard_Clerk" where
  "shard_NewClerk a sck = \<lparr>sk_clnt = a, sk_sck = sck, sk_rcks = []\<rparr>"

definition GetClerk :: "Tgid \<Rightarrow> shard_Clerk \<Rightarrow> int option" where
  "GetClerk g ck = map_of (sk_rcks ck) g"

definition makeShardCtrlerClnt :: "addr \<Rightarrow> Config \<Rightarrow> ShardCtrler \<times> Config" where
  "makeShardCtrlerClnt a cfg = (MakeShardCtrler a, cfg\<lparr>cf_clnts := MakeClient a (cf_clnts cfg)\<rparr>)"

text \<open>A clerk has two clients, \<open>a\<close> for itself and \<open>a'\<close> for its controller.\<close>

definition shard_MakeClerk :: "addr \<Rightarrow> addr \<Rightarrow> Config \<Rightarrow> shard_Clerk \<times> Config" where
  "shard_MakeClerk a a' cfg = (let cfg1 = cfg\<lparr>cf_clnts := MakeClient a (cf_clnts cfg)\<rparr>; (sck, cfg2) = makeShardCtrlerClnt a' cfg1
     in (shard_NewClerk a sck, cfg2))"

definition shard_DeleteClerk :: "shard_Clerk \<Rightarrow> Config \<Rightarrow> Config outcome" where
  "shard_DeleteClerk ck cfg = bindo (DeleteClient (sk_clnt ck) (cf_clnts cfg, cf_net cfg)) (\<lambda>(cs, net). Ret (cfg\<lparr>cf_clnts := cs, cf_net := net\<rparr>))"

section \<open>The test\<close>

record shard_test =
  sh_Test :: kv_test
  sh_partition :: bool
  sh_maxraftstate :: int
  sh_ngid :: Tgid

definition MakeTestMaxRaft :: "nat list \<Rightarrow> name list \<Rightarrow> name list \<times> addr \<times> bool \<Rightarrow> int \<Rightarrow> string \<Rightarrow> bool \<Rightarrow> bool \<Rightarrow> int \<Rightarrow> tester \<Rightarrow> (shard_test \<times> tester) outcome" where
  "MakeTestMaxRaft b ns s now part rel partitioned maxraftstate tr = bindo (MakeConfig b [ns] [s] rel now) (\<lambda>cfg.
     Ret (\<lparr>sh_Test = (kvtest_MakeTest cfg False)\<lparr>kt_Config := Config_Begin now cfg\<rparr>, sh_partition = partitioned, sh_maxraftstate = maxraftstate,
           sh_ngid = MakeTest_ngid\<rparr>, AnnotateTest now part 1 tr))"

definition shard_MakeTest :: "nat list \<Rightarrow> name list \<Rightarrow> name list \<times> addr \<times> bool \<Rightarrow> int \<Rightarrow> string \<Rightarrow> bool \<Rightarrow> tester \<Rightarrow> (shard_test \<times> tester) outcome" where
  "shard_MakeTest b ns s now part rel tr = MakeTestMaxRaft b ns s now part rel False (-1) tr"

definition MakeTestLeases :: "nat list \<Rightarrow> name list \<Rightarrow> name list \<times> addr \<times> bool \<Rightarrow> int \<Rightarrow> string \<Rightarrow> bool \<Rightarrow> tester \<Rightarrow> (shard_test \<times> tester) outcome" where
  "MakeTestLeases b ns s now part rel tr = MakeTestMaxRaft b ns s now part rel True (-1) tr"

definition shard_NSRV :: nat where
  "shard_NSRV = 3"

text \<open>Calls that may not return and may panic, in sequence.\<close>

definition bindp :: "'a outcome option \<Rightarrow> ('a \<Rightarrow> 'b outcome option) \<Rightarrow> 'b outcome option" where
  "bindp x f = (case x of None \<Rightarrow> None | Some (Inl e) \<Rightarrow> Some (Inl e) | Some (Inr y) \<Rightarrow> f y)"

lemma bindp_simps [simp]: "bindp (Some (Ret x)) f = f x" "bindp (Some (Inl e)) f = Some (Inl e)" "bindp None f = None"
  by (simp_all add: bindp_def)

text \<open>The random names and addresses of the servers of a group that is started.\<close>

type_synonym grp_names = "name list list \<times> (name list \<times> addr \<times> bool) list"

definition start_group :: "Tgid \<Rightarrow> grp_names \<Rightarrow> Groups \<times> Network \<Rightarrow> (string list \<times> Groups \<times> Network) outcome option" where
  "start_group g ns x = Some (bindo (MakeGroupStart g (fst ns) (snd ns) x) (\<lambda>(grps, net).
     case lookupGroup g grps of None \<Rightarrow> Inl Panic | Some sg \<Rightarrow> Ret (servernames sg, grps, net)))"

definition setupKVService :: "(ShardConfig \<Rightarrow> 'c \<Rightarrow> 'c) \<Rightarrow> grp_names \<Rightarrow> 'c \<times> Groups \<times> Network \<Rightarrow> (Tgid \<times> 'c \<times> Groups \<times> Network) outcome option" where
  "setupKVService init ns = (\<lambda>(sck, x). bindp (start_group Gid1 ns x) (\<lambda>(names, y).
     bindp (setup_config names) (\<lambda>(ok, scfg). Some (Ret (Gid1, init scfg sck, y)))))"

text \<open>A method of a nil configuration dereferences it.\<close>

definition asked :: "'a option \<Rightarrow> ('a \<Rightarrow> 'b outcome option) \<Rightarrow> 'b outcome option" where
  "asked q f = (case q of None \<Rightarrow> Some (Inl Panic) | Some cfg \<Rightarrow> f cfg)"

definition ts_checkMember :: "('c \<Rightarrow> ShardConfig option) \<Rightarrow> 'c \<Rightarrow> Tgid \<Rightarrow> bool outcome option" where
  "ts_checkMember query sck g = asked (query sck) (\<lambda>cfg. Some (Ret (checkMember cfg g)))"

definition ts_join :: "('c \<Rightarrow> ShardConfig option) \<Rightarrow> (ShardConfig \<Rightarrow> 'c \<Rightarrow> 'c) \<Rightarrow> Tgid \<Rightarrow> string list \<Rightarrow> 'c \<Rightarrow> 'c outcome option" where
  "ts_join query change g names sck = asked (query sck) (\<lambda>cfg. bindp (join g names cfg) (\<lambda>newcfg. Some (Ret (change newcfg sck))))"

definition ts_leave :: "('c \<Rightarrow> ShardConfig option) \<Rightarrow> (ShardConfig \<Rightarrow> 'c \<Rightarrow> 'c) \<Rightarrow> Tgid \<Rightarrow> 'c \<Rightarrow> 'c outcome option" where
  "ts_leave query change g sck = asked (query sck) (\<lambda>cfg. bindp (leave g cfg) (\<lambda>newcfg. Some (Ret (change newcfg sck))))"

fun joinGroups :: "('c \<Rightarrow> ShardConfig option) \<Rightarrow> (ShardConfig \<Rightarrow> 'c \<Rightarrow> 'c) \<Rightarrow> (Tgid \<times> grp_names) list \<Rightarrow> 'c \<times> Groups \<times> Network \<Rightarrow>
    (bool \<times> 'c \<times> Groups \<times> Network) outcome option" where
  "joinGroups query change [] s = Some (Ret (True, s))"
| "joinGroups query change ((g, ns) # gids) (sck, x) =
     bindp (start_group g ns x) (\<lambda>(names, y).
     bindp (ts_join query change g names sck) (\<lambda>sck1.
     bindp (ts_checkMember query sck1 g) (\<lambda>ok. if \<not> ok then Some (Ret (False, sck1, y)) else joinGroups query change gids (sck1, y))))"

fun leaveGroups :: "('c \<Rightarrow> ShardConfig option) \<Rightarrow> (ShardConfig \<Rightarrow> 'c \<Rightarrow> 'c) \<Rightarrow> Tgid list \<Rightarrow> 'c \<times> Groups \<times> Network \<Rightarrow>
    (bool \<times> 'c \<times> Groups \<times> Network) outcome option" where
  "leaveGroups query change [] s = Some (Ret (True, s))"
| "leaveGroups query change (g # gids) (sck, x) =
     bindp (ts_leave query change g sck) (\<lambda>sck1.
     bindp (ts_checkMember query sck1 g) (\<lambda>ok. if ok then Some (Ret (False, sck1, x))
       else bindp (Some (ExitGroup g x)) (\<lambda>y. leaveGroups query change gids (sck1, y))))"

definition shutdownLeader :: "shard_Clerk \<Rightarrow> Tgid \<Rightarrow> Config \<Rightarrow> (int \<times> Config) outcome" where
  "shutdownLeader ck g cfg = (case GetClerk g ck of None \<Rightarrow> Inl Fatal
     | Some l \<Rightarrow> bindo (on_group g (ShutdownServer l) cfg) (\<lambda>cfg'. Ret (l, cfg')))"

text \<open>
  What \<open>partitionCtrler\<close> checks of the configuration that a new controller finds after the old one was
  stopped while it made a group join or leave: it is newer than before, and the change has happened.
  The result is whether the group is still to be removed.
\<close>

datatype ctrler_state = JOIN | LEAVE

definition recovered_check :: "int \<Rightarrow> ShardConfig \<Rightarrow> ctrler_state \<Rightarrow> Tgid \<Rightarrow> bool outcome" where
  "recovered_check num cfg state ngid =
     (if Num cfg \<le> num then Inl Fatal
      else let present = IsMember cfg ngid in
        if (state = JOIN \<and> \<not> present) \<or> (state = LEAVE \<and> present) then Inl Fatal
        else Ret (state = JOIN \<and> present))"

section \<open>Lemmas\<close>

text \<open>The servers of different groups have different names.\<close>

lemma ServerName_group:
  assumes "0 \<le> g" "0 \<le> h" "ServerName g i = ServerName h j"
  shows "g = h"
proof -
  have no: "c \<noteq> CHR ''-''" if "0 \<le> k" "c \<in> set (itoa k)" for c k
    using that not_in_nat_str [of "CHR ''-''"] by (auto simp: itoa_def)
  have "takeWhile (\<lambda>c. c \<noteq> CHR ''-'') (itoa k @ ''-'' @ x) = itoa k" if "0 \<le> k" for k x
    using no [OF that] by (subst takeWhile_append2) auto
  moreover have "itoa g @ ''-'' @ itoa i = itoa h @ ''-'' @ itoa j" using assms(3) by (simp add: ServerName_def)
  ultimately have "itoa g = itoa h" using assms(1,2) by metis
  then show ?thesis by simp
qed

definition server_names :: "Tgid \<Rightarrow> string list" where
  "server_names g = map (\<lambda>i. ServerName g (int i)) [0..<shard_NSRV]"

definition well_named :: "ShardConfig \<Rightarrow> bool" where
  "well_named c \<longleftrightarrow> (\<forall>(g, names)\<in>set (Groups c). 0 < g \<and> names = server_names g)"

lemma no_shared_server:
  assumes "well_named c" "0 < g" "g \<notin> set (keys (Groups c))"
  shows "\<not> shares_server (server_names g) (Groups c)"
proof -
  have "h = g" if "s \<in> set (server_names g)" "s \<in> set (server_names h)" "0 < h" for s h
    using that assms(2) ServerName_group [of g h] by (auto simp: server_names_def)
  then show ?thesis using assms unfolding shares_server_def well_named_def by (force simp: list_ex_iff)
qed

text \<open>The names that the servers of the new groups will use are new and all different, and the processes start.\<close>

definition all_names :: "grp_names \<Rightarrow> name list" where
  "all_names ns = concat (fst ns) @ concat (map fst (snd ns))"

definition fresh_names :: "grp_names list \<Rightarrow> Network \<Rightarrow> bool" where
  "fresh_names nss net \<longleftrightarrow> distinct (concat (map all_names nss)) \<and> set (concat (map all_names nss)) \<inter> set (ends net) = {} \<and>
     (\<forall>ns\<in>set nss. length (fst ns) = shard_NSRV \<and> (\<forall>l\<in>set (fst ns). length l = shard_NSRV) \<and> length (snd ns) = shard_NSRV \<and>
       (\<forall>(l, a, started)\<in>set (snd ns). length l = shard_NSRV \<and> started))"

lemma start_group_effect:
  assumes "fresh_names (ns # nss) net"
  obtains sg net' where "start_group g ns (grps, net) = Some (Ret (server_names g, AList.update g sg grps, net'))"
    "wf_grp (int shard_NSRV) sg" "fresh_names nss net'"
proof -
  have n: "new_names shard_NSRV (fst ns) net" "new_names shard_NSRV (map fst (snd ns)) net" "set (concat (fst ns)) \<inter> set (concat (map fst (snd ns))) = {}"
    "\<forall>(names, a, started)\<in>set (snd ns). started"
    using assms by (auto simp: fresh_names_def all_names_def new_names_def)
  obtain sg net' where s: "MakeGroupStart g (fst ns) (snd ns) (grps, net) = Ret (AList.update g sg grps, net')" "running shard_NSRV (snd ns) sg net'"
    "gid sg = g" "servernames sg = map (\<lambda>i. ServerName g (int i)) [0..<shard_NSRV]" "\<forall>s\<in>set (srvs sg). dc s = Some MakePersister"
    "grown (concat (fst ns) @ concat (map fst (snd ns))) net net'"
    by (rule MakeGroupStart_effect [OF n])
  have "set (ends net') = set (all_names ns) \<union> set (ends net)" using s(6) by (simp add: grown_def all_names_def)
  then have "fresh_names nss net'" using assms by (simp add: fresh_names_def) blast
  moreover have "start_group g ns (grps, net) = Some (Ret (server_names g, AList.update g sg grps, net'))"
    using s(1,4) by (simp add: start_group_def lookupGroup_def update_conv' server_names_def)
  ultimately show thesis using that s(2) by (simp add: running_def)
qed

text \<open>
  With a controller that stores its configuration, \<open>joinGroups\<close> of new groups reports success as long as there are no more
  groups than shards, and all of them are in the configuration and run; \<open>leaveGroups\<close> of groups that
  are in the configuration then reports success too and they are gone.
\<close>

lemma joinGroups_reports:
  assumes store: "\<And>c sck. query (change c sck) = Some c"
  shows "query sck = Some c \<Longrightarrow> wf_cfg c \<Longrightarrow> well_named c \<Longrightarrow> length (Groups c) + length gids \<le> NShards \<Longrightarrow>
    distinct (map fst gids) \<Longrightarrow> \<forall>g\<in>set (map fst gids). 0 < g \<and> g \<notin> set (keys (Groups c)) \<Longrightarrow> fresh_names (map snd gids) net \<Longrightarrow>
    \<exists>sck' grps' net' c'. joinGroups query change gids (sck, grps, net) = Some (Ret (True, sck', grps', net')) \<and> query sck' = Some c' \<and>
      wf_cfg c' \<and> well_named c' \<and> Groups c' = Groups c @ map (\<lambda>(g, ns). (g, server_names g)) gids \<and> Num c' = Num c + int (length gids) \<and>
      (\<forall>g. if g \<in> set (map fst gids) then \<exists>sg. lookupGroup g grps' = Some sg \<and> wf_grp (int shard_NSRV) sg else lookupGroup g grps' = lookupGroup g grps)"
proof (induction gids arbitrary: sck c grps net)
  case (Cons x gids)
  obtain g ns where x: "x = (g, ns)" by (cases x)
  obtain sg net1 where 1: "start_group g ns (grps, net) = Some (Ret (server_names g, AList.update g sg grps, net1))"
    "wf_grp (int shard_NSRV) sg" "fresh_names (map snd gids) net1"
    using start_group_effect [of ns "map snd gids" net g grps] Cons.prems(7) x by auto
  have g: "0 < g" "g \<notin> set (keys (Groups c))" using Cons.prems(6) x by auto
  obtain c1 where c1: "join g (server_names g) c = Some (Ret c1)" "wf_cfg c1" "Num c1 = Num c + 1" "Groups c1 = Groups c @ [(g, server_names g)]"
    "assigned c1" "balanced c1" using join_result [OF Cons.prems(2) g(2) no_shared_server [OF Cons.prems(3) g]] by blast
  let ?sck = "change c1 sck"
  have "g \<in> set (Shards c1)" using balanced_all_members [OF c1(2,5,6), of g] c1(4) Cons.prems(4) by simp
  then have step: "joinGroups query change (x # gids) (sck, grps, net) = joinGroups query change gids (?sck, AList.update g sg grps, net1)"
    using 1(1) c1(1) Cons.prems(1) by (simp add: x ts_join_def ts_checkMember_def asked_def store checkMember_def IsMember_set)
  have "well_named c1" using Cons.prems(3) g(1) c1(4) by (simp add: well_named_def)
  moreover have "\<forall>h\<in>set (map fst gids). 0 < h \<and> h \<notin> set (keys (Groups c1))" using Cons.prems(5,6) c1(4) x by auto
  ultimately obtain sck' grps' net' c' where r: "joinGroups query change gids (?sck, AList.update g sg grps, net1) = Some (Ret (True, sck', grps', net'))"
    "query sck' = Some c'" "wf_cfg c'" "well_named c'" "Groups c' = Groups c1 @ map (\<lambda>(g, ns). (g, server_names g)) gids" "Num c' = Num c1 + int (length gids)"
    "\<forall>h. if h \<in> set (map fst gids) then \<exists>sg. lookupGroup h grps' = Some sg \<and> wf_grp (int shard_NSRV) sg
      else lookupGroup h grps' = lookupGroup h (AList.update g sg grps)"
    using Cons.IH [of ?sck c1 net1 "AList.update g sg grps"] store c1(2,4) Cons.prems(4,5) 1(3) by auto
  have "if h \<in> set (map fst (x # gids)) then \<exists>sg. lookupGroup h grps' = Some sg \<and> wf_grp (int shard_NSRV) sg else lookupGroup h grps' = lookupGroup h grps" for h
    using spec [OF r(7), of h] 1(2) by (auto simp: x lookupGroup_def update_conv' split: if_splits)
  then show ?case using r(1-6) c1(3,4) by (intro exI [of _ sck'] exI [of _ grps'] exI [of _ net'] exI [of _ c']) (simp add: step [unfolded x joinGroups.simps] x)
qed simp

lemma leaveGroups_reports:
  assumes store: "\<And>c sck. query (change c sck) = Some c"
  shows "query sck = Some c \<Longrightarrow> wf_cfg c \<Longrightarrow> distinct gids \<Longrightarrow> \<forall>g\<in>set gids. g \<noteq> 0 \<and> g \<in> set (keys (Groups c)) \<Longrightarrow>
    \<forall>g\<in>set gids. \<exists>sg. lookupGroup g grps = Some sg \<and> wf_grp (int shard_NSRV) sg \<Longrightarrow>
    \<exists>sck' grps' net' c'. leaveGroups query change gids (sck, grps, net) = Some (Ret (True, sck', grps', net')) \<and> query sck' = Some c' \<and>
      wf_cfg c' \<and> Groups c' = filter (\<lambda>(g, ns). g \<notin> set gids) (Groups c) \<and> Num c' = Num c + int (length gids) \<and>
      (\<forall>g. lookupGroup g grps' = (if g \<in> set gids then None else lookupGroup g grps))"
proof (induction gids arbitrary: sck c grps net)
  case (Cons g gids)
  have g: "g \<noteq> 0" "g \<in> set (keys (Groups c))" using Cons.prems(4) by auto
  obtain c1 where c1: "leave g c = Some (Ret c1)" "wf_cfg c1" "Num c1 = Num c + 1" "Groups c1 = AList.delete g (Groups c)"
    "if Groups c1 = [] then Shards c1 = replicate NShards 0 else assigned c1 \<and> balanced c1" using leave_result [OF Cons.prems(2) g(2)] by blast
  obtain sg where sg: "lookupGroup g grps = Some sg" "wf_grp (int shard_NSRV) sg" using Cons.prems(5) by auto
  obtain net1 where e: "ExitGroup g (grps, net) = Ret (delete_group g grps, net1)" using ExitGroup_effect [OF sg] by blast
  have "g \<notin> set (Shards c1)" using c1(4,5) g(1) by (auto simp: assigned_def delete_keys split: if_splits)
  then have step: "leaveGroups query change (g # gids) (sck, grps, net) = leaveGroups query change gids (change c1 sck, delete_group g grps, net1)"
    using c1(1) e Cons.prems(1) by (simp add: ts_leave_def ts_checkMember_def asked_def store checkMember_def IsMember_set)
  have "\<forall>h\<in>set gids. h \<noteq> 0 \<and> h \<in> set (keys (Groups c1))" using Cons.prems(3,4) c1(4) by (auto simp: delete_keys)
  moreover have "\<forall>h\<in>set gids. \<exists>sg. lookupGroup h (delete_group g grps) = Some sg \<and> wf_grp (int shard_NSRV) sg"
    using Cons.prems(3,5) by (auto simp: lookupGroup_def delete_group_def delete_conv')
  ultimately obtain sck' grps' net' c' where r: "leaveGroups query change gids (change c1 sck, delete_group g grps, net1) = Some (Ret (True, sck', grps', net'))"
    "query sck' = Some c'" "wf_cfg c'" "Groups c' = filter (\<lambda>(g, ns). g \<notin> set gids) (Groups c1)" "Num c' = Num c1 + int (length gids)"
    "\<forall>h. lookupGroup h grps' = (if h \<in> set gids then None else lookupGroup h (delete_group g grps))"
    using Cons.IH [of "change c1 sck" c1 "delete_group g grps" net1] store c1(2) Cons.prems(3) by auto
  have "Groups c' = filter (\<lambda>(h, ns). h \<notin> set (g # gids)) (Groups c)" using r(4) c1(4) by (auto simp: AList.delete_eq intro: filter_cong)
  moreover have "lookupGroup h grps' = (if h \<in> set (g # gids) then None else lookupGroup h grps)" for h
    using spec [OF r(6), of h] by (auto simp: lookupGroup_def delete_group_def delete_conv')
  ultimately show ?case using r(1-3,5) c1(3) by (intro exI [of _ sck'] exI [of _ grps'] exI [of _ net'] exI [of _ c']) (simp add: step [unfolded leaveGroups.simps])
qed auto

text \<open>The controller of the repository answers every query with nil, so that the first join panics once its group has started.\<close>

lemma joinGroups_stub:
  assumes "start_group g ns x = Some (Ret y)"
  shows "joinGroups ctrler_Query ctrler_ChangeConfigTo ((g, ns) # gids) (sck, x) = Some (Inl Panic)"
  using assms by (cases y) (simp add: ts_join_def asked_def ctrler_Query_def)

text \<open>\<open>DeleteClerk\<close> deletes the client of a clerk; the client of its controller stays among the clients of the test.\<close>

lemma shard_DeleteClerk_leaves:
  assumes "a \<noteq> a'" "shard_MakeClerk a a' cfg = (ck, cfg1)"
  shows "\<exists>cfg2. shard_DeleteClerk ck cfg1 = Ret cfg2 \<and> map_of (cf_clnts cfg2) a = None \<and> map_of (cf_clnts cfg2) a' = Some (makeClntTo None)"
proof -
  have ck: "sk_clnt ck = a" "cf_clnts cfg1 = AList.update a' (makeClntTo None) (AList.update a (makeClntTo None) (cf_clnts cfg))"
    using assms(2) by (auto simp: shard_MakeClerk_def makeShardCtrlerClnt_def MakeClient_def MakeClientTo_def shard_NewClerk_def Let_def)
  then have "map_of (cf_clnts cfg1) a = Some (makeClntTo None)" using assms(1) by (simp add: update_conv')
  then show ?thesis using ck assms(1)
    by (auto simp: shard_DeleteClerk_def DeleteClient_def Clnt_remove_def makeClntTo_def delete_conv' update_conv')
qed

text \<open>
  The check after an interrupted change passes exactly if the configuration is newer and the group
  owns a shard after a join and none after a leave.
\<close>

lemma recovered_check_iff:
  "recovered_check num cfg state ngid = Ret again \<longleftrightarrow> num < Num cfg \<and> (ngid \<in> set (Shards cfg) \<longleftrightarrow> state = JOIN) \<and> again = (state = JOIN)"
  by (cases state) (auto simp: recovered_check_def IsMember_set Let_def)

end
