(* ===== verification/Transport.thy ===== *)
theory Transport
  imports Prelude
begin

text \<open>
  The framing of calls on a stream connection, \<open>tester1/demux/transport.go\<close>: a call is its
  encoding after the length of the encoding in four bytes, least significant first. A byte is a
  \<^typ>\<open>char\<close>; the encoder and decoder of a call are arguments. Reading takes the bytes that will
  still arrive before the stream ends.
\<close>

section \<open>Lengths in four bytes\<close>

definition le32 :: "32 word \<Rightarrow> string" where
  "le32 w = map (\<lambda>i. char_of (unat w div 256 ^ i)) [0..<4]"

definition of_le32 :: "string \<Rightarrow> 32 word" where
  "of_le32 bs = word_of_nat (foldr (\<lambda>c n. of_char c + 256 * n) bs 0)"

lemma length_le32 [simp]: "length (le32 w) = 4"
  by (simp add: le32_def)

lemma le32_ne_Nil [simp]: "le32 w \<noteq> []"
  using length_le32 [of w] by (metis list.size(3) zero_neq_numeral)

lemma base_256_digits: "n < 256 ^ k \<Longrightarrow> foldr (\<lambda>i m. n div 256 ^ i mod 256 + 256 * m) [0..<k] 0 = (n :: nat)"
proof (induction k arbitrary: n)
  case (Suc k)
  have "foldr (\<lambda>i m. n div 256 ^ i mod 256 + 256 * m) [0..<Suc k] 0 =
    n mod 256 + 256 * foldr (\<lambda>i m. n div 256 ^ Suc i mod 256 + 256 * m) [0..<k] 0"
    by (simp only: upt_conv_Cons zero_less_Suc foldr.simps o_apply power_0 div_by_1 map_Suc_upt [symmetric] foldr_map comp_def)
  also have "(\<lambda>i m. n div 256 ^ Suc i mod 256 + 256 * m) = (\<lambda>i m. n div 256 div 256 ^ i mod 256 + 256 * m)"
    by (simp add: div_mult2_eq)
  finally show ?case using Suc.IH [of "n div 256"] Suc.prems by (simp add: less_mult_imp_div_less mult.commute)
qed simp

lemma of_le32_le32 [simp]: "of_le32 (le32 w) = w"
proof -
  have "unat w < 256 ^ 4" using unsigned_less [of w, where ?'a = nat] by simp
  then have "foldr (\<lambda>c n. of_char c + 256 * n) (le32 w) 0 = unat w"
    using base_256_digits [of "unat w" 4] by (simp add: le32_def foldr_map comp_def)
  then show ?thesis by (simp add: of_le32_def)
qed

section \<open>Calls\<close>

type_synonym Ttag = "32 word"

record msg =
  Tag :: Ttag
  Data :: string
  Ok :: bool

datatype read_err = EOF | ErrUnexpectedEOF

text \<open>\<open>io.ReadFull\<close>: nothing to read is \<open>EOF\<close>, too little is \<open>ErrUnexpectedEOF\<close>.\<close>

definition ReadFull :: "nat \<Rightarrow> string \<Rightarrow> read_err + (string \<times> string)" where
  "ReadFull n s = (if n \<le> length s then Inr (take n s, drop n s)
     else if s = [] then Inl EOF else Inl ErrUnexpectedEOF)"

text \<open>
  \<open>ReadCall\<close>; a call that cannot be decoded ends the process. The check of the number of bytes
  after \<open>ReadFull\<close> never fails, since \<open>ReadFull\<close> returns an error then.
\<close>

definition ReadCall :: "(string \<Rightarrow> msg option) \<Rightarrow> string \<Rightarrow> (read_err + (msg \<times> string)) outcome" where
  "ReadCall unm s = (case ReadFull 4 s of
      Inl e \<Rightarrow> Ret (Inl e)
    | Inr (nbyte, s1) \<Rightarrow> (case ReadFull (unat (of_le32 nbyte)) s1 of
        Inl e \<Rightarrow> Ret (Inl e)
      | Inr (b, s2) \<Rightarrow> (case unm b of None \<Rightarrow> Inl Fatal | Some m \<Rightarrow> Ret (Inr (m, s2)))))"

text \<open>\<open>WriteCall\<close>: the bytes that go to the stream. The length is cut to 32 bits.\<close>

definition WriteCall :: "(msg \<Rightarrow> string) \<Rightarrow> Ttag \<Rightarrow> string \<Rightarrow> bool \<Rightarrow> string" where
  "WriteCall mar tag d ok = (let b = mar \<lparr>Tag = tag, Data = d, Ok = ok\<rparr> in le32 (word_of_nat (length b)) @ b)"

text \<open>The calls a reader gets until its first error, as the loops of both sides read them.\<close>

function read_all :: "(string \<Rightarrow> msg option) \<Rightarrow> string \<Rightarrow> (msg list \<times> read_err) outcome" where
  "read_all unm s = (case ReadCall unm s of
      Inl e \<Rightarrow> Inl e
    | Inr (Inl e) \<Rightarrow> Ret ([], e)
    | Inr (Inr (m, s')) \<Rightarrow> bindo (read_all unm s') (\<lambda>(ms, e). Ret (m # ms, e)))"
  by auto

lemma ReadCall_shorter: "ReadCall unm s = Ret (Inr (m, s')) \<Longrightarrow> length s' < length s"
  by (auto simp: ReadCall_def ReadFull_def split: if_splits option.splits)

termination read_all
  by (relation "measure (\<lambda>(unm, s). length s)") (auto dest: ReadCall_shorter)

declare read_all.simps [simp del]

section \<open>Reading back what was written\<close>

definition frame :: "(msg \<Rightarrow> string) \<Rightarrow> msg \<Rightarrow> string" where
  "frame mar m = WriteCall mar (Tag m) (Data m) (Ok m)"

lemma frame_eq: "frame mar m = le32 (word_of_nat (length (mar m))) @ mar m"
  by (cases m) (simp add: frame_def WriteCall_def Let_def)

lemma ReadCall_frame:
  assumes "unm (mar m) = Some m" "length (mar m) < 2 ^ 32"
  shows "ReadCall unm (frame mar m @ s) = Ret (Inr (m, s))"
proof -
  have "unat (word_of_nat (length (mar m)) :: 32 word) = length (mar m)"
    using assms(2) by (simp add: unat_of_nat take_bit_eq_mod)
  then show ?thesis using assms(1) by (simp add: ReadCall_def ReadFull_def frame_eq)
qed

lemma ReadCall_cut:
  assumes "length (mar m) < 2 ^ 32" "k < length (frame mar m)"
  shows "ReadCall unm (take k (frame mar m)) = Ret (Inl (if k = 0 \<or> k = 4 then EOF else ErrUnexpectedEOF))"
proof -
  have "unat (word_of_nat (length (mar m)) :: 32 word) = length (mar m)"
    using assms(1) by (simp add: unat_of_nat take_bit_eq_mod)
  then show ?thesis using assms(2) by (auto simp: ReadCall_def ReadFull_def frame_eq)
qed

text \<open>
  C20. What is written to a stream is read back: when the calls \<open>ms\<close> have been written and the stream
  ends, at any byte, the reader gets a prefix of them unchanged and then an error; when the stream
  ends after the last byte it gets all of them and \<open>EOF\<close>. It never gets a call that was not
  written, and it never fails to decode one. The encoder is assumed to be decodable, and the
  encodings to be shorter than \<open>2^32\<close> bytes.
\<close>

theorem read_all_written:
  assumes "\<forall>m\<in>set ms. unm (mar m) = Some m" "\<forall>m\<in>set ms. length (mar m) < 2 ^ 32"
  shows "\<exists>p e. read_all unm (take k (concat (map (frame mar) ms))) = Ret (take p ms, e) \<and>
    (length (concat (map (frame mar) ms)) \<le> k \<longrightarrow> length ms \<le> p \<and> e = EOF)"
  using assms
proof (induction ms arbitrary: k)
  case Nil
  then show ?case by (auto simp: read_all.simps ReadCall_def ReadFull_def)
next
  case (Cons m ms)
  let ?f = "frame mar m" let ?rest = "concat (map (frame mar) ms)"
  show ?case
  proof (cases "length ?f \<le> k")
    case True
    then have "read_all unm (take k (?f @ ?rest)) = bindo (read_all unm (take (k - length ?f) ?rest)) (\<lambda>(ms, e). Ret (m # ms, e))"
      using ReadCall_frame [of unm mar m] Cons.prems by (subst read_all.simps) simp
    moreover obtain p e where "read_all unm (take (k - length ?f) ?rest) = Ret (take p ms, e)"
      "length ?rest \<le> k - length ?f \<longrightarrow> length ms \<le> p \<and> e = EOF"
      using Cons.IH [of "k - length ?f"] Cons.prems by auto
    ultimately show ?thesis using True by (intro exI [of _ "Suc p"] exI [of _ e]) auto
  next
    case False
    then show ?thesis using ReadCall_cut [of mar m k unm] Cons.prems
      by (intro exI [of _ 0]) (simp add: read_all.simps)
  qed
qed

definition plain_enc :: "msg \<Rightarrow> string" where
  "plain_enc m = le32 (Tag m) @ (if Ok m then CHR ''t'' else CHR ''f'') # Data m"

definition plain_dec :: "string \<Rightarrow> msg option" where
  "plain_dec b = (if length b < 5 then None else Some \<lparr>Tag = of_le32 (take 4 b), Data = drop 5 b, Ok = b ! 4 = CHR ''t''\<rparr>)"

lemma plain_dec_enc: "plain_dec (plain_enc m) = Some m"
  by (cases m) (simp add: plain_dec_def plain_enc_def nth_append)

definition two_calls :: "msg list" where
  "two_calls = [\<lparr>Tag = 1, Data = ''get'', Ok = True\<rparr>, \<lparr>Tag = 258, Data = [], Ok = False\<rparr>]"

theorem read_all_written_witness:
  "\<exists>e. read_all plain_dec (concat (map (frame plain_enc) two_calls)) = Ret (two_calls, e) \<and> e = EOF"
proof -
  have "\<forall>m\<in>set two_calls. length (plain_enc m) < 2 ^ 32" by (simp add: two_calls_def plain_enc_def)
  then obtain p e where "read_all plain_dec (concat (map (frame plain_enc) two_calls)) = Ret (take p two_calls, e)"
    "length two_calls \<le> p" "e = EOF"
    using read_all_written [of two_calls plain_dec plain_enc "length (concat (map (frame plain_enc) two_calls))"] plain_dec_enc by auto
  then show ?thesis by simp
qed

end
