(* ===== verification/Demux.thy ===== *)
theory Demux
  imports Transport
begin

text \<open>
  Multiplexed calls over one connection, \<open>tester1/demux\<close>: the callers, the client's reader, the
  server's reader and the goroutines that serve requests run concurrently. Every critical section,
  every read or write of the connection and every rendezvous on a reply channel is one step. The
  two directions of the connection are lists of calls; that the calls arrive as they were written
  is shown for \<open>transport.go\<close> in its own theory. What serves a request is an argument.
\<close>

section \<open>The map of outstanding calls\<close>

text \<open>A reply channel is named by the number of the call of \<open>SendReceive\<close> that made it.\<close>

record callMap =
  cm_closed :: bool
  cm_calls :: "(Ttag \<times> nat) list"

definition newCallMap :: callMap where
  "newCallMap = \<lparr>cm_closed = False, cm_calls = []\<rparr>"

definition cm_close :: "callMap \<Rightarrow> callMap" where
  "cm_close cm = cm\<lparr>cm_closed := True\<rparr>"

definition cm_isClosed :: "callMap \<Rightarrow> bool" where
  "cm_isClosed cm = cm_closed cm"

definition cm_put :: "Ttag \<Rightarrow> nat \<Rightarrow> callMap \<Rightarrow> callMap option" where
  "cm_put tag ch cm = (if cm_closed cm then None else Some (cm\<lparr>cm_calls := AList.update tag ch (cm_calls cm)\<rparr>))"

definition cm_remove :: "Ttag \<Rightarrow> callMap \<Rightarrow> (nat \<times> callMap) option" where
  "cm_remove tag cm = map_option (\<lambda>ch. (ch, cm\<lparr>cm_calls := AList.delete tag (cm_calls cm)\<rparr>)) (map_of (cm_calls cm) tag)"

text \<open>The tags in the order in which Go iterates over the map, which may be any.\<close>

definition cm_outstanding :: "callMap \<Rightarrow> Ttag list \<Rightarrow> bool" where
  "cm_outstanding cm ts \<longleftrightarrow> distinct ts \<and> set ts = fst ` set (cm_calls cm)"

section \<open>Client, connection and server\<close>

record reply =
  rp_rep :: string
  rp_ok :: bool
  rp_err :: bool

text \<open>Where a call of \<open>SendReceive\<close> is: before its first step, with a tag, in the map, written, returned.\<close>

datatype call_pc = CallStart | CallTagged Ttag | CallPut Ttag | CallWait Ttag | CallRet Ttag reply

text \<open>
  Where the client's reader is: \<open>ReadSend ch r k\<close> has taken the channel \<open>ch\<close> out of the map and
  waits for its receiver; afterwards it reads on, or goes on with the tags it fails.
\<close>

datatype reader_pc = Reading | ReadSend nat reply "Ttag list option" | ReadClosed | ReadFailing "Ttag list" | ReadDone | ReadFatal

record 's dmx =
  callmap :: callMap
  nextTag :: Ttag
  reader :: reader_pc
  pc :: "nat \<Rightarrow> call_pc"
  up :: bool
  to_srv :: "(Ttag \<times> string) list"
  srv_reading :: bool
  srv_closed :: bool
  serving :: "(Ttag \<times> string) list"
  answering :: "(Ttag \<times> string \<times> bool) list"
  to_clnt :: "(Ttag \<times> string \<times> bool) list"
  srv_state :: 's
  served :: "(Ttag \<times> string \<times> string \<times> bool) list"

text \<open>
  After \<open>NewDemuxClnt\<close> and \<open>NewDemuxSrv\<close>: the client has sent its name under the first tag and the
  server has read it. \<open>served\<close> records what the server has executed.
\<close>

definition NewDemux :: "'s \<Rightarrow> 's dmx" where
  "NewDemux st = \<lparr>callmap = newCallMap, nextTag = 1, reader = Reading, pc = (\<lambda>_. CallStart), up = True, to_srv = [],
     srv_reading = True, srv_closed = False, serving = [], answering = [], to_clnt = [], srv_state = st, served = []\<rparr>"

definition dmx_tag :: "'s dmx \<Rightarrow> Ttag \<times> 's dmx" where
  "dmx_tag s = (nextTag s, s\<lparr>nextTag := nextTag s + 1\<rparr>)"

definition set_pc :: "nat \<Rightarrow> call_pc \<Rightarrow> 's dmx \<Rightarrow> 's dmx" where
  "set_pc c p s = s\<lparr>pc := (pc s)(c := p)\<rparr>"

definition err_reply :: reply where
  "err_reply = \<lparr>rp_rep = [], rp_ok = False, rp_err = True\<rparr>"

text \<open>
  A step of call \<open>c\<close> with request \<open>b\<close>. A write on a connection that is down fails; the caller waits
  for the reader all the same. \<^const>\<open>None\<close>: the caller waits for its channel, or has returned.
\<close>

definition SendReceive :: "string \<Rightarrow> nat \<Rightarrow> 's dmx \<Rightarrow> 's dmx option" where
  "SendReceive b c s = (case pc s c of
      CallStart \<Rightarrow> (case dmx_tag s of (t, s') \<Rightarrow> Some (set_pc c (CallTagged t) s'))
    | CallTagged t \<Rightarrow> (case cm_put t c (callmap s) of
        None \<Rightarrow> Some (set_pc c (CallRet t err_reply) s)
      | Some cm \<Rightarrow> Some (set_pc c (CallPut t) (s\<lparr>callmap := cm\<rparr>)))
    | CallPut t \<Rightarrow> Some (set_pc c (CallWait t) (if up s then s\<lparr>to_srv := to_srv s @ [(t, b)]\<rparr> else s))
    | CallWait t \<Rightarrow> None
    | CallRet t r \<Rightarrow> None)"

definition dmx_reply :: "Ttag \<Rightarrow> reply \<Rightarrow> Ttag list option \<Rightarrow> 's dmx \<Rightarrow> 's dmx" where
  "dmx_reply t r k s = (case cm_remove t (callmap s) of
      Some (ch, cm) \<Rightarrow> s\<lparr>callmap := cm, reader := ReadSend ch r k\<rparr>
    | None \<Rightarrow> s\<lparr>reader := ReadFatal\<rparr>)"

text \<open>The client's reader: a call is read, or the read fails.\<close>

definition reader_read :: "'s dmx \<Rightarrow> 's dmx option" where
  "reader_read s = (case (reader s, to_clnt s) of
      (Reading, (t, b, ok) # rest) \<Rightarrow> Some (dmx_reply t \<lparr>rp_rep = b, rp_ok = ok, rp_err = False\<rparr> None (s\<lparr>to_clnt := rest\<rparr>))
    | _ \<Rightarrow> None)"

definition reader_err :: "'s dmx \<Rightarrow> 's dmx option" where
  "reader_err s = (if reader s = Reading \<and> \<not> up s then Some (s\<lparr>callmap := cm_close (callmap s), reader := ReadClosed\<rparr>) else None)"

definition reader_outstanding :: "Ttag list \<Rightarrow> 's dmx \<Rightarrow> 's dmx option" where
  "reader_outstanding ts s = (if reader s = ReadClosed \<and> cm_outstanding (callmap s) ts then Some (s\<lparr>reader := ReadFailing ts\<rparr>) else None)"

definition reader_fail :: "'s dmx \<Rightarrow> 's dmx option" where
  "reader_fail s = (case reader s of
      ReadFailing [] \<Rightarrow> Some (s\<lparr>reader := ReadDone\<rparr>)
    | ReadFailing (t # ts) \<Rightarrow> Some (dmx_reply t err_reply (Some ts) s)
    | _ \<Rightarrow> None)"

text \<open>The rendezvous on the channel of call \<open>c\<close>; the call returns what it receives.\<close>

definition reader_send :: "'s dmx \<Rightarrow> 's dmx option" where
  "reader_send s = (case reader s of
      ReadSend ch r k \<Rightarrow> (case pc s ch of
        CallWait t \<Rightarrow> Some (set_pc ch (CallRet t r) (s\<lparr>reader := (case k of None \<Rightarrow> Reading | Some ts \<Rightarrow> ReadFailing ts)\<rparr>))
      | _ \<Rightarrow> None)
    | _ \<Rightarrow> None)"

text \<open>The server's reader starts a goroutine for each request; it ends when a read fails.\<close>

definition srv_read :: "'s dmx \<Rightarrow> 's dmx option" where
  "srv_read s = (case to_srv s of
      (t, b) # rest \<Rightarrow> if srv_reading s then Some (s\<lparr>to_srv := rest, serving := (t, b) # serving s\<rparr>) else None
    | [] \<Rightarrow> None)"

definition setClosed :: "'s dmx \<Rightarrow> bool \<times> 's dmx" where
  "setClosed s = (srv_closed s, s\<lparr>srv_closed := True\<rparr>)"

definition srv_err :: "read_err \<Rightarrow> 's dmx \<Rightarrow> 's dmx option" where
  "srv_err e s = (if srv_reading s \<and> \<not> up s
     then Some ((if e = EOF then snd (setClosed s) else s)\<lparr>srv_reading := False\<rparr>) else None)"

text \<open>One of the goroutines: \<open>ServeRequest\<close>, and the write of the reply.\<close>

definition srv_serve :: "('s \<Rightarrow> string \<Rightarrow> (string \<times> bool) \<times> 's) \<Rightarrow> nat \<Rightarrow> 's dmx \<Rightarrow> 's dmx option" where
  "srv_serve ServeRequest i s = (if i < length (serving s) then
     (case serving s ! i of (t, b) \<Rightarrow> case ServeRequest (srv_state s) b of ((rep, ok), st) \<Rightarrow>
       Some (s\<lparr>serving := take i (serving s) @ drop (Suc i) (serving s), answering := (t, rep, ok) # answering s,
               srv_state := st, served := (t, b, rep, ok) # served s\<rparr>))
     else None)"

definition srv_answer :: "nat \<Rightarrow> 's dmx \<Rightarrow> 's dmx option" where
  "srv_answer i s = (if i < length (answering s) then
     Some (s\<lparr>answering := take i (answering s) @ drop (Suc i) (answering s),
             to_clnt := (if up s then to_clnt s @ [answering s ! i] else to_clnt s)\<rparr>)
     else None)"

text \<open>\<open>Close\<close> on either side, and a connection that breaks by itself.\<close>

definition DemuxClnt_Close :: "'s dmx \<Rightarrow> 's dmx" where
  "DemuxClnt_Close s = (if cm_isClosed (callmap s) then s else s\<lparr>up := False, callmap := cm_close (callmap s)\<rparr>)"

definition DemuxSrv_Close :: "'s dmx \<Rightarrow> 's dmx" where
  "DemuxSrv_Close s = (case setClosed s of (c, s') \<Rightarrow> if c then s' else s'\<lparr>up := False\<rparr>)"

definition break_conn :: "'s dmx \<Rightarrow> 's dmx" where
  "break_conn s = s\<lparr>up := False\<rparr>"

section \<open>Runs\<close>

datatype dmx_action = Call nat | ReaderRead | ReaderErr | ReaderOutstanding "Ttag list" | ReaderFail | ReaderSend
  | SrvRead | SrvErr read_err | SrvServe nat | SrvAnswer nat | CloseClnt | CloseSrv | Break

definition dmx_step :: "('s \<Rightarrow> string \<Rightarrow> (string \<times> bool) \<times> 's) \<Rightarrow> (nat \<Rightarrow> string) \<Rightarrow> dmx_action \<Rightarrow> 's dmx \<Rightarrow> 's dmx option" where
  "dmx_step srv req a s = (case a of
      Call c \<Rightarrow> SendReceive (req c) c s
    | ReaderRead \<Rightarrow> reader_read s
    | ReaderErr \<Rightarrow> reader_err s
    | ReaderOutstanding ts \<Rightarrow> reader_outstanding ts s
    | ReaderFail \<Rightarrow> reader_fail s
    | ReaderSend \<Rightarrow> reader_send s
    | SrvRead \<Rightarrow> srv_read s
    | SrvErr e \<Rightarrow> srv_err e s
    | SrvServe i \<Rightarrow> srv_serve srv i s
    | SrvAnswer i \<Rightarrow> srv_answer i s
    | CloseClnt \<Rightarrow> Some (DemuxClnt_Close s)
    | CloseSrv \<Rightarrow> Some (DemuxSrv_Close s)
    | Break \<Rightarrow> Some (break_conn s))"

text \<open>A run with the number of tags it has handed out; the first went to the client's name.\<close>

inductive dmx_run :: "('s \<Rightarrow> string \<Rightarrow> (string \<times> bool) \<times> 's) \<Rightarrow> (nat \<Rightarrow> string) \<Rightarrow> nat \<Rightarrow> 's dmx \<Rightarrow> bool"
  for srv :: "'s \<Rightarrow> string \<Rightarrow> (string \<times> bool) \<times> 's" and req :: "nat \<Rightarrow> string" where
  start: "dmx_run srv req 1 (NewDemux st)"
| step: "dmx_run srv req n s \<Longrightarrow> dmx_step srv req a s = Some s' \<Longrightarrow>
    dmx_run srv req (if \<exists>c. a = Call c \<and> pc s c = CallStart then Suc n else n) s'"

end
