(* ===== verification/DemuxInv.thy ===== *)
theory DemuxInv
  imports Demux
begin

text \<open>
  What holds in every state of the multiplexer of \<open>tester1/demux\<close>: no tag is in use twice, every
  caller that waits is in the map or about to be served, and every call on its way belongs to a
  caller that wrote it.
\<close>

section \<open>The invariant\<close>

fun tag_of :: "call_pc \<Rightarrow> Ttag option" where
  "tag_of CallStart = None"
| "tag_of (CallTagged t) = Some t"
| "tag_of (CallPut t) = Some t"
| "tag_of (CallWait t) = Some t"
| "tag_of (CallRet t r) = Some t"

definition waiting :: "call_pc \<Rightarrow> Ttag \<Rightarrow> bool" where
  "waiting p t \<longleftrightarrow> p = CallPut t \<or> p = CallWait t"

definition sent :: "call_pc \<Rightarrow> Ttag \<Rightarrow> bool" where
  "sent p t \<longleftrightarrow> p = CallWait t \<or> (\<exists>r. p = CallRet t r)"

lemma waiting_tag: "waiting p t \<Longrightarrow> tag_of p = Some t"
  by (auto simp: waiting_def)

lemma sent_tag: "sent p t \<Longrightarrow> tag_of p = Some t"
  by (auto simp: sent_def)

definition inv_tags :: "nat \<Rightarrow> 's dmx \<Rightarrow> bool" where
  "inv_tags n s \<longleftrightarrow> nextTag s = word_of_nat n \<and> (\<forall>c t. tag_of (pc s c) = Some t \<longrightarrow> unat t < n) \<and>
     (\<forall>c c' t. tag_of (pc s c) = Some t \<and> tag_of (pc s c') = Some t \<longrightarrow> c = c')"

definition inv_map :: "'s dmx \<Rightarrow> bool" where
  "inv_map s \<longleftrightarrow> wf_map (cm_calls (callmap s)) \<and>
     (\<forall>t c. map_of (cm_calls (callmap s)) t = Some c \<longrightarrow> waiting (pc s c) t) \<and>
     (\<forall>c t. waiting (pc s c) t \<longrightarrow> map_of (cm_calls (callmap s)) t = Some c \<or> (\<exists>r k. reader s = ReadSend c r k)) \<and>
     (\<forall>c r k. reader s = ReadSend c r k \<longrightarrow> (\<exists>t. waiting (pc s c) t \<and> map_of (cm_calls (callmap s)) t = None))"

definition flow :: "'s dmx \<Rightarrow> Ttag list" where
  "flow s = map fst (to_srv s) @ map fst (serving s) @ map fst (answering s) @ map fst (to_clnt s)"

definition inv_flow :: "(nat \<Rightarrow> string) \<Rightarrow> 's dmx \<Rightarrow> bool" where
  "inv_flow req s \<longleftrightarrow> distinct (flow s) \<and> distinct (map fst (served s)) \<and>
     (\<forall>t b. (t, b) \<in> set (to_srv s) \<union> set (serving s) \<longrightarrow> t \<notin> fst ` set (served s) \<and> (\<exists>c. sent (pc s c) t \<and> b = req c)) \<and>
     (\<forall>t b x. (t, b, x) \<in> set (served s) \<longrightarrow> (\<exists>c. sent (pc s c) t \<and> b = req c)) \<and>
     (\<forall>t x. (t, x) \<in> set (answering s) \<union> set (to_clnt s) \<longrightarrow> (\<exists>b. (t, b, x) \<in> set (served s)))"

definition inv_reader :: "'s dmx \<Rightarrow> bool" where
  "inv_reader s \<longleftrightarrow> (let calls = fst ` set (cm_calls (callmap s)); closed = cm_closed (callmap s) in
     case reader s of
       Reading \<Rightarrow> set (flow s) \<subseteq> calls
     | ReadSend c r None \<Rightarrow> set (flow s) \<subseteq> calls \<and> \<not> rp_err r
     | ReadSend c r (Some ts) \<Rightarrow> closed \<and> rp_err r \<and> distinct ts \<and> set ts = calls
     | ReadClosed \<Rightarrow> closed
     | ReadFailing ts \<Rightarrow> closed \<and> distinct ts \<and> set ts = calls
     | ReadDone \<Rightarrow> closed \<and> calls = {}
     | ReadFatal \<Rightarrow> False)"

definition inv_result :: "(nat \<Rightarrow> string) \<Rightarrow> 's dmx \<Rightarrow> bool" where
  "inv_result req s \<longleftrightarrow>
     (\<forall>c r k. reader s = ReadSend c r k \<and> \<not> rp_err r \<longrightarrow> (\<exists>t. pc s c = CallWait t \<and> (t, req c, rp_rep r, rp_ok r) \<in> set (served s))) \<and>
     (\<forall>c t r. pc s c = CallRet t r \<and> \<not> rp_err r \<longrightarrow> (t, req c, rp_rep r, rp_ok r) \<in> set (served s))"

definition dmx_inv :: "(nat \<Rightarrow> string) \<Rightarrow> nat \<Rightarrow> 's dmx \<Rightarrow> bool" where
  "dmx_inv req n s \<longleftrightarrow> inv_tags n s \<and> inv_map s \<and> inv_flow req s \<and> inv_reader s \<and> inv_result req s"

lemma dmx_invD:
  assumes "dmx_inv req n s"
  shows "inv_tags n s" "inv_map s" "inv_flow req s" "inv_reader s" "inv_result req s"
  using assms by (auto simp: dmx_inv_def)

lemma one_owner: "inv_tags n s \<Longrightarrow> tag_of (pc s c) = Some t \<Longrightarrow> tag_of (pc s c') = Some t \<Longrightarrow> c = c'"
  unfolding inv_tags_def by blast

lemma NewDemux_inv: "dmx_inv req 1 (NewDemux st)"
  by (simp add: dmx_inv_def inv_tags_def inv_map_def inv_flow_def inv_reader_def inv_result_def NewDemux_def newCallMap_def
      flow_def waiting_def)

text \<open>A part of the invariant stays when what it speaks of stays.\<close>

lemma inv_tags_keep:
  "inv_tags n s \<Longrightarrow> nextTag s' = nextTag s \<Longrightarrow> (\<And>c. tag_of (pc s' c) = tag_of (pc s c)) \<Longrightarrow> inv_tags n s'"
  by (simp add: inv_tags_def)

lemma distinct_submset: "mset xs \<subseteq># mset ys \<Longrightarrow> distinct ys \<Longrightarrow> distinct xs"
proof -
  assume "mset xs \<subseteq># mset ys" "distinct ys"
  obtain zs where "mset ys = mset (xs @ zs)"
    using \<open>mset xs \<subseteq># mset ys\<close> by (metis ex_mset mset_append mset_subset_eq_exists_conv)
  then have "distinct (xs @ zs)" using \<open>distinct ys\<close> mset_eq_imp_distinct_iff by blast
  then show "distinct xs" by simp
qed

lemma inv_flow_keep:
  assumes "inv_flow req s" "mset (flow s') \<subseteq># mset (flow s)" "served s' = served s"
    "set (to_srv s') \<union> set (serving s') \<subseteq> set (to_srv s) \<union> set (serving s)"
    "set (answering s') \<union> set (to_clnt s') \<subseteq> set (answering s) \<union> set (to_clnt s)"
    "\<And>c t. sent (pc s c) t \<Longrightarrow> sent (pc s' c) t"
  shows "inv_flow req s'"
proof -
  have "distinct (flow s')" using assms(1) distinct_submset [OF assms(2)] by (simp add: inv_flow_def)
  then show ?thesis using assms(1,3-) unfolding inv_flow_def by (simp only: assms(3)) blast
qed

lemma inv_reader_keep:
  "inv_reader s \<Longrightarrow> reader s' = reader s \<Longrightarrow> cm_calls (callmap s') = cm_calls (callmap s) \<Longrightarrow>
    (cm_closed (callmap s) \<Longrightarrow> cm_closed (callmap s')) \<Longrightarrow> set (flow s') \<subseteq> set (flow s) \<Longrightarrow> inv_reader s'"
  by (auto simp: inv_reader_def Let_def split: reader_pc.splits option.splits)

lemma inv_result_keep:
  assumes "inv_result req s" "reader s' = reader s" "set (served s) \<subseteq> set (served s')"
    "\<And>c t. pc s c = CallWait t \<Longrightarrow> pc s' c = CallWait t" "\<And>c t r. pc s' c = CallRet t r \<Longrightarrow> rp_err r \<or> pc s c = CallRet t r"
  shows "inv_result req s'"
proof -
  have "\<exists>t. pc s' c = CallWait t \<and> (t, req c, rp_rep r, rp_ok r) \<in> set (served s')" if rd: "reader s' = ReadSend c r k" "\<not> rp_err r" for c r k
  proof -
    obtain t where "pc s c = CallWait t" "(t, req c, rp_rep r, rp_ok r) \<in> set (served s)"
      using assms(1) rd unfolding assms(2) inv_result_def by blast
    then show ?thesis using assms(3,4) by blast
  qed
  moreover have "(t, req c, rp_rep r, rp_ok r) \<in> set (served s')" if "pc s' c = CallRet t r" "\<not> rp_err r" for c t r
    using assms(1,3,5) that unfolding inv_result_def by blast
  ultimately show ?thesis unfolding inv_result_def by blast
qed

lemma inv_map_keep:
  "inv_map s \<Longrightarrow> cm_calls (callmap s') = cm_calls (callmap s) \<Longrightarrow> reader s' = reader s \<Longrightarrow>
    (\<And>c t. waiting (pc s' c) t \<longleftrightarrow> waiting (pc s c) t) \<Longrightarrow> inv_map s'"
  by (simp add: inv_map_def)

section \<open>Steps of a caller\<close>

lemma call_start_inv:
  assumes "dmx_inv req n s" "pc s c = CallStart" "n < 2 ^ 32"
  shows "dmx_inv req (Suc n) (set_pc c (CallTagged (nextTag s)) (s\<lparr>nextTag := nextTag s + 1\<rparr>))"
    (is "dmx_inv _ _ ?s")
proof -
  note i = dmx_invD [OF assms(1)]
  have next_tag: "nextTag s = word_of_nat n" "unat (nextTag s) = n"
    using i(1) assms(3) by (auto simp: inv_tags_def unat_of_nat take_bit_eq_mod)
  have fresh: "tag_of (pc s c') \<noteq> Some (nextTag s)" for c' using i(1) next_tag(2) by (fastforce simp: inv_tags_def)
  have "inv_tags (Suc n) ?s" using i(1) fresh next_tag by (auto simp: inv_tags_def set_pc_def less_Suc_eq)
  moreover have "inv_map ?s" by (rule inv_map_keep [OF i(2)]) (use assms(2) in \<open>auto simp: set_pc_def waiting_def\<close>)
  moreover have "inv_flow req ?s" by (rule inv_flow_keep [OF i(3)]) (use assms(2) in \<open>auto simp: set_pc_def flow_def sent_def\<close>)
  moreover have "inv_reader ?s" by (rule inv_reader_keep [OF i(4)]) (simp_all add: set_pc_def flow_def)
  moreover have "inv_result req ?s" by (rule inv_result_keep [OF i(5)]) (use assms(2) in \<open>auto simp: set_pc_def split: if_splits\<close>)
  ultimately show ?thesis by (simp add: dmx_inv_def)
qed

lemma call_closed_inv:
  assumes "dmx_inv req n s" "pc s c = CallTagged t"
  shows "dmx_inv req n (set_pc c (CallRet t err_reply) s)" (is "dmx_inv _ _ ?s")
proof -
  note i = dmx_invD [OF assms(1)]
  have "inv_tags n ?s" by (rule inv_tags_keep [OF i(1)]) (use assms(2) in \<open>simp_all add: set_pc_def\<close>)
  moreover have "inv_map ?s" by (rule inv_map_keep [OF i(2)]) (use assms(2) in \<open>auto simp: set_pc_def waiting_def\<close>)
  moreover have "inv_flow req ?s" by (rule inv_flow_keep [OF i(3)]) (use assms(2) in \<open>auto simp: set_pc_def flow_def sent_def\<close>)
  moreover have "inv_reader ?s" by (rule inv_reader_keep [OF i(4)]) (simp_all add: set_pc_def flow_def)
  moreover have "inv_result req ?s"
    by (rule inv_result_keep [OF i(5)]) (use assms(2) in \<open>auto simp: set_pc_def err_reply_def split: if_splits\<close>)
  ultimately show ?thesis by (simp add: dmx_inv_def)
qed

lemma call_put_inv:
  assumes "dmx_inv req n s" "pc s c = CallTagged t" "\<not> cm_closed (callmap s)"
  shows "dmx_inv req n (set_pc c (CallPut t) (s\<lparr>callmap := (callmap s)\<lparr>cm_calls := AList.update t c (cm_calls (callmap s))\<rparr>\<rparr>))"
    (is "dmx_inv _ _ ?s")
proof -
  note i = dmx_invD [OF assms(1)]
  have tag: "tag_of (pc s c) = Some t" using assms(2) by simp
  have fresh: "\<not> waiting (pc s c') t" for c' using one_owner [OF i(1) tag, of c'] assms(2) by (auto simp: waiting_def)
  have calls: "map_of (cm_calls (callmap ?s)) = (map_of (cm_calls (callmap s)))(t \<mapsto> c)" by (simp add: set_pc_def update_conv')
  have w: "waiting (pc ?s c') u \<longleftrightarrow> (if c' = c then u = t else waiting (pc s c') u)" for c' u
    by (auto simp: set_pc_def waiting_def)
  have nw: "\<not> waiting (pc s c) u" for u using assms(2) by (simp add: waiting_def)
  have rd: "reader ?s = reader s" by (simp add: set_pc_def)
  have "inv_tags n ?s" by (rule inv_tags_keep [OF i(1)]) (use assms(2) in \<open>simp_all add: set_pc_def\<close>)
  moreover have "inv_map ?s"
    using i(2) fresh nw unfolding inv_map_def calls w rd by (auto simp: set_pc_def) metis+
  moreover have "inv_flow req ?s" by (rule inv_flow_keep [OF i(3)]) (use assms(2) in \<open>auto simp: set_pc_def flow_def sent_def\<close>)
  moreover have "inv_reader ?s" using i(4) assms(3)
    by (auto simp: inv_reader_def flow_def set_pc_def Let_def split: reader_pc.splits option.splits)
  moreover have "inv_result req ?s" by (rule inv_result_keep [OF i(5)]) (use assms(2) in \<open>auto simp: set_pc_def split: if_splits\<close>)
  ultimately show ?thesis by (simp add: dmx_inv_def)
qed

text \<open>A caller that writes its request has not written before, so its tag is not on its way.\<close>

lemma unsent_not_in_flow:
  assumes "dmx_inv req n s" "tag_of (pc s c) = Some t" "\<not> sent (pc s c) t"
  shows "t \<notin> set (flow s)" "t \<notin> fst ` set (served s)"
proof -
  note i = dmx_invD [OF assms(1)]
  have "\<not> sent (pc s c') t" for c' using one_owner [OF i(1) assms(2), of c'] sent_tag [of "pc s c'" t] assms(3) by auto
  then have no: "(t, b) \<notin> set (to_srv s) \<union> set (serving s)" "(t, b, x) \<notin> set (served s)" for b x
    using i(3) unfolding inv_flow_def by blast+
  then show "t \<notin> fst ` set (served s)" by force
  have "(t, x) \<notin> set (answering s) \<union> set (to_clnt s)" for x using i(3) no(2) unfolding inv_flow_def by blast
  then show "t \<notin> set (flow s)" using no(1) by (force simp: flow_def)
qed

lemma call_write_inv:
  assumes "dmx_inv req n s" "pc s c = CallPut t"
  shows "dmx_inv req n (set_pc c (CallWait t) (if up s then s\<lparr>to_srv := to_srv s @ [(t, req c)]\<rparr> else s))"
    (is "dmx_inv _ _ ?s")
proof -
  note i = dmx_invD [OF assms(1)]
  have not_in: "t \<notin> set (flow s)" "t \<notin> fst ` set (served s)"
    using unsent_not_in_flow [OF assms(1), of c t] assms(2) by (auto simp: sent_def)
  have w: "waiting (pc ?s c') u \<longleftrightarrow> waiting (pc s c') u" for c' u using assms(2) by (auto simp: set_pc_def waiting_def)
  have "sent (pc ?s c) t" by (simp add: sent_def set_pc_def)
  moreover have sn: "sent (pc s c') u \<Longrightarrow> sent (pc ?s c') u" for c' u using assms(2) by (auto simp: set_pc_def sent_def)
  moreover have d: "distinct (flow ?s)" using i(3) not_in(1) by (auto simp: inv_flow_def flow_def set_pc_def)
  moreover have same: "served ?s = served s" "serving ?s = serving s" "answering ?s = answering s" "to_clnt ?s = to_clnt s"
    "set (to_srv ?s) \<subseteq> insert (t, req c) (set (to_srv s))" by (auto simp: set_pc_def)
  ultimately have fl: "inv_flow req ?s" using i(3) not_in(2) unfolding inv_flow_def same(1-4) by blast
  have "cm_calls (callmap ?s) = cm_calls (callmap s)" "reader ?s = reader s" by (simp_all add: set_pc_def)
  then have m: "inv_map ?s" using inv_map_keep [OF i(2)] w by blast
  have "t \<in> fst ` set (cm_calls (callmap s))" if "reader s = Reading \<or> (\<exists>c r. reader s = ReadSend c r None \<and> \<not> rp_err r)"
  proof -
    have "map_of (cm_calls (callmap s)) t = Some c \<or> (\<exists>r k. reader s = ReadSend c r k)"
      using i(2) assms(2) unfolding inv_map_def by (auto simp: waiting_def)
    moreover have "reader s \<noteq> ReadSend c r k" if "\<not> rp_err r" for r k
      using i(5) assms(2) that unfolding inv_result_def by fastforce
    ultimately have "map_of (cm_calls (callmap s)) t = Some c" using that by auto
    then show ?thesis by (force dest: map_of_SomeD)
  qed
  then have "inv_reader ?s" using i(4)
    by (auto simp: inv_reader_def Let_def flow_def set_pc_def split: reader_pc.splits option.splits)
  moreover have "inv_tags n ?s" by (rule inv_tags_keep [OF i(1)]) (use assms(2) in \<open>simp_all add: set_pc_def\<close>)
  moreover have "inv_result req ?s" by (rule inv_result_keep [OF i(5)]) (use assms(2) in \<open>auto simp: set_pc_def split: if_splits\<close>)
  ultimately show ?thesis using fl m by (simp add: dmx_inv_def)
qed

lemma SendReceive_inv:
  assumes "dmx_inv req n s" "SendReceive (req c) c s = Some s'" "n < 2 ^ 32"
  shows "dmx_inv req (if pc s c = CallStart then Suc n else n) s'"
proof (cases "pc s c")
  case CallStart
  then show ?thesis using assms call_start_inv [OF assms(1) CallStart assms(3)] by (auto simp: SendReceive_def dmx_tag_def)
next
  case (CallTagged t)
  then show ?thesis using assms call_closed_inv [OF assms(1) CallTagged] call_put_inv [OF assms(1) CallTagged]
    by (auto simp: SendReceive_def cm_put_def split: if_splits)
next
  case (CallPut t)
  then show ?thesis using assms call_write_inv [OF assms(1) CallPut] by (auto simp: SendReceive_def)
qed (use assms in \<open>simp_all add: SendReceive_def\<close>)

section \<open>Steps of the client's reader\<close>

lemma dmx_reply_found:
  assumes "map_of (cm_calls (callmap s)) t = Some c"
  shows "dmx_reply t r k s = s\<lparr>callmap := (callmap s)\<lparr>cm_calls := AList.delete t (cm_calls (callmap s))\<rparr>, reader := ReadSend c r k\<rparr>"
  using assms by (simp add: dmx_reply_def cm_remove_def)

lemma key_value: "k \<in> fst ` set m \<Longrightarrow> \<exists>v. map_of m k = Some v"
  by (metis map_of_eq_None_iff not_None_eq)

lemma inv_map_iff:
  assumes "\<And>c r k. reader s \<noteq> ReadSend c r k"
  shows "inv_map s \<longleftrightarrow> wf_map (cm_calls (callmap s)) \<and>
    (\<forall>c t. waiting (pc s c) t \<longleftrightarrow> map_of (cm_calls (callmap s)) t = Some c)"
  using assms unfolding inv_map_def by blast

lemma inv_map_quiet:
  "inv_map s \<Longrightarrow> cm_calls (callmap s') = cm_calls (callmap s) \<Longrightarrow> pc s' = pc s \<Longrightarrow> (\<And>c r k. reader s \<noteq> ReadSend c r k) \<Longrightarrow>
    (\<And>c r k. reader s' \<noteq> ReadSend c r k) \<Longrightarrow> inv_map s'"
  using inv_map_iff [of s] inv_map_iff [of s'] by simp

lemma dmx_reply_map:
  assumes "inv_map s" "map_of (cm_calls (callmap s)) t = Some c" "\<And>c r k. reader s \<noteq> ReadSend c r k"
  shows "inv_map (dmx_reply t r k s)"
proof -
  let ?s = "dmx_reply t r k s"
  have p: "pc ?s = pc s" "reader ?s = ReadSend c r k" "cm_calls (callmap ?s) = AList.delete t (cm_calls (callmap s))"
    unfolding dmx_reply_found [OF assms(2)] by simp_all
  have calls: "map_of (cm_calls (callmap ?s)) = (map_of (cm_calls (callmap s)))(t := None)" unfolding p(3) by (simp add: delete_conv')
  have w: "waiting (pc s c') u \<longleftrightarrow> map_of (cm_calls (callmap s)) u = Some c'" for c' u
    using assms(1) inv_map_iff [OF assms(3)] by blast
  have "wf_map (cm_calls (callmap ?s))" using assms(1) unfolding p(3) by (simp add: inv_map_def)
  moreover have "(if u = t then None else map_of (cm_calls (callmap s)) u) = Some c' \<or> (\<exists>r' k'. ReadSend c r k = ReadSend c' r' k')"
    if "map_of (cm_calls (callmap s)) u = Some c'" for c' u using that assms(2) by auto
  ultimately show ?thesis using assms(2) unfolding inv_map_def calls p(1,2) w fun_upd_apply by (intro conjI allI impI) (auto split: if_splits)
qed

lemma reader_read_inv:
  assumes "dmx_inv req n s" "reader_read s = Some s'"
  shows "dmx_inv req n s'"
proof -
  note i = dmx_invD [OF assms(1)]
  obtain t b ok rest where rd: "reader s = Reading" "to_clnt s = (t, b, ok) # rest"
    and s': "s' = dmx_reply t \<lparr>rp_rep = b, rp_ok = ok, rp_err = False\<rparr> None (s\<lparr>to_clnt := rest\<rparr>)"
    using assms(2) by (auto simp: reader_read_def split: reader_pc.splits list.splits)
  have t: "t \<in> set (flow s)" "t \<notin> set (flow (s\<lparr>to_clnt := rest\<rparr>))"
    using i(3) rd(2) by (auto simp: inv_flow_def flow_def)
  then have "t \<in> fst ` set (cm_calls (callmap s))" using i(4) rd(1) by (auto simp: inv_reader_def)
  then obtain c where c: "map_of (cm_calls (callmap s)) t = Some c" using key_value by metis
  let ?s = "s\<lparr>to_clnt := rest\<rparr>"
  have f: "s' = ?s\<lparr>callmap := (callmap s)\<lparr>cm_calls := AList.delete t (cm_calls (callmap s))\<rparr>,
      reader := ReadSend c \<lparr>rp_rep = b, rp_ok = ok, rp_err = False\<rparr> None\<rparr>"
    unfolding s' using dmx_reply_found [of ?s t c] c by simp
  have wt: "waiting (pc s c) t" using i(2) c unfolding inv_map_def by blast
  obtain b' where b': "(t, b', b, ok) \<in> set (served s)" using i(3) rd(2) unfolding inv_flow_def by fastforce
  then obtain c' where c': "sent (pc s c') t" "b' = req c'" using i(3) unfolding inv_flow_def by blast
  then have "c' = c" using one_owner [OF i(1) sent_tag [OF c'(1)] waiting_tag [OF wt]] by blast
  then have res: "pc s c = CallWait t" "(t, req c, b, ok) \<in> set (served s)" using wt c' b' by (auto simp: sent_def waiting_def)
  have "inv_tags n s'" by (rule inv_tags_keep [OF i(1)]) (simp_all add: f)
  moreover have "inv_map ?s" by (rule inv_map_keep [OF i(2)]) simp_all
  then have "inv_map s'" unfolding s' by (rule dmx_reply_map) (use c rd(1) in simp_all)
  moreover have "inv_flow req s'" by (rule inv_flow_keep [OF i(3)]) (simp_all add: f flow_def rd(2), auto)
  moreover have "inv_reader s'"
  proof -
    have "set (flow s) \<subseteq> fst ` set (cm_calls (callmap s))" using i(4) rd(1) by (simp add: inv_reader_def Let_def)
    moreover have "flow s' = flow ?s" "set (flow ?s) \<subseteq> set (flow s)" by (auto simp: f flow_def rd(2))
    ultimately have "set (flow s') \<subseteq> fst ` set (cm_calls (callmap s)) - {t}" using t(2) by auto
    then show ?thesis by (simp add: f inv_reader_def Let_def)
  qed
  moreover have "inv_result req s'" using i(5) res by (auto simp: f inv_result_def)
  ultimately show ?thesis by (simp add: dmx_inv_def)
qed

lemma reader_err_inv:
  assumes "dmx_inv req n s" "reader_err s = Some s'"
  shows "dmx_inv req n s'"
proof -
  note i = dmx_invD [OF assms(1)]
  have rd: "reader s = Reading" and s': "s' = s\<lparr>callmap := cm_close (callmap s), reader := ReadClosed\<rparr>"
    using assms(2) by (auto simp: reader_err_def split: if_splits)
  have "inv_tags n s'" by (rule inv_tags_keep [OF i(1)]) (simp_all add: s')
  moreover have "inv_map s'" by (rule inv_map_quiet [OF i(2)]) (simp_all add: s' cm_close_def rd)
  moreover have "inv_flow req s'" by (rule inv_flow_keep [OF i(3)]) (simp_all add: s' flow_def)
  moreover have "inv_reader s'" by (simp add: s' cm_close_def inv_reader_def Let_def)
  moreover have "inv_result req s'" using i(5) by (auto simp: s' inv_result_def)
  ultimately show ?thesis by (simp add: dmx_inv_def)
qed

lemma reader_outstanding_inv:
  assumes "dmx_inv req n s" "reader_outstanding ts s = Some s'"
  shows "dmx_inv req n s'"
proof -
  note i = dmx_invD [OF assms(1)]
  have rd: "reader s = ReadClosed" "cm_outstanding (callmap s) ts" and s': "s' = s\<lparr>reader := ReadFailing ts\<rparr>"
    using assms(2) by (auto simp: reader_outstanding_def split: if_splits)
  have "inv_tags n s'" by (rule inv_tags_keep [OF i(1)]) (simp_all add: s')
  moreover have "inv_map s'" by (rule inv_map_quiet [OF i(2)]) (simp_all add: s' rd)
  moreover have "inv_flow req s'" by (rule inv_flow_keep [OF i(3)]) (simp_all add: s' flow_def)
  moreover have "inv_reader s'" using i(4) rd by (simp add: s' inv_reader_def Let_def cm_outstanding_def)
  moreover have "inv_result req s'" using i(5) by (auto simp: s' inv_result_def)
  ultimately show ?thesis by (simp add: dmx_inv_def)
qed

lemma reader_fail_inv:
  assumes "dmx_inv req n s" "reader_fail s = Some s'"
  shows "dmx_inv req n s'"
proof -
  note i = dmx_invD [OF assms(1)]
  obtain ts0 where rd: "reader s = ReadFailing ts0" using assms(2) by (auto simp: reader_fail_def split: reader_pc.splits)
  show ?thesis
  proof (cases ts0)
    case Nil
    then have s': "s' = s\<lparr>reader := ReadDone\<rparr>" using assms(2) rd by (simp add: reader_fail_def)
    have "inv_map s'" by (rule inv_map_quiet [OF i(2)]) (simp_all add: s' rd)
    moreover have "inv_reader s'" using i(4) rd Nil by (simp add: s' inv_reader_def Let_def)
    moreover have "inv_result req s'" using i(5) by (auto simp: s' inv_result_def)
    ultimately show ?thesis using inv_tags_keep [OF i(1), of s'] inv_flow_keep [OF i(3), of s'] by (simp add: s' dmx_inv_def flow_def)
  next
    case (Cons t ts)
    then have s': "s' = dmx_reply t err_reply (Some ts) s" using assms(2) rd by (simp add: reader_fail_def)
    have "t \<in> fst ` set (cm_calls (callmap s))" using i(4) rd Cons by (auto simp: inv_reader_def Let_def)
    then obtain c where c: "map_of (cm_calls (callmap s)) t = Some c" using key_value by metis
    note f = s' [unfolded dmx_reply_found [OF c]]
    have "inv_map s'" unfolding s' by (rule dmx_reply_map [OF i(2) c]) (simp add: rd)
    moreover have "inv_reader s'" using i(4) rd Cons by (auto simp: f inv_reader_def Let_def err_reply_def)
    moreover have "inv_result req s'" using i(5) by (auto simp: f inv_result_def err_reply_def)
    ultimately show ?thesis using inv_tags_keep [OF i(1), of s'] inv_flow_keep [OF i(3), of s'] by (simp add: f dmx_inv_def flow_def)
  qed
qed

lemma reader_send_inv:
  assumes "dmx_inv req n s" "reader_send s = Some s'"
  shows "dmx_inv req n s'"
proof -
  note i = dmx_invD [OF assms(1)]
  obtain ch r k t where rd: "reader s = ReadSend ch r k" "pc s ch = CallWait t"
    and s': "s' = set_pc ch (CallRet t r) (s\<lparr>reader := (case k of None \<Rightarrow> Reading | Some ts \<Rightarrow> ReadFailing ts)\<rparr>)"
    using assms(2) by (auto simp: reader_send_def split: reader_pc.splits call_pc.splits)
  let ?calls = "cm_calls (callmap s)"
  have nr: "reader s' \<noteq> ReadSend c r' k'" for c r' k' by (auto simp: s' set_pc_def split: option.splits)
  have w: "waiting (pc s' c) u \<longleftrightarrow> c \<noteq> ch \<and> waiting (pc s c) u" for c u by (auto simp: s' set_pc_def waiting_def)
  have wch: "waiting (pc s ch) u \<longleftrightarrow> u = t" for u using rd(2) by (auto simp: waiting_def)
  then have "map_of ?calls t = None" using i(2) rd(1) unfolding inv_map_def by metis
  then have no: "map_of ?calls u \<noteq> Some ch" for u using i(2) wch unfolding inv_map_def by (metis option.distinct(1))
  have "waiting (pc s c) u \<longleftrightarrow> map_of ?calls u = Some c" if "c \<noteq> ch" for c u
  proof -
    have "\<nexists>r k. reader s = ReadSend c r k" using rd(1) that by simp
    then show ?thesis using i(2) unfolding inv_map_def by blast
  qed
  then have "waiting (pc s' c) u \<longleftrightarrow> map_of ?calls u = Some c" for c u using no w by metis
  then have "inv_map s'" using i(2) unfolding inv_map_iff [OF nr] by (simp add: s' set_pc_def inv_map_def)
  moreover have "inv_tags n s'" by (rule inv_tags_keep [OF i(1)]) (use rd(2) in \<open>simp_all add: s' set_pc_def\<close>)
  moreover have "inv_flow req s'" by (rule inv_flow_keep [OF i(3)]) (use rd(2) in \<open>auto simp: s' set_pc_def flow_def sent_def\<close>)
  moreover have "inv_reader s'" using i(4) rd(1)
    by (auto simp: s' set_pc_def inv_reader_def flow_def Let_def split: option.splits)
  moreover have "(t, req ch, rp_rep r, rp_ok r) \<in> set (served s)" if "\<not> rp_err r"
    using i(5) rd that unfolding inv_result_def by fastforce
  then have "inv_result req s'" using i(5) nr unfolding inv_result_def by (auto simp: s' set_pc_def)
  ultimately show ?thesis by (simp add: dmx_inv_def)
qed

section \<open>Steps of the server and of the connection\<close>

text \<open>Steps that leave the client alone and lose or move calls that are on their way.\<close>

lemma conn_step_inv:
  assumes "dmx_inv req n s" "nextTag s' = nextTag s" "pc s' = pc s" "reader s' = reader s" "served s' = served s"
    "cm_calls (callmap s') = cm_calls (callmap s)" "cm_closed (callmap s) \<Longrightarrow> cm_closed (callmap s')"
    "mset (flow s') \<subseteq># mset (flow s)"
    "set (to_srv s') \<union> set (serving s') \<subseteq> set (to_srv s) \<union> set (serving s)"
    "set (answering s') \<union> set (to_clnt s') \<subseteq> set (answering s) \<union> set (to_clnt s)"
  shows "dmx_inv req n s'"
proof -
  note i = dmx_invD [OF assms(1)]
  have "set (flow s') \<subseteq> set (flow s)" using set_mset_mono [OF assms(8)] by simp
  then have "inv_reader s'" using inv_reader_keep [OF i(4), of s'] assms by simp
  moreover have "inv_tags n s'" using inv_tags_keep [OF i(1), of s'] assms by simp
  moreover have "inv_map s'" using inv_map_keep [OF i(2), of s'] assms by simp
  moreover have "inv_flow req s'" using inv_flow_keep [OF i(3) assms(8,5,9,10)] assms(3) by simp
  moreover have "inv_result req s'" using inv_result_keep [OF i(5), of s'] assms by simp
  ultimately show ?thesis by (simp add: dmx_inv_def)
qed

lemma remove_nth_mset: "i < length xs \<Longrightarrow> mset xs = add_mset (xs ! i) (mset (take i xs @ drop (Suc i) xs))"
  using id_take_nth_drop [of i xs] by (metis mset.simps(2) mset_append union_mset_add_mset_right)

lemma remove_nth_set: "i < length xs \<Longrightarrow> set xs = insert (xs ! i) (set (take i xs @ drop (Suc i) xs))"
  using remove_nth_mset [of i xs] by (metis set_mset_add_mset_insert set_mset_mset)

lemma srv_read_inv: "dmx_inv req n s \<Longrightarrow> srv_read s = Some s' \<Longrightarrow> dmx_inv req n s'"
  by (erule conn_step_inv) (auto simp: srv_read_def flow_def split: list.splits if_splits)

lemma srv_err_inv: "dmx_inv req n s \<Longrightarrow> srv_err e s = Some s' \<Longrightarrow> dmx_inv req n s'"
  by (erule conn_step_inv) (auto simp: srv_err_def setClosed_def flow_def split: if_splits)

lemma srv_answer_inv:
  assumes "dmx_inv req n s" "srv_answer i s = Some s'"
  shows "dmx_inv req n s'"
proof -
  have i: "i < length (answering s)" and s': "s' = s\<lparr>answering := take i (answering s) @ drop (Suc i) (answering s),
      to_clnt := (if up s then to_clnt s @ [answering s ! i] else to_clnt s)\<rparr>"
    using assms(2) by (auto simp: srv_answer_def split: if_splits)
  have m: "mset (map fst (answering s)) = add_mset (fst (answering s ! i)) (mset (map fst (take i (answering s) @ drop (Suc i) (answering s))))"
    using remove_nth_mset [OF i] by (metis image_mset_add_mset mset_map)
  show ?thesis
    by (rule conn_step_inv [OF assms(1)])
      (use remove_nth_set [OF i] m in \<open>auto simp: s' flow_def simp del: mset_map\<close>)
qed

lemma close_inv:
  assumes "dmx_inv req n s"
  shows "dmx_inv req n (DemuxClnt_Close s)" "dmx_inv req n (DemuxSrv_Close s)" "dmx_inv req n (break_conn s)"
  by (rule conn_step_inv [OF assms]; simp add: DemuxClnt_Close_def DemuxSrv_Close_def break_conn_def cm_close_def setClosed_def flow_def)+

lemma srv_serve_inv:
  assumes "dmx_inv req n s" "srv_serve srv i s = Some s'"
  shows "dmx_inv req n s'"
proof -
  note inv = dmx_invD [OF assms(1)]
  obtain t b rep ok st where i: "i < length (serving s)" "serving s ! i = (t, b)" and
    s': "s' = s\<lparr>serving := take i (serving s) @ drop (Suc i) (serving s), answering := (t, rep, ok) # answering s,
      srv_state := st, served := (t, b, rep, ok) # served s\<rparr>"
    using assms(2) by (auto simp: srv_serve_def split: if_splits prod.splits)
  let ?sv = "take i (serving s) @ drop (Suc i) (serving s)"
  have set_sv: "set (serving s) = insert (t, b) (set ?sv)" using remove_nth_set [OF i(1)] i(2) by simp
  have "mset (map fst (serving s)) = add_mset t (mset (map fst ?sv))"
    using remove_nth_mset [OF i(1)] i(2) by (metis fst_conv image_mset_add_mset mset_map)
  then have fl: "mset (flow s') = mset (flow s)" by (simp add: s' flow_def)
  then have set_fl: "set (flow s') = set (flow s)" by (metis set_mset_mset)
  have d: "distinct (flow s')" using mset_eq_imp_distinct_iff [OF fl] inv(3) by (simp add: inv_flow_def)
  have new: "t \<notin> fst ` set (served s)" "\<exists>c. sent (pc s c) t \<and> b = req c"
    using inv(3) set_sv unfolding inv_flow_def by blast+
  have t: "t \<notin> fst ` set (to_srv s)" "t \<notin> fst ` set ?sv" using d by (auto simp: s' flow_def)
  have p: "pc s' = pc s" "to_srv s' = to_srv s" "serving s' = ?sv" "to_clnt s' = to_clnt s" "answering s' = (t, rep, ok) # answering s"
    "served s' = (t, b, rep, ok) # served s" by (simp_all add: s')
  have "distinct (map fst (served s'))" using new(1) inv(3) by (simp add: p inv_flow_def)
  moreover have "u \<notin> fst ` set (served s') \<and> (\<exists>c. sent (pc s' c) u \<and> x = req c)" if "(u, x) \<in> set (to_srv s') \<union> set (serving s')" for u x
  proof -
    have ux: "(u, x) \<in> set (to_srv s) \<union> set ?sv" using that by (simp only: p)
    then have "u \<in> fst ` (set (to_srv s) \<union> set ?sv)" by (rule image_eqI [rotated]) simp
    then have "u \<noteq> t" using t unfolding image_Un by blast
    moreover have "(u, x) \<in> set (to_srv s) \<union> set (serving s)" using ux unfolding set_sv by blast
    then have "u \<notin> fst ` set (served s)" "\<exists>c. sent (pc s c) u \<and> x = req c" using inv(3) unfolding inv_flow_def by blast+
    ultimately show ?thesis by (simp add: p)
  qed
  moreover have "\<exists>c. sent (pc s' c) u \<and> x = req c" if "(u, x, y) \<in> set (served s')" for u x y
    using that new(2) inv(3) unfolding inv_flow_def p list.set insert_iff prod.inject by blast
  moreover have "\<exists>x. (u, x, y) \<in> set (served s')" if "(u, y) \<in> set (answering s') \<union> set (to_clnt s')" for u y
    using that inv(3) unfolding inv_flow_def p list.set Un_iff insert_iff prod.inject by blast
  ultimately have "inv_flow req s'" unfolding inv_flow_def using d by blast
  moreover have "inv_reader s'" by (rule inv_reader_keep [OF inv(4)]) (simp_all add: set_fl, simp_all add: s')
  moreover have "inv_tags n s'" by (rule inv_tags_keep [OF inv(1)]) (simp_all add: s')
  moreover have "inv_map s'" by (rule inv_map_keep [OF inv(2)]) (simp_all add: s')
  moreover have "inv_result req s'" by (rule inv_result_keep [OF inv(5)]) (auto simp: s')
  ultimately show ?thesis by (simp add: dmx_inv_def)
qed

section \<open>Reachable states\<close>

lemma dmx_run_inv: "dmx_run srv req n s \<Longrightarrow> n \<le> 2 ^ 32 \<Longrightarrow> dmx_inv req n s"
proof (induction rule: dmx_run.induct)
  case (start st)
  show ?case by (rule NewDemux_inv)
next
  case (step n s a s')
  have n: "n \<le> 2 ^ 32" using step.prems by (simp split: if_splits)
  then have i: "dmx_inv req n s" by (rule step.IH)
  show ?case
  proof (cases a)
    case (Call c)
    then have c: "SendReceive (req c) c s = Some s'" using step.hyps(2) by (simp add: dmx_step_def)
    show ?thesis
    proof (cases "pc s c = CallStart")
      case True
      then have "n < 2 ^ 32" using step.prems Call by (simp split: if_splits)
      then show ?thesis using SendReceive_inv [OF i c] True Call by simp
    next
      case False
      have "dmx_inv req n s'" if "pc s c = CallTagged t" for t
        using c that call_closed_inv [OF i that] call_put_inv [OF i that] by (auto simp: SendReceive_def cm_put_def split: if_splits)
      moreover have "dmx_inv req n s'" if "pc s c = CallPut t" for t
        using c that call_write_inv [OF i that] by (auto simp: SendReceive_def)
      ultimately show ?thesis using False c Call by (cases "pc s c") (auto simp: SendReceive_def)
    qed
  qed (use step.hyps(2) i in \<open>auto simp: dmx_step_def intro: reader_read_inv reader_err_inv reader_outstanding_inv reader_fail_inv
      reader_send_inv srv_read_inv srv_err_inv srv_serve_inv srv_answer_inv close_inv\<close>)
qed

text \<open>
  C5. Multiplexed calls are not mixed up: under every interleaving of callers, readers, servers and
  broken connections, as long as no more than \<open>2^32\<close> tags have been handed out, a call that returns
  without an error returns what the server answered when it executed the request of this very call;
  the server executes a request at most once; and the reader never finds a reply without a caller,
  which would end the process.
\<close>

theorem SendReceive_own_reply:
  assumes "dmx_run srv req n s" "n \<le> 2 ^ 32"
  shows "(\<forall>c t r. pc s c = CallRet t r \<and> \<not> rp_err r \<longrightarrow> (t, req c, rp_rep r, rp_ok r) \<in> set (served s)) \<and>
    (\<forall>c c' t r r'. pc s c = CallRet t r \<and> pc s c' = CallRet t r' \<longrightarrow> c = c') \<and>
    distinct (map fst (served s)) \<and> reader s \<noteq> ReadFatal"
proof -
  note i = dmx_invD [OF dmx_run_inv [OF assms]]
  have "c = c'" if "pc s c = CallRet t r" "pc s c' = CallRet t r'" for c c' t r r' using one_owner [OF i(1), of c t c'] that by simp
  moreover have "reader s \<noteq> ReadFatal" using i(4) by (auto simp: inv_reader_def)
  ultimately show ?thesis using i(3,5) unfolding inv_flow_def inv_result_def by blast
qed


section \<open>Examples\<close>

fun dmx_exec :: "('s \<Rightarrow> string \<Rightarrow> (string \<times> bool) \<times> 's) \<Rightarrow> (nat \<Rightarrow> string) \<Rightarrow> dmx_action list \<Rightarrow> nat \<times> 's dmx \<Rightarrow> (nat \<times> 's dmx) option" where
  "dmx_exec srv req [] ns = Some ns"
| "dmx_exec srv req (a # as) (n, s) = (case dmx_step srv req a s of
      None \<Rightarrow> None
    | Some s' \<Rightarrow> dmx_exec srv req as ((case a of Call c \<Rightarrow> if pc s c = CallStart then Suc n else n | _ \<Rightarrow> n), s'))"

lemma dmx_exec_run: "dmx_run srv req n s \<Longrightarrow> dmx_exec srv req as (n, s) = Some (n', s') \<Longrightarrow> dmx_run srv req n' s'"
proof (induction as arbitrary: n s)
  case (Cons a as)
  obtain s1 where 1: "dmx_step srv req a s = Some s1" using Cons.prems(2) by (auto split: option.splits)
  let ?n = "case a of Call c \<Rightarrow> if pc s c = CallStart then Suc n else n | _ \<Rightarrow> n"
  have "?n = (if \<exists>c. a = Call c \<and> pc s c = CallStart then Suc n else n)" by (cases a) auto
  then have "dmx_run srv req ?n s1" using dmx_run.step [OF Cons.prems(1) 1] by simp
  then show ?case using Cons.IH Cons.prems(2) 1 by simp
qed simp

text \<open>Two calls whose replies come back in the other order; and a call that a broken connection fails.\<close>

definition echo :: "nat \<Rightarrow> string \<Rightarrow> (string \<times> bool) \<times> nat" where
  "echo st b = ((b @ ''!'', True), Suc st)"

definition two_requests :: "nat \<Rightarrow> string" where
  "two_requests c = (if c = 0 then ''a'' else ''b'')"

definition swapped :: "(nat \<times> nat dmx) option" where
  "swapped = dmx_exec echo two_requests [Call 0, Call 1, Call 0, Call 1, Call 1, Call 0, SrvRead, SrvRead, SrvServe 0, SrvServe 0,
     SrvAnswer 1, SrvAnswer 0, ReaderRead, ReaderSend, ReaderRead, ReaderSend] (1, NewDemux 0)"

definition failed :: "(nat \<times> nat dmx) option" where
  "failed = dmx_exec echo two_requests [Call 0, Call 0, Call 0, Break, ReaderErr, ReaderOutstanding [1], ReaderFail, ReaderSend, ReaderFail, Call 1]
     (1, NewDemux 0)"

lemma swapped_result:
  "case swapped of None \<Rightarrow> False
    | Some (n, s) \<Rightarrow> n = 3 \<and> pc s 0 = CallRet 1 \<lparr>rp_rep = ''a!'', rp_ok = True, rp_err = False\<rparr> \<and>
        pc s 1 = CallRet 2 \<lparr>rp_rep = ''b!'', rp_ok = True, rp_err = False\<rparr>"
  by code_simp

theorem SendReceive_own_reply_witness:
  "\<exists>n s. swapped = Some (n, s) \<and> (1, ''a'', ''a!'', True) \<in> set (served s) \<and> (2, ''b'', ''b!'', True) \<in> set (served s)"
proof -
  obtain s where s: "swapped = Some (3, s)" "pc s 0 = CallRet 1 \<lparr>rp_rep = ''a!'', rp_ok = True, rp_err = False\<rparr>"
    "pc s 1 = CallRet 2 \<lparr>rp_rep = ''b!'', rp_ok = True, rp_err = False\<rparr>"
    using swapped_result by (auto split: option.splits)
  then have "dmx_run echo two_requests 3 s"
    unfolding swapped_def by (intro dmx_exec_run [OF dmx_run.start])
  note r = SendReceive_own_reply [OF this]
  have "(1, two_requests 0, ''a!'', True) \<in> set (served s)" "(2, two_requests 1, ''b!'', True) \<in> set (served s)"
    using conjunct1 [OF r, rule_format, of 0 1 "\<lparr>rp_rep = ''a!'', rp_ok = True, rp_err = False\<rparr>"]
      conjunct1 [OF r, rule_format, of 1 2 "\<lparr>rp_rep = ''b!'', rp_ok = True, rp_err = False\<rparr>"] s(2,3) by simp_all
  then show ?thesis using s(1) by (intro exI [of _ 3] exI [of _ s]) (simp add: two_requests_def)
qed

lemma failed_result:
  "case failed of None \<Rightarrow> False | Some (n, s) \<Rightarrow> n = 3 \<and> reader s = ReadDone \<and> pc s 1 = CallTagged 2"
  by code_simp


end
