(* ===== verification/SockRPC.thy ===== *)
theory SockRPC
  imports DemuxInv Labrpc
begin

text \<open>
  Remote calls over a socket, \<open>tester1/sockrpc\<close>: a call is the method and the encoded arguments,
  sent over a multiplexed connection and dispatched by a labrpc server in the other process.
  Sockets are names; what \<open>net.Dial\<close> answers at each attempt is a list.
\<close>

section \<open>The client\<close>

record RPCArgs =
  ra_Method :: string
  ra_Args :: bytes

definition SockName :: "string \<Rightarrow> string" where
  "SockName endName = ''/tmp/6.5840-'' @ endName"

text \<open>\<open>dial\<close>: at most \<open>MAXRETRY\<close> attempts; the result is the connection, or the last error.\<close>

definition MAXRETRY :: nat where
  "MAXRETRY = 100"

fun dial_loop :: "nat \<Rightarrow> 'e option \<Rightarrow> ('e + 'c) list \<Rightarrow> ('e option + 'c) option" where
  "dial_loop 0 r _ = Some (Inl r)"
| "dial_loop (Suc i) r [] = None"
| "dial_loop (Suc i) r (Inr c # rest) = Some (Inr c)"
| "dial_loop (Suc i) r (Inl e # rest) = dial_loop i (Some e) rest"

definition dial :: "('e + 'c) list \<Rightarrow> ('e option + 'c) option" where
  "dial answers = dial_loop MAXRETRY None answers"

text \<open>What \<open>RPC\<close> and \<open>RPCMarshall\<close> make of what \<open>SendReceive\<close> returns.\<close>

definition RPC_request :: "(RPCArgs \<Rightarrow> bytes) \<Rightarrow> string \<Rightarrow> bytes \<Rightarrow> bytes" where
  "RPC_request mar method args = mar \<lparr>ra_Method = method, ra_Args = args\<rparr>"

definition RPC :: "reply \<Rightarrow> bytes \<times> bool" where
  "RPC r = (if rp_err r then ([], False) else (rp_rep r, Demux.reply.rp_ok r))"

definition RPCMarshall :: "(bytes \<Rightarrow> 'r option) \<Rightarrow> reply \<Rightarrow> 'r \<Rightarrow> (bool \<times> 'r) outcome" where
  "RPCMarshall unm r reply = (case RPC r of (rep, ok) \<Rightarrow>
     if \<not> ok then Ret (ok, reply)
     else case unm rep of None \<Rightarrow> Inl Fatal | Some v \<Rightarrow> Ret (ok, v))"

section \<open>The server\<close>

definition ServeRequest :: "(bytes \<Rightarrow> RPCArgs option) \<Rightarrow> string \<Rightarrow> bytes \<Rightarrow> 's Server \<Rightarrow> 's \<Rightarrow> ((bytes \<times> bool) \<times> 's Server \<times> 's) outcome" where
  "ServeRequest unm clntEnd b srv st = (case unm b of
      None \<Rightarrow> Inl Fatal
    | Some req \<Rightarrow> Dispatch (ra_Method req) clntEnd (ra_Args req) srv st)"

lemma dial_loop_result:
  assumes "\<forall>a\<in>set (take i es). isl a"
  shows "i \<le> length es \<Longrightarrow> \<exists>e. dial_loop i r es = Some (Inl e)"
    "length es < i \<Longrightarrow> dial_loop i r (es @ Inr c # rest) = Some (Inr c)"
  using assms by (induction i r es rule: dial_loop.induct) (auto simp: isl_def)

section \<open>Calls between processes\<close>

text \<open>
  The server as the multiplexer sees it. A request that ends the server's process is answered
  negatively here, which is also what its caller makes of the broken connection.
\<close>

definition serve_with :: "(bytes \<Rightarrow> RPCArgs option) \<Rightarrow> string \<Rightarrow> 's Server \<times> 's \<Rightarrow> bytes \<Rightarrow> (bytes \<times> bool) \<times> 's Server \<times> 's" where
  "serve_with unm clntEnd = (\<lambda>(srv, st) b. case ServeRequest unm clntEnd b srv st of
      Inr (r, srv', st') \<Rightarrow> (r, srv', st')
    | Inl _ \<Rightarrow> (([], False), srv, st))"

lemma dmx_step_served:
  assumes "dmx_step srv req a s = Some s'" "(t, b, x) \<in> set (served s')" "(t, b, x) \<notin> set (served s)"
  shows "x = fst (srv (srv_state s) b)"
proof (cases a)
  case (SrvServe i)
  then show ?thesis using assms by (auto simp: dmx_step_def srv_serve_def split: if_splits prod.splits)
qed (use assms in \<open>auto simp: dmx_step_def SendReceive_def dmx_tag_def set_pc_def dmx_reply_def reader_read_def reader_err_def
    reader_outstanding_def reader_fail_def reader_send_def srv_read_def srv_err_def setClosed_def srv_answer_def DemuxClnt_Close_def
    DemuxSrv_Close_def break_conn_def split: call_pc.splits option.splits reader_pc.splits list.splits if_splits\<close>)

lemma served_by: "dmx_run srv req n s \<Longrightarrow> (t, b, x) \<in> set (served s) \<Longrightarrow> \<exists>st. x = fst (srv st b)"
proof (induction rule: dmx_run.induct)
  case (step n s a s')
  then show ?case using dmx_step_served [OF step.hyps(2)] by blast
qed (simp add: NewDemux_def)

text \<open>
  A call over the socket that answers true carries what the dispatch of the server computed for the
  method and the arguments of this call, in some state of the server.
\<close>

lemma RPC_own_reply:
  fixes s :: "('s Server \<times> 's) dmx"
  assumes "dmx_run (serve_with unm clntEnd) req n s" "n \<le> 2 ^ 32" "req c = RPC_request mar method args"
    "\<And>x. unm (mar x) = Some x" "pc s c = CallRet t r" "RPC r = (rep, True)"
  shows "\<exists>(srv :: 's Server) st srv' st'. Dispatch method clntEnd args srv st = Ret ((rep, True), srv', st')"
proof -
  have r: "\<not> rp_err r" "rp_rep r = rep" "Demux.reply.rp_ok r" using assms(6) by (auto simp: RPC_def split: if_splits)
  have "inv_result req s" by (rule dmx_invD(5) [OF dmx_run_inv [OF assms(1,2)]])
  then have "(t, req c, rp_rep r, Demux.reply.rp_ok r) \<in> set (served s)"
    using assms(5) r(1) unfolding inv_result_def by blast
  then have sv: "(t, req c, rep, True) \<in> set (served s)" using r(2,3) by simp
  obtain st :: "'s Server \<times> 's" where "(rep, True) = fst (serve_with unm clntEnd st (req c))" by (rule exE [OF served_by [OF assms(1) sv]])
  then show ?thesis using assms(3,4)
    by (cases st) (auto simp: serve_with_def ServeRequest_def RPC_request_def split: sum.splits)
qed

end
