(* ===== verification/Daemon.thy ===== *)
theory Daemon
  imports SockRPC Persister GoStr Annotation
begin

text \<open>
  Servers that run as processes of their own: the daemon's side, \<open>tester1/daemonsrv.go\<close>, the
  tester's side, \<open>tester1/daemonclnt.go\<close>, and the calls from a daemon to the tester,
  \<open>tester1/testsrv.go\<close> and \<open>tester1/annotator.go\<close>. Starting and killing a process is not modelled;
  what a process is started with and what goes over the sockets is. Encoders are arguments, and so
  is whether a call over a socket is answered.
\<close>

section \<open>Command lines\<close>

definition sockctl :: "string \<Rightarrow> string" where
  "sockctl sock = sock @ ''-ctl''"

text \<open>\<open>options\<close> with the flag it reads as argument, and the arguments \<open>runDaemon\<close> passes.\<close>

definition options :: "bool \<Rightarrow> string list" where
  "options UseRaftStateMachine = (if UseRaftStateMachine then [''--raft-state-machine''] else [])"

definition runDaemon_args :: "bool \<Rightarrow> string list \<Rightarrow> string \<Rightarrow> int \<Rightarrow> int \<Rightarrow> string list \<Rightarrow> string list" where
  "runDaemon_args rsm pargs endName gid srv endNames =
     pargs @ options rsm @ [itoa gid, itoa srv, itoa (int (length endNames)), endName] @ endNames"

text \<open>\<open>strconv.Atoi\<close> without the range check: an optional sign and at least one digit.\<close>

definition Atoi :: "string \<Rightarrow> int option" where
  "Atoi s = (let ds = (if s \<noteq> [] \<and> (hd s = CHR ''-'' \<or> hd s = CHR ''+'') then tl s else s) in
     if ds = [] \<or> \<not> list_all is_digit ds then None
     else Some (if hd s = CHR ''-'' then - int (str_nat ds) else int (str_nat ds)))"

text \<open>The loop of \<open>InitDaemon\<close> that skips the options; indexing an empty argument panics.\<close>

fun skip_options :: "string list \<Rightarrow> nat outcome" where
  "skip_options [] = Ret 0"
| "skip_options ([] # rest) = Inl Panic"
| "skip_options ((c # s) # rest) = (if c = CHR ''-'' then bindo (skip_options rest) (\<lambda>n. Ret (Suc n)) else Ret 0)"

record daemon_config =
  dg_gid :: int
  dg_sid :: int
  dg_testerEnd :: string
  dg_endNames :: "string list"
  dg_endName :: string

text \<open>
  What \<open>InitDaemon\<close> makes of the arguments: a number that does not parse is an error, an argument
  that is missing panics.
\<close>

definition parse_int :: "string list \<Rightarrow> int \<Rightarrow> (int \<Rightarrow> 'a option outcome) \<Rightarrow> 'a option outcome" where
  "parse_int args i k = bindo (idx args i) (\<lambda>a. case Atoi a of None \<Rightarrow> Ret None | Some n \<Rightarrow> k n)"

definition InitDaemon_config :: "string list \<Rightarrow> daemon_config option outcome" where
  "InitDaemon_config args = bindo (skip_options args) (\<lambda>s0. let s = int s0 in
     parse_int args s (\<lambda>gid. parse_int args (s + 1) (\<lambda>sid. parse_int args (s + 2) (\<lambda>nsrv.
       bindo (idx args (s + 3)) (\<lambda>testerEndName.
         if 0 \<le> nsrv \<and> s + 4 + nsrv \<le> int (length args) then
           (let endNames = take (nat nsrv) (drop (nat (s + 4)) args) in
            bindo (idx endNames sid) (\<lambda>endName.
              Ret (Some \<lparr>dg_gid = gid, dg_sid = sid, dg_testerEnd = testerEndName, dg_endNames = endNames, dg_endName = endName\<rparr>)))
         else Inl Panic)))))"

section \<open>The daemon\<close>

text \<open>
  Where \<open>InitDaemon\<close> is: it waits for the saved state, starts the services, signals that it has
  started them, and then waits on the same channel for ever.
\<close>

datatype daemon_pc = AwaitInit | Starting | Signalling | Serving | Exited

record DaemonSrv =
  ds_pc :: daemon_pc
  ds_persister :: "Persister option"
  ds_id :: int
  rpcc_open :: bool
  rpcs_open :: bool

definition newDaemonSrv :: DaemonSrv where
  "newDaemonSrv = \<lparr>ds_pc = AwaitInit, ds_persister = None, ds_id = 0, rpcc_open = True, rpcs_open = False\<rparr>"

record InitArgs =
  Raftstate :: string
  Snapshot :: string

text \<open>The handlers of control calls; \<^const>\<open>None\<close> is a handler that waits for the channel.\<close>

definition DaemonSrv_Init :: "InitArgs \<Rightarrow> DaemonSrv \<Rightarrow> DaemonSrv option" where
  "DaemonSrv_Init args ds = (case ds_pc ds of
      AwaitInit \<Rightarrow> Some (ds\<lparr>ds_persister := Some (Save (Raftstate args) (Snapshot args) MakePersister), ds_pc := Starting\<rparr>)
    | Serving \<Rightarrow> Some (ds\<lparr>ds_pc := Exited\<rparr>)
    | _ \<Rightarrow> None)"

definition start_services :: "DaemonSrv \<Rightarrow> DaemonSrv option" where
  "start_services ds = (if ds_pc ds = Starting then Some (ds\<lparr>rpcs_open := True, ds_pc := Signalling\<rparr>) else None)"

definition InitWait :: "DaemonSrv \<Rightarrow> DaemonSrv option" where
  "InitWait ds = (if ds_pc ds = Signalling then Some (ds\<lparr>ds_pc := Serving\<rparr>) else None)"

definition CheckpointPersister :: "DaemonSrv \<Rightarrow> (InitArgs \<times> DaemonSrv) outcome" where
  "CheckpointPersister ds = (case ds_persister ds of
      None \<Rightarrow> Inl Panic
    | Some p0 \<Rightarrow> let p = Checkpoint p0
        in Ret (\<lparr>Raftstate = ReadRaftState p, Snapshot = ReadSnapshot p\<rparr>, ds\<lparr>rpcc_open := False, rpcs_open := False\<rparr>))"

definition StateSize :: "DaemonSrv \<Rightarrow> (nat \<times> nat) outcome" where
  "StateSize ds = (case ds_persister ds of None \<Rightarrow> Inl Panic | Some p \<Rightarrow> Ret (RaftStateSize p, SnapshotSize p))"

record ForwardArgs =
  fa_Method :: string
  fa_End :: string
  fa_Args :: bytes
  fa_Id :: int

text \<open>
  \<open>forward\<close>: the arguments of the call to the tester, and what it makes of the answer; a call over a
  connection that was closed is not answered.
\<close>

definition forward_args :: "string \<Rightarrow> string \<Rightarrow> bytes \<Rightarrow> DaemonSrv \<Rightarrow> ForwardArgs \<times> DaemonSrv" where
  "forward_args e method b ds = (let i = ds_id ds + 1 in (\<lparr>fa_Method = method, fa_End = e, fa_Args = b, fa_Id = i\<rparr>, ds\<lparr>ds_id := i\<rparr>))"

definition forward_result :: "DaemonSrv \<Rightarrow> (bool \<times> bytes \<times> bool) \<Rightarrow> bytes \<times> bool" where
  "forward_result ds = (\<lambda>(ok, rep, rok). if \<not> (rpcc_open ds \<and> ok) then ([], False) else (rep, rok))"

section \<open>The tester's side\<close>

text \<open>\<open>Forward\<close> puts the call on the simulated network.\<close>

definition TesterRPC_Forward :: "draws \<Rightarrow> turn list \<Rightarrow> Network \<Rightarrow> ForwardArgs \<Rightarrow> Network \<Rightarrow> (addr \<Rightarrow> 's Server) \<Rightarrow> (addr \<Rightarrow> 's) \<Rightarrow>
    ((bytes \<times> bool) \<times> (addr \<Rightarrow> 's Server) \<times> (addr \<Rightarrow> 's)) outcome option" where
  "TesterRPC_Forward d turns rn' args rn heap objs = (case LookupEnd (fa_End args) rn of
      Inl e \<Rightarrow> Some (Inl e)
    | Inr e \<Rightarrow> Forward d turns rn' e (fa_Method args) (fa_Args args) rn heap objs)"

definition PostAnnotatorPoint :: "int \<Rightarrow> string \<Rightarrow> string \<Rightarrow> string \<Rightarrow> Annotation \<Rightarrow> Annotation" where
  "PostAnnotatorPoint t tag desp details an = AnnotatePoint t tag desp details an"

definition PostAnnotatorInfoInterval :: "int \<Rightarrow> int \<Rightarrow> string \<Rightarrow> string \<Rightarrow> Annotation \<Rightarrow> Annotation" where
  "PostAnnotatorInfoInterval t start desp details an = AnnotateInfoInterval t start desp details an"

definition GetAnnotatorTimestamp :: "bool \<Rightarrow> int \<Rightarrow> int" where
  "GetAnnotatorTimestamp ok timestamp = (if \<not> ok then 0 else timestamp)"

text \<open>The codec of the calls that carry the saved state.\<close>

record state_codec =
  mar_state :: "InitArgs \<Rightarrow> bytes"
  unm_state :: "bytes \<Rightarrow> InitArgs option"

definition good_codec :: "state_codec \<Rightarrow> bool" where
  "good_codec c \<longleftrightarrow> (\<forall>x. unm_state c (mar_state c x) = Some x)"

text \<open>\<open>init\<close>: an unanswered call is only logged. \<open>checkpointPersister\<close>: it ends the tester.\<close>

definition DaemonClnt_init :: "state_codec \<Rightarrow> bool \<Rightarrow> Persister \<Rightarrow> DaemonSrv \<Rightarrow> DaemonSrv outcome option" where
  "DaemonClnt_init c ok ps ds = (if \<not> ok then Some (Ret ds) else
     case unm_state c (mar_state c \<lparr>Raftstate = ReadRaftState ps, Snapshot = ReadSnapshot ps\<rparr>) of
       None \<Rightarrow> Some (Inl Fatal)
     | Some args \<Rightarrow> map_option Ret (DaemonSrv_Init args ds))"

definition checkpointPersister :: "state_codec \<Rightarrow> bool \<Rightarrow> DaemonSrv \<Rightarrow> (Persister \<times> DaemonSrv) outcome" where
  "checkpointPersister c ok ds = (if \<not> ok then Inl Fatal else
     case CheckpointPersister ds of
       Inl _ \<Rightarrow> Inl Fatal
     | Inr (reply, ds') \<Rightarrow> (case unm_state c (mar_state c reply) of
         None \<Rightarrow> Inl Fatal
       | Some r \<Rightarrow> Ret (Save (Raftstate r) (Snapshot r) MakePersister, ds')))"

definition stateSize :: "bool \<Rightarrow> DaemonSrv \<Rightarrow> (nat \<times> nat) outcome" where
  "stateSize ok ds = (if \<not> ok then Inl Fatal else case StateSize ds of Inl _ \<Rightarrow> Inl Fatal | Inr r \<Rightarrow> Ret r)"
section \<open>What a daemon is started with reaches it\<close>

lemma sign_not_nat_str: "hd (nat_str n) \<noteq> CHR ''-''" "hd (nat_str n) \<noteq> CHR ''+''"
proof -
  have "is_digit (hd (nat_str n))"
    using is_digit_nat_str [of n] hd_in_set [OF nat_str_ne_Nil, of n] by (simp add: list_all_iff)
  then show "hd (nat_str n) \<noteq> CHR ''-''" "hd (nat_str n) \<noteq> CHR ''+''" by (auto simp: is_digit_def)
qed

lemma Atoi_itoa [simp]: "Atoi (itoa i) = Some i"
  by (simp add: Atoi_def itoa_def Let_def is_digit_nat_str str_nat_nat_str sign_not_nat_str)

lemma skip_options_app:
  "\<forall>o'\<in>set opts. o' \<noteq> [] \<and> hd o' = CHR ''-'' \<Longrightarrow> w \<noteq> [] \<Longrightarrow> hd w \<noteq> CHR ''-'' \<Longrightarrow>
    skip_options (opts @ w # rest) = Ret (length opts)"
proof (induction opts)
  case Nil
  then show ?case by (cases w) auto
next
  case (Cons a opts)
  then show ?case by (cases a) auto
qed

lemma idx_app: "idx (xs @ ys) (int (length xs) + i) = idx ys i" if "0 \<le> i"
  using that by (auto simp: idx_def in_range_def nth_append nat_add_distrib)



section \<open>The life of a daemon\<close>

text \<open>
  What can happen to a daemon: the control calls, the start of its services, a call that its server
  forwards, and a write of its server to the persister it was given.
\<close>

inductive daemon_step :: "DaemonSrv \<Rightarrow> DaemonSrv \<Rightarrow> bool" where
  ev_init: "DaemonSrv_Init args ds = Some ds' \<Longrightarrow> daemon_step ds ds'"
| ev_start: "start_services ds = Some ds' \<Longrightarrow> daemon_step ds ds'"
| ev_wait: "InitWait ds = Some ds' \<Longrightarrow> daemon_step ds ds'"
| ev_checkpoint: "CheckpointPersister ds = Ret (reply, ds') \<Longrightarrow> daemon_step ds ds'"
| ev_forward: "forward_args e method b ds = (args, ds') \<Longrightarrow> daemon_step ds ds'"
| ev_save: "ds_persister ds = Some p \<Longrightarrow> daemon_step ds (ds\<lparr>ds_persister := Some (Save rs sn p)\<rparr>)"

inductive_simps daemon_step_iff: "daemon_step ds ds'"

inductive daemon_reach :: "DaemonSrv \<Rightarrow> bool" where
  reach_new: "daemon_reach newDaemonSrv"
| reach_step: "daemon_reach ds \<Longrightarrow> daemon_step ds ds' \<Longrightarrow> daemon_reach ds'"

definition daemon_inv :: "DaemonSrv \<Rightarrow> bool" where
  "daemon_inv ds \<longleftrightarrow> (ds_persister ds = None \<longleftrightarrow> ds_pc ds = AwaitInit) \<and> (ds_pc ds = AwaitInit \<longrightarrow> rpcc_open ds)"

lemma daemon_step_inv: "daemon_inv ds \<Longrightarrow> daemon_step ds ds' \<Longrightarrow> daemon_inv ds'"
  by (cases "ds_pc ds") (auto simp: daemon_step_iff daemon_inv_def DaemonSrv_Init_def start_services_def
      InitWait_def CheckpointPersister_def forward_args_def Let_def split: option.splits)

lemma daemon_reach_inv: "daemon_reach ds \<Longrightarrow> daemon_inv ds"
proof (induction rule: daemon_reach.induct)
  case reach_new
  then show ?case by (simp add: daemon_inv_def newDaemonSrv_def)
qed (rule daemon_step_inv)


text \<open>A codec for the witness: every byte of the Raft state behind a mark, then the snapshot.\<close>

fun mark_split :: "bytes \<Rightarrow> InitArgs option" where
  "mark_split (x # y # ys) = (if x = CHR ''s'' then Some \<lparr>Raftstate = [], Snapshot = y # ys\<rparr>
     else map_option (\<lambda>a. a\<lparr>Raftstate := y # Raftstate a\<rparr>) (mark_split ys))"
| "mark_split _ = Some \<lparr>Raftstate = [], Snapshot = []\<rparr>"

definition mark_codec :: state_codec where
  "mark_codec = \<lparr>mar_state = \<lambda>a. concat (map (\<lambda>b. [CHR ''r'', b]) (Raftstate a)) @ CHR ''s'' # Snapshot a, unm_state = mark_split\<rparr>"

lemma mark_split_mar: "mark_split (concat (map (\<lambda>b. [CHR ''r'', b]) rs) @ CHR ''s'' # sn) = Some \<lparr>Raftstate = rs, Snapshot = sn\<rparr>"
  by (induction rs; cases sn) auto

lemma good_mark_codec: "good_codec mark_codec"
  by (simp add: good_codec_def mark_codec_def mark_split_mar)

definition saved_daemon :: DaemonSrv where
  "saved_daemon = \<lparr>ds_pc = Starting, ds_persister = Some \<lparr>raftstate = ''ab'', snapshot = ''c''\<rparr>, ds_id = 0, rpcc_open = True, rpcs_open = False\<rparr>"

lemma saved_daemon_reach: "daemon_reach saved_daemon"
proof (rule reach_step [OF reach_new])
  show "daemon_step newDaemonSrv saved_daemon"
    by (rule ev_init [of "\<lparr>Raftstate = ''ab'', Snapshot = ''c''\<rparr>"])
      (simp add: DaemonSrv_Init_def newDaemonSrv_def saved_daemon_def Save_def MakePersister_def)
qed



end
