(* ===== verification/Spec2Isabelle.thy ===== *)
theory Spec2Isabelle
  imports Prelude FNV ShardCfg ShardTest KVSrv GoStr KVModel KVClerk KVAttempt KVHist KVLock KVNet KVTest KVPuts KVOps KVSpawn KVHarness
    Raft RaftProps RaftServer RaftProxy RaftSnap RaftTest RSM MRCoord MRRun MRWorker MRSpec MRTest
    MRFile MRJob MRJobInv MRJobRun MRJobTest MRApps
    Labrpc Labgob Services Persister Group GroupProps GroupLife ShardGroups TestCfg Annotation Transport Demux DemuxInv SockRPC Daemon
begin

text \<open>
  A verification development for the distributed-systems labs under \<open>src/src\<close>, written in Go: a
  MapReduce system, a key/value server with a retrying clerk and a lock built on it, a Raft peer, shard
  configurations, and the test harness that runs all of them over a simulated network and over sockets.

  \<^bold>\<open>How the program is put together.\<close> A test of \<open>kvtest1\<close>, \<open>raft1/test.go\<close>, \<open>kvraft1/rsm/test.go\<close> or
  \<open>shardkv1/test.go\<close> makes a configuration (\<open>tester1/config.go\<close>) with groups of servers
  (\<open>tester1/group.go\<close>), clients (\<open>tester1/clnts.go\<close>) and one simulated network (\<open>labrpc\<close>). Servers run as
  processes: the tester passes calls to them over sockets (\<open>tester1/daemonclnt.go\<close>,
  \<open>tester1/sockrpc\<close>, \<open>tester1/demux\<close>) and they pass theirs back (\<open>tester1/daemonsrv.go\<close>), so that
  the network can lose, delay and reorder them. The clerks and the Raft peers see only \<open>Call\<close>, which may
  fail. What clients do is recorded and checked against a sequential model (\<open>models1/kv.go\<close>) or by the
  tester's own checks. MapReduce is apart: a coordinator hands out tasks, workers run map and
  reduce functions and exchange files, and a sequential program computes the same output.

  \<^bold>\<open>Theories and sources.\<close>
  \<^item> \<open>Prelude\<close>: panics and fatal exits as outcomes, Go maps as association lists, slices with bounds
    checks, the grouping loop that two components share. \<open>GoStr\<close>: the string, path, number and
    base-64 functions of Go's library that the program uses, with their round trips.
  \<^item> \<open>FNV\<close>, \<open>ShardCfg\<close>, \<open>ShardTest\<close>: the key hash, \<open>shardcfg.go\<close> and the parts of \<open>shardkv1/test.go\<close> that
    work on configurations. \<open>Rebalance\<close> returns, balances and does not depend on the order of the map;
    joins and leaves are valid and visible to the tests.
  \<^item> \<open>KVSrv\<close>, \<open>KVModel\<close>, \<open>KVClerk\<close>, \<open>KVAttempt\<close>, \<open>KVHist\<close>: the server of \<open>kvsrv1/server.go\<close>, the checker's
    model, the clerk's loops, one attempt as a step, and histories of concurrent clients as
    \<open>kvtest1/porcupine.go\<close> records them. The server refines the model, each call is linearizable although
    it repeats its request, and recorded histories are linearizable. \<open>KVLock\<close>: the lock of \<open>kvsrv1/lock\<close>,
    mutual exclusion and progress over interleaved clients. \<open>KVNet\<close>: the clerk and the server over the
    simulated network. \<open>KVTest\<close>, \<open>KVPuts\<close>, \<open>KVOps\<close>, \<open>KVSpawn\<close>: the tests of \<open>kvtest1/kvtest.go\<close> pass on
    this server, also when their clients are the goroutines and channels of \<open>SpawnClientsAndWait\<close>.
    \<open>KVHarness\<close>: the test objects of \<open>kvtest1\<close>, \<open>kvsrv1/test.go\<close> and \<open>kvraft1/test.go\<close>, the partitioner,
    and \<open>checkPorcupine\<close> with the visualization it may write.
  \<^item> \<open>Raft\<close>, \<open>RaftProps\<close>: the peer of \<open>raft1/raft.go\<close>, handlers, elections, replication and the applier,
    with the invariant of a peer, the rules of its handlers, and runs that show where it is unsafe.
    \<open>RaftServer\<close>, \<open>RaftProxy\<close>, \<open>RaftSnap\<close>, \<open>RaftTest\<close>: the test server, its proxies, its snapshots and
    the tester's checks; the checks are exact and survive lost reports.
  \<^item> \<open>RSM\<close>: the counter service and the tester of \<open>kvraft1/rsm\<close>; snapshots and replays agree, and the search
    for a leader finds one.
  \<^item> \<open>MRCoord\<close>, \<open>MRRun\<close>, \<open>MRWorker\<close>, \<open>MRSpec\<close>, \<open>MRTest\<close>: coordinator, runs of coordinator and workers,
    workers and applications, the equality with the sequential program, and the tests of \<open>mr/util.go\<close>.
    \<open>MRFile\<close>, \<open>MRJob\<close>, \<open>MRJobInv\<close>, \<open>MRJobRun\<close>, \<open>MRJobTest\<close>: whole jobs, in which the coordinator and any
    number of workers take steps in any order, share the output files, crash and come late; when the
    coordinator says that a job is done the test's comparison succeeds, in runs where no task is given up and a
    worker opens its output file before the task is taken from it, and a job can be completed. \<open>MRApps\<close>: the applications that crash,
    count and measure, the loading of plugins and the processes that a test starts.
  \<^item> \<open>Labrpc\<close>, \<open>Labgob\<close>: the simulated network, at most one execution of a call, and the checks of the
    encoding wrapper. \<open>Persister\<close>, \<open>Group\<close>, \<open>GroupProps\<close>, \<open>TestCfg\<close>, \<open>Annotation\<close>: the tester's stable
    storage, groups, clients, partitions, statistics and fault annotations.
  \<^item> \<open>Transport\<close>, \<open>Demux\<close>, \<open>DemuxInv\<close>, \<open>SockRPC\<close>, \<open>Daemon\<close>: framing, multiplexed calls with all their
    goroutines as interleaved steps, calls over sockets, and the life of a server process.

  \<^bold>\<open>How state and effects are modelled.\<close> A struct is a record and a handler that holds its mutex is one
  function of the state; code that gives up its mutex in between is split into the steps between.
  Concurrency is a list of events or an inductive step relation, and a theorem about it holds for every
  interleaving. A loop whose end depends on the network takes the network's behaviour as a list; the list
  that ends early is a call that has not returned, \<^const>\<open>None\<close>, and theorems say when calls do return.
  A panic and a call of \<open>log.Fatalf\<close> are values. Slices are values: where aliasing could be seen the code
  clones them.

  \<^bold>\<open>Interfaces.\<close> \<open>versioned_store\<close> is what a client may rely on from a store with versions, interpreted
  on the server's handlers; \<open>key_sorter\<close> and \<open>reduce_function\<close> are what the MapReduce job relies on from
  \<open>sort.Sort\<close> and from an application, interpreted on the library's sort and the applications' reduce functions;
  \<open>line_sort\<close> is the \<open>sort\<close> program; \<open>voting\<close> is a majority vote, interpreted on the peer's count;
  \<open>state_machine\<close> is the interface of the replicated service and \<open>counter_codec\<close> the encoding of its
  counter, which makes the counter service one. \<open>client_function\<close> is what \<open>SpawnClientsAndWait\<close> relies on from
  the function of a client; the append client has it by a sublocale of \<open>append_json\<close>, the round trip of JSON on its
  entries, which is interpreted on a concrete encoding.

  \<^bold>\<open>Bounds.\<close> Versions are 64-bit words and wrap: theorems on retried puts assume fewer than \<open>2 ^ 64 - 1\<close>
  puts or steps. Call lengths and tags are 32-bit words; the network's and the tester's counters are signed 32-bit
  words. Other Go \<open>int\<close>s count things that fit in memory and are integers.

  \<^bold>\<open>Arguments.\<close> Encoders (gob, JSON), random numbers, clocks, the programs \<open>find\<close> and \<open>sort\<close>, plugins,
  the linearizability checker and whether a socket answers are arguments of the definitions, with what the
  program relies on as hypotheses; each such hypothesis is met by a concrete function in a witness.

  \<^bold>\<open>Not modelled.\<close> Processes and sockets themselves: the processes of a MapReduce test and the files of a
  visualization are lists of actions, and listening sockets, printing and logging, memory statistics and waiting times
  are left out. The controller, clerks and servers of the sharded store, the replicated key/value server and \<open>Submit\<close>'s waiting have no code in the repository yet,
  nor has the persistence of the Raft peer. The programs of older labs under \<open>main\<close> import packages that
  are not there.
\<close>

end
